(* ===== verification/Prelude.thy ===== *)
theory Prelude
  imports Main "HOL-Library.Word"
begin

text \<open>
  Shared vocabulary of the development: the fixed-width integer types of
  \<^verbatim>\<open>shared/types/types.h\<close>, the theorem collections used by the component theories, and
  generic lemmas on machine words (masks, alignment, conversions to natural numbers), lists and
  options. Nothing in this theory is specific to one component.
\<close>

unbundle bit_operations_syntax

section \<open>Machine integers\<close>

text \<open>
  \<^verbatim>\<open>U8\<close>, \<^verbatim>\<open>U16\<close>, \<^verbatim>\<open>U32\<close> and \<^verbatim>\<open>U64\<close> are words of the corresponding width; addition,
  subtraction and multiplication wrap, as they do on the unsigned C types. \<^verbatim>\<open>USize\<close> and
  pointers are 64 bits wide on the only supported target (x86-64).
\<close>

type_synonym u8 = "8 word"
type_synonym u16 = "16 word"
type_synonym u32 = "32 word"
type_synonym u64 = "64 word"
type_synonym addr = u64
type_synonym bytes = "u8 list"

abbreviation U64_MAX :: u64 where "U64_MAX \<equiv> - 1"
abbreviation U32_MAX :: u32 where "U32_MAX \<equiv> - 1"
abbreviation U16_MAX :: u16 where "U16_MAX \<equiv> - 1"

text \<open>
  Collections: \<open>unat_simps\<close> moves word arithmetic to the natural numbers, \<open>layout_defs\<close> unfolds
  the constants that fix a binary layout.
\<close>

named_theorems unat_simps
named_theorems layout_defs

section \<open>Words and natural numbers\<close>

lemma unat_lt_2p: "unat (x :: 'a :: len word) < 2 ^ LENGTH('a)"
  by simp

lemma unat_lt_u64: "unat (x :: u64) < 18446744073709551616"
  using unat_lt_2p [of x] by simp

lemma unat_lt_u32: "unat (x :: u32) < 4294967296"
  using unat_lt_2p [of x] by simp

lemma unat_lt_u16: "unat (x :: u16) < 65536"
  using unat_lt_2p [of x] by simp

lemma unat_lt_u8: "unat (x :: u8) < 256"
  using unat_lt_2p [of x] by simp

lemma unat_add_nowrap [unat_simps]:
  "unat x + unat y < 2 ^ LENGTH('a) \<Longrightarrow> unat (x + y) = unat x + unat (y :: 'a :: len word)"
  by (simp add: unat_add_lem)

lemma unat_mult_nowrap [unat_simps]:
  "unat x * unat y < 2 ^ LENGTH('a) \<Longrightarrow> unat (x * y) = unat x * unat (y :: 'a :: len word)"
  by (simp add: unat_mult_lem)

lemma unat_sub_nowrap [unat_simps]:
  "unat y \<le> unat x \<Longrightarrow> unat (x - y) = unat x - unat (y :: 'a :: len word)"
  by (simp add: unat_sub word_le_nat_alt)

lemma unat_of_nat_lt [unat_simps]:
  "n < 2 ^ LENGTH('a) \<Longrightarrow> unat (of_nat n :: 'a :: len word) = n"
  by (simp add: unat_of_nat take_bit_nat_eq_self_iff)

lemma unat_power_of_two [simp]:
  "n < LENGTH('a) \<Longrightarrow> unat (2 ^ n :: 'a :: len word) = 2 ^ n"
  by (metis of_nat_numeral of_nat_power power_strict_increasing_iff one_less_numeral_iff
      semiring_norm(76) unat_of_nat_lt)

lemma unat_drop_bit [unat_simps]: "unat (drop_bit n (x :: 'a :: len word)) = unat x div 2 ^ n"
proof -
  have "unat (drop_bit n x) = drop_bit n (unat x)"
    by (rule unat_drop_bit_eq)
  then show ?thesis
    by (simp add: drop_bit_eq_div)
qed

lemma unat_drop_bit_less: "x \<noteq> 0 \<Longrightarrow> 0 < n \<Longrightarrow> unat (drop_bit n (x :: 'a :: len word)) < unat x"
  using one_less_power [of "2 :: nat" n]
  by (simp only: unat_drop_bit) (rule div_less_dividend, simp_all add: unat_gt_0)

lemma unat_U64_MAX [simp]: "unat U64_MAX = 18446744073709551615"
  by (simp add: unsigned_minus_1_eq_mask mask_eq_exp_minus_1)

lemma bit_unat_iff_odd: "bit (w :: 'a :: len word) j \<longleftrightarrow> odd (unat w div 2 ^ j)"
proof -
  have "bit w j \<longleftrightarrow> bit (unat w) j" by (simp add: bit_unsigned_iff)
  then show ?thesis by (simp only: bit_iff_odd)
qed

lemma word_eq_unatI: "unat x = unat y \<Longrightarrow> x = (y :: 'a :: len word)"
  by (simp add: word_unat_eq_iff)

lemma two_power_neq_zero: "n < LENGTH('a) \<Longrightarrow> (2 ^ n :: 'a :: len word) \<noteq> 0"
  by (metis unat_power_of_two unat_0 power_not_zero zero_neq_numeral)

lemma unat_ucast_up: "unat (ucast (w :: 'a :: len word) :: 'b :: len word) = unat w" if "LENGTH('a) \<le> LENGTH('b)"
  using that by (simp add: unsigned_ucast_eq take_bit_nat_eq_self_iff order_less_le_trans [OF unsigned_less])

lemma unat_ucast_mod: "unat (ucast (w :: 'a :: len word) :: 'b :: len word) = unat w mod 2 ^ LENGTH('b)"
  by (simp add: unsigned_ucast_eq unsigned_take_bit_eq take_bit_eq_mod)

section \<open>Masks\<close>

lemma two_power_minus_one_mask: "(2 :: 'a :: len word) ^ n - 1 = mask n"
  by (simp add: mask_eq_decr_exp)

lemma unat_and_mask: "unat (x AND mask n) = unat (x :: 'a :: len word) mod 2 ^ n"
proof -
  have "unat (x AND mask n) = take_bit n (unat x)"
    by (simp only: take_bit_eq_mask [symmetric] unsigned_take_bit_eq)
  then show ?thesis
    by (simp add: take_bit_eq_mod)
qed

lemma and_not_mask_eq_diff: "x AND NOT (mask n) = x - (x AND mask n :: 'a :: len word)"
proof -
  have "(x AND mask n) + (x AND NOT (mask n)) = x"
    using word_plus_and_or [of "x AND mask n" "x AND NOT (mask n)", symmetric]
    by (simp add: bit.conj_disj_distrib [symmetric] and.left_commute and.assoc)
  then show ?thesis
    by (simp add: algebra_simps eq_diff_eq)
qed

lemma unat_and_not_mask: "unat (x AND NOT (mask n)) = unat (x :: 'a :: len word) div 2 ^ n * 2 ^ n"
proof -
  have "unat (x AND mask n) \<le> unat x"
    by (simp add: unat_and_mask)
  then have "unat (x AND NOT (mask n)) = unat x - unat x mod 2 ^ n"
    by (simp add: and_not_mask_eq_diff unat_sub_nowrap unat_and_mask)
  then show ?thesis
    by (simp add: minus_mod_eq_div_mult)
qed

end
