(* ===== verification/Manipulation.thy ===== *)
theory Manipulation
  imports Prelude
begin

text \<open>
  \<^verbatim>\<open>projects/freestanding/code/memory/manipulation/src/manipulation.c\<close>: the freestanding
  \<^verbatim>\<open>memcpy\<close>, \<^verbatim>\<open>memmove\<close>, \<^verbatim>\<open>memset\<close> and \<^verbatim>\<open>memcmp\<close>. Memory is a byte array indexed by
  64-bit addresses; a wide or vector access is one load of the old bytes followed by one store,
  as the machine performs it. A pointer that would be advanced past the end of the address space
  is undefined behaviour in C: the loops return \<open>None\<close> there. The interface
  \<open>memory_ops\<close> states what the rest of the program expects from \<^verbatim>\<open>abstraction/memory/manipulation.h\<close>;
  it is interpreted on the functions of this file.
\<close>

section \<open>Memory, loads and stores\<close>

type_synonym memory = "addr \<Rightarrow> u8"

definition load_bytes :: "memory \<Rightarrow> addr \<Rightarrow> nat \<Rightarrow> bytes" where
  "load_bytes m a k = map (\<lambda>i. m (a + of_nat i)) [0..<k]"

definition store_bytes :: "memory \<Rightarrow> addr \<Rightarrow> bytes \<Rightarrow> memory" where
  "store_bytes m a bs = (\<lambda>x. if unat (x - a) < length bs then bs ! unat (x - a) else m x)"

text \<open>\<^verbatim>\<open>*((T *)d) = *((T *)s)\<close> for a type of \<open>k\<close> bytes.\<close>

definition move :: "memory \<Rightarrow> addr \<Rightarrow> addr \<Rightarrow> nat \<Rightarrow> memory" where
  "move m d s k = store_bytes m d (load_bytes m s k)"

section \<open>memcpy\<close>

text \<open>The \<^verbatim>\<open>do ... while (d < last_word_d)\<close> loop over 32-byte chunks.\<close>

function memcpy_chunks :: "memory \<Rightarrow> addr \<Rightarrow> addr \<Rightarrow> addr \<Rightarrow> memory option" where
  "memcpy_chunks m d s last_word_d =
     (if 2 ^ 64 \<le> unat d + 32 then None
      else let m' = move m d s 32; d' = d + 32; s' = s + 32 in
        if d' < last_word_d then memcpy_chunks m' d' s' last_word_d else Some m')"
  by pat_completeness auto

termination
  by (relation "measure (\<lambda>(m, d, s, l). 2 ^ 64 - unat d)") (auto simp: unat_add_nowrap)

definition memcpy :: "memory \<Rightarrow> addr \<Rightarrow> addr \<Rightarrow> u64 \<Rightarrow> memory option" where
  "memcpy m d s n =
     (if n < 5 then
        (if n = 0 then Some m
         else let m1 = m(d := m s);
                  m2 = m1(d + (n - 1) := m1 (s + (n - 1))) in
           if n \<le> 2 then Some m2
           else let m3 = m2(d + 1 := m2 (s + 1)) in Some (m3(d + 2 := m3 (s + 2))))
      else if n \<le> 16 then
        (if n \<ge> 8 then Some (move (move m d s 8) (d + n - 8) (s + n - 8) 8)
         else Some (move (move m d s 4) (d + n - 4) (s + n - 4) 4))
      else if n \<le> 32 then Some (move (move m d s 16) (d + n - 16) (s + n - 16) 16)
      else map_option (\<lambda>m'. move m' (d + n - 32) (s + n - 32) 32)
             (memcpy_chunks m d s (d + n - 32)))"

section \<open>memmove\<close>

text \<open>Byte-by-byte copy upwards until the destination is word aligned; \<open>Inl\<close> is the early return.\<close>

function memmove_align_up :: "memory \<Rightarrow> addr \<Rightarrow> addr \<Rightarrow> u64 \<Rightarrow> memory + (memory \<times> addr \<times> addr \<times> u64)" where
  "memmove_align_up m d s n =
     (if d mod 8 = 0 then Inr (m, d, s, n)
      else if n = 0 then Inl m
      else memmove_align_up (m(d := m s)) (d + 1) (s + 1) (n - 1))"
  by pat_completeness auto

termination
  by (relation "measure (\<lambda>(m, d, s, n). unat n)") (auto simp: unat_minus_one unat_gt_0)

function memmove_words_up :: "memory \<Rightarrow> addr \<Rightarrow> addr \<Rightarrow> u64 \<Rightarrow> memory \<times> addr \<times> addr \<times> u64" where
  "memmove_words_up m d s n =
     (if n \<ge> 8 then memmove_words_up (move m d s 8) (d + 8) (s + 8) (n - 8) else (m, d, s, n))"
  by pat_completeness auto

termination
  by (relation "measure (\<lambda>(m, d, s, n). unat n)") (auto simp: word_le_nat_alt unat_sub_nowrap)

function memmove_bytes_up :: "memory \<Rightarrow> addr \<Rightarrow> addr \<Rightarrow> u64 \<Rightarrow> memory" where
  "memmove_bytes_up m d s n =
     (if n = 0 then m else memmove_bytes_up (m(d := m s)) (d + 1) (s + 1) (n - 1))"
  by pat_completeness auto

termination
  by (relation "measure (\<lambda>(m, d, s, n). unat n)") (auto simp: unat_minus_one unat_gt_0)

text \<open>The downward loops index from the start of the buffers.\<close>

function memmove_align_down :: "memory \<Rightarrow> addr \<Rightarrow> addr \<Rightarrow> u64 \<Rightarrow> memory + (memory \<times> u64)" where
  "memmove_align_down m d s n =
     (if (d + n) mod 8 = 0 then Inr (m, n)
      else if n = 0 then Inl m
      else memmove_align_down (m(d + (n - 1) := m (s + (n - 1)))) d s (n - 1))"
  by pat_completeness auto

termination
  by (relation "measure (\<lambda>(m, d, s, n). unat n)") (auto simp: unat_minus_one unat_gt_0)

function memmove_words_down :: "memory \<Rightarrow> addr \<Rightarrow> addr \<Rightarrow> u64 \<Rightarrow> memory \<times> u64" where
  "memmove_words_down m d s n =
     (if n \<ge> 8 then memmove_words_down (move m (d + (n - 8)) (s + (n - 8)) 8) d s (n - 8) else (m, n))"
  by pat_completeness auto

termination
  by (relation "measure (\<lambda>(m, d, s, n). unat n)") (auto simp: word_le_nat_alt unat_sub_nowrap)

function memmove_bytes_down :: "memory \<Rightarrow> addr \<Rightarrow> addr \<Rightarrow> u64 \<Rightarrow> memory" where
  "memmove_bytes_down m d s n =
     (if n = 0 then m
      else memmove_bytes_down (m(d + (n - 1) := m (s + (n - 1)))) d s (n - 1))"
  by pat_completeness auto

termination
  by (relation "measure (\<lambda>(m, d, s, n). unat n)") (auto simp: unat_minus_one unat_gt_0)

definition memmove :: "memory \<Rightarrow> addr \<Rightarrow> addr \<Rightarrow> u64 \<Rightarrow> memory option" where
  "memmove m d s n =
     (if d = s then Some m
      else if s - d - n \<le> - 2 * n then memcpy m d s n
      else if d < s then
        (if s mod 8 = d mod 8 then
           (case memmove_align_up m d s n of
              Inl m' \<Rightarrow> Some m'
            | Inr (m', d', s', n') \<Rightarrow>
                (case memmove_words_up m' d' s' n' of
                   (m'', d'', s'', n'') \<Rightarrow> Some (memmove_bytes_up m'' d'' s'' n'')))
         else Some (memmove_bytes_up m d s n))
      else
        (if s mod 8 = d mod 8 then
           (case memmove_align_down m d s n of
              Inl m' \<Rightarrow> Some m'
            | Inr (m', n') \<Rightarrow>
                (case memmove_words_down m' d s n' of
                   (m'', n'') \<Rightarrow> Some (memmove_bytes_down m'' d s n'')))
         else Some (memmove_bytes_down m d s n)))"

section \<open>memset\<close>

text \<open>The bytes of an integer in the little-endian order of the target.\<close>

definition le_bytes :: "nat \<Rightarrow> 'a :: len word \<Rightarrow> bytes" where
  "le_bytes k w = map (\<lambda>i. ucast (drop_bit (8 * i) w)) [0..<k]"

text \<open>The \<^verbatim>\<open>int c\<close> argument is given by its bit pattern; \<^verbatim>\<open>(I8)c\<close> and \<^verbatim>\<open>(U8)c\<close> are its low byte.\<close>

definition small_memset :: "memory \<Rightarrow> addr \<Rightarrow> u32 \<Rightarrow> u64 \<Rightarrow> memory" where
  "small_memset m s c n =
     (let X = (ucast c :: u8) in
      if n < 5 then
        (if n = 0 then m
         else let m2 = (m(s := X))(s + (n - 1) := X) in
           if n \<le> 2 then m2 else (m2(s + 1 := X))(s + 2 := X))
      else if n \<le> 16 then
        (let val8 = 0x0101010101010101 * (ucast X :: u64) in
         if n \<ge> 8 then store_bytes (store_bytes m s (le_bytes 8 val8)) (s + n - 8) (le_bytes 8 val8)
         else let val4 = (ucast val8 :: u32) in
           store_bytes (store_bytes m s (le_bytes 4 val4)) (s + n - 4) (le_bytes 4 val4))
      else store_bytes (store_bytes m (s + n - 16) (replicate 16 X)) s (replicate 16 X))"

function huge_memset_loop :: "memory \<Rightarrow> addr \<Rightarrow> addr \<Rightarrow> bytes \<Rightarrow> (memory \<times> addr) option" where
  "huge_memset_loop m p buffer_end val32 =
     (if 2 ^ 64 \<le> unat p + 32 * 5 then None
      else if p + 32 * 5 < buffer_end then
        (let m = store_bytes m p val32; p = p + 32;
             m = store_bytes m p val32; p = p + 32;
             m = store_bytes m p val32; p = p + 32;
             m = store_bytes m p val32; p = p + 32;
             m = store_bytes m p val32; p = p + 32
         in huge_memset_loop m p buffer_end val32)
      else Some (m, p))"
  by pat_completeness auto

termination
  by (relation "measure (\<lambda>(m, p, e, v). 2 ^ 64 - unat p)") (auto simp: unat_add_nowrap add.assoc)

definition try_stamp_32_bytes :: "addr \<Rightarrow> bytes \<Rightarrow> memory \<times> addr \<Rightarrow> memory \<times> addr" where
  "try_stamp_32_bytes last_word val32 = (\<lambda>(m, p).
     if p < last_word then (store_bytes m p val32, p + 32) else (m, p))"

definition huge_memset :: "memory \<Rightarrow> addr \<Rightarrow> u32 \<Rightarrow> u64 \<Rightarrow> memory option" where
  "huge_memset m s c n =
     (let val32 = replicate 32 (ucast c :: u8);
          m1 = store_bytes m s val32;
          first_aligned = s + 32 - s mod 32;
          buffer_end = s + n;
          last_word = buffer_end - 32;
          stamp = try_stamp_32_bytes last_word val32
      in case huge_memset_loop m1 first_aligned buffer_end val32 of
           None \<Rightarrow> None
         | Some mp \<Rightarrow> Some (store_bytes (fst (stamp (stamp (stamp (stamp mp))))) last_word val32))"

function memset_chunks :: "memory \<Rightarrow> addr \<Rightarrow> addr \<Rightarrow> bytes \<Rightarrow> memory option" where
  "memset_chunks m p last_word val32 =
     (if 2 ^ 64 \<le> unat p + 32 then None
      else let m' = store_bytes m p val32; p' = p + 32 in
        if p' < last_word then memset_chunks m' p' last_word val32 else Some m')"
  by pat_completeness auto

termination
  by (relation "measure (\<lambda>(m, p, l, v). 2 ^ 64 - unat p)") (auto simp: unat_add_nowrap)

definition memset :: "memory \<Rightarrow> addr \<Rightarrow> u32 \<Rightarrow> u64 \<Rightarrow> memory option" where
  "memset m s c n =
     (if n < 32 then Some (small_memset m s c n)
      else if n > 160 then huge_memset m s c n
      else let val32 = replicate 32 (ucast c :: u8); last_word = s + n - 32 in
        map_option (\<lambda>m'. store_bytes m' last_word val32) (memset_chunks m s last_word val32))"

section \<open>memcmp\<close>

function memcmp_loop :: "memory \<Rightarrow> addr \<Rightarrow> addr \<Rightarrow> u64 \<Rightarrow> u64 \<Rightarrow> int" where
  "memcmp_loop m s1 s2 i n =
     (if i < n \<and> m s1 = m s2 then memcmp_loop m (s1 + 1) (s2 + 1) (i + 1) n
      else if i = n then 0 else int (unat (m s1)) - int (unat (m s2)))"
  by pat_completeness auto

termination
proof (relation "measure (\<lambda>(m, s1, s2, i, n). unat n - unat i)", goal_cases)
  case (2 m s1 s2 i n)
  then have "unat i < unat n" by (simp add: word_less_nat_alt)
  moreover from this have "unat (i + 1) = unat i + 1"
    using unat_lt_u64 [of n] by (simp add: unat_add_nowrap)
  ultimately show ?case by simp
qed simp

definition memcmp :: "memory \<Rightarrow> addr \<Rightarrow> addr \<Rightarrow> u64 \<Rightarrow> int" where
  "memcmp m s1 s2 n = (if s1 = s2 then 0 else memcmp_loop m s1 s2 0 n)"

lemmas loop_simps_del =
  memcpy_chunks.simps memmove_align_up.simps memmove_words_up.simps memmove_bytes_up.simps
  memmove_align_down.simps memmove_words_down.simps memmove_bytes_down.simps
  huge_memset_loop.simps memset_chunks.simps memcmp_loop.simps

declare loop_simps_del [simp del]

section \<open>Copied and filled ranges\<close>


definition copied :: "memory \<Rightarrow> addr \<Rightarrow> addr \<Rightarrow> nat \<Rightarrow> memory" where
  "copied m d s n = (\<lambda>x. if unat (x - d) < n then m (s + (x - d)) else m x)"

definition filled :: "memory \<Rightarrow> addr \<Rightarrow> u8 \<Rightarrow> nat \<Rightarrow> memory" where
  "filled m d b n = (\<lambda>x. if unat (x - d) < n then b else m x)"

lemma move_eq_copied: "move m d s k = copied m d s k"
  by (rule ext) (simp add: move_def store_bytes_def load_bytes_def copied_def)

lemma update_eq_copied: "m(d := m s) = copied m d s 1"
  by (rule ext) (auto simp: copied_def unat_0_iff)

lemma store_replicate_eq_filled: "store_bytes m d (replicate k b) = filled m d b k"
  by (rule ext) (simp add: store_bytes_def filled_def)

lemma update_eq_filled: "m(d := b) = filled m d b 1"
  by (rule ext) (auto simp: filled_def unat_0_iff)

lemma copied_0 [simp]: "copied m d s 0 = m"
  by (simp add: copied_def)

lemma copied_self [simp]: "copied m d d n = m"
  by (rule ext) (simp add: copied_def)

lemma filled_0 [simp]: "filled m d b 0 = m"
  by (simp add: filled_def)

lemma unat_diff_of_nat:
  assumes "k < 2 ^ 64"
  shows "unat (w - of_nat k :: u64) = (if k \<le> unat w then unat w - k else 2 ^ 64 + unat w - k)"
  using assms by (cases "k \<le> unat w") (auto simp: unat_sub_if_size word_size unat_of_nat_lt)

lemma diff_add_offset: "x - (d + o') = (x - d) - (o' :: u64)"
  by simp

text \<open>Extending a copied prefix: the second copy must not read what the first one wrote.\<close>

lemma copied_append:
  assumes "off \<le> a" "a \<le> n" "n < 2 ^ 64"
    and "\<And>i. off \<le> i \<Longrightarrow> i < n \<Longrightarrow> a \<le> unat (s + of_nat i - d)"
  shows "copied (copied m d s a) (d + of_nat off) (s + of_nat off) (n - off) = copied m d s n"
proof (rule ext)
  fix x
  let ?i = "unat (x - d)"
  have "a \<le> unat (s + (x - d) - d)" if "off \<le> ?i" "?i < n"
    using assms(4) [OF that] by simp
  moreover have "unat (x - (d + of_nat off)) = (if off \<le> ?i then ?i - off else 2 ^ 64 + ?i - off)"
    using assms by (simp only: diff_add_offset) (simp add: unat_diff_of_nat)
  moreover have "s + of_nat off + (x - (d + of_nat off)) = s + (x - d)" by simp
  ultimately show "copied (copied m d s a) (d + of_nat off) (s + of_nat off) (n - off) x = copied m d s n x"
    using assms(1-3) by (auto simp: copied_def)
qed

text \<open>Extending a copied suffix downwards.\<close>

lemma copied_prepend:
  assumes "a + b < 2 ^ 64"
    and "\<And>i. i < a \<Longrightarrow> b \<le> unat (s + of_nat i - (d + of_nat a))"
  shows "copied (copied m (d + of_nat a) (s + of_nat a) b) d s a = copied m d s (a + b)"
proof (rule ext)
  fix x
  let ?i = "unat (x - d)"
  have "b \<le> unat (s + (x - d) - (d + of_nat a))" if "?i < a"
    using assms(2) [OF that] by simp
  moreover have "unat (x - (d + of_nat a)) = (if a \<le> ?i then ?i - a else 2 ^ 64 + ?i - a)"
    using assms by (simp only: diff_add_offset) (simp add: unat_diff_of_nat)
  moreover have "s + of_nat a + (x - (d + of_nat a)) = s + (x - d)" by simp
  ultimately show "copied (copied m (d + of_nat a) (s + of_nat a) b) d s a x = copied m d s (a + b) x"
    using assms(1) by (auto simp: copied_def)
qed

lemma filled_append:
  assumes "off \<le> a" "a \<le> n" "n < 2 ^ 64"
  shows "filled (filled m d b a) (d + of_nat off) b (n - off) = filled m d b n"
proof (rule ext)
  fix x
  let ?i = "unat (x - d)"
  have "unat (x - (d + of_nat off)) = (if off \<le> ?i then ?i - off else 2 ^ 64 + ?i - off)"
    using assms by (simp only: diff_add_offset) (simp add: unat_diff_of_nat)
  then show "filled (filled m d b a) (d + of_nat off) b (n - off) x = filled m d b n x"
    using assms(1-3) by (auto simp: filled_def)
qed

text \<open>Two ranges of \<open>n\<close> bytes share no byte.\<close>

definition disjoint_ranges :: "addr \<Rightarrow> addr \<Rightarrow> nat \<Rightarrow> bool" where
  "disjoint_ranges d s n \<longleftrightarrow> n \<le> unat (s - d) \<and> n \<le> unat (d - s)"

lemma disjoint_ranges_read:
  assumes "disjoint_ranges d s n" "i < n"
  shows "n \<le> unat (s + of_nat i - d)"
proof -
  let ?k = "s - d"
  have "unat (d - s) = 2 ^ 64 - unat ?k"
    using assms unat_lt_u64 [of ?k] by (auto simp: disjoint_ranges_def unat_sub_if_size word_size split: if_splits)
  then have "unat ?k + i < 2 ^ 64"
    using assms unat_lt_u64 [of ?k] by (auto simp: disjoint_ranges_def)
  moreover have "i < 2 ^ 64" using calculation by simp
  ultimately have "unat (?k + of_nat i) = unat ?k + i"
    by (simp add: unat_add_nowrap unat_of_nat_lt)
  moreover have "s + of_nat i - d = ?k + of_nat i" by simp
  ultimately have "unat (s + of_nat i - d) = unat ?k + i" by metis
  then show ?thesis
    using assms(1) by (simp add: disjoint_ranges_def)
qed

lemma copied_append_disjoint:
  assumes "disjoint_ranges d s n" "off \<le> a" "a \<le> n" "n < 2 ^ 64"
  shows "copied (copied m d s a) (d + of_nat off) (s + of_nat off) (n - off) = copied m d s n"
  using assms by (intro copied_append) (auto dest!: disjoint_ranges_read)

lemma unat_offset: "unat d + k < 2 ^ 64 \<Longrightarrow> unat (d + of_nat k :: u64) = unat d + k"
  by (simp add: unat_add_nowrap unat_of_nat_lt)

lemma offset_less_iff:
  "unat d + j < 2 ^ 64 \<Longrightarrow> unat d + k < 2 ^ 64 \<Longrightarrow>
   (d + of_nat j < d + (of_nat k :: u64)) \<longleftrightarrow> j < k"
  by (simp add: word_less_nat_alt unat_offset)

lemma offset_32: "d + of_nat k + 32 = d + (of_nat (k + 32) :: u64)"
  by simp

lemma memcpy_chunks_eq:
  assumes "disjoint_ranges d s n" "unat d + n \<le> 2 ^ 64" "n < 2 ^ 64" "k + 32 < n"
  shows "\<exists>j. memcpy_chunks (copied m d s k) (d + of_nat k) (s + of_nat k) (d + of_nat (n - 32)) =
               Some (copied m d s j) \<and> n - 32 \<le> j \<and> j \<le> n"
  using assms(4)
proof (induction "n - k" arbitrary: k rule: less_induct)
  case less
  have b: "unat d + (k + 32) < 2 ^ 64" "unat d + (n - 32) < 2 ^ 64"
    using assms less.prems by auto
  have dis: "disjoint_ranges d s (k + 32)"
    using assms(1) less.prems by (simp add: disjoint_ranges_def)
  have step: "move (copied m d s k) (d + of_nat k) (s + of_nat k) 32 = copied m d s (k + 32)"
    using copied_append_disjoint [OF dis, of k k m] assms(3) less.prems by (simp add: move_eq_copied)
  have "\<not> 2 ^ 64 \<le> unat (d + of_nat k) + 32"
    using b by (simp add: unat_offset)
  then have "memcpy_chunks (copied m d s k) (d + of_nat k) (s + of_nat k) (d + of_nat (n - 32)) =
    (if k + 32 < n - 32
     then memcpy_chunks (copied m d s (k + 32)) (d + of_nat (k + 32)) (s + of_nat (k + 32)) (d + of_nat (n - 32))
     else Some (copied m d s (k + 32)))"
    by (subst memcpy_chunks.simps) (simp only: step offset_32 offset_less_iff [OF b] Let_def if_False)
  then show ?case
    using less.hyps [of "k + 32"] less.prems by auto
qed

lemma offset_end:
  "k \<le> unat n \<Longrightarrow> d + n - of_nat k = d + (of_nat (unat n - k) :: u64)"
  by (simp add: of_nat_diff)

lemma two_moves:
  assumes "disjoint_ranges d s (unat n)" "k \<le> unat n" "unat n \<le> 2 * k"
  shows "move (move m d s k) (d + n - of_nat k) (s + n - of_nat k) k = copied m d s (unat n)"
  using copied_append_disjoint [OF assms(1), of "unat n - k" k m] assms(2,3) unat_lt_u64 [of n]
  by (simp only: move_eq_copied offset_end) simp

lemma disjoint_ranges_neq:
  assumes "disjoint_ranges d s n" "unat i < n" "unat j < n"
  shows "s + i \<noteq> d + j"
proof
  assume "s + i = d + j"
  then have "s + i - d = j" by simp
  moreover have "n \<le> unat (s + i - d)"
    using disjoint_ranges_read [OF assms(1,2)] by simp
  ultimately show False using assms(3) by simp
qed

lemma word_less_cases:
  "unat (w :: u64) < 1 \<longleftrightarrow> w = 0"
  "unat w < 2 \<longleftrightarrow> w = 0 \<or> w = 1"
  "unat w < 3 \<longleftrightarrow> w = 0 \<or> w = 1 \<or> w = 2"
  "unat w < 4 \<longleftrightarrow> w = 0 \<or> w = 1 \<or> w = 2 \<or> w = 3"
  by (auto simp: word_unat_eq_iff)

lemma diff_eq_offset_iff: "(x - d = (c :: u64)) \<longleftrightarrow> x = d + c"
  by (auto simp: algebra_simps)

lemma copied_unfold:
  "copied m d s 1 = m(d := m s)"
  "copied m d s 2 = m(d := m s, d + 1 := m (s + 1))"
  "copied m d s 3 = m(d := m s, d + 1 := m (s + 1), d + 2 := m (s + 2))"
  "copied m d s 4 = m(d := m s, d + 1 := m (s + 1), d + 2 := m (s + 2), d + 3 := m (s + 3))"
  by (rule ext, simp only: copied_def word_less_cases diff_eq_offset_iff, auto)+

lemma memcpy_unfold:
  "memcpy m d s 0 = Some m"
  "memcpy m d s 1 = Some (m(d := m s))"
  "memcpy m d s 2 = Some (let m1 = m(d := m s) in m1(d + 1 := m1 (s + 1)))"
  "memcpy m d s 3 = Some (let m1 = m(d := m s); m2 = m1(d + 2 := m1 (s + 2));
     m3 = m2(d + 1 := m2 (s + 1)) in m3(d + 2 := m3 (s + 2)))"
  "memcpy m d s 4 = Some (let m1 = m(d := m s); m2 = m1(d + 3 := m1 (s + 3));
     m3 = m2(d + 1 := m2 (s + 1)) in m3(d + 2 := m3 (s + 2)))"
  by (simp_all add: memcpy_def Let_def)

lemma memcpy_small:
  assumes "disjoint_ranges d s (unat n)" "n < 5"
  shows "memcpy m d s n = Some (copied m d s (unat n))"
proof -
  have neq: "s + i \<noteq> d + j" if "unat i < unat n" "unat j < unat n" for i j
    using disjoint_ranges_neq [OF assms(1)] that by blast
  have "unat n < 5" using assms(2) by (simp add: word_less_nat_alt)
  then have "unat n \<in> {0, 1, 2, 3, 4}" by auto
  then have "n = 0 \<or> n = 1 \<or> n = 2 \<or> n = 3 \<or> n = 4"
    by (auto simp: word_unat_eq_iff)
  then consider "n = 0" | "n = 1" | "n = 2" | "n = 3" | "n = 4" by blast
  then show ?thesis
  proof cases
    case 3
    then have "s + 1 \<noteq> d" using neq [of 1 0] by simp
    then show ?thesis using 3
      by (simp add: memcpy_unfold copied_unfold Let_def)
  next
    case 4
    then have "s + 1 \<noteq> d" "s + 2 \<noteq> d" "s + 1 \<noteq> d + 2" "s + 2 \<noteq> d + 1"
      using neq [of 1 0] neq [of 2 0] neq [of 1 2] neq [of 2 1] by simp_all
    then show ?thesis using 4
      by (simp add: memcpy_unfold copied_unfold Let_def fun_eq_iff)
  next
    case 5
    then have "s + 1 \<noteq> d" "s + 2 \<noteq> d" "s + 3 \<noteq> d" "s + 1 \<noteq> d + 3" "s + 2 \<noteq> d + 3" "s + 2 \<noteq> d + 1"
      using neq [of 1 0] neq [of 2 0] neq [of 3 0] neq [of 1 3] neq [of 2 3] neq [of 2 1] by simp_all
    then show ?thesis using 5
      by (simp add: memcpy_unfold copied_unfold Let_def fun_eq_iff)
  qed (simp_all add: memcpy_unfold copied_unfold [simplified])
qed

lemma memcpy_eq_copied:
  assumes "disjoint_ranges d s (unat n)" "unat d + unat n \<le> 2 ^ 64"
  shows "memcpy m d s n = Some (copied m d s (unat n))"
proof -
  note u = unat_lt_u64 [of n]
  consider "n < 5" | "\<not> n < 5" "n \<le> 16" "n \<ge> 8" | "\<not> n < 5" "n \<le> 16" "\<not> n \<ge> 8"
    | "\<not> n \<le> 16" "n \<le> 32" | "\<not> n \<le> 32" by fastforce
  then show ?thesis
  proof cases
    case 1
    with assms show ?thesis by (intro memcpy_small)
  next
    case 2
    then show ?thesis
      using two_moves [OF assms(1), of 8] by (simp add: memcpy_def word_le_nat_alt)
  next
    case 3
    then show ?thesis
      using two_moves [OF assms(1), of 4] by (simp add: memcpy_def word_le_nat_alt word_less_nat_alt)
  next
    case 4
    then have "\<not> n < 5" by (simp add: word_le_nat_alt word_less_nat_alt)
    with 4 show ?thesis
      using two_moves [OF assms(1), of 16] by (simp add: memcpy_def word_le_nat_alt)
  next
    case 5
    then have n: "32 < unat n" "\<not> n < 5" "\<not> n \<le> 16" by (simp_all add: word_le_nat_alt word_less_nat_alt)
    obtain j where j: "memcpy_chunks m d s (d + of_nat (unat n - 32)) = Some (copied m d s j)"
        "unat n - 32 \<le> j" "j \<le> unat n"
      using memcpy_chunks_eq [OF assms, of 0 m] n u by auto
    have "d + n - 32 = d + of_nat (unat n - 32)" "s + n - 32 = s + of_nat (unat n - 32)"
      using n offset_end [of 32 n d] offset_end [of 32 n s] by simp_all
    moreover have "move (copied m d s j) (d + of_nat (unat n - 32)) (s + of_nat (unat n - 32)) 32 =
        copied m d s (unat n)"
      using copied_append_disjoint [OF assms(1) j(2,3), of m] n u by (simp add: move_eq_copied)
    ultimately show ?thesis
      using 5 n j(1) by (simp only: memcpy_def if_False option.map)
  qed
qed

section \<open>memmove copies overlapping ranges\<close>


lemma memmove_test_disjoint:
  assumes "s - d - n \<le> - 2 * n" "d \<noteq> s" "unat n \<le> 2 ^ 63"
  shows "disjoint_ranges d s (unat n)"
proof (cases "unat n = 0")
  case True then show ?thesis by (simp add: disjoint_ranges_def)
next
  case False
  let ?k = "unat (s - d)" and ?n = "unat n"
  have k: "?k \<noteq> 0" "?k < 2 ^ 64" using assms(2) unat_lt_u64 [of "s - d"] by (auto simp: unat_0_iff)
  have ds: "unat (d - s) = 2 ^ 64 - ?k"
    using k by (auto simp: unat_sub_if_size word_size split: if_splits)
  have two: "2 * n = of_nat (2 * ?n)" by simp
  have "- 2 * n = 0 - of_nat (2 * ?n)" by simp
  then have "unat (- 2 * n) = (if 2 * ?n = 2 ^ 64 then 0 else 2 ^ 64 - 2 * ?n)"
  proof (cases "2 * ?n = 2 ^ 64")
    case True
    then have "(of_nat (2 * ?n) :: u64) = 0" by (simp only: True) simp
    then show ?thesis using True by (simp only: \<open>- 2 * n = 0 - of_nat (2 * ?n)\<close>) simp
  next
    case F: False
    then have "2 * ?n < 2 ^ 64" using assms(3) by simp
    then show ?thesis
      using F False unat_diff_of_nat [of "2 * ?n" 0] \<open>- 2 * n = 0 - of_nat (2 * ?n)\<close> by simp
  qed
  moreover have "unat (s - d - n) = (if ?n \<le> ?k then ?k - ?n else 2 ^ 64 + ?k - ?n)"
    using unat_diff_of_nat [of ?n "s - d"] unat_lt_u64 [of n] by simp
  ultimately have "?n \<le> ?k" "?k \<le> 2 ^ 64 - ?n"
    using assms(1,3) False k by (auto simp: word_le_nat_alt split: if_splits)
  then show ?thesis using ds k by (simp add: disjoint_ranges_def)
qed

text \<open>The state of an upward copy after \<open>k\<close> bytes, and one more step of \<open>c\<close> bytes.\<close>

lemma up_step:
  assumes "d < s" "unat s + (k + c) \<le> 2 ^ 64"
  shows "copied (copied m d s k) (d + of_nat k) (s + of_nat k) c = copied m d s (k + c)"
proof -
  have "k \<le> unat (s + of_nat i - d)" if "k \<le> i" "i < k + c" for i
  proof -
    have "unat (s - d) = unat s - unat d" "unat d < unat s"
      using assms(1) by (simp_all add: word_less_nat_alt unat_sub_nowrap)
    then have "unat ((s - d) + of_nat i) = unat s - unat d + i"
      using assms(2) that by (subst unat_offset) auto
    moreover have "s + of_nat i - d = (s - d) + of_nat i" by simp
    ultimately have "unat (s + of_nat i - d) = unat s - unat d + i" by metis
    then show ?thesis using that by simp
  qed
  moreover have "k + c < 2 ^ 64"
    using assms by (auto simp: word_less_nat_alt)
  ultimately show ?thesis
    using copied_append [of k k "k + c" s d m] by simp
qed

lemma of_nat_plus_one_neq_zero:
  assumes "k + 1 < 2 ^ 64"
  shows "(of_nat (k + 1) :: u64) \<noteq> 0"
proof
  assume "(of_nat (k + 1) :: u64) = 0"
  then have "unat (of_nat (k + 1) :: u64) = 0" by simp
  then show False
    using assms by (subst (asm) unat_of_nat_lt) simp_all
qed

lemma eight_le_of_nat: "r < 2 ^ 64 \<Longrightarrow> (8 :: u64) \<le> of_nat r \<longleftrightarrow> 8 \<le> r"
  by (simp add: word_le_nat_alt unat_of_nat_lt)

lemma offset_step:
  "d + of_nat k + 1 = d + (of_nat (k + 1) :: u64)"
  "d + of_nat k + 8 = d + (of_nat (k + 8) :: u64)"
  "of_nat (r + 1) - 1 = (of_nat r :: u64)"
  "of_nat (r + 8) - 8 = (of_nat r :: u64)"
  by simp_all

lemma memmove_bytes_up_eq:
  assumes "d < s" "unat s + (k + r) \<le> 2 ^ 64"
  shows "memmove_bytes_up (copied m d s k) (d + of_nat k) (s + of_nat k) (of_nat r) = copied m d s (k + r)"
  using assms(2)
proof (induction r arbitrary: k)
  case 0
  then show ?case by (subst memmove_bytes_up.simps) simp
next
  case (Suc r)
  have r: "(of_nat (r + 1) :: u64) \<noteq> 0" using of_nat_plus_one_neq_zero [of r] assms(1) Suc.prems by (auto simp: word_less_nat_alt)
  have "copied (copied m d s k) (d + of_nat k) (s + of_nat k) 1 = copied m d s (k + 1)"
    using up_step [OF assms(1), of k 1 m] Suc by simp
  then have "memmove_bytes_up (copied m d s k) (d + of_nat k) (s + of_nat k) (of_nat (Suc r)) =
      memmove_bytes_up (copied m d s (k + 1)) (d + of_nat (k + 1)) (s + of_nat (k + 1)) (of_nat r)"
    by (subst memmove_bytes_up.simps)
       (simp only: r if_False update_eq_copied offset_step Suc_eq_plus1)
  then show ?case
    using Suc.IH [of "k + 1"] Suc.prems by simp
qed

lemma memmove_words_up_eq:
  assumes "d < s" "unat s + (k + r) \<le> 2 ^ 64"
  shows "\<exists>j i. j + i = k + r \<and> memmove_words_up (copied m d s k) (d + of_nat k) (s + of_nat k) (of_nat r) =
            (copied m d s j, d + of_nat j, s + of_nat j, of_nat i)"
  using assms(2)
proof (induction r arbitrary: k rule: less_induct)
  case (less r)
  have r: "r < 2 ^ 64" using assms(1) less.prems by (auto simp: word_less_nat_alt)
  show ?case
  proof (cases "8 \<le> r")
    case True
    then obtain r' where r': "r = r' + 8" by (metis le_add_diff_inverse2)
    have "copied (copied m d s k) (d + of_nat k) (s + of_nat k) 8 = copied m d s (k + 8)"
      using up_step [OF assms(1), of k 8 m] less.prems r' by simp
    then have "memmove_words_up (copied m d s k) (d + of_nat k) (s + of_nat k) (of_nat r) =
        memmove_words_up (copied m d s (k + 8)) (d + of_nat (k + 8)) (s + of_nat (k + 8)) (of_nat r')"
      by (subst memmove_words_up.simps)
         (simp only: r' [symmetric] eight_le_of_nat [OF r] True if_True move_eq_copied, simp only: r' offset_step)
    then show ?thesis
      using less.IH [of r' "k + 8"] less.prems r' by (simp add: add.assoc add.left_commute add.commute)
  next
    case False
    then have "memmove_words_up (copied m d s k) (d + of_nat k) (s + of_nat k) (of_nat r) =
        (copied m d s k, d + of_nat k, s + of_nat k, of_nat r)"
      by (subst memmove_words_up.simps) (simp only: eight_le_of_nat [OF r] if_False)
    then show ?thesis by blast
  qed
qed

lemma memmove_align_up_eq:
  assumes "d < s" "unat s + (k + r) \<le> 2 ^ 64"
  shows "memmove_align_up (copied m d s k) (d + of_nat k) (s + of_nat k) (of_nat r) = Inl (copied m d s (k + r)) \<or>
         (\<exists>j i. j + i = k + r \<and> memmove_align_up (copied m d s k) (d + of_nat k) (s + of_nat k) (of_nat r) =
            Inr (copied m d s j, d + of_nat j, s + of_nat j, of_nat i))"
  using assms(2)
proof (induction r arbitrary: k)
  case 0
  have "memmove_align_up (copied m d s k) (d + of_nat k) (s + of_nat k) (of_nat 0) =
      (if (d + of_nat k) mod 8 = 0 then Inr (copied m d s k, d + of_nat k, s + of_nat k, of_nat 0)
       else Inl (copied m d s (k + 0)))"
    by (subst memmove_align_up.simps) simp
  then show ?case
    by (auto simp only: split: if_splits)
next
  case (Suc r)
  have r: "(of_nat (r + 1) :: u64) \<noteq> 0" using of_nat_plus_one_neq_zero [of r] assms(1) Suc.prems by (auto simp: word_less_nat_alt)
  have "copied (copied m d s k) (d + of_nat k) (s + of_nat k) 1 = copied m d s (k + 1)"
    using up_step [OF assms(1), of k 1 m] Suc by simp
  then have "(d + of_nat k) mod 8 \<noteq> 0 \<Longrightarrow>
     memmove_align_up (copied m d s k) (d + of_nat k) (s + of_nat k) (of_nat (Suc r)) =
     memmove_align_up (copied m d s (k + 1)) (d + of_nat (k + 1)) (s + of_nat (k + 1)) (of_nat r)"
    by (subst memmove_align_up.simps)
       (simp only: r if_False update_eq_copied offset_step Suc_eq_plus1)
  moreover have "(d + of_nat k) mod 8 = 0 \<Longrightarrow>
     memmove_align_up (copied m d s k) (d + of_nat k) (s + of_nat k) (of_nat (Suc r)) =
     Inr (copied m d s k, d + of_nat k, s + of_nat k, of_nat (Suc r))"
    by (subst memmove_align_up.simps) (simp only: refl if_True)
  moreover have "k + 1 + r = k + Suc r" by simp
  ultimately show ?case
    using Suc.IH [of "k + 1"] Suc.prems by (cases "(d + of_nat k) mod 8 = 0") metis+
qed

text \<open>A downward copy of \<open>n\<close> bytes that has the first \<open>k\<close> bytes left to do.\<close>

definition copied_from :: "memory \<Rightarrow> addr \<Rightarrow> addr \<Rightarrow> nat \<Rightarrow> nat \<Rightarrow> memory" where
  "copied_from m d s n k = copied m (d + of_nat k) (s + of_nat k) (n - k)"

lemma down_step:
  assumes "s < d" "unat d + n \<le> 2 ^ 64" "k + c \<le> n"
  shows "copied (copied_from m d s n (k + c)) (d + of_nat k) (s + of_nat k) c = copied_from m d s n k"
proof -
  let ?d = "d + of_nat k" and ?s = "s + of_nat k"
  have d: "unat (d - s) = unat d - unat s" "unat s < unat d"
    using assms(1) by (simp_all add: word_less_nat_alt unat_sub_nowrap)
  have n: "n < 2 ^ 64" using assms(1,2) by (auto simp: word_less_nat_alt)
  have "n - (k + c) \<le> unat (?s + of_nat i - (?d + of_nat c))" if "i < c" for i
  proof (cases "n = k + c")
    case False
    have eq: "?s + of_nat i - (?d + of_nat c) = 0 - of_nat (unat d - unat s + (c - i))"
      using that d by (simp add: of_nat_diff algebra_simps)
    have "unat d - unat s + (c - i) < 2 ^ 64" "0 < unat d - unat s + (c - i)"
      using that assms(2,3) d False by auto
    then have "unat (?s + of_nat i - (?d + of_nat c)) = 2 ^ 64 - (unat d - unat s + (c - i))"
      using unat_diff_of_nat [of "unat d - unat s + (c - i)" 0] by (simp only: eq) (auto simp del: of_nat_add)
    then show ?thesis using that assms(2,3) by simp
  qed simp
  then have "copied (copied m (?d + of_nat c) (?s + of_nat c) (n - (k + c))) ?d ?s c =
      copied m ?d ?s (c + (n - (k + c)))"
    using n assms(3) by (intro copied_prepend) simp_all
  then show ?thesis
    using assms(3) by (simp add: copied_from_def add.assoc)
qed

lemma memmove_bytes_down_eq:
  assumes "s < d" "unat d + n \<le> 2 ^ 64" "k \<le> n"
  shows "memmove_bytes_down (copied_from m d s n k) d s (of_nat k) = copied m d s n"
  using assms(3)
proof (induction k)
  case 0
  then show ?case by (subst memmove_bytes_down.simps) (simp add: copied_from_def)
next
  case (Suc k)
  have n: "n < 2 ^ 64" using assms(1,2) by (auto simp: word_less_nat_alt)
  have "copied (copied_from m d s n (Suc k)) (d + of_nat k) (s + of_nat k) 1 = copied_from m d s n k"
    using down_step [OF assms(1,2), of k 1 m] Suc by simp
  moreover have "(of_nat (Suc k) :: u64) \<noteq> 0"
    using of_nat_plus_one_neq_zero [of k] Suc.prems n by simp
  ultimately show ?case
    using Suc by (subst memmove_bytes_down.simps) (simp add: update_eq_copied)
qed

lemma memmove_words_down_eq:
  assumes "s < d" "unat d + n \<le> 2 ^ 64" "k \<le> n"
  shows "\<exists>j \<le> n. memmove_words_down (copied_from m d s n k) d s (of_nat k) = (copied_from m d s n j, of_nat j)"
  using assms(3)
proof (induction k rule: less_induct)
  case (less k)
  have n: "n < 2 ^ 64" using assms(1,2) by (auto simp: word_less_nat_alt)
  have ge: "(8 :: u64) \<le> of_nat k \<longleftrightarrow> 8 \<le> k"
    using eight_le_of_nat [of k] n less.prems by simp
  show ?case
  proof (cases "8 \<le> k")
    case True
    then obtain k' where k': "k = k' + 8" by (metis le_add_diff_inverse2)
    have "copied (copied_from m d s n (k' + 8)) (d + of_nat k') (s + of_nat k') 8 = copied_from m d s n k'"
      using down_step [OF assms(1,2), of k' 8 m] less.prems k' by simp
    then have "memmove_words_down (copied_from m d s n k) d s (of_nat k) =
        memmove_words_down (copied_from m d s n k') d s (of_nat k')"
      by (subst memmove_words_down.simps)
         (simp only: ge True if_True, simp only: k' offset_step move_eq_copied)
    then show ?thesis
      using less.IH [of k'] less.prems k' by auto
  next
    case False
    then show ?thesis
      using less.prems by (subst memmove_words_down.simps) (auto simp: ge)
  qed
qed

lemma memmove_align_down_eq:
  assumes "s < d" "unat d + n \<le> 2 ^ 64" "k \<le> n"
  shows "memmove_align_down (copied_from m d s n k) d s (of_nat k) = Inl (copied m d s n) \<or>
         (\<exists>j \<le> n. memmove_align_down (copied_from m d s n k) d s (of_nat k) = Inr (copied_from m d s n j, of_nat j))"
  using assms(3)
proof (induction k)
  case 0
  then show ?case by (subst (1 2) memmove_align_down.simps) (auto simp: copied_from_def)
next
  case (Suc k)
  have n: "n < 2 ^ 64" using assms(1,2) by (auto simp: word_less_nat_alt)
  have "copied (copied_from m d s n (Suc k)) (d + of_nat k) (s + of_nat k) 1 = copied_from m d s n k"
    using down_step [OF assms(1,2), of k 1 m] Suc by simp
  moreover have "(of_nat (Suc k) :: u64) \<noteq> 0"
    using of_nat_plus_one_neq_zero [of k] Suc.prems n by simp
  ultimately have "(d + of_nat (Suc k)) mod 8 \<noteq> 0 \<Longrightarrow>
     memmove_align_down (copied_from m d s n (Suc k)) d s (of_nat (Suc k)) =
     memmove_align_down (copied_from m d s n k) d s (of_nat k)"
    by (subst memmove_align_down.simps) (simp add: update_eq_copied)
  moreover have "(d + of_nat (Suc k)) mod 8 = 0 \<Longrightarrow> ?case"
    using Suc.prems by (subst (1 2) memmove_align_down.simps) auto
  ultimately show ?case
    using Suc by (cases "(d + of_nat (Suc k)) mod 8 = 0") auto
qed

lemma memmove_eq_copied:
  assumes "unat d + unat n \<le> 2 ^ 64" "unat s + unat n \<le> 2 ^ 64" "unat n \<le> 2 ^ 63"
  shows "memmove m d s n = Some (copied m d s (unat n))"
proof -
  consider "d = s" | "d \<noteq> s" "s - d - n \<le> - 2 * n" | "\<not> s - d - n \<le> - 2 * n" "d < s"
    | "\<not> s - d - n \<le> - 2 * n" "s < d" by force
  then show ?thesis
  proof cases
    case 1 then show ?thesis by (simp add: memmove_def)
  next
    case 2
    then show ?thesis
      using memcpy_eq_copied [OF memmove_test_disjoint assms(1)] assms(3) by (simp add: memmove_def)
  next
    case 3
    note up = 3(2) assms(2)
    have b: "memmove_bytes_up m d s n = copied m d s (unat n)"
      using memmove_bytes_up_eq [of d s 0 "unat n" m] up by simp
    have w: "memmove_bytes_up m'' d'' s'' n'' = copied m d s (unat n)"
      if "memmove_words_up (copied m d s j) (d + of_nat j) (s + of_nat j) (of_nat i) = (m'', d'', s'', n'')"
         "j + i = unat n" for m'' d'' s'' n'' j i
      using memmove_words_up_eq [of d s j i m] that memmove_bytes_up_eq [OF up(1), of _ _ m] up by fastforce
    show ?thesis
      using memmove_align_up_eq [of d s 0 "unat n" m] up 3 b w
      by (auto simp: memmove_def split: prod.splits)
  next
    case 4
    note down = 4(2) assms(1)
    have f: "copied_from m d s (unat n) (unat n) = m" by (simp add: copied_from_def)
    have b: "memmove_bytes_down m d s n = copied m d s (unat n)"
      using memmove_bytes_down_eq [OF down, of "unat n" m] by (simp add: f)
    have w: "memmove_bytes_down m'' d s n'' = copied m d s (unat n)"
      if "memmove_words_down (copied_from m d s (unat n) j) d s (of_nat j) = (m'', n'')" "j \<le> unat n" for m'' n'' j
      using memmove_words_down_eq [OF down that(2), of m] that(1) memmove_bytes_down_eq [OF down, of _ m] by auto
    show ?thesis
      using memmove_align_down_eq [OF down, of "unat n" m] 4 b w f
      by (auto simp: memmove_def split: prod.splits)
  qed
qed

section \<open>memset fills a range\<close>


lemma filled_commute: "filled (filled m d b i) e b j = filled (filled m e b j) d b i"
  by (simp add: filled_def fun_eq_iff)

lemma filled_append_le:
  assumes "off \<le> a" "a \<le> off + c" "off + c < 2 ^ 64"
  shows "filled (filled m d b a) (d + of_nat off) b c = filled m d b (off + c)"
  using filled_append [of off a "off + c" m d b] assms by simp

lemma two_fills:
  assumes "k \<le> unat n" "unat n \<le> 2 * k"
  shows "filled (filled m s b k) (s + n - of_nat k) b k = filled m s b (unat n)"
  using filled_append_le [of "unat n - k" k k m s b] assms unat_lt_u64 [of n]
  by (simp only: offset_end) simp

lemma div_shift_scaled:
  assumes "b * x < 2 ^ k"
  shows "((a * 2 ^ k + b) * x) div 2 ^ k = a * (x :: nat)"
proof -
  have "(a * 2 ^ k + b) * x = b * x + 2 ^ k * (a * x)" by (simp add: algebra_simps)
  then show ?thesis using assms by (simp only: div_mult_self2) simp
qed

lemma ucast_replicated_byte:
  assumes "c = (a * 256 + 1) * 2 ^ k + b" "b * 255 < 2 ^ k" "c * 255 < 2 ^ 64"
  shows "ucast (drop_bit k (of_nat c * (ucast X :: u64))) = (X :: u8)"
proof (rule word_eq_unatI)
  have x: "unat X \<le> 255" using unat_lt_u8 [of X] by simp
  have uX: "unat (ucast X :: u64) = unat X" using unat_lt_u8 [of X] by (simp add: unsigned_ucast_eq take_bit_nat_eq_self_iff)
  have cx: "c * unat X < 2 ^ 64"
    using mult_le_mono2 [OF x, of c] assms(3) by (rule le_less_trans)
  have bx: "b * unat X < 2 ^ k"
    using mult_le_mono2 [OF x, of b] assms(2) by (rule le_less_trans)
  have c: "c < 2 ^ 64" using assms(3) by simp
  have "unat (of_nat c * (ucast X :: u64)) = c * unat X"
    using cx c by (simp add: unat_mult_nowrap unat_of_nat_lt uX)
  then have "unat (drop_bit k (of_nat c * (ucast X :: u64))) = (a * 256 + 1) * unat X"
    using div_shift_scaled [OF bx, of "a * 256 + 1"] by (simp only: unat_drop_bit assms(1))
  also have "\<dots> = unat X + 256 * (a * unat X)" by (simp add: algebra_simps)
  finally have "unat (drop_bit k (of_nat c * (ucast X :: u64))) mod 256 = unat X"
    using unat_lt_u8 [of X] by (simp only: mod_mult_self2 mod_less)
  then show "unat (ucast (drop_bit k (of_nat c * (ucast X :: u64))) :: u8) = unat X"
    by (simp add: unsigned_ucast_eq take_bit_eq_mod)
qed

lemma upt_8: "[0..<8] = [0, 1, 2, 3, 4, 5, 6, 7]"
  by (simp add: upt_rec)

lemma le_bytes_val8: "le_bytes 8 (0x0101010101010101 * (ucast (X :: u8) :: u64)) = replicate 8 X"
proof -
  have c: "(0x0101010101010101 :: u64) = of_nat 72340172838076673" by simp
  note byte = ucast_replicated_byte [of 72340172838076673]
  have b0: "ucast (drop_bit (8 * 0) (of_nat 72340172838076673 * (ucast X :: u64))) = X"
    by (rule byte [where a = 282578800148737 and b = 0]) simp_all
  have b1: "ucast (drop_bit (8 * 1) (of_nat 72340172838076673 * (ucast X :: u64))) = X"
    by (rule byte [where a = 1103823438081 and b = 1]) simp_all
  have b2: "ucast (drop_bit (8 * 2) (of_nat 72340172838076673 * (ucast X :: u64))) = X"
    by (rule byte [where a = 4311810305 and b = 257]) simp_all
  have b3: "ucast (drop_bit (8 * 3) (of_nat 72340172838076673 * (ucast X :: u64))) = X"
    by (rule byte [where a = 16843009 and b = 65793]) simp_all
  have b4: "ucast (drop_bit (8 * 4) (of_nat 72340172838076673 * (ucast X :: u64))) = X"
    by (rule byte [where a = 65793 and b = 16843009]) simp_all
  have b5: "ucast (drop_bit (8 * 5) (of_nat 72340172838076673 * (ucast X :: u64))) = X"
    by (rule byte [where a = 257 and b = 4311810305]) simp_all
  have b6: "ucast (drop_bit (8 * 6) (of_nat 72340172838076673 * (ucast X :: u64))) = X"
    by (rule byte [where a = 1 and b = 1103823438081]) simp_all
  have b7: "ucast (drop_bit (8 * 7) (of_nat 72340172838076673 * (ucast X :: u64))) = X"
    by (rule byte [where a = 0 and b = 282578800148737]) simp_all
  show ?thesis
    by (simp only: le_bytes_def upt_8 c list.map b0 b1 b2 b3 b4 b5 b6 b7) (simp add: eval_nat_numeral)
qed

lemma le_bytes_low:
  assumes "k \<le> 4"
  shows "le_bytes k (ucast (w :: u64) :: u32) = take k (le_bytes 8 w)"
proof -
  have "ucast (drop_bit (8 * i) (ucast w :: u32)) = (ucast (drop_bit (8 * i) w) :: u8)" if "i < 4" for i
    using that by (intro bit_word_eqI) (auto simp: bit_simps)
  then show ?thesis
    using assms by (simp add: le_bytes_def take_map min_def)
qed

lemma filled_unfold:
  "filled m d b 1 = m(d := b)"
  "filled m d b 2 = m(d := b, d + 1 := b)"
  "filled m d b 3 = m(d := b, d + 1 := b, d + 2 := b)"
  "filled m d b 4 = m(d := b, d + 1 := b, d + 2 := b, d + 3 := b)"
  by (rule ext, simp only: filled_def word_less_cases diff_eq_offset_iff, auto)+

lemma word_less_5_cases:
  assumes "(n :: u64) < 5"
  obtains "n = 0" | "n = 1" | "n = 2" | "n = 3" | "n = 4"
proof -
  have "unat n < 5" using assms by (simp add: word_less_nat_alt)
  then have "unat n \<in> {0, 1, 2, 3, 4}" by auto
  then have "n = 0 \<or> n = 1 \<or> n = 2 \<or> n = 3 \<or> n = 4"
    by (auto simp: word_unat_eq_iff)
  then show ?thesis using that by blast
qed

lemma small_memset_eq_filled:
  assumes "n < 32"
  shows "small_memset m s c n = filled m s (ucast c) (unat n)"
proof -
  consider "n < 5" | "\<not> n < 5" "n \<le> 16" "n \<ge> 8" | "\<not> n < 5" "n \<le> 16" "\<not> n \<ge> 8" | "\<not> n \<le> 16" by fastforce
  then show ?thesis
  proof cases
    case 1
    then show ?thesis
      by (cases rule: word_less_5_cases)
         (simp_all add: small_memset_def Let_def filled_unfold [simplified] fun_eq_iff)
  next
    case 2
    then show ?thesis
      using two_fills [of 8 n m s] by (simp add: small_memset_def Let_def le_bytes_val8 store_replicate_eq_filled word_le_nat_alt)
  next
    case 3
    then show ?thesis
      using two_fills [of 4 n m s]
      by (simp add: small_memset_def Let_def le_bytes_low le_bytes_val8 store_replicate_eq_filled word_le_nat_alt word_less_nat_alt)
  next
    case 4
    then have "\<not> n < 5" by (simp add: word_le_nat_alt word_less_nat_alt)
    then show ?thesis
      using 4 assms two_fills [of 16 n m s "ucast c"]
      by (simp add: small_memset_def Let_def store_replicate_eq_filled word_le_nat_alt word_less_nat_alt
          filled_commute [of m "s + n - 16"])
  qed
qed

lemma store_32_filled:
  assumes "k \<le> a" "a \<le> k + 32" "k + 32 < 2 ^ 64"
  shows "store_bytes (filled m d b a) (d + of_nat k) (replicate 32 b) = filled m d b (k + 32)"
  using filled_append_le [OF assms] by (simp add: store_replicate_eq_filled)

lemma memset_chunks_eq:
  assumes "unat d + n < 2 ^ 64" "k + 32 \<le> n"
  shows "\<exists>j. memset_chunks (filled m d b k) (d + of_nat k) (d + of_nat (n - 32)) (replicate 32 b) =
               Some (filled m d b j) \<and> n - 32 \<le> j \<and> j \<le> n"
  using assms(2)
proof (induction "n - k" arbitrary: k rule: less_induct)
  case less
  have b: "unat d + (k + 32) < 2 ^ 64" "unat d + (n - 32) < 2 ^ 64"
    using assms less.prems by auto
  have step: "store_bytes (filled m d b k) (d + of_nat k) (replicate 32 b) = filled m d b (k + 32)"
    using b by (intro store_32_filled) simp_all
  have "\<not> 2 ^ 64 \<le> unat (d + of_nat k) + 32"
    using b by (simp add: unat_offset)
  then have "memset_chunks (filled m d b k) (d + of_nat k) (d + of_nat (n - 32)) (replicate 32 b) =
    (if k + 32 < n - 32
     then memset_chunks (filled m d b (k + 32)) (d + of_nat (k + 32)) (d + of_nat (n - 32)) (replicate 32 b)
     else Some (filled m d b (k + 32)))"
    by (subst memset_chunks.simps) (simp only: step offset_32 offset_less_iff [OF b] Let_def if_False)
  then show ?case
    using less.hyps [of "k + 32"] less.prems by auto
qed

lemma huge_memset_loop_eq:
  assumes "unat d + n + 160 < 2 ^ 64" "k \<le> a" "a \<le> k + 32" "a \<le> n"
  shows "\<exists>j a'. huge_memset_loop (filled m d b a) (d + of_nat k) (d + of_nat n) (replicate 32 b) =
               Some (filled m d b a', d + of_nat j) \<and> j \<le> a' \<and> a' \<le> j + 32 \<and> a' \<le> n \<and> n \<le> j + 160"
  using assms(2-4)
proof (induction "n - k" arbitrary: k a rule: less_induct)
  case less
  have b: "unat d + (k + 160) < 2 ^ 64" "unat d + n < 2 ^ 64"
    using assms less.prems by auto
  have st: "store_bytes (filled m d b a) (d + of_nat k) (replicate 32 b) = filled m d b (k + 32)"
    "store_bytes (filled m d b (k + 32)) (d + of_nat (k + 32)) (replicate 32 b) = filled m d b (k + 64)"
    "store_bytes (filled m d b (k + 64)) (d + of_nat (k + 64)) (replicate 32 b) = filled m d b (k + 96)"
    "store_bytes (filled m d b (k + 96)) (d + of_nat (k + 96)) (replicate 32 b) = filled m d b (k + 128)"
    "store_bytes (filled m d b (k + 128)) (d + of_nat (k + 128)) (replicate 32 b) = filled m d b (k + 160)"
    using b less.prems store_32_filled [of k a m d b] store_32_filled [of "k + 32" "k + 32" m d b]
      store_32_filled [of "k + 64" "k + 64" m d b] store_32_filled [of "k + 96" "k + 96" m d b]
      store_32_filled [of "k + 128" "k + 128" m d b]
    by (simp_all add: ac_simps)
  have off: "d + of_nat k + 32 * 5 = d + (of_nat (k + 160) :: u64)"
    "d + of_nat k + 32 = d + (of_nat (k + 32) :: u64)"
    "d + of_nat (k + 32) + 32 = d + (of_nat (k + 64) :: u64)"
    "d + of_nat (k + 64) + 32 = d + (of_nat (k + 96) :: u64)"
    "d + of_nat (k + 96) + 32 = d + (of_nat (k + 128) :: u64)"
    "d + of_nat (k + 128) + 32 = d + (of_nat (k + 160) :: u64)" by simp_all
  have "\<not> 2 ^ 64 \<le> unat (d + of_nat k) + 32 * 5"
    using b by (simp add: unat_offset)
  then have "huge_memset_loop (filled m d b a) (d + of_nat k) (d + of_nat n) (replicate 32 b) =
    (if k + 160 < n
     then huge_memset_loop (filled m d b (k + 160)) (d + of_nat (k + 160)) (d + of_nat n) (replicate 32 b)
     else Some (filled m d b a, d + of_nat k))"
    by (subst huge_memset_loop.simps) (simp only: off st offset_less_iff [OF b] Let_def if_False)
  then show ?case
    using less.hyps [of "k + 160" "k + 160"] less.prems by fastforce
qed

lemma try_stamp_eq:
  assumes "unat d + n + 32 < 2 ^ 64" "32 \<le> n" "k \<le> a" "a \<le> k + 32" "a \<le> n"
  shows "\<exists>j a'. try_stamp_32_bytes (d + of_nat (n - 32)) (replicate 32 b) (filled m d b a, d + of_nat k) =
    (filled m d b a', d + of_nat j) \<and> j \<le> a' \<and> a' \<le> j + 32 \<and> a' \<le> n \<and> (n \<le> j + 32 \<or> j = k + 32)"
proof -
  have b: "unat d + k < 2 ^ 64" "unat d + (n - 32) < 2 ^ 64" using assms by auto
  have "store_bytes (filled m d b a) (d + of_nat k) (replicate 32 b) = filled m d b (k + 32)"
    using assms by (intro store_32_filled) simp_all
  then have "try_stamp_32_bytes (d + of_nat (n - 32)) (replicate 32 b) (filled m d b a, d + of_nat k) =
    (if k < n - 32 then (filled m d b (k + 32), d + of_nat (k + 32)) else (filled m d b a, d + of_nat k))"
    by (simp only: try_stamp_32_bytes_def prod.case offset_less_iff [OF b] offset_32)
  moreover have "k < n - 32 \<Longrightarrow> k + 32 \<le> n" "\<not> k < n - 32 \<Longrightarrow> n \<le> k + 32" by auto
  ultimately show ?thesis
    using assms(3-5) by (metis le_add1 order_refl)
qed

lemma unat_mod_32: "unat (s mod 32 :: u64) = unat s mod 32"
  by (simp add: unat_mod)

lemma huge_memset_eq_filled:
  assumes "160 < n" "unat s + unat n + 160 < 2 ^ 64"
  shows "huge_memset m s c n = Some (filled m s (ucast c) (unat n))"
proof -
  let ?b = "ucast c :: u8" and ?n = "unat n" and ?k = "32 - unat s mod 32"
  let ?stamp = "try_stamp_32_bytes (s + of_nat (?n - 32)) (replicate 32 ?b)"
  have n: "160 < ?n" using assms(1) by (simp add: word_less_nat_alt)
  have k: "unat s mod 32 < 32" "?k \<le> 32" by simp_all
  have "s + 32 - s mod 32 = s + (32 - s mod 32)" by simp
  also have "32 - s mod 32 = of_nat ?k"
    using k(1) by (simp add: of_nat_diff flip: unat_mod_32)
  finally have first: "s + 32 - s mod 32 = s + of_nat ?k" .
  have last: "s + of_nat ?n - 32 = s + of_nat (?n - 32)" "s + n = s + of_nat ?n"
    using n offset_end [of 32 n s] by simp_all
  obtain j0 a0 where l: "huge_memset_loop (filled m s ?b 32) (s + of_nat ?k) (s + of_nat ?n) (replicate 32 ?b) =
      Some (filled m s ?b a0, s + of_nat j0)" and 0: "j0 \<le> a0" "a0 \<le> j0 + 32" "a0 \<le> ?n" "?n \<le> j0 + 160"
  proof -
    have "32 \<le> ?k + 32" "32 \<le> ?n" using k n by linarith+
    from huge_memset_loop_eq [OF assms(2) k(2) this, of m ?b] that show thesis by blast
  qed
  have st: "\<exists>j a'. ?stamp (filled m s ?b a, s + of_nat k) = (filled m s ?b a', s + of_nat j) \<and>
      j \<le> a' \<and> a' \<le> j + 32 \<and> a' \<le> ?n \<and> (?n \<le> j + 32 \<or> j = k + 32)"
    if "k \<le> a" "a \<le> k + 32" "a \<le> ?n" for k a
    using that assms n by (intro try_stamp_eq) simp_all
  obtain j1 a1 where 1: "?stamp (filled m s ?b a0, s + of_nat j0) = (filled m s ?b a1, s + of_nat j1)"
      "j1 \<le> a1" "a1 \<le> j1 + 32" "a1 \<le> ?n" "?n \<le> j1 + 32 \<or> j1 = j0 + 32" using st [OF 0(1-3)] by blast
  obtain j2 a2 where 2: "?stamp (filled m s ?b a1, s + of_nat j1) = (filled m s ?b a2, s + of_nat j2)"
      "j2 \<le> a2" "a2 \<le> j2 + 32" "a2 \<le> ?n" "?n \<le> j2 + 32 \<or> j2 = j1 + 32" using st [OF 1(2-4)] by blast
  obtain j3 a3 where 3: "?stamp (filled m s ?b a2, s + of_nat j2) = (filled m s ?b a3, s + of_nat j3)"
      "j3 \<le> a3" "a3 \<le> j3 + 32" "a3 \<le> ?n" "?n \<le> j3 + 32 \<or> j3 = j2 + 32" using st [OF 2(2-4)] by blast
  obtain j4 a4 where 4: "?stamp (filled m s ?b a3, s + of_nat j3) = (filled m s ?b a4, s + of_nat j4)"
      "j4 \<le> a4" "a4 \<le> j4 + 32" "a4 \<le> ?n" "?n \<le> j4 + 32 \<or> j4 = j3 + 32" using st [OF 3(2-4)] by blast
  have "?n - 32 \<le> a4" using 0 1 2 3 4 by linarith
  then have "store_bytes (filled m s ?b a4) (s + of_nat (?n - 32)) (replicate 32 ?b) = filled m s ?b ?n"
    using store_32_filled [of "?n - 32" a4 m s ?b] 4 n unat_lt_u64 [of n] by simp
  then show ?thesis
    by (simp only: huge_memset_def Let_def store_replicate_eq_filled [of m s] first last l 1 2 3 4 option.case fst_conv)
qed

lemma memset_eq_filled:
  assumes "unat s + unat n + 160 < 2 ^ 64"
  shows "memset m s c n = Some (filled m s (ucast c) (unat n))"
proof -
  consider "n < 32" | "\<not> n < 32" "\<not> 160 < n" | "\<not> n < 32" "160 < n" by blast
  then show ?thesis
  proof cases
    case 1 then show ?thesis by (simp add: memset_def small_memset_eq_filled)
  next
    case 2
    then have n: "32 \<le> unat n" by (simp add: word_less_nat_alt)
    then have last: "s + n - 32 = s + of_nat (unat n - 32)" using offset_end [of 32 n s] by simp
    obtain j where j: "memset_chunks m s (s + of_nat (unat n - 32)) (replicate 32 (ucast c)) =
        Some (filled m s (ucast c) j)" "unat n - 32 \<le> j" "j \<le> unat n"
      using memset_chunks_eq [of s "unat n" 0 m "ucast c"] n assms by auto
    have "store_bytes (filled m s (ucast c) j) (s + of_nat (unat n - 32)) (replicate 32 (ucast c)) =
        filled m s (ucast c) (unat n)"
      using store_32_filled [of "unat n - 32" j m s "ucast c"] j n unat_lt_u64 [of n] by simp
    then show ?thesis
      using 2 j(1) by (simp only: memset_def Let_def last if_False option.map)
  next
    case 3 then show ?thesis using huge_memset_eq_filled [OF _ assms] by (simp add: memset_def)
  qed
qed

section \<open>memcmp\<close>

text \<open>The reference: the difference of the first two bytes that differ.\<close>

fun compare_bytes :: "bytes \<Rightarrow> bytes \<Rightarrow> int" where
  "compare_bytes (x # xs) (y # ys) = (if x = y then compare_bytes xs ys else int (unat x) - int (unat y))"
| "compare_bytes _ _ = 0"

lemma load_bytes_Suc: "load_bytes m a (Suc k) = m a # load_bytes m (a + 1) k"
  by (simp add: load_bytes_def upt_conv_Cons map_Suc_upt [symmetric] add.assoc del: upt_Suc)

lemma memcmp_loop_eq:
  "i \<le> n \<Longrightarrow> memcmp_loop m s1 s2 i n =
     compare_bytes (load_bytes m s1 (unat n - unat i)) (load_bytes m s2 (unat n - unat i))"
proof (induction m s1 s2 i n rule: memcmp_loop.induct)
  case (1 m s1 s2 i n)
  show ?case
  proof (cases "i = n")
    case True
    then show ?thesis by (subst memcmp_loop.simps) (simp add: load_bytes_def)
  next
    case False
    with 1 have i: "i < n" by simp
    then have u: "unat i < unat n" by (simp add: word_less_nat_alt)
    then have "unat (i + 1) = unat i + 1"
      using unat_lt_u64 [of n] by (simp add: unat_add_nowrap)
    moreover have "i + 1 \<le> n" using i by (simp add: inc_le)
    moreover have "unat n - unat i = Suc (unat n - (unat i + 1))" using u by simp
    ultimately show ?thesis
      using 1 i False by (subst memcmp_loop.simps) (auto simp: load_bytes_Suc)
  qed
qed

lemma compare_bytes_same [simp]: "compare_bytes xs xs = 0"
  by (induction xs) simp_all

lemma compare_bytes_0_iff: "length xs = length ys \<Longrightarrow> compare_bytes xs ys = 0 \<longleftrightarrow> xs = ys"
  by (induction xs ys rule: list_induct2) (auto simp: word_unat_eq_iff dest: arg_cong [where f = nat])

lemma memcmp_eq: "memcmp m s1 s2 n = compare_bytes (load_bytes m s1 (unat n)) (load_bytes m s2 (unat n))"
  by (simp add: memcmp_def memcmp_loop_eq)

lemma length_load_bytes [simp]: "length (load_bytes m a k) = k"
  by (simp add: load_bytes_def)

lemma memcmp_0_iff: "memcmp m s1 s2 n = 0 \<longleftrightarrow> load_bytes m s1 (unat n) = load_bytes m s2 (unat n)"
  by (simp add: memcmp_eq compare_bytes_0_iff)

section \<open>The interface of abstraction/memory/manipulation.h\<close>

lemma load_copied: "k < 2 ^ 64 \<Longrightarrow> load_bytes (copied m d s k) d k = load_bytes m s k"
  by (simp add: load_bytes_def copied_def unat_of_nat_lt)

lemma load_filled: "k < 2 ^ 64 \<Longrightarrow> load_bytes (filled m d b k) d k = replicate k b"
  by (auto simp: load_bytes_def filled_def unat_of_nat_lt intro!: nth_equalityI)

lemma copied_outside: "n \<le> unat (x - d) \<Longrightarrow> copied m d s n x = m x"
  by (simp add: copied_def)

lemma filled_outside: "n \<le> unat (x - d) \<Longrightarrow> filled m d b n x = m x"
  by (simp add: filled_def)

lemma load_bytes_append: "load_bytes m a (i + j) = load_bytes m a i @ load_bytes m (a + of_nat i) j"
  by (rule nth_equalityI) (auto simp: load_bytes_def nth_append add.assoc simp flip: of_nat_add)

lemma load_copied_source:
  assumes "disjoint_ranges d s k"
  shows "load_bytes (copied m d s k) s k = load_bytes m s k"
  using disjoint_ranges_read [OF assms] by (simp add: load_bytes_def copied_outside)

locale memory_ops =
  fixes cpy mov :: "memory \<Rightarrow> addr \<Rightarrow> addr \<Rightarrow> u64 \<Rightarrow> memory option"
    and set :: "memory \<Rightarrow> addr \<Rightarrow> u32 \<Rightarrow> u64 \<Rightarrow> memory option"
    and cmp :: "memory \<Rightarrow> addr \<Rightarrow> addr \<Rightarrow> u64 \<Rightarrow> int"
  assumes cpy_law: "disjoint_ranges d s (unat n) \<Longrightarrow> unat d + unat n \<le> 2 ^ 64 \<Longrightarrow>
      cpy m d s n = Some (copied m d s (unat n))"
    and mov_law: "unat d + unat n \<le> 2 ^ 64 \<Longrightarrow> unat s + unat n \<le> 2 ^ 64 \<Longrightarrow> unat n \<le> 2 ^ 63 \<Longrightarrow>
      mov m d s n = Some (copied m d s (unat n))"
    and set_law: "unat s + unat n + 160 < 2 ^ 64 \<Longrightarrow> set m s c n = Some (filled m s (ucast c) (unat n))"
    and cmp_law: "cmp m s1 s2 n = compare_bytes (load_bytes m s1 (unat n)) (load_bytes m s2 (unat n))"
begin

lemma cpy_spec:
  assumes "disjoint_ranges d s (unat n)" "unat d + unat n \<le> 2 ^ 64"
  shows "\<exists>m'. cpy m d s n = Some m' \<and> load_bytes m' d (unat n) = load_bytes m s (unat n) \<and>
    load_bytes m' s (unat n) = load_bytes m s (unat n) \<and> (\<forall>x. unat n \<le> unat (x - d) \<longrightarrow> m' x = m x)"
  using assms unat_lt_u64 [of n]
  by (simp add: cpy_law load_copied copied_outside load_copied_source)

lemma mov_spec:
  assumes "unat d + unat n \<le> 2 ^ 64" "unat s + unat n \<le> 2 ^ 64" "unat n \<le> 2 ^ 63"
  shows "\<exists>m'. mov m d s n = Some m' \<and> load_bytes m' d (unat n) = load_bytes m s (unat n) \<and>
    (\<forall>x. unat n \<le> unat (x - d) \<longrightarrow> m' x = m x)"
  using assms unat_lt_u64 [of n] by (simp add: mov_law load_copied copied_outside)

lemma set_spec:
  assumes "unat s + unat n + 160 < 2 ^ 64"
  shows "\<exists>m'. set m s c n = Some m' \<and> load_bytes m' s (unat n) = replicate (unat n) (ucast c) \<and>
    (\<forall>x. unat n \<le> unat (x - s) \<longrightarrow> m' x = m x)"
  using assms unat_lt_u64 [of n] by (simp add: set_law load_filled filled_outside)

lemma cmp_zero_iff: "cmp m s1 s2 n = 0 \<longleftrightarrow> load_bytes m s1 (unat n) = load_bytes m s2 (unat n)"
  by (simp add: cmp_law compare_bytes_0_iff)

lemma cpy_then_cmp:
  assumes "disjoint_ranges d s (unat n)" "unat d + unat n \<le> 2 ^ 64"
  shows "\<exists>m'. cpy m d s n = Some m' \<and> cmp m' d s n = 0"
  using cpy_spec [OF assms, of m] by (auto simp: cmp_zero_iff)

lemma mov_agrees_with_cpy:
  assumes "disjoint_ranges d s (unat n)" "unat d + unat n \<le> 2 ^ 64" "unat s + unat n \<le> 2 ^ 64" "unat n \<le> 2 ^ 63"
  shows "mov m d s n = cpy m d s n"
  using assms by (simp add: cpy_law mov_law)

end

interpretation freestanding_memory: memory_ops memcpy memmove memset memcmp
  by unfold_locales (simp_all add: memcpy_eq_copied memmove_eq_copied memset_eq_filled memcmp_eq)

text \<open>
  C29. \<^verbatim>\<open>memcpy\<close> on two ranges that share no byte terminates, leaves the source bytes in the
  destination and changes no byte outside the destination, for every length (byte, word, vector
  and chunked paths alike).
\<close>

theorem memcpy_correct:
  assumes "disjoint_ranges d s (unat n)" "unat d + unat n \<le> 2 ^ 64"
  shows "\<exists>m'. memcpy m d s n = Some m' \<and> load_bytes m' d (unat n) = load_bytes m s (unat n) \<and>
    load_bytes m' s (unat n) = load_bytes m s (unat n) \<and> (\<forall>x. unat n \<le> unat (x - d) \<longrightarrow> m' x = m x)"
  by (rule freestanding_memory.cpy_spec [OF assms])

theorem memcpy_correct_witness:
  "\<exists>m'. memcpy (\<lambda>a. ucast a) 4096 100 77 = Some m' \<and> load_bytes m' 4096 77 = load_bytes (\<lambda>a. ucast a) 100 77"
  using memcpy_correct [of 4096 100 77 "\<lambda>a. ucast a"] by (auto simp: disjoint_ranges_def)

text \<open>
  C4. \<^verbatim>\<open>memmove\<close> copies correctly when the ranges overlap in either direction: it terminates, the
  destination holds what the source held before the call, and nothing else changes.
\<close>

theorem memmove_correct:
  assumes "unat d + unat n \<le> 2 ^ 64" "unat s + unat n \<le> 2 ^ 64" "unat n \<le> 2 ^ 63"
  shows "\<exists>m'. memmove m d s n = Some m' \<and> load_bytes m' d (unat n) = load_bytes m s (unat n) \<and>
    (\<forall>x. unat n \<le> unat (x - d) \<longrightarrow> m' x = m x)"
  by (rule freestanding_memory.mov_spec [OF assms])

theorem memmove_correct_witness:
  "\<exists>m'. memmove (\<lambda>a. ucast a) 4100 4096 77 = Some m' \<and> load_bytes m' 4100 77 = load_bytes (\<lambda>a. ucast a) 4096 77"
  using memmove_correct [of 4100 77 4096 "\<lambda>a. ucast a"] by auto

text \<open>
  C30. \<^verbatim>\<open>memset\<close> terminates and stores the low byte of its argument in exactly the \<open>n\<close> bytes of the
  range, on the small, chunked and unrolled paths. The hypothesis keeps the pointer of the
  unrolled loop, which runs up to 160 bytes past the end of the range, inside the address space.
\<close>

theorem memset_correct:
  assumes "unat s + unat n + 160 < 2 ^ 64"
  shows "\<exists>m'. memset m s c n = Some m' \<and> load_bytes m' s (unat n) = replicate (unat n) (ucast c) \<and>
    (\<forall>x. unat n \<le> unat (x - s) \<longrightarrow> m' x = m x)"
  by (rule freestanding_memory.set_spec [OF assms])

theorem memset_correct_witness:
  "\<exists>m'. memset (\<lambda>a. 0) 4099 0x1ff 1000 = Some m' \<and> load_bytes m' 4099 1000 = replicate 1000 0xff"
  using memset_correct [of 4099 1000 "\<lambda>a. 0" "0x1ff"] by auto

text \<open>
  C31. \<^verbatim>\<open>memcmp\<close> returns the difference of the first pair of bytes that differ, and zero exactly when
  the two ranges hold the same bytes.
\<close>

theorem memcmp_correct:
  "memcmp m s1 s2 n = compare_bytes (load_bytes m s1 (unat n)) (load_bytes m s2 (unat n)) \<and>
   (memcmp m s1 s2 n = 0 \<longleftrightarrow> load_bytes m s1 (unat n) = load_bytes m s2 (unat n))"
  using memcmp_eq freestanding_memory.cmp_zero_iff by blast


end
