(* ===== verification/Maths.thy ===== *)
theory Maths
  imports Prelude
begin

text \<open>
  \<^verbatim>\<open>projects/shared/code/maths\<close>: the alignment, ring and ceiling-division macros of
  \<^verbatim>\<open>maths.h\<close> (polymorphic in the width, as the macros are), the power-of-two helpers and the
  overflow-checking \<^verbatim>\<open>power\<close> of \<^verbatim>\<open>maths.c\<close>. The compiler builtins \<^verbatim>\<open>__builtin_ctz\<close> and
  \<^verbatim>\<open>__builtin_clzll\<close> are modelled on the bits of the word.
\<close>

section \<open>Compiler builtins\<close>

definition ctz :: "'a :: len word \<Rightarrow> nat" where
  "ctz w = length (takeWhile Not (map (bit w) [0..<LENGTH('a)]))"

definition clz :: "'a :: len word \<Rightarrow> nat" where
  "clz w = length (takeWhile Not (rev (map (bit w) [0..<LENGTH('a)])))"

section \<open>The macros of maths.h\<close>

definition ALIGN_UP_EXP :: "'a :: len word \<Rightarrow> nat \<Rightarrow> 'a word" where
  "ALIGN_UP_EXP val e = (val + (push_bit e 1 - 1)) AND NOT (push_bit e 1 - 1)"

definition ALIGN_UP_VALUE :: "'a :: len word \<Rightarrow> 'a word \<Rightarrow> 'a word" where
  "ALIGN_UP_VALUE val alignValue = (val + (alignValue - 1)) AND NOT (alignValue - 1)"

definition ALIGN_DOWN_EXP :: "'a :: len word \<Rightarrow> nat \<Rightarrow> 'a word" where
  "ALIGN_DOWN_EXP val e = val AND NOT (push_bit e 1 - 1)"

definition ALIGN_DOWN_VALUE :: "'a :: len word \<Rightarrow> 'a word \<Rightarrow> 'a word" where
  "ALIGN_DOWN_VALUE val alignValue = val AND NOT (alignValue - 1)"

definition CEILING_DIV_EXP :: "'a :: len word \<Rightarrow> nat \<Rightarrow> 'a word" where
  "CEILING_DIV_EXP val e = drop_bit e (val + (push_bit e 1 - 1))"

text \<open>\<^verbatim>\<open>_v + _d - 1\<close> is parsed as \<^verbatim>\<open>(_v + _d) - 1\<close>; it is shifted by the trailing zeros of the divisor.\<close>

definition CEILING_DIV_VALUE :: "'a :: len word \<Rightarrow> 'a word \<Rightarrow> 'a word" where
  "CEILING_DIV_VALUE val divisor = drop_bit (ctz divisor) (val + divisor - 1)"

definition RING_RANGE_EXP :: "'a :: len word \<Rightarrow> nat \<Rightarrow> 'a word" where
  "RING_RANGE_EXP val e = val AND (push_bit e 1 - 1)"

definition RING_RANGE_VALUE :: "'a :: len word \<Rightarrow> 'a word \<Rightarrow> 'a word" where
  "RING_RANGE_VALUE val ringSize = val AND (ringSize - 1)"

definition RING_INCREMENT :: "'a :: len word \<Rightarrow> 'a word \<Rightarrow> 'a word" where
  "RING_INCREMENT val ringSize = (val + 1) AND (ringSize - 1)"

definition RING_PLUS :: "'a :: len word \<Rightarrow> 'a word \<Rightarrow> 'a word \<Rightarrow> 'a word" where
  "RING_PLUS val amount ringSize = (val + amount) AND (ringSize - 1)"

definition RING_DECREMENT :: "'a :: len word \<Rightarrow> 'a word \<Rightarrow> 'a word" where
  "RING_DECREMENT val ringSize = (val - 1) AND (ringSize - 1)"

definition RING_MINUS :: "'a :: len word \<Rightarrow> 'a word \<Rightarrow> 'a word \<Rightarrow> 'a word" where
  "RING_MINUS val amount ringSize = (val - amount) AND (ringSize - 1)"

text \<open>
  \<^verbatim>\<open>next_pow2\<close> shifts the \<^verbatim>\<open>int\<close> constant 1, so a shift count of 31 or more is undefined;
  the model returns \<open>None\<close> there. \<^verbatim>\<open>x == 0\<close> makes the shift count 64.
\<close>

definition next_pow2 :: "u64 \<Rightarrow> u64 option" where
  "next_pow2 x =
     (if x = 1 then Some 1
      else let s = 64 - clz (x - 1) in if s < 31 then Some (push_bit s 1) else None)"

definition what_pow2 :: "u64 \<Rightarrow> nat" where
  "what_pow2 x = 63 - clz x"

text \<open>
  \<^verbatim>\<open>NEXT_POWER_OF_2\<close> smears the highest set bit downwards. The shifts by 16 and 32 are only
  selected for the wider types by \<^verbatim>\<open>_Generic\<close>; on a narrower word they shift everything out.
\<close>

definition NEXT_POWER_OF_2 :: "'a :: len word \<Rightarrow> 'a word" where
  "NEXT_POWER_OF_2 x =
     (let x1 = x - 1;
          x2 = x1 OR drop_bit 1 x1;
          x3 = x2 OR drop_bit 2 x2;
          x4 = x3 OR drop_bit 4 x3;
          x5 = x4 OR drop_bit 8 x4;
          x6 = (if LENGTH('a) \<ge> 32 then x5 OR drop_bit 16 x5 else x5);
          x7 = (if LENGTH('a) \<ge> 64 then x6 OR drop_bit 32 x6 else x6)
      in x7 + 1)"

text \<open>
  \<^verbatim>\<open>power\<close>: the loop of \<^verbatim>\<open>maths.c\<close>, with the early return of the last multiplication. A zero
  base divides by zero at the first overflow check (\<open>None\<close>).
\<close>

function power_loop :: "u64 \<Rightarrow> u64 \<Rightarrow> u64 \<Rightarrow> u64 option" where
  "power_loop result base e =
     (if e = 0 then Some result
      else if base = 0 then None
      else if e AND 1 = 1 then
        (if result > U64_MAX div base then Some 0
         else let result' = result * base in
           if e = 1 then Some result'
           else if base > U64_MAX div base then Some 0
           else power_loop result' (base * base) (drop_bit 1 e))
      else if base > U64_MAX div base then Some 0
      else power_loop result (base * base) (drop_bit 1 e))"
  by pat_completeness auto

termination
  by (relation "measure (\<lambda>(result, base, e). unat e)") (simp_all add: unat_drop_bit_less)

definition power :: "u64 \<Rightarrow> u64 \<Rightarrow> u64 option" where
  "power base e = power_loop 1 base e"

declare power_loop.simps [simp del]

section \<open>Alignment\<close>

lemma unat_ALIGN_DOWN_VALUE [unat_simps]:
  "unat (ALIGN_DOWN_VALUE v (2 ^ n)) = unat (v :: 'a :: len word) div 2 ^ n * 2 ^ n"
  by (simp only: ALIGN_DOWN_VALUE_def two_power_minus_one_mask unat_and_not_mask)

lemma ALIGN_DOWN_EXP_eq: "ALIGN_DOWN_EXP v n = ALIGN_DOWN_VALUE v (2 ^ n)"
  by (simp add: ALIGN_DOWN_EXP_def ALIGN_DOWN_VALUE_def push_bit_eq_mult)

lemma ALIGN_UP_EXP_eq: "ALIGN_UP_EXP v n = ALIGN_UP_VALUE v (2 ^ n)"
  by (simp add: ALIGN_UP_EXP_def ALIGN_UP_VALUE_def push_bit_eq_mult)

lemma unat_ALIGN_UP_VALUE [unat_simps]:
  assumes "n < LENGTH('a)" and "unat v + (2 ^ n - 1) < 2 ^ LENGTH('a)"
  shows "unat (ALIGN_UP_VALUE (v :: 'a :: len word) (2 ^ n)) = (unat v + (2 ^ n - 1)) div 2 ^ n * 2 ^ n"
proof -
  have "unat (v + (2 ^ n - 1)) = unat v + (2 ^ n - 1)"
    using assms by (simp add: unat_simps)
  then show ?thesis
    by (metis ALIGN_UP_VALUE_def two_power_minus_one_mask unat_and_not_mask)
qed

section \<open>Trailing and leading zeros, ceiling division, rings\<close>

lemma ctz_eqI:
  assumes "i < LENGTH('a)" and "bit w i" and "\<And>j. j < i \<Longrightarrow> \<not> bit w j"
  shows "ctz (w :: 'a :: len word) = i"
proof -
  have "takeWhile Not (map (bit w) [0..<LENGTH('a)]) = take i (map (bit w) [0..<LENGTH('a)])"
    using assms by (intro takeWhile_eq_take_P_nth) auto
  then show ?thesis
    using assms(1) by (simp add: ctz_def)
qed

lemma ctz_power_of_two [simp]: "n < LENGTH('a) \<Longrightarrow> ctz (2 ^ n :: 'a :: len word) = n"
  by (rule ctz_eqI) (auto simp: bit_exp_iff)

lemma clz_eqI:
  assumes "i < LENGTH('a)" and "bit w i" and "\<And>j. i < j \<Longrightarrow> j < LENGTH('a) \<Longrightarrow> \<not> bit w j"
  shows "clz (w :: 'a :: len word) = LENGTH('a) - 1 - i"
proof -
  let ?xs = "rev (map (bit w) [0..<LENGTH('a)])" and ?k = "LENGTH('a) - 1 - i"
  have nth: "?xs ! j = bit w (LENGTH('a) - Suc j)" if "j < LENGTH('a)" for j
    using that by (simp add: rev_nth)
  have "takeWhile Not ?xs = take ?k ?xs"
    using assms by (intro takeWhile_eq_take_P_nth) (auto simp: nth)
  then show ?thesis
    using assms(1) by (simp add: clz_def)
qed

lemma unat_CEILING_DIV_VALUE [unat_simps]:
  assumes "n < LENGTH('a)" and "unat v + 2 ^ n < 2 ^ LENGTH('a)"
  shows "unat (CEILING_DIV_VALUE (v :: 'a :: len word) (2 ^ n)) = (unat v + (2 ^ n - 1)) div 2 ^ n"
proof -
  have "unat (v + 2 ^ n) = unat v + 2 ^ n"
    using assms by (simp add: unat_add_nowrap)
  moreover have "unat (1 :: 'a word) \<le> unat v + 2 ^ n"
    by (simp add: trans_le_add2)
  ultimately have "unat (v + 2 ^ n - 1) = unat v + (2 ^ n - 1)"
    by (simp add: unat_sub_nowrap)
  then show ?thesis
    using assms(1) by (simp only: CEILING_DIV_VALUE_def ctz_power_of_two unat_drop_bit)
qed

lemma unat_RING_RANGE_VALUE [unat_simps]:
  "unat (RING_RANGE_VALUE v (2 ^ n)) = unat (v :: 'a :: len word) mod 2 ^ n"
  by (simp only: RING_RANGE_VALUE_def two_power_minus_one_mask unat_and_mask)

lemma RING_RANGE_VALUE_zero_iff:
  "RING_RANGE_VALUE (v :: 'a :: len word) (2 ^ n) = 0 \<longleftrightarrow> 2 ^ n dvd unat v"
  by (metis unat_RING_RANGE_VALUE dvd_eq_mod_eq_0 unat_0_iff)

lemma word_top_bit:
  assumes "w \<noteq> (0 :: 'a :: len word)"
  obtains i where "i < LENGTH('a)" "clz w = LENGTH('a) - 1 - i" "2 ^ i \<le> unat w" "unat w < 2 ^ Suc i"
proof -
  have "unat w \<ge> 1" using assms by (simp add: Suc_le_eq unat_gt_0)
  then obtain i where i: "2 ^ i \<le> unat w" "unat w < 2 ^ Suc i"
    using ex_power_ivl1 [of 2 "unat w"] by auto
  then have "i < LENGTH('a)"
    using unat_lt_2p [of w] power_less_imp_less_exp [of "2 :: nat" i "LENGTH('a)"] by linarith
  moreover have "bit w j \<longleftrightarrow> odd (unat w div 2 ^ j)" for j
    by (rule bit_unat_iff_odd)
  moreover have "unat w div 2 ^ i = 1"
    using i by (intro div_nat_eqI) auto
  moreover have "unat w div 2 ^ j = 0" if "i < j" for j
    using i that by (auto intro!: div_less less_le_trans [OF i(2)] power_increasing)
  ultimately have "clz w = LENGTH('a) - 1 - i"
    by (intro clz_eqI) auto
  then show thesis using that \<open>i < LENGTH('a)\<close> i by blast
qed

lemma next_pow2_Some:
  assumes "2 \<le> unat x" and "unat x \<le> 2 ^ 30"
  obtains n where "next_pow2 x = Some (2 ^ n)" "n \<le> 30" "2 ^ n < 2 * unat x" "unat x \<le> 2 ^ n"
proof -
  have x1: "x \<noteq> 1" "x - 1 \<noteq> 0" "unat (x - 1) = unat x - 1"
    using assms(1) by (auto simp: unat_sub_nowrap)
  then obtain i where i: "i < 64" "clz (x - 1) = 63 - i" "2 ^ i \<le> unat x - 1" "unat x - 1 < 2 ^ Suc i"
    using word_top_bit [of "x - 1"] by auto
  have "(2 :: nat) ^ i < 2 ^ 30"
    using i(3) assms by linarith
  then have "i < 30" by (rule power_less_imp_less_exp [rotated]) simp
  then have "next_pow2 x = Some (2 ^ Suc i)"
    using i(2) x1 by (simp add: next_pow2_def Let_def push_bit_eq_mult)
  moreover have "2 ^ Suc i < 2 * unat x" "unat x \<le> 2 ^ Suc i"
    using i assms(1) by auto
  ultimately show thesis using that [of "Suc i"] \<open>i < 30\<close> by simp
qed

lemma unat_RING_PLUS:
  "unat (RING_PLUS v a (2 ^ n)) = unat (v + a :: 'a :: len word) mod 2 ^ n"
  by (simp only: RING_PLUS_def two_power_minus_one_mask unat_and_mask)

lemma RING_MINUS_RING_PLUS:
  assumes "n < LENGTH('a)" and "unat v < 2 ^ n"
  shows "RING_MINUS (RING_PLUS v a (2 ^ n)) a (2 ^ n) = (v :: 'a :: len word)"
proof -
  have "RING_MINUS (RING_PLUS v a (2 ^ n)) a (2 ^ n) = (v + a - a) AND mask n"
    by (simp only: RING_MINUS_def RING_PLUS_def two_power_minus_one_mask mask_eqs)
  also have "\<dots> = v"
    using assms(2) by (intro word_eq_unatI) (simp add: unat_and_mask)
  finally show ?thesis .
qed

section \<open>Exponentiation\<close>

lemma div_less_word_iff:
  "base \<noteq> 0 \<Longrightarrow> (r > U64_MAX div base) \<longleftrightarrow> 2 ^ 64 \<le> unat r * unat (base :: u64)"
proof -
  assume "base \<noteq> 0"
  then have "0 < unat base" by (simp add: unat_gt_0)
  have "(r > U64_MAX div base) \<longleftrightarrow> unat (U64_MAX) div unat base < unat r"
    by (simp add: word_less_nat_alt unat_div_distrib)
  also have "\<dots> \<longleftrightarrow> 2 ^ 64 - 1 < unat r * unat base"
    using \<open>0 < unat base\<close> by (simp add: div_less_iff_less_mult)
  finally show ?thesis by auto
qed

lemma power_square_step:
  assumes "unat base * unat base < 2 ^ 64" and "(result :: nat) * unat base ^ k = p"
  shows "even k \<Longrightarrow> result * unat (base * base :: u64) ^ (k div 2) = p"
    and "odd k \<Longrightarrow> result * unat base * unat (base * base) ^ (k div 2) = p"
proof -
  have sq: "unat (base * base) = unat base ^ 2"
    using assms(1) by (simp add: unat_mult_nowrap power2_eq_square)
  show "even k \<Longrightarrow> result * unat (base * base) ^ (k div 2) = p"
    using assms(2) by (auto simp: sq power_mult [symmetric] elim: evenE)
  show "odd k \<Longrightarrow> result * unat base * unat (base * base) ^ (k div 2) = p"
    using assms(2) by (auto simp: sq power_mult [symmetric] elim!: oddE)
qed

lemma power_square_overflow:
  assumes "2 ^ 64 \<le> unat base * unat (base :: u64)" and "2 \<le> k"
  shows "result = 0 \<or> 2 ^ 64 \<le> (result :: nat) * unat base ^ k"
proof (cases "result = 0")
  case False
  have "unat base * unat base = unat base ^ 2" by (simp add: power2_eq_square)
  also have "\<dots> \<le> unat base ^ k"
    using assms by (intro power_increasing) (auto simp: Suc_le_eq unat_gt_0 intro: ccontr)
  also have "\<dots> \<le> result * unat base ^ k" using False by simp
  finally show ?thesis using assms(1) by simp
qed simp

lemma power_loop_odd_bit: "e AND 1 = (1 :: u64) \<longleftrightarrow> odd (unat e)"
  by (simp add: and_one_eq odd_iff_mod_2_eq_one word_unat_eq_iff unat_mod_distrib)

lemma power_loop_even_step:
  assumes "base \<noteq> 0" "2 \<le> unat e" "even (unat e)" "unat base * unat base < 2 ^ 64"
  shows "power_loop result base e = power_loop result (base * base) (drop_bit 1 e)"
proof -
  have "\<not> U64_MAX div base < base" "e AND 1 \<noteq> 1" "e \<noteq> 0"
    using assms by (auto simp: div_less_word_iff power_loop_odd_bit)
  then show ?thesis
    using assms(1) by (subst power_loop.simps) simp
qed

lemma power_loop_odd_step:
  assumes "base \<noteq> 0" "2 \<le> unat e" "odd (unat e)" "unat base * unat base < 2 ^ 64"
    and "unat result * unat base < 2 ^ 64"
  shows "power_loop result base e = power_loop (result * base) (base * base) (drop_bit 1 e)"
proof -
  have "\<not> U64_MAX div base < base" "\<not> U64_MAX div base < result" "e AND 1 = 1" "e \<noteq> 0" "e \<noteq> 1"
    using assms by (auto simp: div_less_word_iff power_loop_odd_bit)
  then show ?thesis
    using assms(1) by (subst power_loop.simps) (simp add: Let_def)
qed

lemma power_loop_result_overflow:
  assumes "base \<noteq> 0" "odd (unat e)" "2 ^ 64 \<le> unat result * unat base"
  shows "power_loop result base e = Some 0" and "2 ^ 64 \<le> unat result * unat base ^ unat e"
proof -
  have "e AND 1 = 1" "U64_MAX div base < result" "e \<noteq> 0"
    using assms by (auto simp: div_less_word_iff power_loop_odd_bit)
  then show "power_loop result base e = Some 0"
    using assms(1) by (subst power_loop.simps) (simp add: Let_def)
  have "unat base \<le> unat base ^ unat e"
    using assms(1,2) by (intro self_le_power) (auto simp: Suc_le_eq unat_gt_0 odd_pos)
  then have "unat result * unat base \<le> unat result * unat base ^ unat e" by (rule mult_le_mono2)
  with assms(3) show "2 ^ 64 \<le> unat result * unat base ^ unat e" by linarith
qed

lemma power_loop_square_overflow:
  assumes "base \<noteq> 0" "2 \<le> unat e" "2 ^ 64 \<le> unat base * unat base"
  shows "power_loop result base e = Some 0"
proof -
  have "U64_MAX div base < base" "e \<noteq> 0" "e \<noteq> 1"
    using assms by (auto simp: div_less_word_iff)
  then show ?thesis
    using assms(1) by (subst power_loop.simps) (simp add: Let_def)
qed

lemma power_loop_eq:
  assumes "base \<noteq> 0"
  shows "power_loop result base e =
    Some (let p = unat result * unat base ^ unat e in if p < 2 ^ 64 then of_nat p else 0)"
  using assms
proof (induction "unat e" arbitrary: result base e rule: less_induct)
  case less
  let ?p = "unat result * unat base ^ unat e"
  have e2: "unat (drop_bit 1 e) = unat e div 2"
    by (simp only: unat_drop_bit power_one_right)
  have sq: "base * base \<noteq> 0" if "unat base * unat base < 2 ^ 64"
  proof -
    have "unat (base * base) \<noteq> 0"
      using that less.prems by (simp add: unat_mult_nowrap unat_0_iff)
    then show ?thesis by (metis unat_0)
  qed
  consider (zero) "e = 0" | (res) "odd (unat e)" "2 ^ 64 \<le> unat result * unat base"
    | (one) "e = 1" "unat result * unat base < 2 ^ 64"
    | (square) "2 \<le> unat e" "2 ^ 64 \<le> unat base * unat base"
    | (ev) "2 \<le> unat e" "unat base * unat base < 2 ^ 64" "even (unat e)"
    | (od) "2 \<le> unat e" "unat base * unat base < 2 ^ 64" "odd (unat e)"
        "unat result * unat base < 2 ^ 64"
  proof (cases "unat e < 2")
    case True
    then have "e = 0 \<or> e = 1" by (auto simp: less_2_cases_iff word_unat_eq_iff)
    with that(1-3) show ?thesis
      by (cases "2 ^ 64 \<le> unat result * unat base") (auto simp: not_le)
  next
    case False
    then show ?thesis using that(2,4-6) by (metis not_le)
  qed
  then show ?case
  proof cases
    case zero
    then show ?thesis
      using unat_lt_u64 [of result] by (subst power_loop.simps) (simp add: Let_def)
  next
    case res
    then show ?thesis
      using power_loop_result_overflow [OF less.prems res] by (simp add: Let_def)
  next
    case one
    then show ?thesis
      using less.prems by (subst power_loop.simps) (simp add: div_less_word_iff Let_def)
  next
    case square
    then show ?thesis
      using power_square_overflow [of base "unat e" "unat result"] less.prems
      by (auto simp: power_loop_square_overflow Let_def unat_0_iff)
  next
    case ev
    have "power_loop result base e = power_loop result (base * base) (drop_bit 1 e)"
      using less.prems ev by (intro power_loop_even_step)
    also have "\<dots> = Some (let p = unat result * unat (base * base) ^ unat (drop_bit 1 e)
        in if p < 2 ^ 64 then of_nat p else 0)"
      using ev sq by (intro less.hyps) (auto simp: e2 [simplified])
    finally show ?thesis
      by (simp only: e2 power_square_step(1) [OF ev(2) refl ev(3)])
  next
    case od
    have "power_loop result base e = power_loop (result * base) (base * base) (drop_bit 1 e)"
      using less.prems od by (intro power_loop_odd_step)
    also have "\<dots> = Some (let p = unat (result * base) * unat (base * base) ^ unat (drop_bit 1 e)
        in if p < 2 ^ 64 then of_nat p else 0)"
      using od sq by (intro less.hyps) (auto simp: e2 [simplified])
    also have "unat (result * base) = unat result * unat base"
      using od(4) by (simp add: unat_mult_nowrap)
    finally show ?thesis
      by (simp only: e2 power_square_step(2) [OF od(2) refl od(3)])
  qed
qed

section \<open>The next power of two\<close>

lemma bit_smear_step:
  assumes "\<And>j. bit (y :: u64) j \<longleftrightarrow> (\<exists>i < k. bit (x :: u64) (j + i))"
  shows "bit (y OR drop_bit k y) j \<longleftrightarrow> (\<exists>i < 2 * k. bit x (j + i))"
proof -
  have "bit (y OR drop_bit k y) j \<longleftrightarrow> (\<exists>i < k. bit x (j + i)) \<or> (\<exists>i < k. bit x (j + (k + i)))"
    using assms by (simp add: bit_or_iff bit_drop_bit_eq ac_simps)
  also have "\<dots> \<longleftrightarrow> (\<exists>i < 2 * k. bit x (j + i))"
  proof
    assume "\<exists>i < 2 * k. bit x (j + i)"
    then obtain i where "i < 2 * k" "bit x (j + i)" by blast
    then show "(\<exists>i < k. bit x (j + i)) \<or> (\<exists>i < k. bit x (j + (k + i)))"
      by (cases "i < k") (auto dest!: spec [where x = "i - k"] simp: not_less)
  next
    assume "(\<exists>i < k. bit x (j + i)) \<or> (\<exists>i < k. bit x (j + (k + i)))"
    then show "\<exists>i < 2 * k. bit x (j + i)"
      by (metis add_strict_left_mono mult_2 trans_less_add1)
  qed
  finally show ?thesis .
qed

lemma bit_imp_le_top:
  assumes "bit (w :: u64) j" "unat w < 2 ^ Suc t"
  shows "j \<le> t"
proof (rule ccontr)
  assume "\<not> j \<le> t"
  then have "unat w < 2 ^ j"
    using assms(2) power_increasing [of "Suc t" j "2 :: nat"] by (simp add: not_le Suc_le_eq)
  then show False using assms(1) by (simp add: bit_unat_iff_odd)
qed

lemma smear_eq_mask:
  assumes "\<And>j. bit (y :: u64) j \<longleftrightarrow> (\<exists>i < 64. bit (x :: u64) (j + i))" "2 ^ t \<le> unat x" "unat x < 2 ^ Suc t" "t < 64"
  shows "y = mask (Suc t)"
proof (rule bit_word_eqI)
  fix j assume "j < LENGTH(64)"
  have "unat x div 2 ^ t = 1" using assms by (intro div_nat_eqI) auto
  then have "bit x t" by (simp add: bit_unat_iff_odd)
  then have "j \<le> t \<Longrightarrow> bit y j" using assms(1,4) by (auto intro!: exI [where x = "t - j"])
  moreover have "bit y j \<Longrightarrow> j \<le> t" using bit_imp_le_top [OF _ assms(3)] assms(1) by fastforce
  ultimately show "bit y j \<longleftrightarrow> bit (mask (Suc t) :: u64) j"
    using \<open>j < LENGTH(64)\<close> by (auto simp: bit_mask_iff less_Suc_eq_le)
qed

lemma NEXT_POWER_OF_2_top:
  assumes "x - 1 \<noteq> (0 :: u64)"
  obtains t where "NEXT_POWER_OF_2 x = 2 ^ Suc t" "2 ^ t \<le> unat (x - 1)" "unat (x - 1) < 2 ^ Suc t" "t < 64"
proof -
  obtain t where t: "t < 64" "2 ^ t \<le> unat (x - 1)" "unat (x - 1) < 2 ^ Suc t"
    using word_top_bit [OF assms] by auto
  define x1 x2 x3 x4 x5 x6 where "x1 = x - 1" and "x2 = x1 OR drop_bit 1 x1" and "x3 = x2 OR drop_bit 2 x2"
    and "x4 = x3 OR drop_bit 4 x3" and "x5 = x4 OR drop_bit 8 x4" and "x6 = x5 OR drop_bit 16 x5"
  have s1: "bit x1 j \<longleftrightarrow> (\<exists>i < 1. bit x1 (j + i))" for j by simp
  have s2: "bit x2 j \<longleftrightarrow> (\<exists>i < 2. bit x1 (j + i))" for j using bit_smear_step [OF s1] by (simp add: x2_def)
  have s3: "bit x3 j \<longleftrightarrow> (\<exists>i < 4. bit x1 (j + i))" for j using bit_smear_step [OF s2] by (simp add: x3_def)
  have s4: "bit x4 j \<longleftrightarrow> (\<exists>i < 8. bit x1 (j + i))" for j using bit_smear_step [OF s3] by (simp add: x4_def)
  have s5: "bit x5 j \<longleftrightarrow> (\<exists>i < 16. bit x1 (j + i))" for j using bit_smear_step [OF s4] by (simp add: x5_def)
  have s6: "bit x6 j \<longleftrightarrow> (\<exists>i < 32. bit x1 (j + i))" for j using bit_smear_step [OF s5] by (simp add: x6_def)
  have s7: "bit (x6 OR drop_bit 32 x6) j \<longleftrightarrow> (\<exists>i < 64. bit x1 (j + i))" for j using bit_smear_step [OF s6] by simp
  have "x6 OR drop_bit 32 x6 = mask (Suc t)"
    using s7 t by (intro smear_eq_mask) (simp_all add: x1_def)
  moreover have "NEXT_POWER_OF_2 x = (x6 OR drop_bit 32 x6) + 1"
    by (simp add: NEXT_POWER_OF_2_def Let_def x1_def x2_def x3_def x4_def x5_def x6_def)
  ultimately have "NEXT_POWER_OF_2 x = 2 ^ Suc t"
    by (simp add: mask_eq_exp_minus_1)
  then show thesis using that t by blast
qed

section \<open>Properties\<close>

text \<open>
  \<^verbatim>\<open>ALIGN_UP_VALUE\<close> and \<^verbatim>\<open>ALIGN_DOWN_VALUE\<close> on a power of two return the least multiple not
  below and the greatest multiple not above the value, as long as rounding up does not wrap.
\<close>

theorem align_nearest_multiple:
  assumes "n < 64" "unat v + (2 ^ n - 1) < 2 ^ 64"
  shows "2 ^ n dvd unat (ALIGN_UP_VALUE v (2 ^ n)) \<and> unat v \<le> unat (ALIGN_UP_VALUE v (2 ^ n)) \<and>
    unat (ALIGN_UP_VALUE v (2 ^ n)) < unat (v :: u64) + 2 ^ n \<and>
    2 ^ n dvd unat (ALIGN_DOWN_VALUE v (2 ^ n)) \<and> unat (ALIGN_DOWN_VALUE v (2 ^ n)) \<le> unat v \<and>
    unat v < unat (ALIGN_DOWN_VALUE v (2 ^ n)) + 2 ^ n"
proof -
  have up: "unat (ALIGN_UP_VALUE v (2 ^ n)) = (unat v + (2 ^ n - 1)) div 2 ^ n * 2 ^ n"
    using assms by (intro unat_ALIGN_UP_VALUE) simp_all
  have "(unat v + (2 ^ n - 1)) mod 2 ^ n < 2 ^ n" "unat v mod 2 ^ n < 2 ^ n" by simp_all
  moreover have "(unat v + (2 ^ n - 1)) div 2 ^ n * 2 ^ n + (unat v + (2 ^ n - 1)) mod 2 ^ n = unat v + (2 ^ n - 1)"
    "unat v div 2 ^ n * 2 ^ n + unat v mod 2 ^ n = unat v" by (rule div_mult_mod_eq)+
  ultimately show ?thesis
    unfolding up unat_ALIGN_DOWN_VALUE by - (intro conjI; (rule dvd_triv_right | linarith))
qed

theorem align_nearest_multiple_witness:
  "unat (ALIGN_UP_VALUE 4097 (2 ^ 12) :: u64) < 4097 + 2 ^ 12 \<and> unat (ALIGN_DOWN_VALUE 4097 (2 ^ 12) :: u64) \<le> 4097"
  using align_nearest_multiple [of 12 4097] by simp

text \<open>
  \<^verbatim>\<open>NEXT_POWER_OF_2\<close> on a \<^verbatim>\<open>U64\<close> returns the least power of two that is not below its argument.
\<close>

theorem NEXT_POWER_OF_2_least:
  assumes "1 \<le> unat x" "unat x \<le> 2 ^ 63"
  shows "\<exists>t. NEXT_POWER_OF_2 (x :: u64) = 2 ^ t \<and> t < 64 \<and> unat x \<le> 2 ^ t \<and> (\<forall>k. unat x \<le> 2 ^ k \<longrightarrow> t \<le> k)"
proof (cases "x = 1")
  case True
  then show ?thesis by (intro exI [where x = 0]) (simp add: NEXT_POWER_OF_2_def)
next
  case False
  then have "x - 1 \<noteq> 0" by simp
  then obtain t where t: "NEXT_POWER_OF_2 x = 2 ^ Suc t" "2 ^ t \<le> unat (x - 1)" "unat (x - 1) < 2 ^ Suc t"
    by (rule NEXT_POWER_OF_2_top)
  have u: "unat (x - 1) = unat x - 1" using assms(1) by (simp add: unat_sub_nowrap)
  have "(2 :: nat) ^ t < 2 ^ 63" using t(2) u assms by simp
  then have "t < 63" by (rule power_less_imp_less_exp [rotated]) simp
  moreover have "Suc t \<le> k" if "unat x \<le> 2 ^ k" for k
  proof -
    have "(2 :: nat) ^ t < 2 ^ k" using that t(2) u assms(1) by linarith
    then show ?thesis using power_less_imp_less_exp [of "2 :: nat" t k] by simp
  qed
  ultimately show ?thesis
    using t u assms by (intro exI [where x = "Suc t"]) auto
qed

theorem NEXT_POWER_OF_2_least_witness:
  "\<exists>t. NEXT_POWER_OF_2 (1000 :: u64) = 2 ^ t \<and> t < 64 \<and> 1000 \<le> (2 ^ t :: nat)"
  using NEXT_POWER_OF_2_least [of 1000] by auto

text \<open>
  \<^verbatim>\<open>power\<close> returns the exact power when it fits in 64 bits and 0 when it does not; it never
  returns a wrapped product.
\<close>

theorem power_correct:
  assumes "base \<noteq> 0"
  shows "power base e = Some (if unat base ^ unat e < 2 ^ 64 then of_nat (unat base ^ unat e) else 0)"
  using power_loop_eq [OF assms, of 1 e] by (simp add: power_def Let_def)

theorem power_correct_witness: "power 10 19 = Some (10 ^ 19) \<and> power 10 20 = Some 0"
  using power_correct [of 10 19] power_correct [of 10 20] by simp

end
