(* ===== verification/Text.thy ===== *)
theory Text
  imports Maths "HOL-Library.Signed_Division"
begin

text \<open>
  \<^verbatim>\<open>shared/text\<close>: strings (\<^verbatim>\<open>string.h\<close>), the conversion of values to text (\<^verbatim>\<open>converter.c\<close>) and
  the number parser (\<^verbatim>\<open>parser.c\<close>). A \<^verbatim>\<open>string\<close>, a pointer and a length, is the list of the bytes
  it refers to; a failed \<^verbatim>\<open>ASSERT\<close> and an access outside of a buffer are \<open>None\<close>. A position of
  type \<^verbatim>\<open>U64\<close> is a natural number except where the code relies on its wrapping.
\<close>

definition ascii :: "string \<Rightarrow> bytes" where "ascii s = map of_char s"

section \<open>Strings\<close>

definition EMPTY_STRING :: bytes where "EMPTY_STRING = []"

definition STRING_APPEND :: "bytes \<Rightarrow> bytes \<Rightarrow> bytes" where
  "STRING_APPEND string1 string2 = string1 @ string2"

definition stringEquals :: "bytes \<Rightarrow> bytes \<Rightarrow> bool" where
  "stringEquals a b \<longleftrightarrow> length a = length b \<and> (length a = 0 \<or> take (length a) a = take (length a) b)"

text \<open>The destination buffer after the copy and the returned string.\<close>

definition stringCopy :: "bytes \<Rightarrow> bytes \<Rightarrow> (bytes \<times> bytes) option" where
  "stringCopy dest src =
     (if length dest \<ge> length src
      then let d = src @ drop (length src) dest in Some (d, take (length src) d) else None)"

definition getChar :: "bytes \<Rightarrow> nat \<Rightarrow> u8 option" where
  "getChar str index = (if index < length str then Some (str ! index) else None)"

definition getCharOr :: "bytes \<Rightarrow> nat \<Rightarrow> u8 \<Rightarrow> u8" where
  "getCharOr str index orElse = (if index \<ge> length str then orElse else str ! index)"

primrec containsChar :: "bytes \<Rightarrow> u8 \<Rightarrow> bool" where
  "containsChar [] ch = False"
| "containsChar (x # xs) ch = (if x = ch then True else containsChar xs ch)"

text \<open>The scan of a \<^verbatim>\<open>for\<close> loop: the first index from \<open>i\<close> on that holds the character.\<close>

function find_from :: "bytes \<Rightarrow> u8 \<Rightarrow> nat \<Rightarrow> nat option" where
  "find_from s ch i =
     (if i < length s then (if s ! i = ch then Some i else find_from s ch (i + 1)) else None)"
  by pat_completeness auto

termination
  by (relation "measure (\<lambda>(s, ch, i). length s - i)") auto

declare find_from.simps [simp del]

definition splitString :: "bytes \<Rightarrow> u8 \<Rightarrow> nat \<Rightarrow> bytes option" where
  "splitString s token from =
     (if from < length s
      then (case find_from s token from of
              Some i \<Rightarrow> Some (take (i - from) (drop from s))
            | None \<Rightarrow> Some (take (length s - from) (drop from s)))
      else None)"

text \<open>The strings that the body of \<^verbatim>\<open>TOKENIZE_STRING\<close> sees, in order.\<close>

function TOKENIZE_STRING :: "bytes \<Rightarrow> u8 \<Rightarrow> nat \<Rightarrow> bytes list" where
  "TOKENIZE_STRING s token pos =
     (if pos < length s
      then (case splitString s token pos of
              None \<Rightarrow> []
            | Some str \<Rightarrow> str # TOKENIZE_STRING s token (pos + length str + 1))
      else [])"
  by pat_completeness auto

termination
  by (relation "measure (\<lambda>(s, t, pos). length s - pos)") auto

declare TOKENIZE_STRING.simps [simp del]

definition firstOccurenceOfFrom :: "bytes \<Rightarrow> u8 \<Rightarrow> nat \<Rightarrow> int option" where
  "firstOccurenceOfFrom s ch from =
     (if from < length s then (case find_from s ch from of Some i \<Rightarrow> Some (int i) | None \<Rightarrow> Some (- 1)) else None)"

definition firstOccurenceOf :: "bytes \<Rightarrow> u8 \<Rightarrow> int option" where
  "firstOccurenceOf s ch = firstOccurenceOfFrom s ch 0"

text \<open>
  \<^verbatim>\<open>lastOccurenceOf\<close> counts down in \<^verbatim>\<open>U64\<close> while the index is at least the length; a read at
  such an index is outside of the string.
\<close>

definition lastOccurenceOf :: "bytes \<Rightarrow> u8 \<Rightarrow> int option" where
  "lastOccurenceOf s ch =
     (let i = of_nat (length s) - 1 :: u64 in
      if i \<ge> of_nat (length s) then None else Some (- 1))"

section \<open>Conversion to text\<close>

definition STRING_CONVERTER_BUF_LEN :: nat where "STRING_CONVERTER_BUF_LEN = 1024"

definition stringToString :: "bytes \<Rightarrow> bytes" where "stringToString data = data"

definition charToString :: "u8 \<Rightarrow> bytes" where "charToString data = [data]"

definition boolToString :: "bool \<Rightarrow> bytes" where
  "boolToString data = (if data then ascii ''true'' else ascii ''false'')"

definition hexString :: bytes where "hexString = ascii ''0123456789ABCDEF''"

definition ptrToString :: "u64 \<Rightarrow> bytes" where
  "ptrToString u =
     (let buf = ascii ''0x'' @ map (\<lambda>i. hexString ! unat (drop_bit (4 * i) u AND 15)) (rev [0..<16]);
          counter = length buf in
      take (counter - 1) buf)"

text \<open>The digits are written backwards from the end of the buffer; \<open>acc\<close> holds those written.\<close>

function U64_digits :: "u64 \<Rightarrow> bytes \<Rightarrow> bytes" where
  "U64_digits data acc =
     (let acc' = (48 + ucast (data mod 10)) # acc; data' = data div 10 in
      if data' \<noteq> 0 then U64_digits data' acc' else acc')"
  by pat_completeness auto

termination
proof (relation "measure (\<lambda>(data, acc). unat data)", goal_cases)
  case (2 data acc acc' data')
  then have "0 < unat data" by (auto simp: unat_gt_0)
  then have "unat (data div 10) < unat data" by (simp add: unat_div_distrib)
  then show ?case using 2 by simp
qed simp

declare U64_digits.simps [simp del]

definition U64ToString :: "u64 \<Rightarrow> nat \<Rightarrow> bytes option" where
  "U64ToString data len = (let s = U64_digits data [] in if length s \<le> len then Some s else None)"

text \<open>\<^verbatim>\<open>I64\<close> is the integer it stands for; \<^verbatim>\<open>%\<close> and \<^verbatim>\<open>/\<close> round towards zero.\<close>

function I64_digits :: "int \<Rightarrow> bytes \<Rightarrow> bytes" where
  "I64_digits t acc =
     (let acc' = (48 - word_of_int (t smod 10)) # acc; t' = t sdiv 10 in
      if t' \<noteq> 0 then I64_digits t' acc' else acc')"
  by pat_completeness auto

termination
  by (relation "measure (\<lambda>(t, acc). nat \<bar>t\<bar>)") (auto simp: signed_divide_int_def abs_mult sgn_if split: if_splits)

declare I64_digits.simps [simp del]

definition I64ToString :: "int \<Rightarrow> nat \<Rightarrow> bytes option" where
  "I64ToString data len =
     (let t = (if data > 0 then - data else data);
          s = I64_digits t [];
          s' = (if data < 0 then 45 # s else s) in
      if length s' \<le> len then Some s' else None)"

definition stringWithMinSize :: "bytes \<Rightarrow> u8 \<Rightarrow> nat \<Rightarrow> bytes option" where
  "stringWithMinSize data minSize len =
     (if length data \<ge> unat minSize then Some data
      else if unat minSize \<le> len
        then let extraSpace = unat minSize - length data in Some (data @ replicate extraSpace 32)
        else None)"

definition noAppend :: "bytes option" where "noAppend = None"

text \<open>The alternatives of \<^verbatim>\<open>CONVERT_TO_STRING\<close>, selected by the type of the argument.\<close>

datatype Convertible = CString bytes | CChar u8 | CBool bool | CPtr u64
  | CU8 u8 | CI8 "8 word" | CU16 u16 | CI16 "16 word" | CU32 u32 | CI32 "32 word" | CU64 u64 | CI64 "64 word" | COther

fun CONVERT_TO_STRING :: "Convertible \<Rightarrow> bytes option" where
  "CONVERT_TO_STRING (CString s) = Some (stringToString s)"
| "CONVERT_TO_STRING (CChar c) = Some (charToString c)"
| "CONVERT_TO_STRING (CBool b) = Some (boolToString b)"
| "CONVERT_TO_STRING (CPtr p) = Some (ptrToString p)"
| "CONVERT_TO_STRING (CU8 n) = U64ToString (ucast n) STRING_CONVERTER_BUF_LEN"
| "CONVERT_TO_STRING (CI8 n) = I64ToString (sint n) STRING_CONVERTER_BUF_LEN"
| "CONVERT_TO_STRING (CU16 n) = U64ToString (ucast n) STRING_CONVERTER_BUF_LEN"
| "CONVERT_TO_STRING (CI16 n) = I64ToString (sint n) STRING_CONVERTER_BUF_LEN"
| "CONVERT_TO_STRING (CU32 n) = U64ToString (ucast n) STRING_CONVERTER_BUF_LEN"
| "CONVERT_TO_STRING (CI32 n) = I64ToString (sint n) STRING_CONVERTER_BUF_LEN"
| "CONVERT_TO_STRING (CU64 n) = U64ToString n STRING_CONVERTER_BUF_LEN"
| "CONVERT_TO_STRING (CI64 n) = I64ToString (sint n) STRING_CONVERTER_BUF_LEN"
| "CONVERT_TO_STRING COther = noAppend"

section \<open>Parsing\<close>

definition parseU32 :: "bytes \<Rightarrow> u8 \<Rightarrow> u32" where
  "parseU32 val base = foldl (\<lambda>result c. result * ucast base + ucast (c - 48)) 0 val"

definition parseU16 :: "bytes \<Rightarrow> u8 \<Rightarrow> u16" where
  "parseU16 val base = foldl (\<lambda>result c. result * ucast base + ucast (c - 48)) 0 val"


section \<open>Decimal notation\<close>

text \<open>Reference: the value a string of digits denotes, and the decimal notation of a number.\<close>

definition decimal_value :: "bytes \<Rightarrow> nat" where
  "decimal_value = foldl (\<lambda>n c. n * 10 + (unat c - 48)) 0"

definition is_digit :: "u8 \<Rightarrow> bool" where "is_digit c \<longleftrightarrow> 48 \<le> unat c \<and> unat c \<le> 57"

fun decimal :: "nat \<Rightarrow> bytes" where
  "decimal n = (if n < 10 then [of_nat (48 + n)] else decimal (n div 10) @ [of_nat (48 + n mod 10)])"

declare decimal.simps [simp del]

lemma unat_digit: "n < 10 \<Longrightarrow> unat (of_nat (48 + n) :: u8) = 48 + n"
  by (subst unat_of_nat_lt) simp_all

lemma decimal_spec:
  "decimal_value (decimal n) = n \<and> list_all is_digit (decimal n) \<and> decimal n \<noteq> [] \<and>
   (n \<noteq> 0 \<longrightarrow> hd (decimal n) \<noteq> 48)"
proof (induction n rule: decimal.induct)
  case (1 n)
  show ?case
  proof (cases "n < 10")
    case True
    have h: "hd [of_nat (48 + n) :: u8] \<noteq> 48" if "n \<noteq> 0"
    proof
      assume "hd [of_nat (48 + n) :: u8] = 48"
      then have "unat (of_nat (48 + n) :: u8) = unat (48 :: u8)" by simp
      then show False using that unat_digit [OF True] by simp
    qed
    show ?thesis using True h unat_digit [OF True]
      by (subst (1 2 3 4) decimal.simps) (simp add: decimal_value_def is_digit_def del: of_nat_add)
  next
    case False
    then have ih: "decimal_value (decimal (n div 10)) = n div 10" "list_all is_digit (decimal (n div 10))"
        "decimal (n div 10) \<noteq> []" "hd (decimal (n div 10)) \<noteq> 48"
      using 1 by auto
    have "unat (of_nat (48 + n mod 10) :: u8) = 48 + n mod 10" by (rule unat_digit) simp
    then show ?thesis using False ih
      by (subst (1 2 3 4) decimal.simps) (auto simp: decimal_value_def is_digit_def)
  qed
qed

lemma U64_digits_decimal: "U64_digits data acc = decimal (unat data) @ acc"
proof (induction data acc rule: U64_digits.induct)
  case (1 data acc)
  have d: "48 + ucast (data mod 10) = (of_nat (48 + unat data mod 10) :: u8)"
  proof -
    have "ucast (data mod 10) = (of_nat (unat (data mod 10)) :: u8)" by simp
    moreover have "unat (data mod 10) = unat data mod 10" by (simp add: unat_mod_distrib)
    ultimately show ?thesis by (simp only: of_nat_add of_nat_numeral)
  qed
  have q: "unat (data div 10) = unat data div 10" by (simp add: unat_div_distrib)
  show ?case
  proof (cases "data div 10 = 0")
    case True
    then have "unat data < 10" using q by simp
    then show ?thesis using True d by (subst U64_digits.simps, subst decimal.simps) simp
  next
    case False
    then have "\<not> unat data < 10" using q by (metis div_less unat_0 word_eq_unatI)
    then show ?thesis using False d q 1 [OF refl refl False]
      by (subst U64_digits.simps, subst decimal.simps) (simp add: Let_def)
  qed
qed

lemma length_decimal: "n < 10 ^ k \<Longrightarrow> 0 < k \<Longrightarrow> length (decimal n) \<le> k"
proof (induction k arbitrary: n)
  case (Suc k)
  show ?case
  proof (cases "n < 10")
    case True then show ?thesis by (subst decimal.simps) simp
  next
    case False
    then have "k \<noteq> 0" using Suc.prems(1) by (cases k) auto
    moreover have "n div 10 < 10 ^ k" using Suc.prems(1) by (simp add: less_mult_imp_div_less mult.commute)
    ultimately show ?thesis using Suc.IH [of "n div 10"] False by (subst decimal.simps) simp
  qed
qed simp

lemma parse_fold:
  fixes r :: "'a :: len word"
  assumes "list_all is_digit s"
  shows "foldl (\<lambda>result c. result * 10 + ucast (c - 48)) (of_nat n) s =
    (of_nat (foldl (\<lambda>n c. n * 10 + (unat c - 48)) n s) :: 'a :: len word)"
  using assms
proof (induction s arbitrary: n)
  case (Cons c s)
  then have c: "48 \<le> unat c" by (simp add: is_digit_def)
  have "(ucast (c - 48) :: 'a word) = of_nat (unat (c - 48))" by simp
  also have "unat (c - 48) = unat c - 48" using c by (subst unat_sub_nowrap) simp_all
  finally have u: "(ucast (c - 48) :: 'a word) = of_nat (unat c - 48)" .
  have s: "of_nat n * 10 + (ucast (c - 48) :: 'a word) = of_nat (n * 10 + (unat c - 48))"
    unfolding u by (simp only: of_nat_add of_nat_mult of_nat_numeral)
  show ?case using Cons.IH [of "n * 10 + (unat c - 48)"] Cons.prems by (simp only: foldl_Cons s list.pred_inject)
qed simp

lemma parse_decimal:
  "parseU32 (decimal n) 10 = of_nat n" "parseU16 (decimal n) 10 = of_nat n"
  using parse_fold [where 'a = 32, of "decimal n" 0] parse_fold [where 'a = 16, of "decimal n" 0] decimal_spec [of n]
  by (simp_all add: parseU32_def parseU16_def decimal_value_def)

lemma U64ToString_decimal: "20 \<le> len \<Longrightarrow> U64ToString data len = Some (decimal (unat data))"
proof -
  assume l: "20 \<le> len"
  have "unat data < 10 ^ 20" using unat_lt_u64 [of data] by simp
  then have "length (decimal (unat data)) \<le> 20" by (rule length_decimal) simp
  then show ?thesis using l by (simp add: U64ToString_def U64_digits_decimal)
qed

text \<open>
  C35. \<^verbatim>\<open>U64ToString\<close> with a buffer of at least 20 bytes produces the decimal notation of the number:
  only digits, no leading zero, at most 20 of them, denoting exactly the number; parsing it with
  \<^verbatim>\<open>parseU32\<close> or \<^verbatim>\<open>parseU16\<close> gives the number back modulo their width.
\<close>

theorem U64ToString_roundtrip:
  assumes "20 \<le> len"
  shows "\<exists>s. U64ToString data len = Some s \<and> decimal_value s = unat data \<and> list_all is_digit s \<and>
    (data \<noteq> 0 \<longrightarrow> hd s \<noteq> 48) \<and> s \<noteq> [] \<and> length s \<le> 20 \<and>
    parseU32 s 10 = ucast data \<and> parseU16 s 10 = ucast data"
proof -
  have "unat data < 10 ^ 20" using unat_lt_u64 [of data] by simp
  then have "length (decimal (unat data)) \<le> 20" by (rule length_decimal) simp
  then show ?thesis
    using U64ToString_decimal [OF assms] decimal_spec [of "unat data"] parse_decimal [of "unat data"]
    by (auto simp: unat_eq_zero)
qed

theorem U64ToString_roundtrip_witness:
  "20 \<le> STRING_CONVERTER_BUF_LEN \<and>
   (\<exists>s. U64ToString 65536 STRING_CONVERTER_BUF_LEN = Some s \<and> decimal_value s = 65536 \<and> parseU32 s 10 = 65536 \<and> parseU16 s 10 = 0)"
  using U64ToString_roundtrip [of STRING_CONVERTER_BUF_LEN 65536] by (auto simp: STRING_CONVERTER_BUF_LEN_def)

lemma I64_digits_decimal:
  "0 \<le> n \<Longrightarrow> I64_digits (- n) acc = decimal (nat n) @ acc"
proof (induction "nat n" arbitrary: n acc rule: less_induct)
  case less
  have m: "(- n) smod 10 = - (n mod 10)" and q: "(- n) sdiv 10 = - (n div 10)"
    using less.prems by (auto simp: signed_modulo_int_def signed_divide_int_def sgn_if minus_div_mult_eq_mod[symmetric])
  have nm: "nat (n mod 10) = nat n mod 10" "nat (n div 10) = nat n div 10"
    using less.prems by (simp_all add: nat_mod_distrib nat_div_distrib)
  have "48 - word_of_int (- (n mod 10)) = (of_nat (48 + nat n mod 10) :: u8)"
  proof -
    have "word_of_int (n mod 10) = (of_nat (nat (n mod 10)) :: u8)" by (simp add: of_nat_nat)
    then show ?thesis using nm(1) by (simp add: word_of_int_minus)
  qed
  then have e: "I64_digits (- n) acc =
      (if n div 10 \<noteq> 0 then I64_digits (- (n div 10)) (of_nat (48 + nat n mod 10) # acc) else of_nat (48 + nat n mod 10) # acc)"
    by (subst I64_digits.simps) (simp only: m q Let_def neg_equal_0_iff_equal)
  show ?case
  proof (cases "n < 10")
    case True
    then have "n div 10 = 0" "nat n < 10" using less.prems by auto
    then show ?thesis using e by (subst decimal.simps) simp
  next
    case False
    then have lt: "nat (n div 10) < nat n" and pos: "n div 10 \<noteq> 0" using less.prems by auto
    have "\<not> nat n < 10" using False by simp
    moreover have "0 \<le> n div 10" using less.prems by simp
    ultimately show ?thesis using e pos nm(2) less.hyps [OF lt]
      by (subst decimal.simps) simp
  qed
qed

text \<open>
  \<^verbatim>\<open>I64ToString\<close> is correct on every 64-bit signed value, the most negative included: the decimal
  notation of the absolute value, preceded by a minus sign exactly when the value is negative.
\<close>

theorem I64ToString_correct:
  "CONVERT_TO_STRING (CI64 x) =
     Some ((if sint x < 0 then [45] else []) @ decimal (nat \<bar>sint x\<bar>))"
proof -
  let ?d = "sint x"
  have r: "- (2 ^ 63) \<le> ?d" "?d < 2 ^ 63"
    using sint_greater_eq [of x] sint_less [of x] by simp_all
  then have "nat \<bar>?d\<bar> < 10 ^ 20" by (simp add: nat_less_iff abs_if)
  then have l: "length (decimal (nat \<bar>?d\<bar>)) \<le> 20" by (rule length_decimal) simp
  have "(if ?d > 0 then - ?d else ?d) = - \<bar>?d\<bar>" by simp
  then have "I64_digits (if ?d > 0 then - ?d else ?d) [] = decimal (nat \<bar>?d\<bar>)"
    using I64_digits_decimal [of "\<bar>?d\<bar>" "[]"] by simp
  moreover have "length (if ?d < 0 then 45 # decimal (nat \<bar>?d\<bar>) else decimal (nat \<bar>?d\<bar>)) \<le> STRING_CONVERTER_BUF_LEN"
    using l by (cases "?d < 0") (simp_all add: STRING_CONVERTER_BUF_LEN_def)
  ultimately show ?thesis unfolding CONVERT_TO_STRING.simps I64ToString_def Let_def
    by (cases "?d < 0") simp_all
qed


lemma find_from_Some:
  "find_from s ch i = Some j \<Longrightarrow> i \<le> j \<and> j < length s \<and> s ! j = ch \<and> (\<forall>k. i \<le> k \<longrightarrow> k < j \<longrightarrow> s ! k \<noteq> ch)"
proof (induction s ch i rule: find_from.induct)
  case (1 s ch i)
  show ?case
  proof (cases "s ! i = ch")
    case True
    then show ?thesis using 1(2) by (subst (asm) find_from.simps) (auto split: if_splits)
  next
    case False
    have "i < length s" "find_from s ch (i + 1) = Some j"
      using 1(2) False by (subst (asm) find_from.simps; simp split: if_splits)+
    then show ?thesis using 1(1) False
      by (metis Suc_eq_plus1 Suc_leI le_antisym le_trans nat_le_linear not_less_eq_eq)
  qed
qed

lemma find_from_None:
  "find_from s ch i = None \<Longrightarrow> i \<le> k \<Longrightarrow> k < length s \<Longrightarrow> s ! k \<noteq> ch"
proof (induction s ch i rule: find_from.induct)
  case (1 s ch i)
  have "i < length s" using 1(3,4) by simp
  then have "s ! i \<noteq> ch" "find_from s ch (i + 1) = None"
    using 1(2) by (subst (asm) find_from.simps; simp split: if_splits)+
  then show ?case using 1(1,3,4) \<open>i < length s\<close> by (cases "k = i") auto
qed

lemma splitString_spec:
  assumes "from < length s"
  obtains str where "splitString s token from = Some str" "token \<notin> set str" "length str \<le> length s - from"
    "drop from s = str @ drop (from + length str) s"
    "from + length str < length s \<longrightarrow> s ! (from + length str) = token"
proof (cases "find_from s token from")
  case None
  have "token \<notin> set (drop from s)"
  proof
    assume "token \<in> set (drop from s)"
    then obtain i where "i < length (drop from s)" "drop from s ! i = token" by (auto simp: in_set_conv_nth)
    then show False using find_from_None [OF None, of "from + i"] by simp
  qed
  then show ?thesis using None assms by (intro that [of "drop from s"]) (simp_all add: splitString_def)
next
  case (Some j)
  note f = find_from_Some [OF Some]
  let ?str = "take (j - from) (drop from s)"
  have "token \<notin> set ?str"
  proof
    assume "token \<in> set ?str"
    then obtain i where i: "i < length ?str" "?str ! i = token" by (metis in_set_conv_nth)
    then have "i < j - from" "s ! (from + i) = token" using f by simp_all
    then show False using f by simp
  qed
  moreover have "length ?str = j - from" using f by auto
  moreover have "drop from s = ?str @ drop (from + (j - from)) s"
    using f append_take_drop_id [of "j - from" "drop from s"] by (simp add: add.commute)
  ultimately show ?thesis using Some assms f by (intro that [of ?str]) (simp_all add: splitString_def)
qed

lemma TOKENIZE_STRING_drop:
  "(\<forall>t \<in> set (TOKENIZE_STRING s token pos). token \<notin> set t) \<and>
   concat (map (\<lambda>t. t @ [token]) (TOKENIZE_STRING s token pos)) =
     drop pos s @ (if drop pos s = [] \<or> last s = token then [] else [token])"
proof (induction "length s - pos" arbitrary: pos rule: less_induct)
  case less
  show ?case
  proof (cases "pos < length s")
    case False
    then show ?thesis by (subst (1 2) TOKENIZE_STRING.simps) simp
  next
    case True
    then obtain str where str: "splitString s token pos = Some str" "token \<notin> set str" "length str \<le> length s - pos"
        "drop pos s = str @ drop (pos + length str) s"
        "pos + length str < length s \<longrightarrow> s ! (pos + length str) = token"
      by (rule splitString_spec)
    let ?n = "pos + length str"
    have u: "TOKENIZE_STRING s token pos = str # TOKENIZE_STRING s token (?n + 1)"
      using True str(1) by (subst TOKENIZE_STRING.simps) simp
    have ih: "\<forall>t \<in> set (TOKENIZE_STRING s token (?n + 1)). token \<notin> set t"
        "concat (map (\<lambda>t. t @ [token]) (TOKENIZE_STRING s token (?n + 1))) =
          drop (?n + 1) s @ (if drop (?n + 1) s = [] \<or> last s = token then [] else [token])"
      using less.hyps [of "?n + 1"] True by auto
    show ?thesis
    proof (cases "?n < length s")
      case n: True
      have "drop ?n s = token # drop (?n + 1) s" using n str(5) by (simp add: Cons_nth_drop_Suc [symmetric])
      moreover have "last s = token" if "drop (?n + 1) s = []"
      proof -
        have "?n = length s - 1" using that n by simp
        then show ?thesis using n str(5) last_conv_nth [of s] by (cases s) auto
      qed
      ultimately show ?thesis using u ih str(2,4) True by (auto simp: Let_def)
    next
      case n: False
      then have "drop pos s = str" using str(3,4) by simp
      moreover have "last s = last str" using True calculation by (metis last_drop)
      moreover have "str \<noteq> []" using True calculation(1) by auto
      moreover have "last str \<noteq> token" using str(2) calculation(3) last_in_set by metis
      ultimately show ?thesis using u ih n str(2) True by auto
    qed
  qed
qed

text \<open>
  \<^verbatim>\<open>TOKENIZE_STRING\<close> from position 0 splits a string into its fields: no token contains the
  delimiter, and the tokens, each followed by the delimiter, make up the string (with one delimiter
  added when the string does not end in one). The loop terminates for every string.
\<close>

theorem TOKENIZE_STRING_fields:
  "list_all (\<lambda>t. token \<notin> set t) (TOKENIZE_STRING s token 0) \<and>
   concat (map (\<lambda>t. t @ [token]) (TOKENIZE_STRING s token 0)) =
     (if s = [] \<or> last s = token then s else s @ [token])"
  using TOKENIZE_STRING_drop [of s token 0] by (auto simp: list_all_iff)

text \<open>
  \<^verbatim>\<open>lastOccurenceOf\<close> never finds anything: its loop condition is false for the last index of a
  string that is not empty, so it answers \<open>-1\<close> also when the character occurs.
\<close>

theorem lastOccurenceOf_never_finds:
  assumes "s \<noteq> []" "length s < 2 ^ 64"
  shows "lastOccurenceOf s ch = Some (- 1)"
proof -
  have l: "unat (of_nat (length s) :: u64) = length s" using assms(2) by (simp add: unat_of_nat_lt)
  have "0 < length s" using assms(1) by simp
  then have "unat (of_nat (length s) - 1 :: u64) = length s - 1"
    using l by (subst unat_sub_nowrap) (simp_all add: Suc_leI)
  moreover have "\<not> length s \<le> length s - 1" using \<open>0 < length s\<close> by linarith
  ultimately show ?thesis using l by (simp only: lastOccurenceOf_def word_le_nat_alt Let_def) simp
qed

theorem lastOccurenceOf_never_finds_witness:
  "containsChar (ascii ''a/b'') 47 \<and> lastOccurenceOf (ascii ''a/b'') 47 = Some (- 1)"
  using lastOccurenceOf_never_finds [of "ascii ''a/b''" 47] by (simp add: ascii_def)

lemma hexString_inj: "i < 16 \<Longrightarrow> j < 16 \<Longrightarrow> hexString ! i = hexString ! j \<longleftrightarrow> i = j"
proof -
  have "distinct hexString" "length hexString = 16" by (simp_all add: hexString_def ascii_def)
  then show "i < 16 \<Longrightarrow> j < 16 \<Longrightarrow> hexString ! i = hexString ! j \<longleftrightarrow> i = j"
    by (simp add: nth_eq_iff_index_eq)
qed

lemma nibble_lt: "unat (x AND 15 :: u64) < 16"
  using unat_and_mask [of x 4] by (simp add: mask_eq_exp_minus_1)

lemma hexString_nibble_iff:
  "hexString ! unat (x AND 15 :: u64) = hexString ! unat (y AND 15 :: u64) \<longleftrightarrow> x AND 15 = y AND 15"
  by (subst hexString_inj [OF nibble_lt nibble_lt]) (simp add: word_unat_eq_iff)

lemma ptrToString_eq:
  "ptrToString p = ascii ''0x'' @ map (\<lambda>i. hexString ! unat (drop_bit (4 * i) p AND 15)) (rev [1..<16])"
  by (simp add: ptrToString_def ascii_def upt_rec Let_def)

lemma drop_4_eq_iff_nibbles:
  "drop_bit 4 p = drop_bit 4 (q :: u64) \<longleftrightarrow> (\<forall>i \<in> {1..<16}. drop_bit (4 * i) p AND 15 = drop_bit (4 * i) q AND 15)"
proof
  assume h: "\<forall>i \<in> {1..<16}. drop_bit (4 * i) p AND 15 = drop_bit (4 * i) q AND 15"
  show "drop_bit 4 p = drop_bit 4 q"
  proof (rule bit_word_eqI)
    fix n assume n: "n < LENGTH(64)"
    show "bit (drop_bit 4 p) n \<longleftrightarrow> bit (drop_bit 4 q) n"
    proof (cases "4 + n < 64")
      case True
      let ?i = "(4 + n) div 4" and ?r = "n mod 4"
      have "1 \<le> ?i" "?i < 16" using True by auto
      then have "drop_bit (4 * ?i) p AND 15 = drop_bit (4 * ?i) q AND 15" using h by simp
      then have "bit (drop_bit (4 * ?i) p AND mask 4) ?r \<longleftrightarrow> bit (drop_bit (4 * ?i) q AND mask 4) ?r"
        by (simp add: mask_eq_exp_minus_1)
      moreover have "4 * ?i + ?r = 4 + n" by presburger
      moreover have "?r < 64" using mod_less_divisor [of 4 n] by linarith
      ultimately show ?thesis by (simp add: bit_and_iff bit_drop_bit_eq bit_mask_iff)
    next
      case False
      then show ?thesis using bit_imp_le_length [of p "4 + n"] bit_imp_le_length [of q "4 + n"]
        by (auto simp: bit_drop_bit_eq)
    qed
  qed
next
  assume h: "drop_bit 4 p = drop_bit 4 q"
  show "\<forall>i \<in> {1..<16}. drop_bit (4 * i) p AND 15 = drop_bit (4 * i) q AND 15"
  proof
    fix i :: nat assume "i \<in> {1..<16}"
    then have "4 * i = 4 * (i - 1) + 4" by auto
    then show "drop_bit (4 * i) p AND 15 = drop_bit (4 * i) q AND 15"
      using h by (metis drop_bit_drop_bit)
  qed
qed

text \<open>
  \<^verbatim>\<open>ptrToString\<close> drops the last of the sixteen hexadecimal digits: the text of an address does not
  depend on its lowest four bits and is 17 characters long.
\<close>

theorem ptrToString_drops_digit:
  "length (ptrToString p) = 17 \<and> (drop_bit 4 p = drop_bit 4 q \<longleftrightarrow> ptrToString p = ptrToString q)"
proof -
  have "length (ptrToString p) = 17" by (simp add: ptrToString_eq ascii_def)
  moreover have "ptrToString p = ptrToString q \<longleftrightarrow>
      (\<forall>i \<in> set (rev [1..<16]). hexString ! unat (drop_bit (4 * i) p AND 15) = hexString ! unat (drop_bit (4 * i) q AND 15))"
    unfolding ptrToString_eq same_append_eq by (rule map_eq_conv)
  ultimately show ?thesis
    by (simp only: hexString_nibble_iff drop_4_eq_iff_nibbles set_rev set_upt)
qed

text \<open>
  \<^verbatim>\<open>stringWithMinSize\<close> pads on the right with blanks to the minimum size and never shortens a
  string; a buffer of 255 bytes is always enough.
\<close>

theorem stringWithMinSize_pads:
  assumes "255 \<le> len"
  shows "\<exists>k. stringWithMinSize data minSize len = Some (data @ replicate k 32) \<and>
    length (data @ replicate k (32 :: u8)) = max (length data) (unat minSize)"
  using assms unat_lt_u8 [of minSize]
  by (intro exI [of _ "unat minSize - length data"]) (auto simp: stringWithMinSize_def)

theorem stringWithMinSize_pads_witness:
  "255 \<le> STRING_CONVERTER_BUF_LEN \<and>
   (\<exists>k. stringWithMinSize (ascii ''ab'') 5 STRING_CONVERTER_BUF_LEN = Some (ascii ''ab'' @ replicate k 32))"
  using stringWithMinSize_pads [of STRING_CONVERTER_BUF_LEN "ascii ''ab''" 5] by (auto simp: STRING_CONVERTER_BUF_LEN_def)

end
