(* ===== verification/Allocator.thy ===== *)
theory Allocator
  imports Manipulation
begin

text \<open>
  \<^verbatim>\<open>shared/memory/allocator\<close> and \<^verbatim>\<open>shared/dynamic-array\<close>: the arena, a bump allocator over the bytes
  between \<open>curFree\<close> and \<open>end\<close>, and the dynamic array that grows inside one. A failed allocation
  either returns the null pointer or jumps to the arena's \<^verbatim>\<open>jmp_buf\<close>; both are outcomes of the model.
  Assertions expand to nothing, as in a release build; what they check is a hypothesis where a theorem
  needs it. The build is the freestanding one, in which \<^verbatim>\<open>ZERO_MEMORY\<close> clears the block.
\<close>

section \<open>Arena\<close>

definition ZERO_MEMORY :: u8 where "ZERO_MEMORY = 1"
definition NULLPTR_ON_FAIL :: u8 where "NULLPTR_ON_FAIL = 2"

text \<open>\<open>Jump\<close>: control leaves through \<^verbatim>\<open>__builtin_longjmp\<close>. \<open>Stuck\<close>: a division by zero or a loop without end.\<close>

datatype 'a control = Ret 'a | Jump | Stuck

record Arena =
  curFree :: addr
  arena_beg :: addr
  arena_end :: addr

definition alloc :: "memory \<Rightarrow> Arena \<Rightarrow> u64 \<Rightarrow> u64 \<Rightarrow> u64 \<Rightarrow> u8 \<Rightarrow> (addr \<times> memory \<times> Arena) control" where
  "alloc m a sz align count flags =
     (let avail = arena_end a - curFree a;
          padding = (- curFree a) AND (align - 1) in
      if sz = 0 then Stuck
      else if count > (avail - padding) div sz then
        (if flags AND NULLPTR_ON_FAIL \<noteq> 0 then Ret (0, m, a) else Jump)
      else
        let total = sz * count; p = curFree a + padding; a' = a\<lparr>curFree := curFree a + (padding + total)\<rparr> in
        if flags AND ZERO_MEMORY \<noteq> 0
        then (case memset m p 0 total of None \<Rightarrow> Stuck | Some m' \<Rightarrow> Ret (p, m', a'))
        else Ret (p, m, a'))"

section \<open>Dynamic array\<close>

record DASlice =
  da_buf :: addr
  da_len :: u64
  da_cap :: u64

definition grow :: "memory \<Rightarrow> DASlice \<Rightarrow> u64 \<Rightarrow> u64 \<Rightarrow> Arena \<Rightarrow> u8 \<Rightarrow> (memory \<times> DASlice \<times> Arena) control" where
  "grow m s sz align a flags =
     (if da_buf s = 0 then
        (case alloc m a (2 * sz) align 1 flags of
           Ret (p, m, a) \<Rightarrow> Ret (m, s\<lparr>da_buf := p, da_cap := 1 * 2\<rparr>, a) | Jump \<Rightarrow> Jump | Stuck \<Rightarrow> Stuck)
      else if arena_beg a = da_buf s + sz * da_cap s then
        (case alloc m a sz 1 (da_cap s) flags of
           Ret (_, m, a) \<Rightarrow> Ret (m, s\<lparr>da_cap := da_cap s * 2\<rparr>, a) | Jump \<Rightarrow> Jump | Stuck \<Rightarrow> Stuck)
      else
        (case alloc m a (2 * sz) align (da_cap s) flags of
           Ret (data, m, a) \<Rightarrow>
             (case memcpy m data (da_buf s) (sz * da_len s) of
                None \<Rightarrow> Stuck
              | Some m \<Rightarrow> Ret (m, s\<lparr>da_buf := data, da_cap := da_cap s * 2\<rparr>, a))
         | Jump \<Rightarrow> Jump | Stuck \<Rightarrow> Stuck))"

text \<open>\<^verbatim>\<open>PUSH\<close>: the address of the new element.\<close>

definition PUSH :: "memory \<Rightarrow> DASlice \<Rightarrow> u64 \<Rightarrow> u64 \<Rightarrow> Arena \<Rightarrow> u8 \<Rightarrow> (addr \<times> memory \<times> DASlice \<times> Arena) control" where
  "PUSH m s sz align a flags =
     (case (if da_len s \<ge> da_cap s then grow m s sz align a flags else Ret (m, s, a)) of
        Ret (m, s, a) \<Rightarrow> Ret (da_buf s + da_len s * sz, m, s\<lparr>da_len := da_len s + 1\<rparr>, a)
      | Jump \<Rightarrow> Jump | Stuck \<Rightarrow> Stuck)"

section \<open>Allocation is safe inside the arena\<close>

definition padding :: "Arena \<Rightarrow> u64 \<Rightarrow> nat" where
  "padding a align = unat ((- curFree a) AND (align - 1))"

text \<open>What the arena still has for blocks of this alignment, and how many blocks that is.\<close>

definition room :: "Arena \<Rightarrow> u64 \<Rightarrow> nat" where
  "room a align = unat (arena_end a) - (unat (curFree a) + padding a align)"

definition arena_ok :: "Arena \<Rightarrow> bool" where
  "arena_ok a \<longleftrightarrow> curFree a \<le> arena_end a \<and> unat (arena_end a) + 160 < 2 ^ 64"

lemma padding_mod: "padding a (2 ^ k) = unat (- curFree a) mod 2 ^ k"
  unfolding padding_def two_power_minus_one_mask by (rule unat_and_mask)

lemma padding_aligns:
  assumes "k < 64"
  shows "2 ^ k dvd unat (curFree a) + padding a (2 ^ k)"
proof -
  have d: "(2 :: nat) ^ k dvd 2 ^ 64" using assms by (intro le_imp_power_dvd) simp
  have "(unat (curFree a) + padding a (2 ^ k)) mod 2 ^ k = (unat (curFree a) + unat (- curFree a)) mod 2 ^ k"
    by (simp add: padding_mod mod_simps)
  also have "\<dots> = 0"
  proof (cases "curFree a = 0")
    case False
    then have "unat (- curFree a) = 2 ^ 64 - unat (curFree a)"
      using unat_diff_of_nat [of "unat (curFree a)" 0] unat_lt_2p [of "curFree a"] by (simp add: unat_eq_0)
    then have "unat (curFree a) + unat (- curFree a) = 2 ^ 64" using unat_lt_2p [of "curFree a"] by simp
    then show ?thesis using d by simp
  qed simp
  finally show ?thesis by (rule mod_0_imp_dvd)
qed

lemma alloc_sizes:
  assumes "arena_ok a" "unat (curFree a) + padding a align \<le> unat (arena_end a)"
  shows "unat (arena_end a - curFree a - ((- curFree a) AND (align - 1))) = room a align"
    and "unat (curFree a + ((- curFree a) AND (align - 1))) = unat (curFree a) + padding a align"
proof -
  have le: "unat (curFree a) \<le> unat (arena_end a)" using assms(1) by (simp add: arena_ok_def word_le_nat_alt)
  then have d: "unat (arena_end a - curFree a) = unat (arena_end a) - unat (curFree a)" by (rule unat_sub_nowrap)
  then have "unat ((- curFree a) AND (align - 1)) \<le> unat (arena_end a - curFree a)"
    using assms(2) unfolding padding_def by linarith
  then show "unat (arena_end a - curFree a - ((- curFree a) AND (align - 1))) = room a align"
    by (simp add: unat_sub_nowrap d room_def padding_def)
  have "unat (curFree a) + padding a align < 2 ^ 64" using assms(1,2) by (simp add: arena_ok_def)
  then show "unat (curFree a + ((- curFree a) AND (align - 1))) = unat (curFree a) + padding a align"
    unfolding padding_def by (intro unat_add_nowrap) simp
qed

lemma word_less_div_iff:
  fixes sz :: u64
  assumes "0 < sz" "unat avail = r"
  shows "avail div sz < count \<longleftrightarrow> r < unat sz * unat count"
proof -
  have "0 < unat sz" using assms(1) by (simp add: word_less_nat_alt)
  then show ?thesis using assms(2) by (simp add: word_less_nat_alt unat_div div_less_iff_less_mult mult.commute)
qed

text \<open>One allocation, on both outcomes: it fails exactly if the block does not fit.\<close>

lemma alloc_spec:
  assumes ok: "arena_ok a" and pad: "unat (curFree a) + padding a align \<le> unat (arena_end a)" and spos: "0 < sz"
  shows "room a align < unat sz * unat count \<Longrightarrow>
      alloc m a sz align count flags = (if flags AND NULLPTR_ON_FAIL \<noteq> 0 then Ret (0, m, a) else Jump)"
    and "unat sz * unat count \<le> room a align \<Longrightarrow>
      \<exists>p m'. alloc m a sz align count flags = Ret (p, m', a\<lparr>curFree := p + sz * count\<rparr>) \<and>
        unat p = unat (curFree a) + padding a align \<and>
        unat (p + sz * count) = unat p + unat sz * unat count \<and> unat (p + sz * count) \<le> unat (arena_end a) \<and>
        m' = (if flags AND ZERO_MEMORY \<noteq> 0 then filled m p 0 (unat sz * unat count) else m)"
proof -
  note s = alloc_sizes [OF ok pad]
  note less = word_less_div_iff [OF spos s(1)]
  have sz0: "sz \<noteq> 0" using spos by auto
  show "room a align < unat sz * unat count \<Longrightarrow>
      alloc m a sz align count flags = (if flags AND NULLPTR_ON_FAIL \<noteq> 0 then Ret (0, m, a) else Jump)"
    using sz0 less by (simp add: alloc_def Let_def)
  assume fit: "unat sz * unat count \<le> room a align"
  let ?p = "curFree a + ((- curFree a) AND (align - 1))"
  have e: "unat (curFree a) + padding a align + unat sz * unat count \<le> unat (arena_end a)"
    using fit pad unfolding room_def by linarith
  have "unat (arena_end a) + 160 < 2 ^ 64" using ok by (simp add: arena_ok_def)
  then have t: "unat (sz * count) = unat sz * unat count" using e by (intro unat_mult_nowrap) simp
  have pt: "unat (?p + sz * count) = unat ?p + unat sz * unat count"
    using e ok unfolding t [symmetric] s(2) [symmetric] arena_ok_def by (intro unat_add_nowrap) simp
  have ms: "memset m ?p 0 (sz * count) = Some (filled m ?p 0 (unat sz * unat count))"
    using memset_eq_filled [of ?p "sz * count" m 0] e ok unfolding s(2) t arena_ok_def by simp
  have "alloc m a sz align count flags = Ret (?p, if flags AND ZERO_MEMORY \<noteq> 0 then filled m ?p 0 (unat sz * unat count) else m,
      a\<lparr>curFree := ?p + sz * count\<rparr>)"
    using sz0 less fit ms by (simp add: alloc_def Let_def add.assoc)
  then show "\<exists>p m'. alloc m a sz align count flags = Ret (p, m', a\<lparr>curFree := p + sz * count\<rparr>) \<and>
        unat p = unat (curFree a) + padding a align \<and>
        unat (p + sz * count) = unat p + unat sz * unat count \<and> unat (p + sz * count) \<le> unat (arena_end a) \<and>
        m' = (if flags AND ZERO_MEMORY \<noteq> 0 then filled m p 0 (unat sz * unat count) else m)"
    using e s(2) pt by (intro exI [of _ ?p]) simp
qed

text \<open>
  C28. An arena with room for the padding allocates exactly if the block fits behind it; the block is
  aligned, lies between the old free pointer and the end, is cleared when asked, every other byte of
  memory is untouched, and the free pointer moves to the end of the block. Otherwise the call returns
  the null pointer or jumps, as its flags say, and changes nothing.
\<close>

theorem arena_alloc_correct:
  assumes "arena_ok a" "k < 64" "unat (curFree a) + padding a (2 ^ k) \<le> unat (arena_end a)" "0 < sz"
  shows "if unat sz * unat count \<le> room a (2 ^ k)
    then \<exists>p m'. alloc m a sz (2 ^ k) count flags = Ret (p, m', a\<lparr>curFree := p + sz * count\<rparr>) \<and>
      2 ^ k dvd unat p \<and> curFree a \<le> p \<and> unat p + unat sz * unat count \<le> unat (arena_end a) \<and>
      (flags AND ZERO_MEMORY \<noteq> 0 \<longrightarrow> load_bytes m' p (unat sz * unat count) = replicate (unat sz * unat count) 0) \<and>
      (\<forall>x. unat sz * unat count \<le> unat (x - p) \<longrightarrow> m' x = m x)
    else alloc m a sz (2 ^ k) count flags = (if flags AND NULLPTR_ON_FAIL \<noteq> 0 then Ret (0, m, a) else Jump)"
proof (cases "unat sz * unat count \<le> room a (2 ^ k)")
  case True
  obtain p m' where p: "alloc m a sz (2 ^ k) count flags = Ret (p, m', a\<lparr>curFree := p + sz * count\<rparr>)"
      "unat p = unat (curFree a) + padding a (2 ^ k)"
      "unat (p + sz * count) = unat p + unat sz * unat count" "unat (p + sz * count) \<le> unat (arena_end a)"
      "m' = (if flags AND ZERO_MEMORY \<noteq> 0 then filled m p 0 (unat sz * unat count) else m)"
    using alloc_spec(2) [OF assms(1,3,4) True] by blast
  have "2 ^ k dvd unat p" unfolding p(2) by (rule padding_aligns [OF assms(2)])
  moreover have "unat sz * unat count < 2 ^ 64" using p(3) unat_lt_2p [of "p + sz * count"] by simp
  moreover have "curFree a \<le> p" using p(2) by (simp add: word_le_nat_alt)
  ultimately show ?thesis using True p(1,3,4,5) load_filled filled_outside by auto
next
  case False
  then show ?thesis using alloc_spec(1) [OF assms(1,3,4)] by simp
qed

theorem arena_alloc_correct_witness:
  "\<exists>p m'. alloc (\<lambda>_. 7) \<lparr>curFree = 0x1001, arena_beg = 0x1000, arena_end = 0x2000\<rparr> 4 (2 ^ 3) 2 ZERO_MEMORY =
     Ret (p, m', \<lparr>curFree = p + 4 * 2, arena_beg = 0x1000, arena_end = 0x2000\<rparr>) \<and> load_bytes m' p 8 = replicate 8 0"
  using arena_alloc_correct [of "\<lparr>curFree = 0x1001, arena_beg = 0x1000, arena_end = 0x2000\<rparr>" 3 4 2 "\<lambda>_. 7" ZERO_MEMORY]
  by (simp add: arena_ok_def padding_def room_def ZERO_MEMORY_def) blast

text \<open>
  When fewer bytes are left than the padding needs, the subtraction of the padding wraps and the
  call succeeds: the block it returns starts behind the end of the arena.
\<close>

theorem alloc_padding_wraps:
  "alloc m \<lparr>curFree = 0x1001, arena_beg = 0x1000, arena_end = 0x1004\<rparr> 8 8 1 0 =
   Ret (0x1008, m, \<lparr>curFree = 0x1010, arena_beg = 0x1000, arena_end = 0x1004\<rparr>)"
  by (simp add: alloc_def Let_def ZERO_MEMORY_def)

section \<open>The dynamic array keeps its elements\<close>

text \<open>A block that lies below the address \<open>d\<close>.\<close>

lemma below_outside:
  assumes "x < d" "unat d + n \<le> 2 ^ 64"
  shows "n \<le> unat (x - d :: u64)"
proof -
  have "unat (x - d) = 2 ^ 64 + unat x - unat d"
    using unat_diff_of_nat [of "unat d" x] assms(1) unat_lt_2p [of d] by (simp add: word_less_nat_alt)
  then show ?thesis using assms(2) by linarith
qed

lemma disjoint_below:
  assumes "unat s + n \<le> unat d" "unat d + n \<le> 2 ^ 64" "0 < n"
  shows "disjoint_ranges d s n"
proof -
  have "s < d" using assms by (simp add: word_less_nat_alt)
  then have "n \<le> unat (s - d)" using assms(2) by (rule below_outside)
  moreover have "unat (d - s) = unat d - unat s" using assms(1) by (intro unat_sub_nowrap) simp
  ultimately show ?thesis using assms(1) by (simp add: disjoint_ranges_def)
qed

lemma load_bytes_cong: "(\<And>i. i < n \<Longrightarrow> m (a + of_nat i) = m' (a + of_nat i)) \<Longrightarrow> load_bytes m a n = load_bytes m' a n"
  by (simp add: load_bytes_def)

lemma load_bytes_below:
  assumes "\<And>x. x < d \<Longrightarrow> m' x = m x" "unat s + n \<le> unat d"
  shows "load_bytes m' s n = load_bytes m s n"
proof (rule load_bytes_cong)
  fix i assume "i < n"
  then have "unat s + i < unat d" using assms(2) by simp
  then have "unat (s + of_nat i) = unat s + i" using unat_lt_2p [of d] by (intro unat_offset) simp
  then show "m' (s + of_nat i) = m (s + of_nat i)" using \<open>unat s + i < unat d\<close> assms(1) by (simp add: word_less_nat_alt)
qed

text \<open>
  C39. Growing a full dynamic array whose buffer was allocated from the arena succeeds when the
  doubled buffer fits: the new buffer lies in the fresh part of the arena, it starts with the bytes of
  all elements, the capacity has doubled, and nothing that was allocated before is changed. (The
  branch that would extend the buffer in place is not taken: it compares with the start of the arena.)
\<close>

theorem grow_keeps_elements:
  assumes ok: "arena_ok a" and k: "k < 64" and pad: "unat (curFree a) + padding a (2 ^ k) \<le> unat (arena_end a)"
    and pos: "0 < sz" "0 < da_len s" "da_len s \<le> da_cap s"
    and owned: "da_buf s \<noteq> 0" "arena_beg a \<le> da_buf s" "unat (da_buf s) + unat sz * unat (da_cap s) \<le> unat (curFree a)"
    and fit: "2 * (unat sz * unat (da_cap s)) \<le> room a (2 ^ k)"
  shows "\<exists>m' p. grow m s sz (2 ^ k) a flags = Ret (m', s\<lparr>da_buf := p, da_cap := da_cap s * 2\<rparr>, a\<lparr>curFree := p + 2 * sz * da_cap s\<rparr>) \<and>
     curFree a \<le> p \<and> unat p + 2 * (unat sz * unat (da_cap s)) \<le> unat (arena_end a) \<and> 2 ^ k dvd unat p \<and>
     unat (da_cap s * 2) = 2 * unat (da_cap s) \<and>
     load_bytes m' p (unat sz * unat (da_len s)) = load_bytes m (da_buf s) (unat sz * unat (da_len s)) \<and>
     (\<forall>x < curFree a. m' x = m x)"
proof -
  let ?c = "unat sz * unat (da_cap s)" and ?n = "unat sz * unat (da_len s)"
  have c: "0 < unat sz" "0 < unat (da_len s)" "unat (da_len s) \<le> unat (da_cap s)" using pos by (simp_all add: word_less_nat_alt word_le_nat_alt)
  then have n: "?n \<le> ?c" "0 < ?n" by simp_all
  have room: "2 * ?c \<le> unat (arena_end a)" using fit unfolding room_def by simp
  have big: "2 * ?c < 2 ^ 64" using room ok by (simp add: arena_ok_def)
  have "unat sz \<le> ?c" "unat (da_cap s) \<le> ?c" using c by (simp_all add: Suc_leI)
  then have "2 * unat sz < 2 ^ 64" "unat (da_cap s) * 2 < 2 ^ 64" using big by linarith+
  then have u2: "unat (2 * sz) = 2 * unat sz" "unat (da_cap s * 2) = 2 * unat (da_cap s)"
    using unat_mult_nowrap [of 2 sz] unat_mult_nowrap [of "da_cap s" 2] by simp_all
  have nn: "?n < 2 ^ 64" using n(1) big by linarith
  then have un: "unat (sz * da_len s) = ?n" by (intro unat_mult_nowrap) simp
  have uc: "unat (sz * da_cap s) = ?c" using big by (intro unat_mult_nowrap) simp
  have "unat (da_buf s + sz * da_cap s) = unat (da_buf s) + ?c"
    unfolding uc [symmetric] using owned(3) unat_lt_2p [of "curFree a"] by (intro unat_add_nowrap) (simp add: uc)
  then have nb: "arena_beg a \<noteq> da_buf s + sz * da_cap s" using owned(2) n by (auto simp: word_le_nat_alt)
  have pos2: "0 < 2 * sz" using u2(1) c(1) by (simp add: word_less_nat_alt)
  obtain p m1 where p: "alloc m a (2 * sz) (2 ^ k) (da_cap s) flags = Ret (p, m1, a\<lparr>curFree := p + 2 * sz * da_cap s\<rparr>)"
      "unat p = unat (curFree a) + padding a (2 ^ k)" "unat (p + 2 * sz * da_cap s) = unat p + 2 * ?c"
      "unat (p + 2 * sz * da_cap s) \<le> unat (arena_end a)"
      "m1 = (if flags AND ZERO_MEMORY \<noteq> 0 then filled m p 0 (2 * ?c) else m)"
    using alloc_spec(2) [OF ok pad pos2, of "da_cap s" m flags] fit unfolding u2(1) mult.assoc by blast
  have cp: "curFree a \<le> p" using p(2) by (simp add: word_le_nat_alt)
  have pb: "unat p + 2 * ?c \<le> 2 ^ 64" using p(3) unat_lt_2p [of "p + 2 * sz * da_cap s"] by simp
  have pn: "unat p + ?n \<le> 2 ^ 64" using pb n(1) by linarith
  have below: "unat (da_buf s) + ?n \<le> unat p" using owned(3) p(2) n(1) by linarith
  have keep: "m1 x = m x" if "x < p" for x using p(5) filled_outside below_outside [OF that pb] by simp
  have dis: "disjoint_ranges p (da_buf s) ?n" using n(2) by (intro disjoint_below below pn)
  have cpy: "memcpy m1 p (da_buf s) (sz * da_len s) = Some (copied m1 p (da_buf s) ?n)"
    using memcpy_eq_copied [of p "da_buf s" "sz * da_len s" m1] dis pn unfolding un by simp
  have "load_bytes (copied m1 p (da_buf s) ?n) p ?n = load_bytes m1 (da_buf s) ?n" using nn by (intro load_copied) simp
  also have "\<dots> = load_bytes m (da_buf s) ?n" using keep below by (intro load_bytes_below [of p]) simp_all
  finally have load: "load_bytes (copied m1 p (da_buf s) ?n) p ?n = load_bytes m (da_buf s) ?n" .
  have old: "copied m1 p (da_buf s) ?n x = m x" if "x < curFree a" for x
  proof -
    have "x < p" using that cp by simp
    then show ?thesis using keep copied_outside below_outside [OF _ pn] by metis
  qed
  have "2 ^ k dvd unat p" unfolding p(2) by (rule padding_aligns [OF k])
  moreover have "grow m s sz (2 ^ k) a flags =
      Ret (copied m1 p (da_buf s) ?n, s\<lparr>da_buf := p, da_cap := da_cap s * 2\<rparr>, a\<lparr>curFree := p + 2 * sz * da_cap s\<rparr>)"
    using owned(1) nb p(1) cpy by (simp add: grow_def)
  ultimately show ?thesis using cp p(3,4) u2(2) load old by auto
qed

theorem grow_keeps_elements_witness:
  "\<exists>m' p. grow (\<lambda>x. ucast x) \<lparr>da_buf = 0x1000, da_len = 2, da_cap = 2\<rparr> 4 (2 ^ 2) \<lparr>curFree = 0x1010, arena_beg = 0x1000, arena_end = 0x2000\<rparr> 0 =
     Ret (m', \<lparr>da_buf = p, da_len = 2, da_cap = 4\<rparr>, \<lparr>curFree = p + 2 * 4 * 2, arena_beg = 0x1000, arena_end = 0x2000\<rparr>) \<and>
     load_bytes m' p 8 = load_bytes (\<lambda>x. ucast x) 0x1000 8"
  using grow_keeps_elements [of "\<lparr>curFree = 0x1010, arena_beg = 0x1000, arena_end = 0x2000\<rparr>" 2 4 "\<lparr>da_buf = 0x1000, da_len = 2, da_cap = 2\<rparr>" "\<lambda>x. ucast x" 0]
  by (simp add: arena_ok_def padding_def room_def) blast

end
