(* ===== verification/HashSet.thy ===== *)
theory HashSet
  imports Text Allocator
begin

text \<open>
  \<^verbatim>\<open>shared/hash\<close>, the hash functions and the open-addressing sets (\<^verbatim>\<open>msi\<close>) of strings and of
  16-bit numbers. A set is the list of its \<open>2 ^ exp\<close> slots, an empty slot holding the empty string or
  zero. The probing loops have no exit when every slot holds another key: they carry fuel, and it is
  proved that as many rounds as there are slots are enough when a slot is free. The interface
  \<open>key_set\<close> states what a set of keys promises; it is interpreted on both tables here and on the
  hash tries in their theory.
\<close>

section \<open>Hash functions\<close>

definition hashStringSkeeto :: "bytes \<Rightarrow> u64" where
  "hashStringSkeeto s = foldl (\<lambda>h b. (h XOR ucast b) * 1111111111111111111) 0x100 s"

definition hashU32 :: "u32 \<Rightarrow> u32" where
  "hashU32 x =
     (let x = x XOR drop_bit 16 x; x = x * 0x21f0aaad; x = x XOR drop_bit 15 x; x = x * 0x735a2d97 in
      x XOR drop_bit 15 x)"

definition hashU16 :: "u16 \<Rightarrow> u16" where
  "hashU16 x =
     (let x = x XOR drop_bit 7 x; x = x * 0x2993; x = x XOR drop_bit 5 x; x = x * 0xe877;
          x = x XOR drop_bit 9 x; x = x * 0x0235 in
      x XOR drop_bit 10 x)"

section \<open>Probing\<close>

definition indexLookup :: "u64 \<Rightarrow> nat \<Rightarrow> u32 \<Rightarrow> u32" where
  "indexLookup hash ex idx =
     (let msk = push_bit ex 1 - 1; step = ucast (drop_bit (64 - ex) hash) OR 1 in (idx + step) AND msk)"

record 'a msi_set =
  msi_buf :: "'a list"
  msi_exp :: nat
  msi_len :: u64

text \<open>The slot at which the loop stops: an empty one or one that holds the key.\<close>

fun msi_probe :: "nat \<Rightarrow> 'a \<Rightarrow> 'a \<Rightarrow> u64 \<Rightarrow> nat \<Rightarrow> u32 \<Rightarrow> 'a list \<Rightarrow> nat option" where
  "msi_probe 0 blank key hash ex i buf = None"
| "msi_probe (Suc n) blank key hash ex i buf =
     (let i = indexLookup hash ex i in
      if buf ! unat i = blank then Some (unat i)
      else if buf ! unat i = key then Some (unat i)
      else msi_probe n blank key hash ex i buf)"

definition msi_insert :: "nat \<Rightarrow> 'a \<Rightarrow> 'a \<Rightarrow> u64 \<Rightarrow> 'a msi_set \<Rightarrow> (bool \<times> 'a msi_set) option" where
  "msi_insert fuel blank key hash index =
     (case msi_probe fuel blank key hash (msi_exp index) (ucast hash) (msi_buf index) of
        None \<Rightarrow> None
      | Some i \<Rightarrow>
          if msi_buf index ! i = blank
          then Some (True, index\<lparr>msi_len := msi_len index + 1, msi_buf := (msi_buf index)[i := key]\<rparr>)
          else Some (False, index))"

definition msi_contains :: "nat \<Rightarrow> 'a \<Rightarrow> 'a \<Rightarrow> u64 \<Rightarrow> 'a msi_set \<Rightarrow> bool option" where
  "msi_contains fuel blank key hash index =
     (case msi_probe fuel blank key hash (msi_exp index) (ucast hash) (msi_buf index) of
        None \<Rightarrow> None
      | Some i \<Rightarrow> Some (msi_buf index ! i \<noteq> blank))"

definition msi_insertString :: "nat \<Rightarrow> bytes \<Rightarrow> u64 \<Rightarrow> bytes msi_set \<Rightarrow> (bool \<times> bytes msi_set) option" where
  "msi_insertString fuel s hash index = msi_insert fuel [] s hash index"

definition msi_containsString :: "nat \<Rightarrow> bytes \<Rightarrow> u64 \<Rightarrow> bytes msi_set \<Rightarrow> bool option" where
  "msi_containsString fuel s hash index = msi_contains fuel [] s hash index"

definition msi_insertU16 :: "nat \<Rightarrow> u16 \<Rightarrow> u64 \<Rightarrow> u16 msi_set \<Rightarrow> (bool \<times> u16 msi_set) option" where
  "msi_insertU16 fuel val hash index = msi_insert fuel 0 val hash index"

definition msi_containsU16 :: "nat \<Rightarrow> u16 \<Rightarrow> u64 \<Rightarrow> u16 msi_set \<Rightarrow> bool option" where
  "msi_containsU16 fuel val hash index = msi_contains fuel 0 val hash index"

text \<open>The elements a \<^verbatim>\<open>FOR_EACH_MSI\<close> loop visits.\<close>

definition FOR_EACH_MSI :: "'a \<Rightarrow> 'a msi_set \<Rightarrow> 'a list" where
  "FOR_EACH_MSI blank t = filter (\<lambda>e. e \<noteq> blank) (map (\<lambda>i. msi_buf t ! i) [0..<2 ^ msi_exp t])"

datatype HashComparisonStatus = HASH_COMPARISON_SUCCESS | HASH_COMPARISON_DIFFERENT_SIZES | HASH_COMPARISON_DIFFERENT_CONTENT

text \<open>\<open>None\<close>: one of the searches does not end.\<close>

fun all_contained :: "nat \<Rightarrow> bytes list \<Rightarrow> bytes msi_set \<Rightarrow> bool option" where
  "all_contained fuel [] t = Some True"
| "all_contained fuel (e # es) t =
     (case msi_containsString fuel e (hashStringSkeeto e) t of
        None \<Rightarrow> None
      | Some b \<Rightarrow> if \<not> b then Some False else all_contained fuel es t)"

definition msi_equalsStringSet :: "nat \<Rightarrow> bytes msi_set \<Rightarrow> bytes msi_set \<Rightarrow> HashComparisonStatus option" where
  "msi_equalsStringSet fuel set1 set2 =
     (if msi_len set1 \<noteq> msi_len set2 then Some HASH_COMPARISON_DIFFERENT_SIZES
      else case all_contained fuel (FOR_EACH_MSI [] set1) set2 of
        None \<Rightarrow> None
      | Some False \<Rightarrow> Some HASH_COMPARISON_DIFFERENT_CONTENT
      | Some True \<Rightarrow>
          (case all_contained fuel (FOR_EACH_MSI [] set2) set1 of
             None \<Rightarrow> None
           | Some b \<Rightarrow> Some (if b then HASH_COMPARISON_SUCCESS else HASH_COMPARISON_DIFFERENT_CONTENT)))"

section \<open>The probe sequence visits every slot\<close>

definition probe_step :: "u64 \<Rightarrow> nat \<Rightarrow> nat" where
  "probe_step hash ex = unat (ucast (drop_bit (64 - ex) hash) OR 1 :: u32)"

definition probe_slot :: "u64 \<Rightarrow> nat \<Rightarrow> nat \<Rightarrow> nat" where
  "probe_slot hash ex j = (unat (ucast hash :: u32) + (j + 1) * probe_step hash ex) mod 2 ^ ex"

lemma odd_probe_step: "odd (probe_step hash ex)"
proof -
  have "bit (ucast (drop_bit (64 - ex) hash) OR 1 :: u32) 0" by (simp add: bit_or_iff)
  then show ?thesis by (simp add: probe_step_def bit_unat_iff_odd)
qed

lemma unat_indexLookup:
  assumes "ex < 32"
  shows "unat (indexLookup hash ex i) = (unat i + probe_step hash ex) mod 2 ^ ex"
proof -
  let ?s = "ucast (drop_bit (64 - ex) hash) OR 1 :: u32"
  have m: "push_bit ex 1 - 1 = (mask ex :: u32)" by (simp add: mask_eq_decr_exp push_bit_eq_mult)
  have "unat (indexLookup hash ex i) = unat (i + ?s) mod 2 ^ ex"
    unfolding indexLookup_def Let_def m by (rule unat_and_mask)
  also have "unat (i + ?s) = (unat i + unat ?s) mod 2 ^ 32" by (simp add: unat_word_ariths)
  also have "\<dots> mod 2 ^ ex = (unat i + unat ?s) mod 2 ^ ex"
    using assms by (intro mod_mod_cancel le_imp_power_dvd) simp
  finally show ?thesis by (simp add: probe_step_def)
qed

lemma probe_slot_Suc:
  "probe_slot hash ex (Suc j) = (probe_slot hash ex j + probe_step hash ex) mod 2 ^ ex"
  by (simp add: probe_slot_def mod_simps algebra_simps)

lemma probe_slot_inj: "inj_on (probe_slot hash ex) {0..<2 ^ ex}"
proof (rule linorder_inj_onI)
  fix i j :: nat
  assume "i < j" "i \<in> {0..<2 ^ ex}" "j \<in> {0..<2 ^ ex}"
  let ?s = "probe_step hash ex" and ?h = "unat (ucast hash :: u32)"
  show "probe_slot hash ex i \<noteq> probe_slot hash ex j"
  proof
    assume "probe_slot hash ex i = probe_slot hash ex j"
    then have "(?h + (j + 1) * ?s) mod 2 ^ ex = (?h + (i + 1) * ?s) mod 2 ^ ex" by (simp add: probe_slot_def)
    moreover have "?h + (i + 1) * ?s \<le> ?h + (j + 1) * ?s" using \<open>i < j\<close> by simp
    ultimately have "2 ^ ex dvd (?h + (j + 1) * ?s) - (?h + (i + 1) * ?s)" using mod_eq_dvd_iff_nat by blast
    moreover have "(?h + (j + 1) * ?s) - (?h + (i + 1) * ?s) = (j - i) * ?s" using \<open>i < j\<close> by (simp add: diff_mult_distrib)
    ultimately have "2 ^ ex dvd (j - i) * ?s" by simp
    moreover have "coprime (2 ^ ex) ?s" using odd_probe_step [of hash ex] by simp
    ultimately have "2 ^ ex dvd j - i" using coprime_dvd_mult_left_iff by blast
    then show False using \<open>i < j\<close> \<open>j \<in> {0..<2 ^ ex}\<close> by (auto dest: dvd_imp_le)
  qed
qed auto

lemma probe_slot_surj:
  assumes "p < 2 ^ ex"
  obtains j where "j < 2 ^ ex" "probe_slot hash ex j = p"
proof -
  have sub: "probe_slot hash ex ` {0..<2 ^ ex} \<subseteq> {0..<2 ^ ex}" by (auto simp: probe_slot_def)
  have "probe_slot hash ex ` {0..<2 ^ ex} = {0..<2 ^ ex}"
    by (rule card_subset_eq [OF _ sub]) (simp_all add: card_image [OF probe_slot_inj])
  then show ?thesis using assms that by (metis atLeastLessThan_iff image_iff le0)
qed

text \<open>The loop stops at the first slot of the sequence that is empty or holds the key.\<close>

lemma msi_probe_first:
  assumes "ex < 32" "j < n" "buf ! probe_slot hash ex j = blank \<or> buf ! probe_slot hash ex j = key"
    and "\<And>i. i < j \<Longrightarrow> buf ! probe_slot hash ex i \<noteq> blank \<and> buf ! probe_slot hash ex i \<noteq> key"
  shows "msi_probe n blank key hash ex (ucast hash) buf = Some (probe_slot hash ex j)"
proof -
  have "msi_probe n blank key hash ex i buf = Some (probe_slot hash ex j)"
    if "k \<le> j" "j < n + k" "(unat i + probe_step hash ex) mod 2 ^ ex = probe_slot hash ex k" for i n k
    using that
  proof (induction n arbitrary: i k)
    case (Suc n)
    let ?i = "indexLookup hash ex i"
    have u: "unat ?i = probe_slot hash ex k" using unat_indexLookup [OF assms(1)] Suc.prems(3) by simp
    show ?case
    proof (cases "k = j")
      case True
      then show ?thesis using assms(3) u by (auto simp: Let_def)
    next
      case False
      then have "k < j" using Suc.prems(1) by simp
      moreover have "(unat ?i + probe_step hash ex) mod 2 ^ ex = probe_slot hash ex (Suc k)"
        using u probe_slot_Suc by simp
      ultimately show ?thesis using Suc.IH [of "Suc k" ?i] Suc.prems(2) assms(4) [of k] u by (simp add: Let_def)
    qed
  qed simp
  from this [of 0 n "ucast hash"] assms(2) show ?thesis by (simp add: probe_slot_def)
qed

section \<open>The contract of a set of keys\<close>

text \<open>
  \<open>fits A s\<close>: a container like \<open>s\<close> can hold the keys \<open>A\<close> and still has room for another one.
\<close>

fun insert_all :: "('k \<Rightarrow> 's \<Rightarrow> (bool \<times> 's) option) \<Rightarrow> 'k list \<Rightarrow> 's \<Rightarrow> 's option" where
  "insert_all ins [] s = Some s"
| "insert_all ins (k # ks) s = (case ins k s of None \<Rightarrow> None | Some (_, s') \<Rightarrow> insert_all ins ks s')"

locale key_set =
  fixes ins :: "'k \<Rightarrow> 's \<Rightarrow> (bool \<times> 's) option"
    and elems :: "'s \<Rightarrow> 'k set"
    and ok :: "'s \<Rightarrow> bool"
    and fits :: "'k set \<Rightarrow> 's \<Rightarrow> bool"
    and key :: "'k \<Rightarrow> bool"
  assumes insert_law: "ok s \<Longrightarrow> fits (elems s) s \<Longrightarrow> key k \<Longrightarrow>
      \<exists>s'. ins k s = Some (k \<notin> elems s, s') \<and> ok s' \<and> elems s' = elems s \<union> {k} \<and> fits A s' = fits A s"
    and fits_mono: "fits B s \<Longrightarrow> A \<subseteq> B \<Longrightarrow> fits A s"
begin

lemma insert_twice:
  assumes "ok s" "fits (elems s \<union> {k}) s" "key k"
  shows "\<exists>b s' s''. ins k s = Some (b, s') \<and> ins k s' = Some (False, s'') \<and> elems s'' = elems s'"
proof -
  have "fits (elems s) s" using assms(2) by (rule fits_mono) blast
  then obtain s' where s': "ins k s = Some (k \<notin> elems s, s')" "ok s'" "elems s' = elems s \<union> {k}" "fits (elems s') s' = fits (elems s') s"
    using insert_law [OF assms(1) _ assms(3)] by metis
  then have "fits (elems s') s'" using assms(2) by simp
  then obtain s'' where "ins k s' = Some (k \<notin> elems s', s'')" "elems s'' = elems s' \<union> {k}"
    using insert_law [OF s'(2) _ assms(3)] by metis
  then show ?thesis using s' by auto
qed

lemma insert_all_elems:
  assumes "ok s" "fits (elems s \<union> set ks) s" "list_all key ks"
  shows "\<exists>s'. insert_all ins ks s = Some s' \<and> ok s' \<and> elems s' = elems s \<union> set ks \<and> fits (elems s') s'"
  using assms
proof (induction ks arbitrary: s)
  case (Cons k ks)
  have "fits (elems s) s" using Cons.prems(2) by (rule fits_mono) auto
  then obtain s' where s': "ins k s = Some (k \<notin> elems s, s')" "ok s'" "elems s' = elems s \<union> {k}"
      "fits (elems s \<union> set (k # ks)) s' = fits (elems s \<union> set (k # ks)) s"
    using insert_law [OF Cons.prems(1)] Cons.prems(3) by (metis list.pred_inject(2))
  have "fits (elems s' \<union> set ks) s'" using s'(3,4) Cons.prems(2) by simp
  then show ?case using Cons.IH [of s'] s' Cons.prems(3) by auto
qed auto

end

locale key_set_lookup = key_set ins elems ok fits key
  for ins :: "'k \<Rightarrow> 's \<Rightarrow> (bool \<times> 's) option" and elems ok fits key +
  fixes contains :: "'k \<Rightarrow> 's \<Rightarrow> bool option"
  assumes contains_law: "ok s \<Longrightarrow> fits (elems s) s \<Longrightarrow> key k \<Longrightarrow> contains k s = Some (k \<in> elems s)"
begin

lemma contains_inserted:
  assumes "ok s" "fits (elems s \<union> set ks) s" "list_all key ks" "key k"
  shows "\<exists>s'. insert_all ins ks s = Some s' \<and> contains k s' = Some (k \<in> elems s \<or> k \<in> set ks)"
  using insert_all_elems [OF assms(1-3)] contains_law [OF _ _ assms(4)] by fastforce

end

section \<open>Open addressing implements the contract\<close>

definition msi_elems :: "'a \<Rightarrow> 'a msi_set \<Rightarrow> 'a set" where
  "msi_elems blank t = set (msi_buf t) - {blank}"

text \<open>
  The invariant: every stored key lies on its own probe sequence with no empty slot before it, no key
  is stored twice, and the length counts the keys.
\<close>

definition msi_ok :: "'a \<Rightarrow> ('a \<Rightarrow> u64) \<Rightarrow> 'a msi_set \<Rightarrow> bool" where
  "msi_ok blank h t \<longleftrightarrow> 0 < msi_exp t \<and> msi_exp t < 32 \<and> length (msi_buf t) = 2 ^ msi_exp t \<and>
     (\<forall>p < 2 ^ msi_exp t. msi_buf t ! p \<noteq> blank \<longrightarrow>
        (\<exists>j < 2 ^ msi_exp t. probe_slot (h (msi_buf t ! p)) (msi_exp t) j = p \<and>
           (\<forall>i < j. msi_buf t ! probe_slot (h (msi_buf t ! p)) (msi_exp t) i \<noteq> blank))) \<and>
     (\<forall>p q. p < 2 ^ msi_exp t \<longrightarrow> q < 2 ^ msi_exp t \<longrightarrow> msi_buf t ! p \<noteq> blank \<longrightarrow> msi_buf t ! p = msi_buf t ! q \<longrightarrow> p = q) \<and>
     msi_len t = of_nat (card (msi_elems blank t))"

definition msi_fits :: "'a set \<Rightarrow> 'a msi_set \<Rightarrow> bool" where
  "msi_fits A t \<longleftrightarrow> finite A \<and> card A < 2 ^ msi_exp t"

lemma probe_slot_less: "probe_slot hash ex j < 2 ^ ex"
  by (simp add: probe_slot_def)

lemma msi_free_slot:
  assumes "msi_ok blank h t" "msi_fits (msi_elems blank t) t"
  obtains p where "p < 2 ^ msi_exp t" "msi_buf t ! p = blank"
proof (rule ccontr)
  assume "\<not> thesis"
  then have nb: "\<And>p. p < 2 ^ msi_exp t \<Longrightarrow> msi_buf t ! p \<noteq> blank" using that by blast
  have l: "length (msi_buf t) = 2 ^ msi_exp t" using assms(1) by (simp add: msi_ok_def)
  have "distinct (msi_buf t)"
    using assms(1) nb l unfolding msi_ok_def distinct_conv_nth by metis
  then have "card (set (msi_buf t)) = 2 ^ msi_exp t" using l distinct_card by metis
  moreover have "blank \<notin> set (msi_buf t)" using nb l by (metis in_set_conv_nth)
  ultimately show False using assms(2) by (simp add: msi_fits_def msi_elems_def)
qed

text \<open>A search ends at the key's slot if it is stored, and at an empty slot of its sequence otherwise.\<close>

lemma msi_search:
  assumes "msi_ok blank h t" "msi_fits (msi_elems blank t) t" "k \<noteq> blank"
  obtains j where "j < 2 ^ msi_exp t"
    "msi_probe (2 ^ msi_exp t) blank k (h k) (msi_exp t) (ucast (h k)) (msi_buf t) = Some (probe_slot (h k) (msi_exp t) j)"
    "msi_buf t ! probe_slot (h k) (msi_exp t) j = (if k \<in> msi_elems blank t then k else blank)"
    "\<And>i. i < j \<Longrightarrow> msi_buf t ! probe_slot (h k) (msi_exp t) i \<noteq> blank"
proof -
  let ?e = "msi_exp t" and ?b = "msi_buf t"
  note inv = assms(1) [unfolded msi_ok_def]
  obtain p where p: "p < 2 ^ ?e" "?b ! p = blank" by (rule msi_free_slot [OF assms(1,2)])
  obtain j0 where j0: "j0 < 2 ^ ?e" "probe_slot (h k) ?e j0 = p" by (rule probe_slot_surj [OF p(1)])
  let ?P = "\<lambda>j. ?b ! probe_slot (h k) ?e j = blank \<or> ?b ! probe_slot (h k) ?e j = k"
  define j where "j = (LEAST j. ?P j)"
  have Pj: "?P j" unfolding j_def using p(2) j0(2) by (intro LeastI [of ?P j0]) simp
  have lt: "j < 2 ^ ?e" using Least_le [of ?P j0] p(2) j0 unfolding j_def by simp
  have before: "\<not> ?P i" if "i < j" for i using that unfolding j_def by (rule not_less_Least)
  have probe: "msi_probe (2 ^ ?e) blank k (h k) ?e (ucast (h k)) ?b = Some (probe_slot (h k) ?e j)"
    using inv lt Pj before by (intro msi_probe_first) auto
  have "?b ! probe_slot (h k) ?e j = (if k \<in> msi_elems blank t then k else blank)"
  proof (cases "k \<in> msi_elems blank t")
    case True
    then obtain q where q: "q < 2 ^ ?e" "?b ! q = k" using inv by (auto simp: msi_elems_def in_set_conv_nth)
    then obtain jq where jq: "probe_slot (h k) ?e jq = q" "\<forall>i < jq. ?b ! probe_slot (h k) ?e i \<noteq> blank"
      using inv assms(3) by metis
    have "j \<le> jq" using q jq(1) Least_le [of ?P jq] unfolding j_def by simp
    then have "?b ! probe_slot (h k) ?e j \<noteq> blank" using jq q assms(3) by (cases "j = jq") auto
    then show ?thesis using Pj True by simp
  next
    case False
    have "probe_slot (h k) ?e j < length ?b" using probe_slot_less inv by metis
    then have "?b ! probe_slot (h k) ?e j \<in> set ?b" by (rule nth_mem)
    then show ?thesis using Pj False assms(3) by (auto simp: msi_elems_def)
  qed
  then show ?thesis using that lt probe before by blast
qed

lemma msi_ok_insert:
  assumes ok: "msi_ok blank h t" and k: "k \<noteq> blank" "k \<notin> msi_elems blank t"
    and j: "j < 2 ^ msi_exp t" "msi_buf t ! probe_slot (h k) (msi_exp t) j = blank"
      "\<And>i. i < j \<Longrightarrow> msi_buf t ! probe_slot (h k) (msi_exp t) i \<noteq> blank"
  defines "t' \<equiv> t\<lparr>msi_len := msi_len t + 1, msi_buf := (msi_buf t)[probe_slot (h k) (msi_exp t) j := k]\<rparr>"
  shows "msi_ok blank h t'" "msi_elems blank t' = msi_elems blank t \<union> {k}"
proof -
  let ?e = "msi_exp t" and ?b = "msi_buf t" and ?p = "probe_slot (h k) (msi_exp t) j"
  note inv = ok [unfolded msi_ok_def]
  have l: "length ?b = 2 ^ ?e" using inv by blast
  have p: "?p < length ?b" using l probe_slot_less by metis
  have nth: "msi_buf t' ! q = (if q = ?p then k else ?b ! q)" if "q < 2 ^ ?e" for q
    using that l by (simp add: t'_def nth_list_update)
  have kn: "?b ! q \<noteq> k" if "q < 2 ^ ?e" for q
    using that k l by (auto simp: msi_elems_def in_set_conv_nth)
  have "msi_elems blank t' = {?b ! q | q. q < 2 ^ ?e \<and> q \<noteq> ?p \<and> ?b ! q \<noteq> blank} \<union> {k}"
    using l p k(1) by (auto simp: msi_elems_def t'_def in_set_conv_nth nth_list_update) (blast, metis)
  also have "{?b ! q | q. q < 2 ^ ?e \<and> q \<noteq> ?p \<and> ?b ! q \<noteq> blank} = msi_elems blank t"
    using l j(2) by (auto simp: msi_elems_def in_set_conv_nth)
  finally show el: "msi_elems blank t' = msi_elems blank t \<union> {k}" .
  have path: "\<exists>i < 2 ^ ?e. probe_slot (h (msi_buf t' ! q)) ?e i = q \<and>
      (\<forall>i' < i. msi_buf t' ! probe_slot (h (msi_buf t' ! q)) ?e i' \<noteq> blank)"
    if q: "q < 2 ^ ?e" "msi_buf t' ! q \<noteq> blank" for q
  proof (cases "q = ?p")
    case True
    then show ?thesis using nth [OF probe_slot_less] nth [OF q(1)] j k(1) by (intro exI [of _ j]) auto
  next
    case False
    then have "msi_buf t' ! q = ?b ! q" using nth q(1) by simp
    then obtain i where "i < 2 ^ ?e" "probe_slot (h (?b ! q)) ?e i = q"
        "\<forall>i' < i. ?b ! probe_slot (h (?b ! q)) ?e i' \<noteq> blank"
      using inv q by metis
    then show ?thesis using \<open>msi_buf t' ! q = ?b ! q\<close> nth [OF probe_slot_less] k(1) by (intro exI [of _ i]) auto
  qed
  have inj: "q = r" if "q < 2 ^ ?e" "r < 2 ^ ?e" "msi_buf t' ! q \<noteq> blank" "msi_buf t' ! q = msi_buf t' ! r" for q r
    using that nth kn inv by (metis (full_types))
  have "card (msi_elems blank t') = card (msi_elems blank t) + 1"
    using el k by (simp add: msi_elems_def card_insert_if)
  then have len: "msi_len t' = of_nat (card (msi_elems blank t'))" using inv by (simp add: t'_def)
  have e: "msi_exp t' = ?e" "length (msi_buf t') = 2 ^ ?e" using l by (simp_all add: t'_def)
  show "msi_ok blank h t'" unfolding msi_ok_def e using inv path inj len by blast
qed

lemma msi_insert_correct:
  assumes "msi_ok blank h t" "msi_fits (msi_elems blank t) t" "k \<noteq> blank"
  shows "\<exists>t'. msi_insert (2 ^ msi_exp t) blank k (h k) t = Some (k \<notin> msi_elems blank t, t') \<and> msi_ok blank h t' \<and>
     msi_elems blank t' = msi_elems blank t \<union> {k} \<and> msi_fits A t' = msi_fits A t"
proof -
  obtain j where j: "j < 2 ^ msi_exp t"
    "msi_probe (2 ^ msi_exp t) blank k (h k) (msi_exp t) (ucast (h k)) (msi_buf t) = Some (probe_slot (h k) (msi_exp t) j)"
    "msi_buf t ! probe_slot (h k) (msi_exp t) j = (if k \<in> msi_elems blank t then k else blank)"
    "\<And>i. i < j \<Longrightarrow> msi_buf t ! probe_slot (h k) (msi_exp t) i \<noteq> blank"
    by (rule msi_search [OF assms]) blast
  show ?thesis
  proof (cases "k \<in> msi_elems blank t")
    case True
    then show ?thesis using j assms by (auto simp: msi_insert_def)
  next
    case False
    then show ?thesis using j msi_ok_insert [OF assms(1,3) False j(1) _ j(4)] by (simp add: msi_insert_def msi_fits_def)
  qed
qed

lemma msi_contains_correct:
  assumes "msi_ok blank h t" "msi_fits (msi_elems blank t) t" "k \<noteq> blank"
  shows "msi_contains (2 ^ msi_exp t) blank k (h k) t = Some (k \<in> msi_elems blank t)"
proof -
  obtain j where
    "msi_probe (2 ^ msi_exp t) blank k (h k) (msi_exp t) (ucast (h k)) (msi_buf t) = Some (probe_slot (h k) (msi_exp t) j)"
    "msi_buf t ! probe_slot (h k) (msi_exp t) j = (if k \<in> msi_elems blank t then k else blank)"
    by (rule msi_search [OF assms])
  then show ?thesis using assms(3) by (simp add: msi_contains_def)
qed

lemma msi_fits_mono: "msi_fits B t \<Longrightarrow> A \<subseteq> B \<Longrightarrow> msi_fits A t"
  unfolding msi_fits_def by (meson card_mono finite_subset le_less_trans)

interpretation string_set: key_set_lookup
  "\<lambda>k t. msi_insertString (2 ^ msi_exp t) k (hashStringSkeeto k) t" "msi_elems []" "msi_ok [] hashStringSkeeto"
  msi_fits "\<lambda>k. k \<noteq> []" "\<lambda>k t. msi_containsString (2 ^ msi_exp t) k (hashStringSkeeto k) t"
  by (unfold_locales; (unfold msi_insertString_def msi_containsString_def)?;
      rule msi_insert_correct msi_contains_correct msi_fits_mono; assumption)

definition hash16 :: "u16 \<Rightarrow> u64" where
  "hash16 v = ucast (hashU16 v)"

interpretation u16_set: key_set_lookup
  "\<lambda>k t. msi_insertU16 (2 ^ msi_exp t) k (hash16 k) t" "msi_elems 0" "msi_ok 0 hash16"
  msi_fits "\<lambda>k. k \<noteq> 0" "\<lambda>k t. msi_containsU16 (2 ^ msi_exp t) k (hash16 k) t"
  by (unfold_locales; (unfold msi_insertU16_def msi_containsU16_def)?;
      rule msi_insert_correct msi_contains_correct msi_fits_mono; assumption)

section \<open>The sets of strings and of 16-bit numbers\<close>

text \<open>The table a \<^verbatim>\<open>NEW_MSI_SET\<close> of the given exponent starts as.\<close>

definition msi_empty :: "'a \<Rightarrow> nat \<Rightarrow> 'a msi_set" where
  "msi_empty blank ex = \<lparr>msi_buf = replicate (2 ^ ex) blank, msi_exp = ex, msi_len = 0\<rparr>"

lemma msi_empty_ok:
  assumes "0 < ex" "ex < 32"
  shows "msi_ok blank h (msi_empty blank ex)" "msi_elems blank (msi_empty blank ex) = {}" "msi_exp (msi_empty blank ex) = ex"
  using assms by (auto simp: msi_ok_def msi_empty_def msi_elems_def)

lemma insert_all_exp:
  "insert_all (\<lambda>k t. msi_insertString (2 ^ msi_exp t) k (hashStringSkeeto k) t) ks t = Some t' \<Longrightarrow> msi_exp t' = msi_exp t"
  by (induction ks arbitrary: t)
    (auto simp: msi_insertString_def msi_insert_def split: option.splits if_splits)

definition msi_insertStrings :: "bytes list \<Rightarrow> bytes msi_set \<Rightarrow> bytes msi_set option" where
  "msi_insertStrings = insert_all (\<lambda>k t. msi_insertString (2 ^ msi_exp t) k (hashStringSkeeto k) t)"

text \<open>
  C11. Inserting strings one after the other into a fresh table of \<open>2 ^ ex\<close> slots ends, as long as
  fewer distinct strings than slots are inserted; the length counts the distinct strings, and a later
  lookup ends with the answer whether the string was inserted.
\<close>

theorem msi_string_set_refines:
  assumes "0 < ex" "ex < 32" "list_all (\<lambda>s. s \<noteq> []) ks" "card (set ks) < 2 ^ ex" "k \<noteq> []"
  shows "\<exists>t. msi_insertStrings ks (msi_empty [] ex) = Some t \<and> msi_len t = of_nat (card (set ks)) \<and>
    msi_containsString (2 ^ ex) k (hashStringSkeeto k) t = Some (k \<in> set ks)"
proof -
  let ?t = "msi_empty [] ex :: bytes msi_set"
  note e = msi_empty_ok [OF assms(1,2)]
  have fits: "msi_fits (msi_elems [] ?t \<union> set ks) ?t" using assms(4) by (simp add: e msi_fits_def)
  obtain t where t: "msi_insertStrings ks ?t = Some t" "msi_ok [] hashStringSkeeto t" "msi_elems [] t = set ks" "msi_fits (msi_elems [] t) t"
    using string_set.insert_all_elems [OF e(1) fits assms(3)] by (auto simp: e(2) msi_insertStrings_def)
  have "msi_exp t = ex" using insert_all_exp [OF t(1) [unfolded msi_insertStrings_def]] e(3) by simp
  then have "msi_containsString (2 ^ ex) k (hashStringSkeeto k) t = Some (k \<in> set ks)"
    using string_set.contains_law [OF t(2,4) assms(5)] t(3) by simp
  moreover have "msi_len t = of_nat (card (set ks))" using t(2) unfolding msi_ok_def t(3) by (elim conjE)
  ultimately show ?thesis using t(1) by blast
qed

theorem msi_string_set_refines_witness:
  "\<exists>t. msi_insertStrings [[104, 105], [111], [104, 105]] (msi_empty [] 2) = Some t \<and>
     msi_len t = 2 \<and> msi_containsString (2 ^ 2) [111] (hashStringSkeeto [111]) t = Some True"
  using msi_string_set_refines [of 2 "[[104, 105], [111], [104, 105]]" "[111]"] by (simp add: card_insert_if)

lemma all_contained_iff:
  assumes "msi_ok [] hashStringSkeeto t" "msi_fits (msi_elems [] t) t" "list_all (\<lambda>s. s \<noteq> []) es"
  shows "all_contained (2 ^ msi_exp t) es t = Some (set es \<subseteq> msi_elems [] t)"
  using assms(3) string_set.contains_law [OF assms(1,2)] by (induction es) auto

lemma set_FOR_EACH_MSI:
  assumes "msi_ok blank h t"
  shows "set (FOR_EACH_MSI blank t) = msi_elems blank t"
proof -
  have "length (msi_buf t) = 2 ^ msi_exp t" using assms by (simp add: msi_ok_def)
  then have "map (\<lambda>i. msi_buf t ! i) [0..<2 ^ msi_exp t] = msi_buf t" by (metis map_nth)
  then show ?thesis by (auto simp: FOR_EACH_MSI_def msi_elems_def)
qed

text \<open>
  Comparing two tables with the same number of slots, each with a free slot, ends, and it
  reports success exactly if both hold the same strings.
\<close>

theorem msi_equalsStringSet_iff:
  assumes "msi_ok [] hashStringSkeeto t1" "msi_ok [] hashStringSkeeto t2" "msi_exp t1 = ex" "msi_exp t2 = ex"
    and "msi_fits (msi_elems [] t1) t1" "msi_fits (msi_elems [] t2) t2"
  shows "\<exists>r. msi_equalsStringSet (2 ^ ex) t1 t2 = Some r \<and>
    (r = HASH_COMPARISON_SUCCESS \<longleftrightarrow> msi_elems [] t1 = msi_elems [] t2)"
proof -
  have ne: "list_all (\<lambda>s. s \<noteq> []) (FOR_EACH_MSI [] t)" for t :: "bytes msi_set"
    by (simp add: FOR_EACH_MSI_def list_all_iff)
  have 1: "all_contained (2 ^ ex) (FOR_EACH_MSI [] t1) t2 = Some (msi_elems [] t1 \<subseteq> msi_elems [] t2)"
    using all_contained_iff [OF assms(2,6) ne] set_FOR_EACH_MSI [OF assms(1)] assms(4) by simp
  have 2: "all_contained (2 ^ ex) (FOR_EACH_MSI [] t2) t1 = Some (msi_elems [] t2 \<subseteq> msi_elems [] t1)"
    using all_contained_iff [OF assms(1,5) ne] set_FOR_EACH_MSI [OF assms(2)] assms(3) by simp
  have "msi_len t1 = of_nat (card (msi_elems [] t1))" "msi_len t2 = of_nat (card (msi_elems [] t2))"
    using assms(1,2) by (auto simp: msi_ok_def)
  then have "msi_elems [] t1 = msi_elems [] t2 \<Longrightarrow> msi_len t1 = msi_len t2" by simp
  then show ?thesis unfolding msi_equalsStringSet_def 1 2
    by (cases "msi_elems [] t1 \<subseteq> msi_elems [] t2"; cases "msi_elems [] t2 \<subseteq> msi_elems [] t1") auto
qed

lemma msi_sample_ok:
  "msi_ok [] hashStringSkeeto (the (msi_insertStrings [[104, 105], [111]] (msi_empty [] 2)))"
  "msi_elems [] (the (msi_insertStrings [[104, 105], [111]] (msi_empty [] 2))) = {[104, 105], [111]}"
  "msi_exp (the (msi_insertStrings [[104, 105], [111]] (msi_empty [] 2))) = 2"
proof -
  let ?t = "msi_empty [] 2 :: bytes msi_set"
  have e: "msi_ok [] hashStringSkeeto ?t" "msi_elems [] ?t = {}" "msi_exp ?t = 2" using msi_empty_ok [of 2 "[]"] by auto
  obtain t where t: "msi_insertStrings [[104, 105], [111]] ?t = Some t" "msi_ok [] hashStringSkeeto t"
      "msi_elems [] t = {[104, 105], [111]}"
    using string_set.insert_all_elems [OF e(1), of "[[104, 105], [111]]"] by (auto simp: e msi_insertStrings_def msi_fits_def)
  then show "msi_ok [] hashStringSkeeto (the (msi_insertStrings [[104, 105], [111]] ?t))"
    "msi_elems [] (the (msi_insertStrings [[104, 105], [111]] ?t)) = {[104, 105], [111]}"
    "msi_exp (the (msi_insertStrings [[104, 105], [111]] ?t)) = 2"
    using insert_all_exp [OF t(1) [unfolded msi_insertStrings_def]] e(3) by simp_all
qed

theorem msi_equalsStringSet_iff_witness:
  "\<exists>r. msi_equalsStringSet (2 ^ 2) (the (msi_insertStrings [[104, 105], [111]] (msi_empty [] 2))) (msi_empty [] 2) = Some r \<and>
     r \<noteq> HASH_COMPARISON_SUCCESS"
  using msi_equalsStringSet_iff [OF msi_sample_ok(1) msi_empty_ok(1) msi_sample_ok(3), of 2]
  by (simp add: msi_empty_ok msi_sample_ok msi_fits_def)

section \<open>Setting up a table in an arena\<close>

record SetSlice =
  slice_buf :: addr
  slice_exp :: u8
  slice_len :: u64

definition msi_newSet :: "memory \<Rightarrow> SetSlice \<Rightarrow> u64 \<Rightarrow> u64 \<Rightarrow> Arena \<Rightarrow> (memory \<times> SetSlice \<times> Arena) control" where
  "msi_newSet m s sz align a =
     (if slice_exp s \<ge> 31 then Jump
      else let cap = push_bit (unat (slice_exp s)) 1 in
      if slice_buf s = 0 then
        (case alloc m a sz align cap ZERO_MEMORY of
           Ret (p, m, a) \<Rightarrow> Ret (m, s\<lparr>slice_buf := p\<rparr>, a) | Jump \<Rightarrow> Jump | Stuck \<Rightarrow> Stuck)
      else if arena_beg a = slice_buf s + sz * cap then
        (case memset m (slice_buf s) 0 (sz * cap) of
           None \<Rightarrow> Stuck
         | Some m \<Rightarrow>
             (case alloc m a sz 1 cap ZERO_MEMORY of
                Ret (_, m, a) \<Rightarrow> Ret (m, s\<lparr>slice_exp := slice_exp s + 1, slice_len := 0\<rparr>, a) | Jump \<Rightarrow> Jump | Stuck \<Rightarrow> Stuck))
      else
        (case alloc m a (2 * sz) align cap ZERO_MEMORY of
           Ret (data, m, a) \<Rightarrow> Ret (m, s\<lparr>slice_buf := data, slice_exp := slice_exp s + 1, slice_len := 0\<rparr>, a)
         | Jump \<Rightarrow> Jump | Stuck \<Rightarrow> Stuck))"

lemma push_bit_one_u64: "k < 64 \<Longrightarrow> unat (push_bit k 1 :: u64) = 2 ^ k"
  by (simp add: push_bit_eq_mult)

text \<open>A table of \<open>2 ^ exp\<close> slots that fits is set up with every slot empty.\<close>

lemma msi_newSet_blank:
  assumes "arena_ok a" "unat (curFree a) + padding a align \<le> unat (arena_end a)" "0 < sz"
    and "slice_buf s = 0" "slice_exp s < 31" "unat sz * 2 ^ unat (slice_exp s) \<le> room a align"
  shows "\<exists>m' p a'. msi_newSet m s sz align a = Ret (m', s\<lparr>slice_buf := p\<rparr>, a') \<and>
     load_bytes m' p (unat sz * 2 ^ unat (slice_exp s)) = replicate (unat sz * 2 ^ unat (slice_exp s)) 0"
proof -
  have e: "unat (slice_exp s) < 31" using assms(5) by (simp add: word_less_nat_alt)
  have c: "unat (push_bit (unat (slice_exp s)) 1 :: u64) = 2 ^ unat (slice_exp s)" using e by (intro push_bit_one_u64) simp
  have lt: "unat sz * 2 ^ unat (slice_exp s) < 2 ^ 64"
    using assms(6) unat_lt_u64 [of "arena_end a"] unfolding room_def by simp
  obtain p m' where "alloc m a sz align (push_bit (unat (slice_exp s)) 1) ZERO_MEMORY =
      Ret (p, m', a\<lparr>curFree := p + sz * push_bit (unat (slice_exp s)) 1\<rparr>)"
      "m' = (if ZERO_MEMORY AND ZERO_MEMORY \<noteq> 0 then filled m p 0 (unat sz * 2 ^ unat (slice_exp s)) else m)"
    using alloc_spec(2) [OF assms(1-3), of "push_bit (unat (slice_exp s)) 1" m ZERO_MEMORY] assms(6) unfolding c by blast
  moreover have "\<not> slice_exp s \<ge> 31" using assms(5) by simp
  ultimately show ?thesis using assms(4) load_filled [OF lt] by (simp add: msi_newSet_def Let_def ZERO_MEMORY_def del: push_bit_of_1) blast
qed

end
