(* ===== verification/Trie.thy ===== *)
theory Trie
  imports HashSet
begin

text \<open>
  \<^verbatim>\<open>shared/hash/trie\<close>, the hash tries: sets of strings and of 16-bit numbers, the map from strings to
  numbers, the map that numbers its keys, and the iterator the macros of \<^verbatim>\<open>common-iterator.h\<close> build for
  each of them. A node is a datum and four children; the two highest bits of the hash pick the child
  and the hash is shifted by two on every level. Nodes come from an arena, whose bytes and free
  pointer are threaded through every operation; that a node is linked into the tree is kept in the tree.
\<close>

section \<open>Nodes\<close>

datatype 'd trie = Null | Node (node_data: 'd) "'d trie" "'d trie" "'d trie" "'d trie"

fun child :: "'d trie \<Rightarrow> nat \<Rightarrow> 'd trie" where
  "child Null i = Null"
| "child (Node d c0 c1 c2 c3) i = (if i = 0 then c0 else if i = 1 then c1 else if i = 2 then c2 else c3)"

type_synonym heap = "memory \<times> Arena"

definition NEW_zeroed :: "u64 \<Rightarrow> u64 \<Rightarrow> heap \<Rightarrow> heap control" where
  "NEW_zeroed sz align h =
     (case alloc (fst h) (snd h) sz align 1 ZERO_MEMORY of Ret (_, m, a) \<Rightarrow> Ret (m, a) | Jump \<Rightarrow> Jump | Stuck \<Rightarrow> Stuck)"

definition trie_digit :: "'w :: len word \<Rightarrow> nat" where
  "trie_digit hash = unat (drop_bit (LENGTH('w) - 2) hash)"

section \<open>Insertion\<close>

text \<open>
  The loop all insertions share: the datum that matches the key, or nothing after a new node was
  linked at the end of the key's path. \<open>mk\<close> gets the node from the arena.
\<close>

fun relink :: "('d trie \<Rightarrow> 'd trie) \<Rightarrow> ('d option \<times> 'd trie \<times> 'h) control \<Rightarrow> ('d option \<times> 'd trie \<times> 'h) control" where
  "relink f (Ret (r, t, h)) = Ret (r, f t, h)"
| "relink f Jump = Jump"
| "relink f Stuck = Stuck"

fun trie_insert :: "('d \<Rightarrow> bool) \<Rightarrow> ('h \<Rightarrow> 'h control) \<Rightarrow> 'd \<Rightarrow> 'w :: len word \<Rightarrow> 'd trie \<Rightarrow> 'h \<Rightarrow> ('d option \<times> 'd trie \<times> 'h) control" where
  "trie_insert eq mk new hash Null h =
     (case mk h of Ret h \<Rightarrow> Ret (None, Node new Null Null Null Null, h) | Jump \<Rightarrow> Jump | Stuck \<Rightarrow> Stuck)"
| "trie_insert eq mk new hash (Node d c0 c1 c2 c3) h =
     (if eq d then Ret (Some d, Node d c0 c1 c2 c3, h)
      else let i = trie_digit hash; hash = push_bit 2 hash in
        if i = 0 then relink (\<lambda>c. Node d c c1 c2 c3) (trie_insert eq mk new hash c0 h)
        else if i = 1 then relink (\<lambda>c. Node d c0 c c2 c3) (trie_insert eq mk new hash c1 h)
        else if i = 2 then relink (\<lambda>c. Node d c0 c1 c c3) (trie_insert eq mk new hash c2 h)
        else relink (\<lambda>c. Node d c0 c1 c2 c) (trie_insert eq mk new hash c3 h))"

definition trie_insertU16Set :: "u16 \<Rightarrow> u16 trie \<Rightarrow> heap \<Rightarrow> (bool \<times> u16 trie \<times> heap) control" where
  "trie_insertU16Set key t perm =
     (case trie_insert (\<lambda>d. key = d) (NEW_zeroed 40 8) key (hashU16 key) t perm of
        Ret (r, t, perm) \<Rightarrow> Ret (r = None, t, perm) | Jump \<Rightarrow> Jump | Stuck \<Rightarrow> Stuck)"

definition trie_insertStringSet :: "bytes \<Rightarrow> bytes trie \<Rightarrow> heap \<Rightarrow> (bool \<times> bytes trie \<times> heap) control" where
  "trie_insertStringSet key t perm =
     (case trie_insert (\<lambda>d. stringEquals key d) (NEW_zeroed 48 8) key (hashStringSkeeto key) t perm of
        Ret (r, t, perm) \<Rightarrow> Ret (r = None, t, perm) | Jump \<Rightarrow> Jump | Stuck \<Rightarrow> Stuck)"

text \<open>A new entry is reported with the truth value 1, an old one with its value.\<close>

definition trie_insertStringU16Map :: "bytes \<Rightarrow> u16 \<Rightarrow> (bytes \<times> u16) trie \<Rightarrow> heap \<Rightarrow> (u16 \<times> (bytes \<times> u16) trie \<times> heap) control" where
  "trie_insertStringU16Map key val t perm =
     (case trie_insert (\<lambda>d. stringEquals key (fst d)) (NEW_zeroed 56 8) (key, val) (hashStringSkeeto key) t perm of
        Ret (Some d, t, perm) \<Rightarrow> Ret (snd d, t, perm)
      | Ret (None, t, perm) \<Rightarrow> Ret (1, t, perm) | Jump \<Rightarrow> Jump | Stuck \<Rightarrow> Stuck)"

record trie_stringAutoU16Map =
  nodeCount :: u16
  auto_node :: "(bytes \<times> u16) trie"

record NewStringInsert =
  wasInserted :: bool
  entryIndex :: u16

definition trie_insertStringAutoU16Map ::
  "bytes \<Rightarrow> trie_stringAutoU16Map \<Rightarrow> heap \<Rightarrow> (NewStringInsert \<times> trie_stringAutoU16Map \<times> heap) control" where
  "trie_insertStringAutoU16Map key s perm =
     (case trie_insert (\<lambda>d. stringEquals key (fst d))
         (\<lambda>h. if nodeCount s = U16_MAX then Jump else NEW_zeroed 56 8 h)
         (key, nodeCount s + 1) (hashStringSkeeto key) (auto_node s) perm of
        Ret (Some d, t, perm) \<Rightarrow> Ret (\<lparr>wasInserted = False, entryIndex = snd d\<rparr>, s\<lparr>auto_node := t\<rparr>, perm)
      | Ret (None, t, perm) \<Rightarrow>
          (let s = s\<lparr>nodeCount := nodeCount s + 1, auto_node := t\<rparr> in
           Ret (\<lparr>wasInserted = True, entryIndex = nodeCount s\<rparr>, s, perm))
      | Jump \<Rightarrow> Jump | Stuck \<Rightarrow> Stuck)"

fun trie_find :: "('d \<Rightarrow> bool) \<Rightarrow> 'w :: len word \<Rightarrow> 'd trie \<Rightarrow> 'd option" where
  "trie_find eq hash Null = None"
| "trie_find eq hash (Node d c0 c1 c2 c3) =
     (if eq d then Some d
      else let i = trie_digit hash; hash = push_bit 2 hash in
        if i = 0 then trie_find eq hash c0
        else if i = 1 then trie_find eq hash c1
        else if i = 2 then trie_find eq hash c2
        else trie_find eq hash c3)"

definition trie_containsStringAutoU16Map :: "bytes \<Rightarrow> trie_stringAutoU16Map \<Rightarrow> u16" where
  "trie_containsStringAutoU16Map key s =
     (case trie_find (\<lambda>d. stringEquals key (fst d)) (hashStringSkeeto key) (auto_node s) of
        Some d \<Rightarrow> snd d | None \<Rightarrow> 0)"

section \<open>The iterator\<close>

text \<open>
  The stack of nodes under way, each with the index of what comes next (the datum, then the
  children), and the length of the free list: a reused iterator node is overwritten entirely.
\<close>

record 'd trie_iterator =
  iter_head :: "('d trie \<times> nat) list"
  iter_free :: nat

definition createIterator :: "'d trie \<Rightarrow> heap \<Rightarrow> ('d trie_iterator \<times> heap) control" where
  "createIterator t perm =
     (case NEW_zeroed 16 8 perm of
        Ret perm \<Rightarrow>
          if t \<noteq> Null then
            (case NEW_zeroed 24 8 perm of
               Ret perm \<Rightarrow> Ret (\<lparr>iter_head = [(t, 0)], iter_free = 0\<rparr>, perm) | Jump \<Rightarrow> Jump | Stuck \<Rightarrow> Stuck)
          else Ret (\<lparr>iter_head = [], iter_free = 0\<rparr>, perm)
      | Jump \<Rightarrow> Jump | Stuck \<Rightarrow> Stuck)"

text \<open>The steps a subtree and a stack still have in them.\<close>

fun trie_work :: "'d trie \<Rightarrow> nat" where
  "trie_work Null = 0"
| "trie_work (Node d c0 c1 c2 c3) = 6 + trie_work c0 + trie_work c1 + trie_work c2 + trie_work c3"

fun entry_work :: "'d trie \<times> nat \<Rightarrow> nat" where
  "entry_work (t, i) = (6 - i) + sum_list (map (\<lambda>j. trie_work (child t j)) [i - 1..<4])"

lemma entry_work_child:
  assumes "0 < i" "i < 5"
  shows "entry_work (t, i) = 1 + trie_work (child t (i - 1)) + entry_work (t, i + 1)"
  using assms by (cases i) (simp_all add: upt_rec)

lemma entry_work_root: "t \<noteq> Null \<Longrightarrow> entry_work (t, 0) = trie_work t"
  by (cases t) (simp_all add: upt_rec)

lemma entry_work_pos: "i < 6 \<Longrightarrow> 0 < entry_work (t, i)"
  by simp

text \<open>An index above 5 would read outside the children; it does not occur.\<close>

function nextIterator :: "'d trie_iterator \<Rightarrow> heap \<Rightarrow> ('d option \<times> 'd trie_iterator \<times> heap) control" where
  "nextIterator it perm =
     (case iter_head it of
        [] \<Rightarrow> Ret (None, it, perm)
      | (t, index) # rest \<Rightarrow>
          if index = 0 then Ret (Some (node_data t), it\<lparr>iter_head := (t, index + 1) # rest\<rparr>, perm)
          else if index = 5 then nextIterator (it\<lparr>iter_head := rest, iter_free := iter_free it + 1\<rparr>) perm
          else if index > 5 then Stuck
          else if child t (index - 1) \<noteq> Null then
            (if iter_free it \<noteq> 0
             then nextIterator \<lparr>iter_head = (child t (index - 1), 0) # (t, index + 1) # rest, iter_free = iter_free it - 1\<rparr> perm
             else (case NEW_zeroed 24 8 perm of
                     Ret perm \<Rightarrow> nextIterator \<lparr>iter_head = (child t (index - 1), 0) # (t, index + 1) # rest, iter_free = 0\<rparr> perm
                   | Jump \<Rightarrow> Jump | Stuck \<Rightarrow> Stuck))
          else nextIterator (it\<lparr>iter_head := (t, index + 1) # rest\<rparr>) perm)"
  by pat_completeness auto

termination
  by (relation "measure (\<lambda>(it, perm). sum_list (map entry_work (iter_head it)))")
    (auto simp: entry_work_child entry_work_root entry_work_pos simp del: entry_work.simps(1))

section \<open>Tries keep every key on the path of its hash\<close>

fun trie_height :: "'d trie \<Rightarrow> nat" where
  "trie_height Null = 0"
| "trie_height (Node d c0 c1 c2 c3) = 1 + max (max (trie_height c0) (trie_height c1)) (max (trie_height c2) (trie_height c3))"

fun preorder :: "'d trie \<Rightarrow> 'd list" where
  "preorder Null = []"
| "preorder (Node d c0 c1 c2 c3) = d # preorder c0 @ preorder c1 @ preorder c2 @ preorder c3"

definition on_branch :: "('d \<Rightarrow> 'w :: len word) \<Rightarrow> nat \<Rightarrow> nat \<Rightarrow> 'd trie \<Rightarrow> bool" where
  "on_branch h n i c \<longleftrightarrow> (\<forall>e \<in> set_trie c. trie_digit (push_bit (2 * n) (h e)) = i)"

fun trie_ok :: "('d \<Rightarrow> 'k) \<Rightarrow> ('k \<Rightarrow> 'w :: len word) \<Rightarrow> nat \<Rightarrow> 'd trie \<Rightarrow> bool" where
  "trie_ok key h n Null = True"
| "trie_ok key h n (Node d c0 c1 c2 c3) \<longleftrightarrow>
     (\<forall>e \<in> set_trie c0 \<union> set_trie c1 \<union> set_trie c2 \<union> set_trie c3. key e \<noteq> key d) \<and>
     on_branch (h \<circ> key) n 0 c0 \<and> on_branch (h \<circ> key) n 1 c1 \<and> on_branch (h \<circ> key) n 2 c2 \<and> on_branch (h \<circ> key) n 3 c3 \<and>
     trie_ok key h (Suc n) c0 \<and> trie_ok key h (Suc n) c1 \<and> trie_ok key h (Suc n) c2 \<and> trie_ok key h (Suc n) c3"

lemma trie_digit_less:
  fixes hash :: "'w :: len word"
  assumes "2 \<le> LENGTH('w)"
  shows "trie_digit hash < 4"
proof -
  have "unat hash < 2 ^ (LENGTH('w) - 2) * 2 ^ 2"
    using unat_lt_2p [of hash] assms by (simp only: power_add [symmetric] le_add_diff_inverse2)
  then show ?thesis by (simp add: trie_digit_def unat_drop_bit less_mult_imp_div_less mult.commute)
qed

lemma push_bit_two: "push_bit 2 (push_bit (2 * n) w) = push_bit (2 * Suc n) w"
  by simp

text \<open>A key of the tree is found by a search; what an unsuccessful insertion leaves is the tree itself.\<close>

lemma trie_find_mem:
  assumes "2 \<le> LENGTH('w :: len)" "trie_ok key (h :: 'k \<Rightarrow> 'w word) n t" "d \<in> set_trie t" "key d = k"
  shows "trie_find (\<lambda>e. k = key e) (push_bit (2 * n) (h k)) t = Some d"
  using assms(2,3)
proof (induction t arbitrary: n)
  case (Node e c0 c1 c2 c3)
  show ?case
  proof (cases "d = e")
    case False
    then have mem: "d \<in> set_trie c0 \<or> d \<in> set_trie c1 \<or> d \<in> set_trie c2 \<or> d \<in> set_trie c3" using Node.prems(2) by auto
    then have "k \<noteq> key e" using Node.prems(1) assms(4) unfolding trie_ok.simps by blast
    have br: "\<And>i c. on_branch (h \<circ> key) n i c \<Longrightarrow> d \<in> set_trie c \<Longrightarrow> trie_digit (push_bit (2 * n) (h k)) = i"
      using assms(4) by (auto simp: on_branch_def)
    note ok = Node.prems(1) [unfolded trie_ok.simps]
    from mem show ?thesis
    proof (elim disjE)
      assume "d \<in> set_trie c0"
      then show ?thesis using br [of 0 c0] Node.IH(1) [of "Suc n"] ok \<open>k \<noteq> key e\<close> by (simp add: push_bit_two)
    next
      assume "d \<in> set_trie c1"
      then show ?thesis using br [of 1 c1] Node.IH(2) [of "Suc n"] ok \<open>k \<noteq> key e\<close> by (simp add: push_bit_two)
    next
      assume "d \<in> set_trie c2"
      then show ?thesis using br [of 2 c2] Node.IH(3) [of "Suc n"] ok \<open>k \<noteq> key e\<close> by (simp add: push_bit_two)
    next
      assume "d \<in> set_trie c3"
      then show ?thesis using br [of 3 c3] Node.IH(4) [of "Suc n"] ok \<open>k \<noteq> key e\<close> by (simp add: push_bit_two)
    qed
  qed (use assms(4) in auto)
qed simp

lemma trie_find_None:
  assumes "k \<notin> key ` set_trie t"
  shows "trie_find (\<lambda>e. k = key e) w t = None"
  using assms by (induction t arbitrary: w) (auto simp: Let_def image_Un)

lemma trie_insert_mem:
  assumes "trie_find eq w t = Some d"
  shows "trie_insert eq mk new w t h = Ret (Some d, t, h)"
  using assms by (induction t arbitrary: w) (auto simp: Let_def split: if_splits)

lemma trie_insert_new:
  assumes "2 \<le> LENGTH('w :: len)" "trie_ok key (h :: 'k \<Rightarrow> 'w word) n t" "key new \<notin> key ` set_trie t" "mk hp = Ret hp'"
  shows "\<exists>t'. trie_insert (\<lambda>e. key new = key e) mk new (push_bit (2 * n) (h (key new))) t hp = Ret (None, t', hp') \<and>
     trie_ok key h n t' \<and> set_trie t' = set_trie t \<union> {new}"
  using assms(2,3)
proof (induction t arbitrary: n)
  case Null
  then show ?case using assms(4) by (simp add: on_branch_def)
next
  case (Node e c0 c1 c2 c3)
  let ?w = "push_bit (2 * n) (h (key new))"
  have lt: "trie_digit ?w < 4" using assms(1) by (rule trie_digit_less)
  have ne: "key new \<noteq> key e" using Node.prems(2) by auto
  have sub: "\<And>c. c \<in> {c0, c1, c2, c3} \<Longrightarrow> key new \<notin> key ` set_trie c" using Node.prems(2) by auto
  note ok = Node.prems(1) [simplified]
  note simps = ne Let_def push_bit_two on_branch_def
  consider "trie_digit ?w = 0" | "trie_digit ?w = 1" | "trie_digit ?w = 2" | "trie_digit ?w = 3" using lt by linarith
  then show ?case
  proof cases
    case 1
    obtain t' where "trie_insert (\<lambda>e. key new = key e) mk new (push_bit (2 * Suc n) (h (key new))) c0 hp = Ret (None, t', hp')"
      "trie_ok key h (Suc n) t'" "set_trie t' = set_trie c0 \<union> {new}" using Node.IH(1) ok sub by blast
    then show ?thesis using 1 ok by (auto simp: simps simp del: push_bit_push_bit)
  next
    case 2
    obtain t' where "trie_insert (\<lambda>e. key new = key e) mk new (push_bit (2 * Suc n) (h (key new))) c1 hp = Ret (None, t', hp')"
      "trie_ok key h (Suc n) t'" "set_trie t' = set_trie c1 \<union> {new}" using Node.IH(2) ok sub by blast
    then show ?thesis using 2 ok by (auto simp: simps simp del: push_bit_push_bit)
  next
    case 3
    obtain t' where "trie_insert (\<lambda>e. key new = key e) mk new (push_bit (2 * Suc n) (h (key new))) c2 hp = Ret (None, t', hp')"
      "trie_ok key h (Suc n) t'" "set_trie t' = set_trie c2 \<union> {new}" using Node.IH(3) ok sub by blast
    then show ?thesis using 3 ok by (auto simp: simps simp del: push_bit_push_bit)
  next
    case 4
    obtain t' where "trie_insert (\<lambda>e. key new = key e) mk new (push_bit (2 * Suc n) (h (key new))) c3 hp = Ret (None, t', hp')"
      "trie_ok key h (Suc n) t'" "set_trie t' = set_trie c3 \<union> {new}" using Node.IH(4) ok sub by blast
    then show ?thesis using 4 ok by (auto simp: simps simp del: push_bit_push_bit)
  qed
qed

section \<open>Nodes from the arena\<close>

text \<open>How many zeroed nodes of \<open>sz\<close> bytes the arena still has.\<close>

definition nodes_left :: "u64 \<Rightarrow> heap \<Rightarrow> nat" where
  "nodes_left sz h = room (snd h) 8 div unat sz"

definition heap_ok :: "heap \<Rightarrow> bool" where
  "heap_ok h \<longleftrightarrow> arena_ok (snd h)"

lemma NEW_zeroed_room:
  assumes "heap_ok h" "0 < sz" "8 dvd unat sz" "unat sz \<le> room (snd h) 8"
  shows "\<exists>h'. NEW_zeroed sz 8 h = Ret h' \<and> heap_ok h' \<and> room (snd h') 8 = room (snd h) 8 - unat sz"
proof -
  let ?a = "snd h"
  have ok: "arena_ok ?a" using assms(1) by (simp add: heap_ok_def)
  have pos: "0 < unat sz" using assms(2) by (simp add: word_less_nat_alt)
  have e8: "(8 :: u64) = 2 ^ 3" by simp
  have pad: "unat (curFree ?a) + padding ?a 8 \<le> unat (arena_end ?a)" using assms(4) pos unfolding room_def by linarith
  obtain p m' where p: "alloc (fst h) ?a sz 8 1 ZERO_MEMORY = Ret (p, m', ?a\<lparr>curFree := p + sz * 1\<rparr>)"
      "unat p = unat (curFree ?a) + padding ?a 8" "unat (p + sz * 1) = unat p + unat sz * unat (1 :: u64)"
      "unat (p + sz * 1) \<le> unat (arena_end ?a)"
    using alloc_spec(2) [OF ok pad assms(2), of 1 "fst h" ZERO_MEMORY] assms(4) by auto
  let ?a' = "?a\<lparr>curFree := p + sz\<rparr>"
  have "8 dvd unat p" unfolding p(2) e8 using padding_aligns [of 3 ?a] by simp
  then have "8 dvd unat (curFree ?a')" using p(3) assms(3) by simp
  moreover have "8 dvd unat (curFree ?a') + padding ?a' 8" using padding_aligns [of 3 ?a'] by simp
  ultimately have "8 dvd padding ?a' 8" by (metis dvd_add_right_iff)
  moreover have "padding ?a' 8 < 8" unfolding e8 padding_mod by simp
  ultimately have z: "padding ?a' 8 = 0" by (auto dest: dvd_imp_le)
  have "room ?a' 8 = room ?a 8 - unat sz" using z p(2,3) by (simp add: room_def)
  moreover have "arena_ok ?a'" using ok p(4) by (simp add: arena_ok_def word_le_nat_alt)
  ultimately show ?thesis using p(1) by (simp add: NEW_zeroed_def heap_ok_def)
qed

lemma NEW_zeroed_left:
  assumes "heap_ok h" "0 < sz" "8 dvd unat sz" "0 < nodes_left sz h"
  shows "\<exists>h'. NEW_zeroed sz 8 h = Ret h' \<and> heap_ok h' \<and> nodes_left sz h' = nodes_left sz h - 1"
proof -
  have pos: "0 < unat sz" using assms(2) by (simp add: word_less_nat_alt)
  have "unat sz \<le> room (snd h) 8" using assms(4) pos by (simp add: nodes_left_def div_greater_zero_iff)
  then show ?thesis using NEW_zeroed_room [OF assms(1-3)] pos
    by (auto simp: nodes_left_def le_div_geq)
qed

section \<open>Tries implement sets of keys\<close>

definition trie_fits :: "u64 \<Rightarrow> 'k set \<Rightarrow> 'k trie \<times> heap \<Rightarrow> bool" where
  "trie_fits sz A s \<longleftrightarrow> finite A \<and> card A < card (set_trie (fst s)) + nodes_left sz (snd s)"

definition trie_set_ok :: "('k \<Rightarrow> 'w :: len word) \<Rightarrow> 'k trie \<times> heap \<Rightarrow> bool" where
  "trie_set_ok h s \<longleftrightarrow> trie_ok id h 0 (fst s) \<and> heap_ok (snd s)"

definition returned :: "('b \<times> 's) control \<Rightarrow> ('b \<times> 's) option" where
  "returned r = (case r of Ret x \<Rightarrow> Some x | _ \<Rightarrow> None)"

lemma stringEquals_iff: "stringEquals a b \<longleftrightarrow> a = b"
  by (auto simp: stringEquals_def)

lemma finite_set_trie [simp]: "finite (set_trie t)"
  by (induction t) auto

lemma trie_set_insert:
  fixes h :: "'k \<Rightarrow> 'w :: len word"
  assumes "2 \<le> LENGTH('w)" "0 < sz" "8 dvd unat sz" "trie_set_ok h s" "trie_fits sz (set_trie (fst s)) s"
  shows "\<exists>r t' hp'. trie_insert (\<lambda>d. k = d) (NEW_zeroed sz 8) k (h k) (fst s) (snd s) = Ret (r, t', hp') \<and>
     (r = None \<longleftrightarrow> k \<notin> set_trie (fst s)) \<and> trie_set_ok h (t', hp') \<and> set_trie t' = set_trie (fst s) \<union> {k} \<and>
     (\<forall>A. trie_fits sz A (t', hp') = trie_fits sz A s)"
proof (cases "k \<in> set_trie (fst s)")
  case True
  have ok: "trie_ok id h 0 (fst s)" using assms(4) by (simp add: trie_set_ok_def)
  have "trie_find (\<lambda>e. k = id e) (push_bit (2 * 0) (h k)) (fst s) = Some k"
    by (rule trie_find_mem [OF assms(1) ok True]) simp
  then show ?thesis using trie_insert_mem [of "\<lambda>d. k = d" "h k" "fst s" k "NEW_zeroed sz 8" k "snd s"] True assms(4)
    by (intro exI [of _ "Some k"] exI [of _ "fst s"] exI [of _ "snd s"]) auto
next
  case False
  have ok: "trie_ok id h 0 (fst s)" and hp: "heap_ok (snd s)" using assms(4) by (simp_all add: trie_set_ok_def)
  have left: "0 < nodes_left sz (snd s)" using assms(5) by (simp add: trie_fits_def)
  obtain hp' where hp': "NEW_zeroed sz 8 (snd s) = Ret hp'" "heap_ok hp'" "nodes_left sz hp' = nodes_left sz (snd s) - 1"
    using NEW_zeroed_left [OF hp assms(2,3) left] by blast
  obtain t' where t': "trie_insert (\<lambda>d. k = d) (NEW_zeroed sz 8) k (h k) (fst s) (snd s) = Ret (None, t', hp')"
      "trie_ok id h 0 t'" "set_trie t' = set_trie (fst s) \<union> {k}"
    using trie_insert_new [where key = id and new = k and n = 0 and mk = "NEW_zeroed sz 8" and hp = "snd s", OF assms(1) ok _ hp'(1)] False by auto
  have "card (set_trie t') = card (set_trie (fst s)) + 1" using t'(3) False by simp
  then show ?thesis using t' hp' left False by (simp add: trie_set_ok_def trie_fits_def)
qed

lemma trie_fits_mono: "trie_fits sz B s \<Longrightarrow> A \<subseteq> B \<Longrightarrow> trie_fits sz A s"
  unfolding trie_fits_def by (meson card_mono finite_subset le_less_trans)

interpretation u16_trie: key_set
  "\<lambda>k s. returned (trie_insertU16Set k (fst s) (snd s))" "\<lambda>s. set_trie (fst s)" "trie_set_ok hashU16" "trie_fits 40" "\<lambda>_. True"
proof
  fix s :: "u16 trie \<times> heap" and k A
  assume "trie_set_ok hashU16 s" "trie_fits 40 (set_trie (fst s)) s"
  then show "\<exists>s'. returned (trie_insertU16Set k (fst s) (snd s)) = Some (k \<notin> set_trie (fst s), s') \<and>
      trie_set_ok hashU16 s' \<and> set_trie (fst s') = set_trie (fst s) \<union> {k} \<and> trie_fits 40 A s' = trie_fits 40 A s"
    using trie_set_insert [of 40 hashU16 s k] by (auto simp: trie_insertU16Set_def returned_def)
qed (rule trie_fits_mono)

interpretation string_trie: key_set
  "\<lambda>k s. returned (trie_insertStringSet k (fst s) (snd s))" "\<lambda>s. set_trie (fst s)" "trie_set_ok hashStringSkeeto" "trie_fits 48" "\<lambda>_. True"
proof
  fix s :: "bytes trie \<times> heap" and k A
  assume "trie_set_ok hashStringSkeeto s" "trie_fits 48 (set_trie (fst s)) s"
  then show "\<exists>s'. returned (trie_insertStringSet k (fst s) (snd s)) = Some (k \<notin> set_trie (fst s), s') \<and>
      trie_set_ok hashStringSkeeto s' \<and> set_trie (fst s') = set_trie (fst s) \<union> {k} \<and> trie_fits 48 A s' = trie_fits 48 A s"
    using trie_set_insert [of 48 hashStringSkeeto s k] by (auto simp: trie_insertStringSet_def returned_def stringEquals_iff)
qed (rule trie_fits_mono)

section \<open>The numbering map\<close>

text \<open>
  The numbers of the keys are distinct and run from 1 to \<^verbatim>\<open>nodeCount\<close>, which counts the nodes.
\<close>

definition auto_ok :: "trie_stringAutoU16Map \<Rightarrow> bool" where
  "auto_ok s \<longleftrightarrow> trie_ok fst hashStringSkeeto 0 (auto_node s) \<and> inj_on snd (set_trie (auto_node s)) \<and>
     snd ` set_trie (auto_node s) = {v. 0 < v \<and> v \<le> nodeCount s}"

lemma trie_ok_inj:
  assumes "2 \<le> LENGTH('w :: len)" "trie_ok key (h :: 'k \<Rightarrow> 'w word) n t" "d \<in> set_trie t" "e \<in> set_trie t" "key d = key e"
  shows "d = e"
  using trie_find_mem [OF assms(1-3) assms(5)] trie_find_mem [OF assms(1,2,4), of "key e"] by simp

lemma contains_mem:
  assumes "auto_ok s" "(k, v) \<in> set_trie (auto_node s)"
  shows "trie_containsStringAutoU16Map k s = v"
  using trie_find_mem [of fst hashStringSkeeto 0 "auto_node s" "(k, v)" k] assms
  by (simp add: trie_containsStringAutoU16Map_def stringEquals_iff auto_ok_def)

lemma contains_not_mem:
  assumes "k \<notin> fst ` set_trie (auto_node s)"
  shows "trie_containsStringAutoU16Map k s = 0"
  using trie_find_None [OF assms, of "hashStringSkeeto k"] by (simp add: trie_containsStringAutoU16Map_def stringEquals_iff)

lemma contains_zero_iff:
  assumes "auto_ok s"
  shows "trie_containsStringAutoU16Map k s = 0 \<longleftrightarrow> k \<notin> fst ` set_trie (auto_node s)"
proof -
  have "v \<noteq> 0" if "(k, v) \<in> set_trie (auto_node s)" for v
    using that assms by (force simp: auto_ok_def)
  then show ?thesis using contains_mem [OF assms] contains_not_mem by force
qed

lemma next_number:
  fixes n :: u16
  assumes "n \<noteq> U16_MAX"
  shows "{v. 0 < v \<and> v \<le> n + 1} = insert (n + 1) {v. 0 < v \<and> v \<le> n}" "n + 1 \<notin> {v. 0 < v \<and> v \<le> n}"
proof -
  have "unat U16_MAX = 65535" by (simp add: unsigned_minus_1_eq_mask mask_eq_exp_minus_1)
  then have "unat n \<noteq> 65535" using assms by (metis word_unat_eq_iff)
  then have u: "unat (n + 1) = unat n + 1" using unat_lt_u16 [of n] unat_add_nowrap [of n 1] by simp
  have eq: "v = n + 1 \<longleftrightarrow> unat v = unat n + 1" for v
    using u by (metis word_unat_eq_iff)
  show "{v. 0 < v \<and> v \<le> n + 1} = insert (n + 1) {v. 0 < v \<and> v \<le> n}"
    by (auto simp: word_less_nat_alt word_le_nat_alt u eq)
  show "n + 1 \<notin> {v. 0 < v \<and> v \<le> n}" by (simp add: word_le_nat_alt u)
qed

lemma auto_insert_old:
  assumes "auto_ok s" "(key, v) \<in> set_trie (auto_node s)"
  shows "trie_insertStringAutoU16Map key s hp = Ret (\<lparr>wasInserted = False, entryIndex = v\<rparr>, s, hp)"
proof -
  have "trie_find (\<lambda>d. stringEquals key (fst d)) (hashStringSkeeto key) (auto_node s) = Some (key, v)"
    using trie_find_mem [of fst hashStringSkeeto 0 "auto_node s" "(key, v)" key] assms by (simp add: auto_ok_def stringEquals_iff)
  then show ?thesis using trie_insert_mem [of "\<lambda>d. stringEquals key (fst d)" "hashStringSkeeto key" "auto_node s" "(key, v)"
      "\<lambda>h. if nodeCount s = U16_MAX then Jump else NEW_zeroed 56 8 h" "(key, nodeCount s + 1)" hp]
    by (simp add: trie_insertStringAutoU16Map_def)
qed

lemma auto_insert_new:
  assumes "auto_ok s" "key \<notin> fst ` set_trie (auto_node s)" "nodeCount s \<noteq> U16_MAX" "NEW_zeroed 56 8 hp = Ret hp'"
  shows "\<exists>s'. trie_insertStringAutoU16Map key s hp = Ret (\<lparr>wasInserted = True, entryIndex = nodeCount s + 1\<rparr>, s', hp') \<and>
     auto_ok s' \<and> nodeCount s' = nodeCount s + 1 \<and>
     set_trie (auto_node s') = insert (key, nodeCount s + 1) (set_trie (auto_node s))"
proof -
  let ?mk = "\<lambda>h. if nodeCount s = U16_MAX then Jump else NEW_zeroed 56 8 h"
  have mk: "?mk hp = Ret hp'" using assms(3,4) by simp
  have tok: "trie_ok fst hashStringSkeeto 0 (auto_node s)" using assms(1) by (simp add: auto_ok_def)
  obtain t' where t': "trie_insert (\<lambda>e. key = fst e) ?mk (key, nodeCount s + 1) (hashStringSkeeto key) (auto_node s) hp = Ret (None, t', hp')"
      "trie_ok fst hashStringSkeeto 0 t'" "set_trie t' = set_trie (auto_node s) \<union> {(key, nodeCount s + 1)}"
    using trie_insert_new [where key = fst and new = "(key, nodeCount s + 1)" and n = 0 and mk = ?mk and hp = hp, OF _ tok _ mk] assms(2) by auto
  let ?s = "s\<lparr>nodeCount := nodeCount s + 1, auto_node := t'\<rparr>"
  have "nodeCount s + 1 \<notin> snd ` set_trie (auto_node s)"
    using assms(1) next_number(2) [OF assms(3)] by (simp add: auto_ok_def)
  then have "nodeCount s + 1 \<notin> snd ` (set_trie (auto_node s) - {(key, nodeCount s + 1)})" by blast
  then have "auto_ok ?s" using assms(1) t'(2,3) next_number(1) [OF assms(3)] by (simp add: auto_ok_def)
  then show ?thesis using t' by (simp add: trie_insertStringAutoU16Map_def stringEquals_iff)
qed

lemma auto_full:
  assumes "auto_ok s" "nodeCount s = U16_MAX" "key \<notin> fst ` set_trie (auto_node s)"
  shows "trie_insertStringAutoU16Map key s hp = Jump"
proof -
  have "trie_insert (\<lambda>e. key = fst e) (\<lambda>h. Jump) new w t hp = Jump" if "key \<notin> fst ` set_trie t" for new :: "bytes \<times> u16" and t and w :: u64 and hp :: heap
    using that by (induction t arbitrary: w) (auto simp: Let_def image_Un)
  then show ?thesis using assms(2,3) by (simp add: trie_insertStringAutoU16Map_def stringEquals_iff)
qed

text \<open>
  C7. The numbering map: a key that is known keeps its number, a new key gets the next one unless all
  65535 are taken (then the call jumps); the number returned is the one a lookup finds from then on,
  the lookups of all other keys are unchanged, and the numbers stay distinct and without a gap.
\<close>

theorem trie_auto_map_correct:
  assumes "auto_ok s" "heap_ok hp" "0 < nodes_left 56 hp"
  shows "if nodeCount s = U16_MAX \<and> trie_containsStringAutoU16Map key s = 0
    then trie_insertStringAutoU16Map key s hp = Jump
    else \<exists>r s' hp'. trie_insertStringAutoU16Map key s hp = Ret (r, s', hp') \<and> auto_ok s' \<and> heap_ok hp' \<and>
      (wasInserted r \<longleftrightarrow> trie_containsStringAutoU16Map key s = 0) \<and> entryIndex r \<noteq> 0 \<and>
      nodeCount s' = nodeCount s + of_bool (wasInserted r) \<and>
      (\<forall>k. trie_containsStringAutoU16Map k s' =
         (if k = key then entryIndex r else trie_containsStringAutoU16Map k s))"
proof (cases "key \<in> fst ` set_trie (auto_node s)")
  case True
  then obtain v where v: "(key, v) \<in> set_trie (auto_node s)" by auto
  then have c: "trie_containsStringAutoU16Map key s = v" by (rule contains_mem [OF assms(1)])
  have "v \<noteq> 0" using True c contains_zero_iff [OF assms(1)] by blast
  then show ?thesis using auto_insert_old [OF assms(1) v] assms(1,2) c by auto
next
  case False
  then have c: "trie_containsStringAutoU16Map key s = 0" by (rule contains_not_mem)
  show ?thesis
  proof (cases "nodeCount s = U16_MAX")
    case True
    then show ?thesis using auto_full [OF assms(1) True False] c by simp
  next
    case nf: False
    obtain hp' where hp': "NEW_zeroed 56 8 hp = Ret hp'" "heap_ok hp'" using NEW_zeroed_left [OF assms(2), of 56] assms(3) by auto
    obtain s' where s': "trie_insertStringAutoU16Map key s hp = Ret (\<lparr>wasInserted = True, entryIndex = nodeCount s + 1\<rparr>, s', hp')"
        "auto_ok s'" "nodeCount s' = nodeCount s + 1" "set_trie (auto_node s') = insert (key, nodeCount s + 1) (set_trie (auto_node s))"
      using auto_insert_new [OF assms(1) False nf hp'(1)] by blast
    have look: "trie_containsStringAutoU16Map k s' = (if k = key then nodeCount s + 1 else trie_containsStringAutoU16Map k s)" for k
    proof (cases "k \<in> fst ` set_trie (auto_node s')")
      case True
      then obtain v where v: "(k, v) \<in> set_trie (auto_node s')" by auto
      then show ?thesis using contains_mem [OF s'(2) v] contains_mem [OF assms(1), of k v] s'(4) False by (auto simp: image_iff)
    next
      case kn: False
      then show ?thesis using contains_not_mem [OF kn] contains_not_mem [of k s] s'(4) by (auto simp: image_iff)
    qed
    have "nodeCount s + 1 \<noteq> 0" using nf by (metis add_eq_0_iff2 minus_equation_iff)
    then show ?thesis using s' hp'(2) c nf look by auto
  qed
qed

definition sample_heap :: heap where
  "sample_heap = (\<lambda>_. 0, \<lparr>curFree = 0x1000, arena_beg = 0x1000, arena_end = 0x2000\<rparr>)"

lemma sample_heap_ok: "heap_ok sample_heap" "nodes_left 56 sample_heap = 73" "nodes_left 48 sample_heap = 85" "room (snd sample_heap) 8 = 4096"
  by (simp_all add: heap_ok_def sample_heap_def arena_ok_def nodes_left_def room_def padding_def)

theorem trie_auto_map_correct_witness:
  "\<exists>r s' hp'. trie_insertStringAutoU16Map [104, 105] \<lparr>nodeCount = 0, auto_node = Null\<rparr> sample_heap = Ret (r, s', hp') \<and>
     wasInserted r \<and> trie_containsStringAutoU16Map [104, 105] s' = entryIndex r"
proof -
  have "auto_ok \<lparr>nodeCount = 0, auto_node = Null\<rparr>" by (auto simp: auto_ok_def)
  from trie_auto_map_correct [OF this, of sample_heap "[104, 105]"] show ?thesis
    by (simp add: sample_heap_ok trie_containsStringAutoU16Map_def) metis
qed

section \<open>The iterator visits every node once\<close>

text \<open>
  The loop of the \<^verbatim>\<open>FOR_EACH_TRIE\<close> macros: it stops at the zero datum the iterator ends with, and at
  any datum that looks like it (\<open>stop\<close>); the elements visited, with the iterator's heap. The fuel
  bounds the number of rounds.
\<close>

fun FOR_EACH_TRIE :: "nat \<Rightarrow> ('d \<Rightarrow> bool) \<Rightarrow> 'd trie_iterator \<Rightarrow> heap \<Rightarrow> ('d list \<times> heap) control" where
  "FOR_EACH_TRIE 0 stop it scratch = Stuck"
| "FOR_EACH_TRIE (Suc n) stop it scratch =
     (case nextIterator it scratch of
        Ret (None, it, scratch) \<Rightarrow> Ret ([], scratch)
      | Ret (Some d, it, scratch) \<Rightarrow>
          if stop d then Ret ([], scratch)
          else (case FOR_EACH_TRIE n stop it scratch of
                  Ret (ds, scratch) \<Rightarrow> Ret (d # ds, scratch) | Jump \<Rightarrow> Jump | Stuck \<Rightarrow> Stuck)
      | Jump \<Rightarrow> Jump | Stuck \<Rightarrow> Stuck)"

fun entry_rest :: "'d trie \<times> nat \<Rightarrow> 'd list" where
  "entry_rest (t, i) = (if i = 0 then preorder t else concat (map (\<lambda>j. preorder (child t j)) [i - 1..<4]))"

definition iter_rest :: "('d trie \<times> nat) list \<Rightarrow> 'd list" where
  "iter_rest es = concat (map entry_rest es)"

fun stack_ok :: "nat \<Rightarrow> ('d trie \<times> nat) list \<Rightarrow> bool" where
  "stack_ok H [] \<longleftrightarrow> True"
| "stack_ok H ((t, i) # es) \<longleftrightarrow> t \<noteq> Null \<and> i \<le> 5 \<and> trie_height t + length es \<le> H \<and> stack_ok H es"

definition iter_ok :: "nat \<Rightarrow> 'd trie_iterator \<Rightarrow> heap \<Rightarrow> bool" where
  "iter_ok H it h \<longleftrightarrow> stack_ok H (iter_head it) \<and> heap_ok h \<and>
     24 * (H - (length (iter_head it) + iter_free it)) \<le> room (snd h) 8"

lemma entry_rest_root: "t \<noteq> Null \<Longrightarrow> entry_rest (t, 0) = node_data t # entry_rest (t, 1)"
  by (cases t) (simp_all add: upt_rec)

lemma entry_rest_child: "0 < i \<Longrightarrow> i < 5 \<Longrightarrow> entry_rest (t, i) = preorder (child t (i - 1)) @ entry_rest (t, i + 1)"
  by (cases i) (simp_all add: upt_rec)

lemma child_height: "child t i \<noteq> Null \<Longrightarrow> trie_height (child t i) + 1 \<le> trie_height t"
  by (cases t) auto

lemma height_pos: "t \<noteq> Null \<Longrightarrow> 0 < trie_height t"
  by (cases t) auto

lemma preorder_Null_iff: "t = Null \<longleftrightarrow> preorder t = []"
  by (cases t) auto

declare nextIterator.simps [simp del] entry_rest.simps [simp del]

lemma nextIterator_spec:
  assumes "iter_ok H it h"
  shows "case iter_rest (iter_head it) of
      [] \<Rightarrow> (\<exists>it' h'. nextIterator it h = Ret (None, it', h'))
    | d # ds \<Rightarrow> (\<exists>it' h'. nextIterator it h = Ret (Some d, it', h') \<and> iter_rest (iter_head it') = ds \<and> iter_ok H it' h')"
  using assms
proof (induction it h rule: nextIterator.induct)
  case (1 it h)
  show ?case
  proof (cases "iter_head it")
    case Nil
    then show ?thesis by (simp add: iter_rest_def nextIterator.simps [of it h])
  next
    case (Cons p es)
    obtain t i where p: "p = (t, i)" by (cases p)
    note hd = Cons [unfolded p]
    have t: "t \<noteq> Null" "i \<le> 5" "trie_height t + length es \<le> H" "stack_ok H es" "heap_ok h"
        "24 * (H - (Suc (length es) + iter_free it)) \<le> room (snd h) 8"
      using "1.prems" hd by (auto simp: iter_ok_def)
    consider "i = 0" | "i = 5" | "0 < i" "i < 5" "child t (i - 1) = Null" | "0 < i" "i < 5" "child t (i - 1) \<noteq> Null"
      using t(2) by linarith
    then show ?thesis
    proof cases
      case 1
      then show ?thesis using t hd by (simp add: nextIterator.simps [of it h] iter_rest_def entry_rest_root iter_ok_def)
    next
      case 2
      let ?it = "it\<lparr>iter_head := es, iter_free := iter_free it + 1\<rparr>"
      have "nextIterator it h = nextIterator ?it h" using hd 2 by (simp add: nextIterator.simps [of it h])
      moreover have "iter_ok H ?it h" using t by (simp add: iter_ok_def)
      moreover have "iter_rest (iter_head it) = iter_rest (iter_head ?it)" using hd 2 by (simp add: iter_rest_def entry_rest.simps)
      ultimately show ?thesis using "1.IH"(1) [OF hd refl] 2 by (simp split: list.splits)
    next
      case 3
      let ?it = "it\<lparr>iter_head := (t, i + 1) # es\<rparr>"
      have "nextIterator it h = nextIterator ?it h" using hd 3 by (simp add: nextIterator.simps [of it h])
      moreover have "iter_ok H ?it h" using t 3 by (simp add: iter_ok_def)
      moreover have "iter_rest (iter_head it) = iter_rest (iter_head ?it)" using hd 3 by (simp add: iter_rest_def entry_rest_child)
      ultimately show ?thesis using "1.IH"(4) [OF hd refl] 3 by (simp split: list.splits)
    next
      case 4
      let ?c = "child t (i - 1)"
      let ?hd = "(?c, 0) # (t, i + 1) # es"
      have ht: "trie_height ?c + 1 \<le> trie_height t" using 4 by (intro child_height) simp
      have R: "iter_rest (iter_head it) = iter_rest ?hd" using hd 4 by (simp add: iter_rest_def entry_rest_child) (simp add: entry_rest.simps)
      have S: "stack_ok H ?hd" using t ht 4 by simp
      show ?thesis
      proof (cases "iter_free it = 0")
        case False
        let ?it = "\<lparr>iter_head = ?hd, iter_free = iter_free it - 1\<rparr>"
        have "nextIterator it h = nextIterator ?it h" using hd 4 False by (simp add: nextIterator.simps [of it h])
        moreover have "iter_ok H ?it h" using t S False by (simp add: iter_ok_def)
        ultimately show ?thesis using "1.IH"(2) [OF hd refl] 4 False R by (simp split: list.splits)
      next
        case True
        let ?it = "\<lparr>iter_head = ?hd, iter_free = 0\<rparr>"
        have "Suc (length es) < H" using ht t(3) height_pos [OF 4(3)] by linarith
        then have "24 \<le> room (snd h) 8" using t(6) True by simp
        then obtain h' where h': "NEW_zeroed 24 8 h = Ret h'" "heap_ok h'" "room (snd h') 8 = room (snd h) 8 - 24"
          using NEW_zeroed_room [OF t(5), of 24] by auto
        have "nextIterator it h = nextIterator ?it h'" using hd 4 True h'(1) by (simp add: nextIterator.simps [of it h])
        moreover have "iter_ok H ?it h'" using t(6) S True h' by (simp add: iter_ok_def)
        ultimately show ?thesis using "1.IH"(3) [OF hd refl, of h'] 4 True R h'(1) by (simp split: list.splits)
      qed
    qed
  qed
qed

lemma FOR_EACH_TRIE_rest:
  assumes "iter_ok H it h" "length (iter_rest (iter_head it)) < n" "\<And>d. d \<in> set (iter_rest (iter_head it)) \<Longrightarrow> \<not> stop d"
  shows "\<exists>h'. FOR_EACH_TRIE n stop it h = Ret (iter_rest (iter_head it), h')"
  using assms
proof (induction n arbitrary: it h)
  case (Suc n)
  note spec = nextIterator_spec [OF Suc.prems(1)]
  show ?case
  proof (cases "iter_rest (iter_head it)")
    case Nil
    then show ?thesis using spec by auto
  next
    case (Cons d ds)
    then obtain it' h' where n: "nextIterator it h = Ret (Some d, it', h')" "iter_rest (iter_head it') = ds" "iter_ok H it' h'"
      using spec by auto
    then obtain h'' where "FOR_EACH_TRIE n stop it' h' = Ret (ds, h'')" using Suc.IH [OF n(3)] Suc.prems(2,3) Cons by fastforce
    then show ?thesis using n(1) Suc.prems(3) Cons by simp
  qed
qed simp

lemma set_preorder: "set (preorder t) = set_trie t"
  by (induction t) auto

lemma trie_ok_distinct:
  assumes "trie_ok key h n t"
  shows "distinct (map key (preorder t))"
  using assms
proof (induction t arbitrary: n)
  case (Node d c0 c1 c2 c3)
  have dis: "key ` set_trie a \<inter> key ` set_trie b = {}"
    if "on_branch (h \<circ> key) n i a" "on_branch (h \<circ> key) n j b" "i \<noteq> j" for a b i j
    using that by (fastforce simp: on_branch_def)
  note ok = Node.prems [unfolded trie_ok.simps]
  have "\<And>c. c \<in> {c0, c1, c2, c3} \<Longrightarrow> distinct (map key (preorder c))" using Node.IH ok by blast
  moreover have "key ` set_trie c0 \<inter> key ` set_trie c1 = {}" "key ` set_trie c0 \<inter> key ` set_trie c2 = {}"
      "key ` set_trie c0 \<inter> key ` set_trie c3 = {}" "key ` set_trie c1 \<inter> key ` set_trie c2 = {}"
      "key ` set_trie c1 \<inter> key ` set_trie c3 = {}" "key ` set_trie c2 \<inter> key ` set_trie c3 = {}"
    using dis [of 0 c0 1 c1] dis [of 0 c0 2 c2] dis [of 0 c0 3 c3] dis [of 1 c1 2 c2] dis [of 1 c1 3 c3] dis [of 2 c2 3 c3] ok by simp_all
  moreover have "key d \<notin> key ` (set_trie c0 \<union> set_trie c1 \<union> set_trie c2 \<union> set_trie c3)" using ok by (metis imageE)
  ultimately show ?case by (simp add: set_preorder Int_Un_distrib image_Un)
qed simp

lemma height_le_preorder: "trie_height t \<le> length (preorder t)"
  by (induction t) auto

lemma createIterator_spec:
  assumes "heap_ok h" "16 + 24 * length (preorder t) \<le> room (snd h) 8"
  shows "\<exists>it h'. createIterator t h = Ret (it, h') \<and> iter_ok (trie_height t) it h' \<and> iter_rest (iter_head it) = preorder t"
proof -
  obtain h1 where h1: "NEW_zeroed 16 8 h = Ret h1" "heap_ok h1" "room (snd h1) 8 = room (snd h) 8 - 16"
    using NEW_zeroed_room [OF assms(1), of 16] assms(2) by auto
  show ?thesis
  proof (cases "t = Null")
    case True
    then show ?thesis using h1 by (simp add: createIterator_def iter_ok_def iter_rest_def)
  next
    case False
    note hp = height_pos [OF False] height_le_preorder [of t]
    then have "24 \<le> room (snd h1) 8" using h1(3) assms(2) by linarith
    then obtain h2 where h2: "NEW_zeroed 24 8 h1 = Ret h2" "heap_ok h2" "room (snd h2) 8 = room (snd h1) 8 - 24"
      using NEW_zeroed_room [OF h1(2), of 24] by auto
    have "24 * (trie_height t - 1) \<le> room (snd h2) 8" using h2(3) h1(3) assms(2) hp by linarith
    then show ?thesis using False h1(1) h2(1,2) by (simp add: createIterator_def iter_ok_def iter_rest_def entry_rest.simps)
  qed
qed

definition trie_insertStrings :: "bytes list \<Rightarrow> bytes trie \<times> heap \<Rightarrow> (bytes trie \<times> heap) option" where
  "trie_insertStrings = insert_all (\<lambda>k s. returned (trie_insertStringSet k (fst s) (snd s)))"

text \<open>
  C12. A set of strings built by insertions into an empty trie, iterated with a scratch arena: every
  allocation succeeds when both arenas have the room, the loop ends, and it visits every string that
  was inserted exactly once.
\<close>

theorem trie_string_set_iterates:
  assumes "heap_ok perm" "card (set ks) < nodes_left 48 perm" "list_all (\<lambda>s. s \<noteq> []) ks"
    and "heap_ok scratch" "16 + 24 * card (set ks) \<le> room (snd scratch) 8"
  shows "\<exists>t perm' it scratch' ds scratch''. trie_insertStrings ks (Null, perm) = Some (t, perm') \<and>
     createIterator t scratch = Ret (it, scratch') \<and>
     FOR_EACH_TRIE (card (set ks) + 1) (\<lambda>s. s = []) it scratch' = Ret (ds, scratch'') \<and> distinct ds \<and> set ds = set ks"
proof -
  let ?s = "(Null, perm) :: bytes trie \<times> heap"
  have ok: "trie_set_ok hashStringSkeeto ?s" using assms(1) by (simp add: trie_set_ok_def)
  have fits: "trie_fits 48 (set_trie (fst ?s) \<union> set ks) ?s" using assms(2) by (simp add: trie_fits_def)
  have keys: "list_all (\<lambda>_. True) ks" by (simp add: list_all_iff)
  obtain t perm' where t: "trie_insertStrings ks ?s = Some (t, perm')" "trie_set_ok hashStringSkeeto (t, perm')" "set_trie t = set ks"
    using string_trie.insert_all_elems [OF ok fits keys] by (auto simp: trie_insertStrings_def)
  have "distinct (map id (preorder t))" using t(2) by (intro trie_ok_distinct [of id hashStringSkeeto 0]) (simp add: trie_set_ok_def)
  then have d: "distinct (preorder t)" "set (preorder t) = set ks" by (simp_all add: set_preorder t(3))
  then have len: "length (preorder t) = card (set ks)" by (metis distinct_card)
  obtain it scratch' where it: "createIterator t scratch = Ret (it, scratch')" "iter_ok (trie_height t) it scratch'"
      "iter_rest (iter_head it) = preorder t"
    using createIterator_spec [OF assms(4), of t] assms(5) len by auto
  have "\<exists>sc. FOR_EACH_TRIE (card (set ks) + 1) (\<lambda>s. s = []) it scratch' = Ret (preorder t, sc)"
    using FOR_EACH_TRIE_rest [OF it(2), of "card (set ks) + 1" "\<lambda>s. s = []"] it(3) len d(2) assms(3) by (auto simp: list_all_iff)
  then show ?thesis using t(1) it(1) d by blast
qed

theorem trie_string_set_iterates_witness:
  "\<exists>t perm' it scratch' ds scratch''. trie_insertStrings [[104, 105], [111], [104, 105]] (Null, sample_heap) = Some (t, perm') \<and>
     createIterator t sample_heap = Ret (it, scratch') \<and>
     FOR_EACH_TRIE 3 (\<lambda>s. s = []) it scratch' = Ret (ds, scratch'') \<and> set ds = {[104, 105], [111]}"
proof -
  have s: "set [[104, 105], [111], [104, 105 :: u8]] = {[104, 105], [111]}" by auto
  have c: "card (set [[104, 105], [111], [104, 105 :: u8]]) = 2" unfolding s by simp
  have 1: "card (set [[104, 105], [111], [104, 105 :: u8]]) < nodes_left 48 sample_heap" unfolding c sample_heap_ok by simp
  have 2: "16 + 24 * card (set [[104, 105], [111], [104, 105 :: u8]]) \<le> room (snd sample_heap) 8" unfolding c sample_heap_ok by simp
  have 3: "list_all (\<lambda>s. s \<noteq> []) [[104, 105], [111], [104, 105 :: u8]]" by simp
  have 4: "card {[104, 105], [111 :: u8]} + 1 = 3" by simp
  show ?thesis using trie_string_set_iterates [OF sample_heap_ok(1) 1 3 sample_heap_ok(1) 2] unfolding s 4 by (elim exE conjE) (intro exI conjI, assumption+)
qed

text \<open>
  Inserting a new key into the map from strings to numbers returns the number 1, whatever value
  was stored; inserting it again returns the stored value.
\<close>

theorem trie_insertStringU16Map_returns_one:
  assumes "NEW_zeroed 56 8 perm = Ret perm'"
  shows "\<exists>t. trie_insertStringU16Map key val Null perm = Ret (1, t, perm') \<and>
    trie_insertStringU16Map key val' t perm' = Ret (val, t, perm')"
  using assms by (simp add: trie_insertStringU16Map_def stringEquals_iff)

theorem trie_insertStringU16Map_returns_one_witness:
  "\<exists>perm' t. trie_insertStringU16Map [97] 7 Null sample_heap = Ret (1, t, perm') \<and> trie_insertStringU16Map [97] 9 t perm' = Ret (7, t, perm')"
proof -
  obtain perm' where "NEW_zeroed 56 8 sample_heap = Ret perm'" using NEW_zeroed_room [OF sample_heap_ok(1), of 56] sample_heap_ok(4) by auto
  from trie_insertStringU16Map_returns_one [OF this, of "[97]" 7 9] show ?thesis by blast
qed

end
