(* ===== verification/Paging.thy ===== *)
theory Paging
  imports Maths
begin

text \<open>
  The memory vocabulary shared by the loader and the kernel: the page-size constants, the page-table
  entry layout and its masks (\<^verbatim>\<open>x86/memory/definitions.h\<close>), the page attribute table of
  \<^verbatim>\<open>x86/memory/pat.h\<close>, the UEFI memory descriptors handed to the kernel
  (\<^verbatim>\<open>efi-to-kernel\<close>) and the page-size conversions of \<^verbatim>\<open>shared/memory/converter.c\<close>.
\<close>

section \<open>Page sizes\<close>

definition ENTRIES :: u64 where "ENTRIES = push_bit 9 1"
definition PAGE_FRAME_SHIFT :: nat where "PAGE_FRAME_SHIFT = 12"
definition PAGE_FRAME_SIZE :: u64 where "PAGE_FRAME_SIZE = push_bit PAGE_FRAME_SHIFT 1"
definition LARGE_PAGE_SIZE :: u64 where "LARGE_PAGE_SIZE = PAGE_FRAME_SIZE * ENTRIES"
definition HUGE_PAGE_SIZE :: u64 where "HUGE_PAGE_SIZE = LARGE_PAGE_SIZE * ENTRIES"
definition JUMBO_PAGE_SIZE :: u64 where "JUMBO_PAGE_SIZE = HUGE_PAGE_SIZE * ENTRIES"
definition WUMBO_PAGE_SIZE :: u64 where "WUMBO_PAGE_SIZE = JUMBO_PAGE_SIZE * ENTRIES"
definition PAGE_MASK :: u64 where "PAGE_MASK = PAGE_FRAME_SIZE - 1"

text \<open>\<^verbatim>\<open>PageSize\<close> is an enum over \<^verbatim>\<open>U64\<close>; it is kept as its value.\<close>

type_synonym PageSize = u64

definition BASE_PAGE :: PageSize where "BASE_PAGE = PAGE_FRAME_SIZE"
definition LARGE_PAGE :: PageSize where "LARGE_PAGE = LARGE_PAGE_SIZE"
definition HUGE_PAGE :: PageSize where "HUGE_PAGE = HUGE_PAGE_SIZE"

definition pageSizes :: "PageSize list" where "pageSizes = [BASE_PAGE, LARGE_PAGE, HUGE_PAGE]"

definition AVAILABLE_PAGE_SIZES_MASK :: u64 where
  "AVAILABLE_PAGE_SIZES_MASK = PAGE_FRAME_SIZE OR LARGE_PAGE_SIZE OR HUGE_PAGE_SIZE"

lemma page_size_values [layout_defs]:
  "ENTRIES = 512" "PAGE_FRAME_SIZE = 4096" "LARGE_PAGE_SIZE = 0x200000" "HUGE_PAGE_SIZE = 0x40000000"
  "JUMBO_PAGE_SIZE = 0x8000000000" "WUMBO_PAGE_SIZE = 0x1000000000000" "PAGE_MASK = 0xFFF"
  "BASE_PAGE = 4096" "LARGE_PAGE = 0x200000" "HUGE_PAGE = 0x40000000"
  "AVAILABLE_PAGE_SIZES_MASK = 0x40201000"
  by (simp_all add: ENTRIES_def PAGE_FRAME_SHIFT_def PAGE_FRAME_SIZE_def LARGE_PAGE_SIZE_def
      HUGE_PAGE_SIZE_def JUMBO_PAGE_SIZE_def WUMBO_PAGE_SIZE_def PAGE_MASK_def BASE_PAGE_def
      LARGE_PAGE_def HUGE_PAGE_def AVAILABLE_PAGE_SIZES_MASK_def)

section \<open>Page-table entries\<close>

text \<open>
  The bit fields of \<^verbatim>\<open>VirtualEntry\<close> in declaration order with their widths; a field starts where
  the previous one ends, as the x86-64 System V ABI lays out \<^verbatim>\<open>U64\<close> bit fields.
\<close>

definition VirtualEntry :: "(string \<times> nat) list" where
  "VirtualEntry =
    [(''present'', 1), (''writable'', 1), (''userAccessible'', 1), (''writeThrough'', 1),
     (''disableCache'', 1), (''accessed'', 1), (''dirty'', 1), (''extendedSize'', 1), (''global'', 1),
     (''available_9'', 1), (''available_10'', 1), (''available_11'', 1),
     (''level_1'', 9), (''level_2'', 9), (''level_3'', 9), (''level_4'', 9),
     (''available_52'', 1), (''available_53'', 1), (''available_54'', 1), (''available_55'', 1),
     (''available_56'', 1), (''available_57'', 1), (''available_58'', 1), (''available_59'', 1),
     (''available_60'', 1), (''available_61'', 1), (''available_62'', 1), (''noExecute'', 1)]"

primrec field_offset :: "(string \<times> nat) list \<Rightarrow> string \<Rightarrow> nat option" where
  "field_offset [] f = None"
| "field_offset (x # xs) f = (if fst x = f then Some 0 else map_option ((+) (snd x)) (field_offset xs f))"

text \<open>The mask that selects a bit field of the entry.\<close>

definition field_mask :: "(string \<times> nat) list \<Rightarrow> string \<Rightarrow> u64 option" where
  "field_mask l f =
     (case (field_offset l f, map_of l f) of (Some i, Some w) \<Rightarrow> Some (push_bit i (mask w)) | _ \<Rightarrow> None)"

record VirtualPageMasks_t =
  PAGE_PRESENT :: u64
  PAGE_WRITABLE :: u64
  PAGE_USER_ACCESSIBLE :: u64
  PAGE_WRITE_THROUGH :: u64
  PAGE_DISABLE_CACHE :: u64
  PAGE_ACCESSED :: u64
  PAGE_DIRTY :: u64
  PAGE_EXTENDED_SIZE :: u64
  PAGE_GLOBAL :: u64
  PAGE_AVAILABLE_9 :: u64
  PAGE_AVAILABLE_10 :: u64
  PAGE_AVAILABLE_11 :: u64
  PAGE_AVAILABLE_52 :: u64
  PAGE_AVAILABLE_53 :: u64
  PAGE_AVAILABLE_54 :: u64
  PAGE_AVAILABLE_55 :: u64
  PAGE_AVAILABLE_56 :: u64
  PAGE_AVAILABLE_57 :: u64
  PAGE_AVAILABLE_58 :: u64
  PAGE_AVAILABLE_59 :: u64
  PAGE_AVAILABLE_60 :: u64
  PAGE_AVAILABLE_61 :: u64
  PAGE_AVAILABLE_62 :: u64
  PAGE_NO_EXECUTE :: u64
  FRAME_OR_NEXT_PAGE_TABLE :: u64

definition VirtualPageMasks :: VirtualPageMasks_t where
  "VirtualPageMasks =
    \<lparr>PAGE_PRESENT = push_bit 0 1,
     PAGE_WRITABLE = push_bit 1 1,
     PAGE_USER_ACCESSIBLE = push_bit 2 1,
     PAGE_WRITE_THROUGH = push_bit 3 1,
     PAGE_DISABLE_CACHE = push_bit 4 1,
     PAGE_ACCESSED = push_bit 5 1,
     PAGE_DIRTY = push_bit 6 1,
     PAGE_EXTENDED_SIZE = push_bit 7 1,
     PAGE_GLOBAL = push_bit 8 1,
     PAGE_AVAILABLE_9 = push_bit 9 1,
     PAGE_AVAILABLE_10 = push_bit 10 1,
     PAGE_AVAILABLE_11 = push_bit 11 1,
     PAGE_AVAILABLE_52 = push_bit 52 1,
     PAGE_AVAILABLE_53 = push_bit 53 1,
     PAGE_AVAILABLE_54 = push_bit 54 1,
     PAGE_AVAILABLE_55 = push_bit 55 1,
     PAGE_AVAILABLE_56 = push_bit 56 1,
     PAGE_AVAILABLE_57 = push_bit 57 1,
     PAGE_AVAILABLE_58 = push_bit 58 1,
     PAGE_AVAILABLE_59 = push_bit 59 1,
     PAGE_AVAILABLE_60 = push_bit 60 1,
     PAGE_AVAILABLE_61 = push_bit 61 1,
     PAGE_AVAILABLE_62 = push_bit 62 1,
     PAGE_NO_EXECUTE = push_bit 63 1,
     FRAME_OR_NEXT_PAGE_TABLE = 0x000FFFFFFFFF000\<rparr>"

text \<open>The page attribute table: encodings, the MSR and the entry flags that select a slot.\<close>

datatype PATEncoding = PAT_UNCACHABLE_UC | PAT_WRITE_COMBINGING_WC | PAT_RESERVED_2 | PAT_RESERVED_3
  | PAT_WRITE_THROUGH_WT | PAT_WRITE_PROTECTED_WP | PAT_WRITE_BACK_WB | PAT_UNCACHED_UC_minus

primrec PATEncoding_value :: "PATEncoding \<Rightarrow> u8" where
  "PATEncoding_value PAT_UNCACHABLE_UC = 0"
| "PATEncoding_value PAT_WRITE_COMBINGING_WC = 1"
| "PATEncoding_value PAT_RESERVED_2 = 2"
| "PATEncoding_value PAT_RESERVED_3 = 3"
| "PATEncoding_value PAT_WRITE_THROUGH_WT = 4"
| "PATEncoding_value PAT_WRITE_PROTECTED_WP = 5"
| "PATEncoding_value PAT_WRITE_BACK_WB = 6"
| "PATEncoding_value PAT_UNCACHED_UC_minus = 7"

definition PAT_LOCATION :: u32 where "PAT_LOCATION = 0x277"

text \<open>\<^verbatim>\<open>patValues.pats[i].pat = e\<close>: the low three bits of byte \<open>i\<close>.\<close>

definition set_pat :: "u64 \<Rightarrow> nat \<Rightarrow> PATEncoding \<Rightarrow> u64" where
  "set_pat v i e = (v AND NOT (push_bit (8 * i) 7)) OR push_bit (8 * i) (ucast (PATEncoding_value e))"

definition get_pat :: "u64 \<Rightarrow> nat \<Rightarrow> u64" where
  "get_pat v i = drop_bit (8 * i) v AND 7"

definition PATMapping :: "u64 list" where
  "PATMapping =
    [0,
     PAGE_WRITE_THROUGH VirtualPageMasks,
     PAGE_DISABLE_CACHE VirtualPageMasks,
     PAGE_WRITE_THROUGH VirtualPageMasks OR PAGE_DISABLE_CACHE VirtualPageMasks,
     PAGE_EXTENDED_SIZE VirtualPageMasks,
     PAGE_EXTENDED_SIZE VirtualPageMasks OR PAGE_WRITE_THROUGH VirtualPageMasks,
     PAGE_EXTENDED_SIZE VirtualPageMasks OR PAGE_DISABLE_CACHE VirtualPageMasks,
     PAGE_EXTENDED_SIZE VirtualPageMasks OR PAGE_DISABLE_CACHE VirtualPageMasks OR
       PAGE_WRITE_THROUGH VirtualPageMasks]"

section \<open>Memory regions and descriptors\<close>

record PagedMemory =
  pageStart :: u64
  numberOfPages :: u64

record VirtualRegion =
  region_start :: u64
  region_end :: u64

record MappedPage =
  mp_entry :: u64
  mp_pageSize :: PageSize

datatype MemoryType = RESERVED_MEMORY_TYPE | LOADER_CODE | LOADER_DATA | BOOT_SERVICES_CODE
  | BOOT_SERVICES_DATA | RUNTIME_SERVICES_CODE | RUNTIME_SERVICES_DATA | CONVENTIONAL_MEMORY
  | UNUSABLE_MEMORY | ACPI_RECLAIM_MEMORY | ACPI_MEMORY_NVS | MEMORY_MAPPED_IO
  | MEMORY_MAPPED_IO_PORT_SPACE | PAL_CODE | PERSISTENT_MEMORY | MEMORY_TYPE_N

record MemoryDescriptor =
  md_type :: MemoryType
  md_physicalStart :: u64
  md_virtualStart :: u64
  md_numberOfPages :: u64
  md_attribute :: u64

text \<open>
  \<^verbatim>\<open>KernelMemory\<close> points at \<^verbatim>\<open>totalDescriptorSize / descriptorSize\<close> descriptors laid out
  \<^verbatim>\<open>descriptorSize\<close> bytes apart; the model has them as a list.
\<close>

record KernelMemory =
  km_descriptors :: "MemoryDescriptor list"

section \<open>Page-size conversion\<close>

record PageSizeConversion =
  psc_numberOfPages :: u64
  psc_pageSize :: u64

definition isPageSizeValid :: "u64 \<Rightarrow> bool" where
  "isPageSizeValid p \<longleftrightarrow> p AND AVAILABLE_PAGE_SIZES_MASK \<noteq> 0"

definition smallestPageSize :: u64 where
  "smallestPageSize = push_bit (ctz AVAILABLE_PAGE_SIZES_MASK) 1"

text \<open>
  The halving loop of \<^verbatim>\<open>convertPreferredPageToAvailablePages\<close>: on a size without an available bit
  below it the loop would shift the size to zero and spin, which is \<open>None\<close>.
\<close>

function halve_until_valid :: "u64 \<Rightarrow> u64 \<Rightarrow> PageSizeConversion option" where
  "halve_until_valid n p =
     (if isPageSizeValid p then Some \<lparr>psc_numberOfPages = n, psc_pageSize = p\<rparr>
      else if p = 0 then None
      else halve_until_valid (push_bit 1 n) (drop_bit 1 p))"
  by pat_completeness auto

termination
  by (relation "measure (\<lambda>(n, p). unat p)") (simp_all add: unat_drop_bit_less)

declare halve_until_valid.simps [simp del]

definition convertPreferredPageToAvailablePages :: "u64 \<Rightarrow> PageSizeConversion option" where
  "convertPreferredPageToAvailablePages bytesPowerOfTwo =
     (if bytesPowerOfTwo \<le> smallestPageSize
      then Some \<lparr>psc_numberOfPages = 1, psc_pageSize = smallestPageSize\<rparr>
      else halve_until_valid 1 bytesPowerOfTwo)"

text \<open>The loop over \<^verbatim>\<open>pageSizes\<close> from the largest; \<open>None\<close> is \<^verbatim>\<open>__builtin_unreachable\<close>.\<close>

primrec smart_scan :: "PageSize list \<Rightarrow> u64 \<Rightarrow> PageSizeConversion option" where
  "smart_scan [] bytes = None"
| "smart_scan (p # ps) bytes =
     (if p div 2 \<le> bytes then Some \<lparr>psc_numberOfPages = CEILING_DIV_VALUE bytes p, psc_pageSize = p\<rparr>
      else smart_scan ps bytes)"

definition convertBytesToPagesToMapSmartly :: "u64 \<Rightarrow> PageSizeConversion option" where
  "convertBytesToPagesToMapSmartly bytes =
     (if bytes \<le> smallestPageSize
      then Some \<lparr>psc_numberOfPages = 1, psc_pageSize = smallestPageSize\<rparr>
      else smart_scan (rev pageSizes) bytes)"

definition isValidPageSizeForArch :: "u64 \<Rightarrow> bool" where
  "isValidPageSizeForArch p \<longleftrightarrow> List.member pageSizes p"

section \<open>Lemmas\<close>

lemma bit_AVAILABLE_PAGE_SIZES_MASK: "bit AVAILABLE_PAGE_SIZES_MASK n \<longleftrightarrow> n \<in> {12, 21, 30}"
proof -
  have m: "AVAILABLE_PAGE_SIZES_MASK = 2 ^ 12 OR 2 ^ 21 OR 2 ^ 30"
    by (simp add: layout_defs)
  show ?thesis
    unfolding m by (simp only: bit_or_iff bit_exp_iff) auto
qed

lemma isPageSizeValid_pow2: "isPageSizeValid (2 ^ n) \<longleftrightarrow> n \<in> {12, 21, 30}"
  by (simp add: isPageSizeValid_def and.commute [of "2 ^ n"] and_exp_eq_0_iff_not_bit
      bit_AVAILABLE_PAGE_SIZES_MASK)

lemma smallestPageSize_eq [layout_defs]: "smallestPageSize = 4096"
proof -
  have "ctz AVAILABLE_PAGE_SIZES_MASK = 12"
    by (rule ctz_eqI) (auto simp: bit_AVAILABLE_PAGE_SIZES_MASK)
  then show ?thesis by (simp add: smallestPageSize_def)
qed

definition best_shift :: "nat \<Rightarrow> nat" where
  "best_shift k = (if k < 21 then 12 else if k < 30 then 21 else 30)"

lemma halve_until_valid_pow2:
  assumes "12 \<le> k" "j + k < 64"
  shows "halve_until_valid (2 ^ j) (2 ^ k) =
    Some \<lparr>psc_numberOfPages = 2 ^ (j + k - best_shift k), psc_pageSize = 2 ^ best_shift k\<rparr>"
  using assms
proof (induction k arbitrary: j rule: less_induct)
  case (less k)
  have k64: "k < 64" using less.prems by simp
  have valid: "isPageSizeValid (2 ^ k) \<longleftrightarrow> k \<in> {12, 21, 30}"
    by (rule isPageSizeValid_pow2)
  show ?case
  proof (cases "k \<in> {12, 21, 30}")
    case True
    then show ?thesis
      using valid by (subst halve_until_valid.simps) (auto simp: best_shift_def)
  next
    case False
    then obtain k' where k': "k = Suc k'" "12 \<le> k'" "best_shift k' = best_shift k"
      using less.prems by (cases k) (auto simp: best_shift_def)
    have "drop_bit 1 (2 ^ k :: u64) = 2 ^ k'"
      by (intro word_eq_unatI) (simp only: unat_drop_bit, use k64 k' in \<open>simp del: power_Suc add: k'(1) unat_power_of_two\<close>, simp)
    moreover have "push_bit 1 (2 ^ j :: u64) = 2 ^ Suc j" by (simp add: push_bit_eq_mult)
    moreover have "(2 ^ k :: u64) \<noteq> 0" using k64 by (simp add: two_power_neq_zero del: exp_eq_zero_iff)
    ultimately have "halve_until_valid (2 ^ j) (2 ^ k) = halve_until_valid (2 ^ Suc j) (2 ^ k')"
      using False valid by (subst halve_until_valid.simps) (simp only: if_False)
    then show ?thesis
      using less.IH [of k' "Suc j"] less.prems k' by simp
  qed
qed

text \<open>
  \<^verbatim>\<open>convertPreferredPageToAvailablePages\<close> on a power of two terminates with an architecture page
  size and a page count that together cover exactly the requested bytes, or one base page when the
  request is smaller than that.
\<close>

theorem convertPreferredPage_exact:
  assumes "k < 64"
  shows "\<exists>c. convertPreferredPageToAvailablePages (2 ^ k) = Some c \<and> isValidPageSizeForArch (psc_pageSize c) \<and>
    unat (psc_numberOfPages c) * unat (psc_pageSize c) = max (2 ^ k) 4096"
proof (cases "k \<le> 12")
  case True
  then have "(2 :: nat) ^ k \<le> 2 ^ 12" by (intro power_increasing) simp_all
  then show ?thesis
    using assms by (simp add: convertPreferredPageToAvailablePages_def layout_defs word_le_nat_alt
        isValidPageSizeForArch_def pageSizes_def)
next
  case False
  then have "(2 :: nat) ^ 12 < 2 ^ k" by (intro power_strict_increasing) simp_all
  moreover have "best_shift k \<in> {12, 21, 30}" "best_shift k \<le> k"
    using False by (simp_all add: best_shift_def)
  ultimately show ?thesis
    using assms False halve_until_valid_pow2 [of k 0]
    by (auto simp: convertPreferredPageToAvailablePages_def layout_defs word_le_nat_alt
        isValidPageSizeForArch_def pageSizes_def simp flip: power_add)
qed

theorem convertPreferredPage_exact_witness:
  "\<exists>c. convertPreferredPageToAvailablePages (2 ^ 33) = Some c \<and> unat (psc_numberOfPages c) * unat (psc_pageSize c) = 2 ^ 33"
  using convertPreferredPage_exact [of 33] by auto

lemma smart_scan_hit:
  assumes "(p :: u64) = 2 ^ n" "n < 63" "unat bytes \<le> 2 ^ 63"
  shows "unat (bytes :: u64) \<le> unat (CEILING_DIV_VALUE bytes p) * unat p \<and>
         unat (CEILING_DIV_VALUE bytes p) * unat p < unat bytes + unat p"
proof -
  have "(2 :: nat) ^ n < 2 ^ 63" using assms(2) by (intro power_strict_increasing) simp_all
  then have c: "unat (CEILING_DIV_VALUE bytes p) = (unat bytes + (2 ^ n - 1)) div 2 ^ n"
    using assms by (simp only: assms(1)) (rule unat_CEILING_DIV_VALUE, simp_all)
  have "(unat bytes + (2 ^ n - 1)) div 2 ^ n * 2 ^ n + (unat bytes + (2 ^ n - 1)) mod 2 ^ n = unat bytes + (2 ^ n - 1)"
    by (rule div_mult_mod_eq)
  moreover have "(unat bytes + (2 ^ n - 1)) mod 2 ^ n < 2 ^ n" by simp
  moreover have "unat p = 2 ^ n" using assms by simp
  ultimately show ?thesis unfolding c by (simp only:) linarith
qed

text \<open>
  \<^verbatim>\<open>convertBytesToPagesToMapSmartly\<close> always finds a page size and the pages cover the bytes
  with less than one page to spare.
\<close>

theorem convertBytesToPages_covers:
  assumes "unat bytes \<le> 2 ^ 63"
  shows "\<exists>c. convertBytesToPagesToMapSmartly bytes = Some c \<and> isValidPageSizeForArch (psc_pageSize c) \<and>
    unat bytes \<le> unat (psc_numberOfPages c) * unat (psc_pageSize c) \<and>
    unat (psc_numberOfPages c) * unat (psc_pageSize c) \<le> max 4096 (unat bytes + unat (psc_pageSize c))"
proof (cases "bytes \<le> smallestPageSize")
  case True
  then show ?thesis
    by (simp add: convertBytesToPagesToMapSmartly_def layout_defs isValidPageSizeForArch_def
        pageSizes_def word_le_nat_alt)
next
  case False
  then have "0x40000000 div 2 \<le> bytes \<or> 0x200000 div 2 \<le> bytes \<or> 4096 div 2 \<le> (bytes :: u64)"
    by (simp add: layout_defs word_le_nat_alt)
  then show ?thesis
    using False smart_scan_hit [where p = "0x40000000" and n = 30 and bytes = bytes] smart_scan_hit [where p = "0x200000" and n = 21 and bytes = bytes]
      smart_scan_hit [where p = 4096 and n = 12 and bytes = bytes] assms
    by (auto simp: convertBytesToPagesToMapSmartly_def layout_defs isValidPageSizeForArch_def pageSizes_def)
qed

theorem convertBytesToPages_covers_witness:
  "\<exists>c. convertBytesToPagesToMapSmartly 5000000 = Some c \<and> 5000000 \<le> unat (psc_numberOfPages c) * unat (psc_pageSize c)"
  using convertBytesToPages_covers [of 5000000] by auto

text \<open>
  The bit fields of \<^verbatim>\<open>VirtualEntry\<close> agree with \<^verbatim>\<open>VirtualPageMasks\<close> on the flags below bit 12 but
  not above the frame: the four reserved bits between \<^verbatim>\<open>level_4\<close> and \<^verbatim>\<open>available_52\<close> are missing, so
  the \<^verbatim>\<open>noExecute\<close> field is bit 59 while the mask is bit 63.
\<close>

theorem VirtualEntry_noExecute_misplaced:
  "field_mask VirtualEntry ''extendedSize'' = Some (PAGE_EXTENDED_SIZE VirtualPageMasks) \<and>
   field_mask VirtualEntry ''available_11'' = Some (PAGE_AVAILABLE_11 VirtualPageMasks) \<and>
   field_mask VirtualEntry ''noExecute'' = Some (2 ^ 59) \<and> PAGE_NO_EXECUTE VirtualPageMasks = 2 ^ 63"
  by (simp add: field_mask_def VirtualEntry_def VirtualPageMasks_def)

end
