(* ===== verification/Physical.thy ===== *)
theory Physical
  imports Paging
begin

text \<open>
  The physical memory manager, \<^verbatim>\<open>x86/memory/physical\<close>: three managers (4 KiB, 2 MiB and 1 GiB
  pages) that each keep an array of free regions. A request a manager cannot satisfy is passed to
  the manager of the next larger page size and the remainder is given back; a manager whose array is
  full moves it into freshly allocated base pages. The array of a manager is the list of its entries
  together with the address of its buffer, its capacity and the base pages it occupies; the buffers
  themselves are never handed out, so the list stands for the memory they occupy.

  Allocation and freeing call each other: \<open>allocContiguousPhysicalPagesWithManager\<close> gives the
  remainder of a larger page back and \<open>freePhysicalPagesWithManager\<close> allocates a new buffer. The
  recursion carries fuel (the C stack); the theorems show how much is enough. The fault
  \<^verbatim>\<open>interruptNoMorePhysicalMemory\<close> does not return and is an error value, as is a failed
  \<^verbatim>\<open>ASSERT\<close> and a \<^verbatim>\<open>PageSize\<close> that \<^verbatim>\<open>getMemoryManager\<close> does not know.
\<close>

section \<open>State\<close>

record PhysicalMemoryManager =
  memory_entries :: "PagedMemory list"
  memory_buf :: addr
  memory_cap :: u64
  usedBasePages :: u32
  pmm_pageSize :: PageSize

record PMMState =
  basePMM :: PhysicalMemoryManager
  largePMM :: PhysicalMemoryManager
  hugePMM :: PhysicalMemoryManager

text \<open>A \<^verbatim>\<open>PhysicalMemoryManager *\<close> is one of the three globals.\<close>

datatype ManagerRef = BasePMM | LargePMM | HugePMM

datatype PMMError = NoMorePhysicalMemory | AssertFailed | UnknownPageSize | OutOfFuel

type_synonym 'a pmm_result = "PMMError + ('a \<times> PMMState)"

primrec get_manager :: "ManagerRef \<Rightarrow> PMMState \<Rightarrow> PhysicalMemoryManager" where
  "get_manager BasePMM s = basePMM s"
| "get_manager LargePMM s = largePMM s"
| "get_manager HugePMM s = hugePMM s"

primrec set_manager :: "ManagerRef \<Rightarrow> PhysicalMemoryManager \<Rightarrow> PMMState \<Rightarrow> PMMState" where
  "set_manager BasePMM m s = s\<lparr>basePMM := m\<rparr>"
| "set_manager LargePMM m s = s\<lparr>largePMM := m\<rparr>"
| "set_manager HugePMM m s = s\<lparr>hugePMM := m\<rparr>"

section \<open>Helpers\<close>

definition toLargerPages :: "u64 \<Rightarrow> u64" where "toLargerPages n = n div ENTRIES"
definition toSmallerPages :: "u64 \<Rightarrow> u64" where "toSmallerPages n = n * ENTRIES"
definition toLargerPageSize :: "PageSize \<Rightarrow> PageSize" where "toLargerPageSize p = p * ENTRIES"
definition toSmallerPageSize :: "PageSize \<Rightarrow> PageSize" where "toSmallerPageSize p = p div ENTRIES"

definition decreasePages :: "PhysicalMemoryManager \<Rightarrow> nat \<Rightarrow> u64 \<Rightarrow> PMMError + PhysicalMemoryManager" where
  "decreasePages manager index decreaseBy =
     (let buf = memory_entries manager; e = buf ! index in
      if \<not> numberOfPages e \<ge> decreaseBy then Inl AssertFailed
      else if numberOfPages e = decreaseBy
      then Inr (manager\<lparr>memory_entries := butlast (buf[index := last buf])\<rparr>)
      else Inr (manager\<lparr>memory_entries := buf[index :=
             \<lparr>pageStart = pageStart e + decreaseBy * pmm_pageSize manager,
              numberOfPages = numberOfPages e - decreaseBy\<rparr>]\<rparr>))"

definition getMemoryManager :: "PageSize \<Rightarrow> PMMError + ManagerRef" where
  "getMemoryManager p =
     (if p = BASE_PAGE then Inr BasePMM
      else if p = LARGE_PAGE then Inr LargePMM
      else if p = HUGE_PAGE then Inr HugePMM
      else Inl UnknownPageSize)"

text \<open>\<^verbatim>\<open>sizeof(PagedMemory)\<close> is 16.\<close>

definition MEMORY_ENTRIES_IN_BASE_PAGES :: "u64 \<Rightarrow> u64" where
  "MEMORY_ENTRIES_IN_BASE_PAGES basePages = (PAGE_FRAME_SIZE * basePages) div 16"

fun canBeUsedByOS :: "MemoryType \<Rightarrow> bool" where
  "canBeUsedByOS LOADER_CODE = True"
| "canBeUsedByOS LOADER_DATA = True"
| "canBeUsedByOS BOOT_SERVICES_CODE = True"
| "canBeUsedByOS BOOT_SERVICES_DATA = True"
| "canBeUsedByOS CONVENTIONAL_MEMORY = True"
| "canBeUsedByOS PERSISTENT_MEMORY = True"
| "canBeUsedByOS _ = False"

text \<open>The first index whose entry has enough pages.\<close>

primrec find_entry :: "PagedMemory list \<Rightarrow> u64 \<Rightarrow> nat option" where
  "find_entry [] n = None"
| "find_entry (e # es) n = (if numberOfPages e \<ge> n then Some 0 else map_option Suc (find_entry es n))"

section \<open>Contiguous allocation and freeing\<close>

text \<open>\<^verbatim>\<open>manager->memory.buf[manager->memory.len] = page; manager->memory.len++\<close>\<close>

definition push_entry :: "ManagerRef \<Rightarrow> PagedMemory \<Rightarrow> PMMState \<Rightarrow> PMMState" where
  "push_entry ref page s =
     (let m = get_manager ref s in
      set_manager ref (m\<lparr>memory_entries := memory_entries m @ [page]\<rparr>) s)"

text \<open>The manager after its entries moved to the \<open>newBuf\<close> and the old buffer was recorded as free.\<close>

definition grow_manager :: "ManagerRef \<Rightarrow> addr \<Rightarrow> PMMState \<Rightarrow> PMMState" where
  "grow_manager ref newBuf s =
     (let m = get_manager ref s;
          old = \<lparr>pageStart = memory_buf m, numberOfPages = ucast (usedBasePages m)\<rparr>;
          used = usedBasePages m + 1
      in set_manager ref
           (m\<lparr>memory_entries := memory_entries m @ [old],
              memory_buf := newBuf,
              usedBasePages := used,
              memory_cap := MEMORY_ENTRIES_IN_BASE_PAGES (ucast used)\<rparr>) s)"

fun allocContiguousPhysicalPagesWithManager :: "nat \<Rightarrow> u64 \<Rightarrow> ManagerRef \<Rightarrow> PMMState \<Rightarrow> u64 pmm_result"
and freePhysicalPagesWithManager :: "nat \<Rightarrow> PagedMemory list \<Rightarrow> ManagerRef \<Rightarrow> PMMState \<Rightarrow> unit pmm_result"
where
  "allocContiguousPhysicalPagesWithManager 0 n ref s = Inl OutOfFuel"
| "allocContiguousPhysicalPagesWithManager (Suc fuel) n ref s =
     (let manager = get_manager ref s in
      case find_entry (memory_entries manager) n of
        Some i \<Rightarrow>
          (let address = pageStart (memory_entries manager ! i) in
           case decreasePages manager i n of
             Inl err \<Rightarrow> Inl err
           | Inr manager' \<Rightarrow> Inr (address, set_manager ref manager' s))
      | None \<Rightarrow>
          if pmm_pageSize manager < HUGE_PAGE then
            (let pagesForLargerManager = CEILING_DIV_VALUE n ENTRIES in
             case getMemoryManager (toLargerPageSize (pmm_pageSize manager)) of
               Inl err \<Rightarrow> Inl err
             | Inr larger \<Rightarrow>
                 (case allocContiguousPhysicalPagesWithManager fuel pagesForLargerManager larger s of
                    Inl err \<Rightarrow> Inl err
                  | Inr (address, s1) \<Rightarrow>
                      (let freeAddressStart = address + n * pmm_pageSize manager;
                           freePages = toSmallerPages pagesForLargerManager - n
                       in case getMemoryManager (pmm_pageSize manager) of
                            Inl err \<Rightarrow> Inl err
                          | Inr self \<Rightarrow>
                              (case freePhysicalPagesWithManager fuel
                                      [\<lparr>pageStart = freeAddressStart, numberOfPages = freePages\<rparr>] self s1 of
                                 Inl err \<Rightarrow> Inl err
                               | Inr (_, s2) \<Rightarrow> Inr (address, s2)))))
          else Inl NoMorePhysicalMemory)"
| "freePhysicalPagesWithManager fuel [] ref s = Inr ((), s)"
| "freePhysicalPagesWithManager 0 (page # pages) ref s = Inl OutOfFuel"
| "freePhysicalPagesWithManager (Suc fuel) (page # pages) ref s =
     (let manager = get_manager ref s in
      if memory_cap manager \<le> of_nat (length (memory_entries manager)) then
        (case allocContiguousPhysicalPagesWithManager fuel (ucast (usedBasePages manager + 1)) BasePMM s of
           Inl err \<Rightarrow> Inl err
         | Inr (newBuf, s1) \<Rightarrow>
             freePhysicalPagesWithManager (Suc fuel) pages ref (push_entry ref page (grow_manager ref newBuf s1)))
      else freePhysicalPagesWithManager (Suc fuel) pages ref (push_entry ref page s))"

definition allocContiguousPhysicalPages :: "nat \<Rightarrow> u64 \<Rightarrow> PageSize \<Rightarrow> PMMState \<Rightarrow> u64 pmm_result" where
  "allocContiguousPhysicalPages fuel n p s =
     (case getMemoryManager p of
        Inl err \<Rightarrow> Inl err
      | Inr ref \<Rightarrow> allocContiguousPhysicalPagesWithManager fuel n ref s)"

definition allocate4KiBPage :: "nat \<Rightarrow> u64 \<Rightarrow> PMMState \<Rightarrow> u64 pmm_result" where
  "allocate4KiBPage fuel numPages s = allocContiguousPhysicalPages fuel numPages BASE_PAGE s"

definition freePhysicalPages :: "nat \<Rightarrow> PagedMemory list \<Rightarrow> PageSize \<Rightarrow> PMMState \<Rightarrow> unit pmm_result" where
  "freePhysicalPages fuel pages p s =
     (case getMemoryManager p of
        Inl err \<Rightarrow> Inl err
      | Inr ref \<Rightarrow> freePhysicalPagesWithManager fuel pages ref s)"

definition freePhysicalPage :: "nat \<Rightarrow> PagedMemory \<Rightarrow> PageSize \<Rightarrow> PMMState \<Rightarrow> unit pmm_result" where
  "freePhysicalPage fuel page p s =
     (case getMemoryManager p of
        Inl err \<Rightarrow> Inl err
      | Inr ref \<Rightarrow> freePhysicalPagesWithManager fuel [page] ref s)"

section \<open>Allocation in pieces\<close>

text \<open>
  The loop of \<^verbatim>\<open>allocPhysicalPagesWithManager\<close> takes entries from the end of the array. It
  returns the regions taken, the pages still missing (\<open>None\<close> when the request is complete) and the
  manager. The result array of the caller is the returned list.
\<close>

function take_from_end :: "u32 \<Rightarrow> PhysicalMemoryManager \<Rightarrow> PMMError + (PagedMemory list \<times> u32 option \<times> PhysicalMemoryManager)" where
  "take_from_end requestedPages manager =
     (if memory_entries manager = [] then Inr ([], Some requestedPages, manager)
      else let e = last (memory_entries manager) in
        if numberOfPages e \<ge> ucast requestedPages then
          (case decreasePages manager (length (memory_entries manager) - 1) (ucast requestedPages) of
             Inl err \<Rightarrow> Inl err
           | Inr manager' \<Rightarrow>
               Inr ([\<lparr>pageStart = pageStart e, numberOfPages = ucast requestedPages\<rparr>], None, manager'))
        else
          (case take_from_end (ucast (ucast requestedPages - numberOfPages e))
                  (manager\<lparr>memory_entries := butlast (memory_entries manager)\<rparr>) of
             Inl err \<Rightarrow> Inl err
           | Inr (pages, missing, manager') \<Rightarrow> Inr (e # pages, missing, manager')))"
  by pat_completeness auto

termination
  by (relation "measure (\<lambda>(r, m). length (memory_entries m))") auto

declare take_from_end.simps [simp del]

fun allocPhysicalPagesWithManager :: "nat \<Rightarrow> u64 \<Rightarrow> ManagerRef \<Rightarrow> PMMState \<Rightarrow> (PagedMemory list) pmm_result" where
  "allocPhysicalPagesWithManager 0 len ref s = Inl OutOfFuel"
| "allocPhysicalPagesWithManager (Suc fuel) len ref s =
     (case take_from_end (ucast len) (get_manager ref s) of
        Inl err \<Rightarrow> Inl err
      | Inr (pages, None, manager') \<Rightarrow> Inr (pages, set_manager ref manager' s)
      | Inr (pages, Some requestedPages, manager') \<Rightarrow>
          (let s1 = set_manager ref manager' s; p = pmm_pageSize manager' in
           if p < HUGE_PAGE then
             (case getMemoryManager (toLargerPageSize p) of
                Inl err \<Rightarrow> Inl err
              | Inr larger \<Rightarrow>
                  (case allocPhysicalPagesWithManager fuel (CEILING_DIV_VALUE (ucast requestedPages) ENTRIES) larger s1 of
                     Inl err \<Rightarrow> Inl err
                   | Inr (largerPage, s2) \<Rightarrow>
                       (case freePhysicalPages fuel
                               (map (\<lambda>e. e\<lparr>numberOfPages := numberOfPages e * ENTRIES\<rparr>) largerPage) p s2 of
                          Inl err \<Rightarrow> Inl err
                        | Inr (_, s3) \<Rightarrow>
                            (case allocPhysicalPagesWithManager fuel (ucast requestedPages) ref s3 of
                               Inl err \<Rightarrow> Inl err
                             | Inr (addedPages, s4) \<Rightarrow> Inr (pages @ addedPages, s4)))))
           else Inl NoMorePhysicalMemory))"

definition allocPhysicalPages :: "nat \<Rightarrow> u64 \<Rightarrow> PageSize \<Rightarrow> PMMState \<Rightarrow> (PagedMemory list) pmm_result" where
  "allocPhysicalPages fuel len p s =
     (case getMemoryManager p of
        Inl err \<Rightarrow> Inl err
      | Inr ref \<Rightarrow> allocPhysicalPagesWithManager fuel len ref s)"

section \<open>Initialisation\<close>

text \<open>One round of the loop of \<^verbatim>\<open>initPMM\<close> on entry \<open>i\<close> of the manager that is already initialised.\<close>

definition initPMM_entry :: "nat \<Rightarrow> PageSize \<Rightarrow> ManagerRef \<Rightarrow> nat \<Rightarrow> PMMState \<Rightarrow> unit pmm_result" where
  "initPMM_entry fuel pageType inited i s =
     (let initedSize = toSmallerPageSize pageType;
          memory = memory_entries (get_manager inited s) ! i in
      if numberOfPages memory \<ge> ENTRIES then
        (let applicablePageBoundary = ALIGN_UP_VALUE (pageStart memory) pageType;
             pagesMoved = (applicablePageBoundary - pageStart memory) div initedSize;
             pagesFromAlign = numberOfPages memory - pagesMoved
         in if pagesFromAlign \<ge> ENTRIES then
              (case decreasePages (get_manager inited s) i pagesFromAlign of
                 Inl err \<Rightarrow> Inl err
               | Inr m \<Rightarrow>
                   (let s1 = set_manager inited m s;
                        alignedForNextLevelPages = ALIGN_DOWN_VALUE pagesFromAlign ENTRIES
                    in case freePhysicalPage fuel
                              \<lparr>pageStart = applicablePageBoundary,
                               numberOfPages = toLargerPages alignedForNextLevelPages\<rparr> pageType s1 of
                         Inl err \<Rightarrow> Inl err
                       | Inr (_, s2) \<Rightarrow>
                           (let leftoverPages = pagesFromAlign - alignedForNextLevelPages in
                            if leftoverPages > 0 then
                              freePhysicalPage fuel
                                \<lparr>pageStart = applicablePageBoundary + alignedForNextLevelPages * initedSize,
                                 numberOfPages = leftoverPages\<rparr> initedSize s2
                            else Inr ((), s2))))
            else Inr ((), s))
      else Inr ((), s))"

text \<open>The loop: the length of the array is read again in every round.\<close>

fun initPMM_loop :: "nat \<Rightarrow> PageSize \<Rightarrow> ManagerRef \<Rightarrow> nat \<Rightarrow> PMMState \<Rightarrow> unit pmm_result" where
  "initPMM_loop 0 pageType inited i s = Inl OutOfFuel"
| "initPMM_loop (Suc fuel) pageType inited i s =
     (if i < length (memory_entries (get_manager inited s)) then
        (case initPMM_entry fuel pageType inited i s of
           Inl err \<Rightarrow> Inl err
         | Inr (_, s') \<Rightarrow> initPMM_loop fuel pageType inited (i + 1) s')
      else Inr ((), s))"

definition initPMM :: "nat \<Rightarrow> PageSize \<Rightarrow> PMMState \<Rightarrow> unit pmm_result" where
  "initPMM fuel pageType s =
     (if \<not> (pageType = LARGE_PAGE \<or> pageType = HUGE_PAGE) then Inl AssertFailed
      else case getMemoryManager pageType of
        Inl err \<Rightarrow> Inl err
      | Inr initing \<Rightarrow>
          (let im = get_manager initing s in
           if \<not> (usedBasePages im = 1 \<and> memory_entries im = []) then Inl AssertFailed
           else case allocContiguousPhysicalPagesWithManager fuel (ucast (usedBasePages im)) BasePMM s of
             Inl err \<Rightarrow> Inl err
           | Inr (buf, s1) \<Rightarrow>
               (let im1 = get_manager initing s1;
                    s2 = set_manager initing
                           (im1\<lparr>memory_buf := buf,
                                memory_cap := MEMORY_ENTRIES_IN_BASE_PAGES (ucast (usedBasePages im1))\<rparr>) s1
                in case getMemoryManager (toSmallerPageSize pageType) of
                     Inl err \<Rightarrow> Inl err
                   | Inr inited \<Rightarrow> initPMM_loop fuel pageType inited 0 s2)))"

primrec nextValidDescriptor :: "MemoryDescriptor list \<Rightarrow> (MemoryDescriptor \<times> MemoryDescriptor list) option" where
  "nextValidDescriptor [] = None"
| "nextValidDescriptor (d # ds) = (if canBeUsedByOS (md_type d) then Some (d, ds) else nextValidDescriptor ds)"

lemma nextValidDescriptor_shorter:
  "nextValidDescriptor ds = Some (d, ds') \<Longrightarrow> length ds' < length ds"
  by (induction ds) (auto split: if_splits)

text \<open>The loop that collects the remaining descriptors in \<^verbatim>\<open>freeMemoryArray\<close>.\<close>

function collect_descriptors ::
  "nat \<Rightarrow> u64 \<Rightarrow> MemoryDescriptor list \<Rightarrow> PagedMemory list \<Rightarrow> PMMState \<Rightarrow> (PagedMemory list) pmm_result" where
  "collect_descriptors fuel maxCapacity ds free s =
     (case nextValidDescriptor ds of
        None \<Rightarrow> Inr (free, s)
      | Some (d, ds') \<Rightarrow>
          (let e = \<lparr>pageStart = md_physicalStart d, numberOfPages = md_numberOfPages d\<rparr> in
           if maxCapacity \<le> of_nat (length free) then
             (case freePhysicalPages fuel free BASE_PAGE s of
                Inl err \<Rightarrow> Inl err
              | Inr (_, s') \<Rightarrow> collect_descriptors fuel maxCapacity ds' [e] s')
           else collect_descriptors fuel maxCapacity ds' (free @ [e]) s))"
  by pat_completeness auto

termination
  by (relation "measure (\<lambda>(f, c, ds, free, s). length ds)") (auto dest: nextValidDescriptor_shorter)

declare collect_descriptors.simps [simp del]

definition empty_manager :: "PageSize \<Rightarrow> PhysicalMemoryManager" where
  "empty_manager p = \<lparr>memory_entries = [], memory_buf = 0, memory_cap = 0, usedBasePages = 1, pmm_pageSize = p\<rparr>"

definition initPhysicalMemoryManager :: "nat \<Rightarrow> KernelMemory \<Rightarrow> unit pmm_result" where
  "initPhysicalMemoryManager fuel km =
     (let s0 = \<lparr>basePMM = empty_manager BASE_PAGE, largePMM = empty_manager LARGE_PAGE,
                hugePMM = empty_manager HUGE_PAGE\<rparr> in
      case nextValidDescriptor (km_descriptors km) of
        None \<Rightarrow> Inl NoMorePhysicalMemory
      | Some (d, ds) \<Rightarrow>
          (let s1 = s0\<lparr>basePMM := (basePMM s0)\<lparr>memory_buf := md_physicalStart d,
                                                 memory_cap := MEMORY_ENTRIES_IN_BASE_PAGES 1\<rparr>\<rparr>;
               d1 = d\<lparr>md_physicalStart := md_physicalStart d + PAGE_FRAME_SIZE,
                      md_numberOfPages := md_numberOfPages d - 1\<rparr> in
           case (if md_numberOfPages d1 = 0 then nextValidDescriptor ds else Some (d1, ds)) of
             None \<Rightarrow> Inl NoMorePhysicalMemory
           | Some (d2, ds2) \<Rightarrow>
               (let maxCapacity = MEMORY_ENTRIES_IN_BASE_PAGES (md_numberOfPages d2);
                    holder = \<lparr>pageStart = md_physicalStart d2, numberOfPages = md_numberOfPages d2\<rparr>
                in case collect_descriptors fuel maxCapacity ds2 [] s1 of
                     Inl err \<Rightarrow> Inl err
                   | Inr (free, s2) \<Rightarrow>
                       (case freePhysicalPages fuel free BASE_PAGE s2 of
                          Inl err \<Rightarrow> Inl err
                        | Inr (_, s3) \<Rightarrow>
                            (case freePhysicalPage fuel holder BASE_PAGE s3 of
                               Inl err \<Rightarrow> Inl err
                             | Inr (_, s4) \<Rightarrow>
                                 (case initPMM fuel LARGE_PAGE s4 of
                                    Inl err \<Rightarrow> Inl err
                                  | Inr (_, s5) \<Rightarrow> initPMM fuel HUGE_PAGE s5))))))"

section \<open>What the managers promise\<close>

text \<open>
  A byte of physical memory is free as often as an entry covers it. Conservation of this count says
  that memory is neither lost nor handed out twice.
\<close>

definition covers :: "PageSize \<Rightarrow> PagedMemory \<Rightarrow> nat \<Rightarrow> bool" where
  "covers p e x \<longleftrightarrow> unat (pageStart e) \<le> x \<and> x < unat (pageStart e) + unat (numberOfPages e) * unat p"

definition free_in :: "PageSize \<Rightarrow> PagedMemory list \<Rightarrow> nat \<Rightarrow> nat" where
  "free_in p es x = (\<Sum>e \<leftarrow> es. of_bool (covers p e x))"

primrec ref_size :: "ManagerRef \<Rightarrow> PageSize" where
  "ref_size BasePMM = BASE_PAGE"
| "ref_size LargePMM = LARGE_PAGE"
| "ref_size HugePMM = HUGE_PAGE"

definition free_count :: "PMMState \<Rightarrow> nat \<Rightarrow> nat" where
  "free_count s x = free_in BASE_PAGE (memory_entries (basePMM s)) x +
     free_in LARGE_PAGE (memory_entries (largePMM s)) x + free_in HUGE_PAGE (memory_entries (hugePMM s)) x"

definition wf_entry :: "PageSize \<Rightarrow> PagedMemory \<Rightarrow> bool" where
  "wf_entry p e \<longleftrightarrow> 4096 dvd unat (pageStart e) \<and> 4096 dvd unat p \<and>
     unat (pageStart e) + unat (numberOfPages e) * unat p < 2 ^ 64"

definition wf_manager :: "ManagerRef \<Rightarrow> PhysicalMemoryManager \<Rightarrow> bool" where
  "wf_manager ref m \<longleftrightarrow> pmm_pageSize m = ref_size ref \<and> list_all (wf_entry (ref_size ref)) (memory_entries m)"

definition state_wf :: "PMMState \<Rightarrow> bool" where
  "state_wf s \<longleftrightarrow> wf_manager BasePMM (basePMM s) \<and> wf_manager LargePMM (largePMM s) \<and> wf_manager HugePMM (hugePMM s)"

text \<open>The array of the manager has a free slot.\<close>

definition can_push :: "ManagerRef \<Rightarrow> PMMState \<Rightarrow> bool" where
  "can_push ref s \<longleftrightarrow> \<not> memory_cap (get_manager ref s) \<le> of_nat (length (memory_entries (get_manager ref s)))"

primrec rank :: "ManagerRef \<Rightarrow> nat" where
  "rank BasePMM = 0" | "rank LargePMM = 1" | "rank HugePMM = 2"

text \<open>Some manager from \<open>ref\<close> upwards has an entry that is large enough.\<close>

definition has_entry :: "ManagerRef \<Rightarrow> u64 \<Rightarrow> PMMState \<Rightarrow> bool" where
  "has_entry ref n s \<longleftrightarrow> list_ex (\<lambda>e. n \<le> numberOfPages e) (memory_entries (get_manager ref s))"

primrec fits :: "ManagerRef \<Rightarrow> u64 \<Rightarrow> PMMState \<Rightarrow> bool" where
  "fits HugePMM n s \<longleftrightarrow> has_entry HugePMM n s"
| "fits LargePMM n s \<longleftrightarrow> has_entry LargePMM n s \<or> has_entry HugePMM (CEILING_DIV_VALUE n ENTRIES) s"
| "fits BasePMM n s \<longleftrightarrow> has_entry BasePMM n s \<or> has_entry LargePMM (CEILING_DIV_VALUE n ENTRIES) s \<or>
     has_entry HugePMM (CEILING_DIV_VALUE (CEILING_DIV_VALUE n ENTRIES) ENTRIES) s"

lemmas alloc_unfold = allocContiguousPhysicalPagesWithManager.simps(2)
declare allocContiguousPhysicalPagesWithManager.simps [simp del]

section \<open>Managers and references\<close>

lemma get_set_manager: "get_manager r (set_manager r' m s) = (if r = r' then m else get_manager r s)"
  by (cases r; cases r') simp_all

lemma set_manager_pageSizes [simp]: "getMemoryManager (ref_size ref) = Inr ref"
  by (cases ref) (simp_all add: getMemoryManager_def layout_defs)

lemma toLargerPageSize_ref:
  "toLargerPageSize (ref_size BasePMM) = ref_size LargePMM" "toLargerPageSize (ref_size LargePMM) = ref_size HugePMM"
  by (simp_all add: toLargerPageSize_def layout_defs)

lemma state_wf_get: "state_wf s \<Longrightarrow> wf_manager ref (get_manager ref s)"
  by (cases ref) (simp_all add: state_wf_def)

lemma state_wf_set: "state_wf s \<Longrightarrow> wf_manager ref m \<Longrightarrow> state_wf (set_manager ref m s)"
  by (cases ref) (simp_all add: state_wf_def)

lemma free_count_set:
  "free_count (set_manager ref m s) x + free_in (ref_size ref) (memory_entries (get_manager ref s)) x =
   free_count s x + free_in (ref_size ref) (memory_entries m) x"
  by (cases ref) (simp_all add: free_count_def)

lemma free_in_simps [simp]:
  "free_in p [] x = 0" "free_in p (e # es) x = of_bool (covers p e x) + free_in p es x"
  "free_in p (xs @ ys) x = free_in p xs x + free_in p ys x"
  by (simp_all add: free_in_def)

lemma push_entry_props:
  assumes "state_wf s" "wf_entry (ref_size ref) e"
  shows "state_wf (push_entry ref e s)"
    and "free_count (push_entry ref e s) x = free_count s x + of_bool (covers (ref_size ref) e x)"
    and "r \<noteq> ref \<Longrightarrow> get_manager r (push_entry ref e s) = get_manager r s"
proof -
  let ?m = "get_manager ref s"
  have m: "wf_manager ref ?m" using assms(1) by (rule state_wf_get)
  then show "state_wf (push_entry ref e s)"
    using assms by (auto simp: push_entry_def Let_def wf_manager_def intro!: state_wf_set)
  show "free_count (push_entry ref e s) x = free_count s x + of_bool (covers (ref_size ref) e x)"
    using free_count_set [of ref "?m\<lparr>memory_entries := memory_entries ?m @ [e]\<rparr>" s x]
    by (simp add: push_entry_def Let_def)
  show "r \<noteq> ref \<Longrightarrow> get_manager r (push_entry ref e s) = get_manager r s"
    by (simp add: push_entry_def Let_def get_set_manager)
qed

section \<open>Finding and shrinking entries\<close>

lemma find_entry_Some:
  "find_entry es n = Some i \<Longrightarrow> i < length es \<and> n \<le> numberOfPages (es ! i)"
  by (induction es arbitrary: i) (auto split: if_splits)

lemma find_entry_None: "find_entry es n = None \<longleftrightarrow> \<not> list_ex (\<lambda>e. n \<le> numberOfPages e) es"
  by (induction es) auto

lemma sum_list_swap_remove:
  assumes "i < length es"
  shows "(\<Sum>e \<leftarrow> es. f e) = (\<Sum>e \<leftarrow> butlast (es[i := last es]). f e) + (f (es ! i) :: nat)"
proof -
  obtain ys z where es: "es = ys @ [z]" using assms by (cases es rule: rev_cases) auto
  show ?thesis
  proof (cases "i < length ys")
    case True
    then have "f (ys ! i) \<le> (\<Sum>e \<leftarrow> ys. f e)" by (intro member_le_sum_list) auto
    with True show ?thesis
      by (simp add: es list_update_append nth_append map_update sum_list_update)
  next
    case False
    then have "i = length ys" using assms es by simp
    then show ?thesis by (simp add: es)
  qed
qed

lemma set_swap_remove: "i < length es \<Longrightarrow> set (butlast (es[i := last es])) \<subseteq> set es"
  by (metis in_set_butlastD in_set_conv_nth last_in_set length_0_conv not_less_zero set_update_subset_insert subset_code(1) insert_absorb)

lemma sum_list_update_entry:
  assumes "i < length es"
  shows "(\<Sum>e \<leftarrow> es[i := e']. f e) + f (es ! i) = (\<Sum>e \<leftarrow> es. f e) + (f e' :: nat)"
proof -
  have "f (es ! i) \<le> (\<Sum>e \<leftarrow> es. f e)" using assms by (intro member_le_sum_list) auto
  then show ?thesis using assms by (simp add: map_update sum_list_update)
qed

lemma unat_mult_bounded:
  assumes "unat a * unat b < 2 ^ 64"
  shows "unat (a * b :: u64) = unat a * unat b"
  using assms by (simp add: unat_mult_nowrap)

text \<open>Taking \<open>n\<close> pages from the front of a region.\<close>

lemma split_entry:
  assumes "wf_entry p e" "n \<le> numberOfPages e"
  defines "rest \<equiv> \<lparr>pageStart = pageStart e + n * p, numberOfPages = numberOfPages e - n\<rparr>"
  shows "wf_entry p rest"
    and "of_bool (covers p e x) = (of_bool (covers p rest x) + of_bool (covers p \<lparr>pageStart = pageStart e, numberOfPages = n\<rparr> x) :: nat)"
proof -
  have n: "unat n \<le> unat (numberOfPages e)" using assms(2) by (simp add: word_le_nat_alt)
  then have le: "unat n * unat p \<le> unat (numberOfPages e) * unat p" by simp
  have b: "unat (pageStart e) + unat (numberOfPages e) * unat p < 2 ^ 64"
    using assms(1) by (simp add: wf_entry_def)
  have m: "unat (n * p) = unat n * unat p" using le b by (intro unat_mult_bounded) linarith
  have st: "unat (pageStart e + n * p) = unat (pageStart e) + unat n * unat p"
  proof -
    have "unat (pageStart e) + unat n * unat p < 2 ^ 64" using le b by linarith
    then show ?thesis by (simp add: unat_add_nowrap m)
  qed
  have d: "unat (numberOfPages e - n) * unat p = unat (numberOfPages e) * unat p - unat n * unat p"
    using n by (simp add: unat_sub_nowrap diff_mult_distrib)
  define A B where "A = unat n * unat p" and "B = unat (numberOfPages e) * unat p"
  note AB = st d le b
  note AB = AB [folded A_def B_def]
  have "4096 dvd unat (pageStart e)" "4096 dvd unat p" using assms(1) by (simp_all add: wf_entry_def)
  then have "4096 dvd unat (pageStart e) + A" "4096 dvd unat p" by (simp_all add: A_def)
  then show "wf_entry p rest" using AB by (simp add: wf_entry_def rest_def)
  show "of_bool (covers p e x) = (of_bool (covers p rest x) + of_bool (covers p \<lparr>pageStart = pageStart e, numberOfPages = n\<rparr> x) :: nat)"
    using AB by (auto simp: covers_def rest_def simp flip: A_def B_def)
qed

lemma wf_entry_fewer:
  assumes "wf_entry p e" "unat n \<le> unat (numberOfPages e)"
  shows "wf_entry p \<lparr>pageStart = pageStart e, numberOfPages = n\<rparr>"
proof -
  have "unat n * unat p \<le> unat (numberOfPages e) * unat p" using assms(2) by (rule mult_le_mono1)
  then show ?thesis using assms(1) unfolding wf_entry_def PagedMemory.simps by linarith
qed

lemma decreasePages_ok:
  assumes "wf_manager ref m" "i < length (memory_entries m)" "n \<le> numberOfPages (memory_entries m ! i)"
  obtains m' where "decreasePages m i n = Inr m'" "wf_manager ref m'"
    "length (memory_entries m') \<le> length (memory_entries m)" "memory_cap m' = memory_cap m"
    "\<And>x. free_in (ref_size ref) (memory_entries m) x = free_in (ref_size ref) (memory_entries m') x +
       of_bool (covers (ref_size ref) \<lparr>pageStart = pageStart (memory_entries m ! i), numberOfPages = n\<rparr> x)"
proof -
  let ?es = "memory_entries m" and ?p = "ref_size ref"
  let ?e = "?es ! i"
  let ?rest = "\<lparr>pageStart = pageStart ?e + n * ?p, numberOfPages = numberOfPages ?e - n\<rparr>"
  have p: "pmm_pageSize m = ?p" and wf: "list_all (wf_entry ?p) ?es"
    using assms(1) by (simp_all add: wf_manager_def)
  have e: "wf_entry ?p ?e" using wf assms(2) by (simp add: list_all_length)
  have cov: "of_bool (covers ?p ?e x) = (of_bool (covers ?p ?rest x) +
      of_bool (covers ?p \<lparr>pageStart = pageStart ?e, numberOfPages = n\<rparr> x) :: nat)" for x
    by (rule split_entry(2) [OF e assms(3)])
  show thesis
  proof (cases "numberOfPages ?e = n")
    case True
    let ?m' = "m\<lparr>memory_entries := butlast (?es[i := last ?es])\<rparr>"
    have "wf_manager ref ?m'"
      using p wf set_swap_remove [OF assms(2)] by (auto simp: wf_manager_def list_all_iff)
    moreover have "\<not> covers ?p ?rest x" for x using True by (simp add: covers_def)
    ultimately show thesis
      using that [of ?m'] True assms(3) cov sum_list_swap_remove [OF assms(2)]
      by (simp add: decreasePages_def Let_def free_in_def)
  next
    case False
    let ?m' = "m\<lparr>memory_entries := ?es[i := ?rest]\<rparr>"
    have "wf_manager ref ?m'"
      using p wf split_entry(1) [OF e assms(3)] set_update_subset_insert [of ?es i ?rest]
      by (auto simp: wf_manager_def list_all_iff)
    moreover have "free_in ?p (?es[i := ?rest]) x + of_bool (covers ?p ?e x) =
        free_in ?p ?es x + of_bool (covers ?p ?rest x)" for x
      using sum_list_update_entry [OF assms(2), of "\<lambda>e. of_bool (covers ?p e x)" ?rest] by (simp add: free_in_def)
    ultimately show thesis
      using that [of ?m'] False assms(3) cov p by (simp add: decreasePages_def Let_def)
  qed
qed


section \<open>Contiguous allocation\<close>

definition alloc_post :: "ManagerRef \<Rightarrow> u64 \<Rightarrow> PMMState \<Rightarrow> u64 pmm_result \<Rightarrow> bool" where
  "alloc_post ref n s r \<longleftrightarrow>
     (case r of
        Inl err \<Rightarrow> err = NoMorePhysicalMemory \<and> \<not> fits ref n s
      | Inr (a, s') \<Rightarrow> fits ref n s \<and> state_wf s' \<and>
          wf_entry (ref_size ref) \<lparr>pageStart = a, numberOfPages = n\<rparr> \<and>
          (\<forall>x. free_count s x = free_count s' x +
             of_bool (covers (ref_size ref) \<lparr>pageStart = a, numberOfPages = n\<rparr> x)) \<and>
          (\<forall>r. length (memory_entries (get_manager r s')) \<le> length (memory_entries (get_manager r s)) + 1 \<and>
             memory_cap (get_manager r s') = memory_cap (get_manager r s)) \<and>
          (\<forall>r. rank r < rank ref \<longrightarrow> get_manager r s' = get_manager r s))"

lemma alloc_hit:
  assumes "state_wf s" "find_entry (memory_entries (get_manager ref s)) n = Some i"
  shows "alloc_post ref n s (allocContiguousPhysicalPagesWithManager (Suc fuel) n ref s)"
proof -
  let ?m = "get_manager ref s"
  let ?e = "memory_entries ?m ! i"
  have i: "i < length (memory_entries ?m)" "n \<le> numberOfPages ?e"
    using find_entry_Some [OF assms(2)] by simp_all
  have wf: "wf_manager ref ?m" using assms(1) by (rule state_wf_get)
  obtain m' where m': "decreasePages ?m i n = Inr m'" "wf_manager ref m'"
      "length (memory_entries m') \<le> length (memory_entries ?m)" "memory_cap m' = memory_cap ?m"
      "\<And>x. free_in (ref_size ref) (memory_entries ?m) x = free_in (ref_size ref) (memory_entries m') x +
         of_bool (covers (ref_size ref) \<lparr>pageStart = pageStart ?e, numberOfPages = n\<rparr> x)"
    using decreasePages_ok [OF wf i] by metis
  have "wf_entry (ref_size ref) ?e" using wf i by (simp add: wf_manager_def list_all_length)
  then have "wf_entry (ref_size ref) \<lparr>pageStart = pageStart ?e, numberOfPages = n\<rparr>"
    using i(2) by (simp add: wf_entry_fewer word_le_nat_alt)
  moreover have "free_count s x = free_count (set_manager ref m' s) x +
      of_bool (covers (ref_size ref) \<lparr>pageStart = pageStart ?e, numberOfPages = n\<rparr> x)" for x
    using free_count_set [of ref m' s x] m'(5) [of x] by simp
  moreover have "fits ref n s"
    using assms(2) find_entry_None [of "memory_entries ?m" n] by (cases ref) (simp_all add: has_entry_def)
  ultimately show ?thesis
    using assms m'(1-4)
    by (auto simp: alloc_unfold alloc_post_def Let_def get_set_manager simp del: fits.simps intro: state_wf_set)
qed

text \<open>The region left over when \<open>n\<close> small pages are cut from the larger pages that hold them.\<close>

lemma unat_ENTRIES [simp]: "unat ENTRIES = 512"
  by (simp add: layout_defs)

lemma unat_ceiling_entries:
  assumes "unat n + 512 < 2 ^ 64"
  shows "unat (CEILING_DIV_VALUE n ENTRIES :: u64) = (unat n + 511) div 512"
  using unat_CEILING_DIV_VALUE [of 9 n] assms by (simp add: layout_defs)

lemma leftover_of_larger:
  assumes "unat n + 512 < 2 ^ 64" "unat P = unat p * 512 \<and> 4096 dvd unat p"
    "wf_entry P \<lparr>pageStart = a, numberOfPages = CEILING_DIV_VALUE n ENTRIES\<rparr>"
  defines "rest \<equiv> \<lparr>pageStart = a + n * p, numberOfPages = toSmallerPages (CEILING_DIV_VALUE n ENTRIES) - n\<rparr>"
  shows "wf_entry p rest" "wf_entry p \<lparr>pageStart = a, numberOfPages = n\<rparr>"
    "of_bool (covers P \<lparr>pageStart = a, numberOfPages = CEILING_DIV_VALUE n ENTRIES\<rparr> x) =
      (of_bool (covers p rest x) + of_bool (covers p \<lparr>pageStart = a, numberOfPages = n\<rparr> x) :: nat)"
proof -
  let ?k = "CEILING_DIV_VALUE n ENTRIES"
  let ?e = "\<lparr>pageStart = a, numberOfPages = ?k * ENTRIES\<rparr>"
  have k: "unat ?k = (unat n + 511) div 512" by (rule unat_ceiling_entries [OF assms(1)])
  then have nk: "unat n \<le> unat ?k * 512" "unat ?k * 512 < 2 ^ 64" using assms(1) by linarith+
  have u: "unat (?k * ENTRIES) = unat ?k * 512" using nk by (simp add: unat_mult_nowrap)
  have wf: "wf_entry p ?e" using assms(2,3) u by (simp add: wf_entry_def ac_simps)
  have n: "n \<le> numberOfPages ?e" using nk u by (simp add: word_le_nat_alt)
  have r: "rest = \<lparr>pageStart = pageStart ?e + n * p, numberOfPages = numberOfPages ?e - n\<rparr>"
    by (simp add: rest_def toSmallerPages_def)
  show "wf_entry p rest" unfolding r by (rule split_entry(1) [OF wf n])
  show "wf_entry p \<lparr>pageStart = a, numberOfPages = n\<rparr>"
    using wf_entry_fewer [OF wf, of n] nk u by simp
  have "covers P \<lparr>pageStart = a, numberOfPages = ?k\<rparr> x \<longleftrightarrow> covers p ?e x"
    using assms(2) u by (simp add: covers_def ac_simps)
  then show "of_bool (covers P \<lparr>pageStart = a, numberOfPages = ?k\<rparr> x) =
      (of_bool (covers p rest x) + of_bool (covers p \<lparr>pageStart = a, numberOfPages = n\<rparr> x) :: nat)"
    unfolding r using split_entry(2) [OF wf n, of x] by simp
qed

lemma free_one_with_room:
  assumes "can_push ref s"
  shows "freePhysicalPagesWithManager (Suc fuel) [e] ref s = Inr ((), push_entry ref e s)"
  using assms by (simp add: can_push_def Let_def)

lemma alloc_miss:
  assumes "state_wf s" "can_push ref s" "find_entry (memory_entries (get_manager ref s)) n = None"
    and "unat n + 512 < 2 ^ 64" "toLargerPageSize (ref_size ref) = ref_size larger" "rank larger = Suc (rank ref)"
    and fits: "fits ref n s \<longleftrightarrow> has_entry ref n s \<or> fits larger (CEILING_DIV_VALUE n ENTRIES) s"
    and IH: "alloc_post larger (CEILING_DIV_VALUE n ENTRIES) s
          (allocContiguousPhysicalPagesWithManager (Suc fuel) (CEILING_DIV_VALUE n ENTRIES) larger s)"
  shows "alloc_post ref n s (allocContiguousPhysicalPagesWithManager (Suc (Suc fuel)) n ref s)"
proof -
  let ?k = "CEILING_DIV_VALUE n ENTRIES" and ?p = "ref_size ref"
  have p: "pmm_pageSize (get_manager ref s) = ?p"
    using state_wf_get [OF assms(1), of ref] by (simp add: wf_manager_def)
  have P: "unat (ref_size larger) = unat ?p * 512 \<and> 4096 dvd unat ?p" "?p < HUGE_PAGE"
    using assms(6) by (cases ref; cases larger; simp add: layout_defs)+
  have no: "\<not> has_entry ref n s" using assms(3) by (simp add: has_entry_def find_entry_None)
  show ?thesis
  proof (cases "allocContiguousPhysicalPagesWithManager (Suc fuel) ?k larger s")
    case (Inl err)
    then show ?thesis
      using IH assms(3,5) P p no fits by (subst alloc_unfold) (simp add: alloc_post_def Let_def del: fits.simps)
  next
    case (Inr as)
    obtain a s1 where as: "as = (a, s1)" by (cases as)
    let ?rest = "\<lparr>pageStart = a + n * ?p, numberOfPages = toSmallerPages ?k - n\<rparr>"
    have post: "state_wf s1" "wf_entry (ref_size larger) \<lparr>pageStart = a, numberOfPages = ?k\<rparr>"
      "\<And>x. free_count s x = free_count s1 x + of_bool (covers (ref_size larger) \<lparr>pageStart = a, numberOfPages = ?k\<rparr> x)"
      "\<And>r. rank r < rank larger \<Longrightarrow> get_manager r s1 = get_manager r s"
      "\<And>r. length (memory_entries (get_manager r s1)) \<le> length (memory_entries (get_manager r s)) + 1 \<and>
             memory_cap (get_manager r s1) = memory_cap (get_manager r s)"
      using IH Inr as by (simp_all add: alloc_post_def)
    have "fits ref n s" using IH Inr as fits by (simp add: alloc_post_def)
    note cut = leftover_of_larger [OF assms(4) P(1) post(2)]
    have "can_push ref s1" using assms(2) post(4) [of ref] assms(6) by (simp add: can_push_def)
    then have res: "allocContiguousPhysicalPagesWithManager (Suc (Suc fuel)) n ref s = Inr (a, push_entry ref ?rest s1)"
      using Inr as assms(3,5) P p
      by (subst alloc_unfold) (simp add: Let_def free_one_with_room del: freePhysicalPagesWithManager.simps)
    have "get_manager r (push_entry ref ?rest s1) = get_manager r s" if "rank r < rank ref" for r
      using that push_entry_props(3) [OF post(1) cut(1), of r] post(4) [of r] assms(6) by fastforce
    moreover have "length (memory_entries (get_manager r (push_entry ref ?rest s1))) \<le>
          length (memory_entries (get_manager r s)) + 1 \<and>
        memory_cap (get_manager r (push_entry ref ?rest s1)) = memory_cap (get_manager r s)" for r
      using post(4) [of ref] post(5) [of r] assms(6) by (simp add: push_entry_def Let_def get_set_manager)
    moreover have "free_count s x = free_count (push_entry ref ?rest s1) x +
        of_bool (covers ?p \<lparr>pageStart = a, numberOfPages = n\<rparr> x)" for x
      using push_entry_props(2) [OF post(1) cut(1), of x] post(3) [of x] cut(3) [of x] by simp
    ultimately show ?thesis
      using push_entry_props(1) [OF post(1) cut(1)] cut(2) \<open>fits ref n s\<close>
      by (simp add: res alloc_post_def del: fits.simps)
  qed
qed

lemma alloc_any:
  assumes "state_wf s" "rank ref < 2 \<Longrightarrow> can_push ref s" "unat n + 512 < 2 ^ 64"
    and "rank ref < 2 \<Longrightarrow> find_entry (memory_entries (get_manager ref s)) n = None \<Longrightarrow> \<exists>larger.
      toLargerPageSize (ref_size ref) = ref_size larger \<and> rank larger = Suc (rank ref) \<and>
      (fits ref n s \<longleftrightarrow> has_entry ref n s \<or> fits larger (CEILING_DIV_VALUE n ENTRIES) s) \<and>
      0 < fuel \<and> alloc_post larger (CEILING_DIV_VALUE n ENTRIES) s
        (allocContiguousPhysicalPagesWithManager fuel (CEILING_DIV_VALUE n ENTRIES) larger s)"
  shows "alloc_post ref n s (allocContiguousPhysicalPagesWithManager (Suc fuel) n ref s)"
proof (cases "find_entry (memory_entries (get_manager ref s)) n")
  case (Some i)
  then show ?thesis by (rule alloc_hit [OF assms(1)])
next
  case None
  show ?thesis
  proof (cases "rank ref < 2")
    case True
    then obtain larger where l: "toLargerPageSize (ref_size ref) = ref_size larger" "rank larger = Suc (rank ref)"
      "fits ref n s \<longleftrightarrow> has_entry ref n s \<or> fits larger (CEILING_DIV_VALUE n ENTRIES) s" "0 < fuel"
      "alloc_post larger (CEILING_DIV_VALUE n ENTRIES) s
        (allocContiguousPhysicalPagesWithManager fuel (CEILING_DIV_VALUE n ENTRIES) larger s)"
      using assms(4) None by blast
    then obtain f where f: "fuel = Suc f" by (cases fuel) auto
    show ?thesis
      using alloc_miss [OF assms(1) assms(2) [OF True] None assms(3) l(1,2,3), of f] l(5) f by simp
  next
    case False
    then have "ref = HugePMM" by (cases ref) simp_all
    moreover have "pmm_pageSize (hugePMM s) = HUGE_PAGE" using assms(1) by (simp add: state_wf_def wf_manager_def)
    ultimately show ?thesis
      using None find_entry_None [of "memory_entries (hugePMM s)" n]
      by (subst alloc_unfold) (simp add: alloc_post_def Let_def has_entry_def)
  qed
qed

lemma ceiling_entries_bound: "unat n + 512 < 2 ^ 64 \<Longrightarrow> unat (CEILING_DIV_VALUE n ENTRIES :: u64) + 512 < 2 ^ 64"
  by (subst unat_ceiling_entries) linarith+

lemma alloc_correct:
  assumes "state_wf s" "can_push BasePMM s" "can_push LargePMM s" "unat n + 512 < 2 ^ 64" "2 < fuel + rank ref"
  shows "alloc_post ref n s (allocContiguousPhysicalPagesWithManager fuel n ref s)"
proof -
  have h: "alloc_post HugePMM k s (allocContiguousPhysicalPagesWithManager (Suc f) k HugePMM s)" if "unat k + 512 < 2 ^ 64" for k f
    using that assms by (intro alloc_any) simp_all
  have l: "alloc_post LargePMM k s (allocContiguousPhysicalPagesWithManager (Suc (Suc f)) k LargePMM s)" if "unat k + 512 < 2 ^ 64" for k f
    using that assms h ceiling_entries_bound [OF that]
    by (intro alloc_any) (auto simp: toLargerPageSize_ref [simplified] intro!: exI [where x = HugePMM])
  have b: "alloc_post BasePMM k s (allocContiguousPhysicalPagesWithManager (Suc (Suc (Suc f))) k BasePMM s)" if "unat k + 512 < 2 ^ 64" for k f
    using that assms l ceiling_entries_bound [OF that]
    by (intro alloc_any) (auto simp: toLargerPageSize_ref [simplified] intro!: exI [where x = LargePMM])
  show ?thesis
  proof (cases ref)
    case BasePMM
    then have "fuel = Suc (Suc (Suc (fuel - 3)))" using assms(5) by simp
    then show ?thesis using b [OF assms(4), of "fuel - 3"] BasePMM by simp
  next
    case LargePMM
    then have "fuel = Suc (Suc (fuel - 2))" using assms(5) by simp
    then show ?thesis using l [OF assms(4), of "fuel - 2"] LargePMM by simp
  next
    case HugePMM
    then have "fuel = Suc (fuel - 1)" using assms(5) by simp
    then show ?thesis using h [OF assms(4), of "fuel - 1"] HugePMM by simp
  qed
qed

section \<open>Growing the array of a manager\<close>

lemma free_count_grow:
  "free_count (grow_manager ref newBuf s) x = free_count s x +
     of_bool (covers (ref_size ref) \<lparr>pageStart = memory_buf (get_manager ref s),
       numberOfPages = ucast (usedBasePages (get_manager ref s))\<rparr> x)"
  by (cases ref) (simp_all add: grow_manager_def Let_def free_count_def)

lemma free_count_push:
  "free_count (push_entry ref e s) x = free_count s x + of_bool (covers (ref_size ref) e x)"
  by (cases ref) (simp_all add: push_entry_def Let_def free_count_def)

lemma alloc_hit_keeps:
  assumes "find_entry (memory_entries (get_manager ref s)) n = Some i"
    "allocContiguousPhysicalPagesWithManager (Suc fuel) n ref s = Inr (a, s')"
  shows "r \<noteq> ref \<Longrightarrow> get_manager r s' = get_manager r s"
    "memory_buf (get_manager ref s') = memory_buf (get_manager ref s)"
    "usedBasePages (get_manager ref s') = usedBasePages (get_manager ref s)"
  using assms by (auto simp: alloc_unfold Let_def get_set_manager decreasePages_def split: if_splits)

lemma free_grows:
  assumes "state_wf s" "\<not> can_push ref s" "has_entry BasePMM (ucast (usedBasePages (get_manager ref s) + 1)) s"
  defines "used \<equiv> usedBasePages (get_manager ref s)" and "buf \<equiv> memory_buf (get_manager ref s)"
  shows "\<exists>newBuf s'. freePhysicalPagesWithManager (Suc (Suc fuel)) [e] ref s = Inr ((), s') \<and>
    memory_buf (get_manager ref s') = newBuf \<and> usedBasePages (get_manager ref s') = used + 1 \<and>
    memory_cap (get_manager ref s') = MEMORY_ENTRIES_IN_BASE_PAGES (ucast (used + 1)) \<and>
    (\<forall>r. r \<noteq> ref \<longrightarrow> memory_buf (get_manager r s') = memory_buf (get_manager r s) \<and>
       usedBasePages (get_manager r s') = usedBasePages (get_manager r s)) \<and>
    (\<forall>x. free_count s' x + of_bool (covers BASE_PAGE \<lparr>pageStart = newBuf, numberOfPages = ucast (used + 1)\<rparr> x) =
       free_count s x + of_bool (covers (ref_size ref) e x) +
       of_bool (covers (ref_size ref) \<lparr>pageStart = buf, numberOfPages = ucast used\<rparr> x))"
proof -
  let ?n = "ucast (used + 1) :: u64"
  obtain i where i: "find_entry (memory_entries (get_manager BasePMM s)) ?n = Some i"
    using assms(3) find_entry_None [of "memory_entries (get_manager BasePMM s)" ?n]
    by (cases "find_entry (memory_entries (get_manager BasePMM s)) ?n") (auto simp: has_entry_def used_def)
  have post: "alloc_post BasePMM ?n s (allocContiguousPhysicalPagesWithManager (Suc fuel) ?n BasePMM s)"
    by (rule alloc_hit [OF assms(1) i])
  moreover have "fits BasePMM ?n s" using assms(3) by (simp add: used_def)
  ultimately obtain a s1 where a: "allocContiguousPhysicalPagesWithManager (Suc fuel) ?n BasePMM s = Inr (a, s1)"
    "\<And>x. free_count s x = free_count s1 x + of_bool (covers BASE_PAGE \<lparr>pageStart = a, numberOfPages = ?n\<rparr> x)"
    by (auto simp: alloc_post_def split: sum.splits)
  note keep = alloc_hit_keeps [OF i a(1)]
  have buf: "memory_buf (get_manager r s1) = memory_buf (get_manager r s) \<and>
      usedBasePages (get_manager r s1) = usedBasePages (get_manager r s)" for r
    using keep by (cases "r = BasePMM") auto
  let ?s' = "push_entry ref e (grow_manager ref a s1)"
  have "freePhysicalPagesWithManager (Suc (Suc fuel)) [e] ref s = Inr ((), ?s')"
    using assms(2) a(1) by (simp add: can_push_def Let_def used_def)
  moreover have "free_count ?s' x + of_bool (covers BASE_PAGE \<lparr>pageStart = a, numberOfPages = ?n\<rparr> x) =
      free_count s x + of_bool (covers (ref_size ref) e x) +
      of_bool (covers (ref_size ref) \<lparr>pageStart = buf, numberOfPages = ucast used\<rparr> x)" for x
    using a(2) [of x] buf [of ref] by (simp add: free_count_push free_count_grow buf_def used_def)
  ultimately show ?thesis
    using buf
    by (intro exI [where x = a] exI [where x = ?s'])
       (auto simp: push_entry_def grow_manager_def Let_def get_set_manager used_def)
qed

section \<open>Properties of contiguous allocation\<close>

text \<open>
  C1. \<^verbatim>\<open>allocContiguousPhysicalPages\<close>: as long as the arrays of the base and large managers have
  a free slot, a call terminates (three stack frames are enough) and either raises the out-of-memory
  fault, exactly when no manager from the requested size upwards has a region that is large
  enough, or returns a region. The returned bytes were free, every byte is free exactly as often
  afterwards as before apart from the returned ones, and the invariant of the managers is kept.
\<close>

theorem allocContiguousPhysicalPages_conserves:
  assumes "state_wf s" "can_push BasePMM s" "can_push LargePMM s" "unat n + 512 < 2 ^ 64" "3 \<le> fuel"
  shows "case allocContiguousPhysicalPages fuel n (ref_size ref) s of
      Inl err \<Rightarrow> err = NoMorePhysicalMemory \<and> \<not> fits ref n s
    | Inr (a, s') \<Rightarrow> fits ref n s \<and> state_wf s' \<and>
        (\<forall>x. free_count s x = free_count s' x + of_bool (covers (ref_size ref) \<lparr>pageStart = a, numberOfPages = n\<rparr> x))"
  using alloc_correct [OF assms(1-4), of fuel ref] assms(5)
  by (auto simp: allocContiguousPhysicalPages_def alloc_post_def simp del: fits.simps split: sum.splits)

definition sample_state :: PMMState where
  "sample_state =
    \<lparr>basePMM = (empty_manager BASE_PAGE)\<lparr>memory_entries := [\<lparr>pageStart = 0x10000, numberOfPages = 7\<rparr>],
       memory_buf := 0x8000, memory_cap := 256\<rparr>,
     largePMM = (empty_manager LARGE_PAGE)\<lparr>memory_buf := 0x9000, memory_cap := 256\<rparr>,
     hugePMM = (empty_manager HUGE_PAGE)\<lparr>memory_entries := [\<lparr>pageStart = 0x40000000, numberOfPages = 2\<rparr>],
       memory_buf := 0xA000, memory_cap := 256\<rparr>\<rparr>"

lemma sample_state_ok:
  "state_wf sample_state" "can_push BasePMM sample_state" "can_push LargePMM sample_state"
  by (simp_all add: sample_state_def state_wf_def wf_manager_def wf_entry_def can_push_def empty_manager_def layout_defs
      word_le_nat_alt)

theorem allocContiguousPhysicalPages_conserves_witness:
  "\<exists>a s'. allocContiguousPhysicalPages 3 20 BASE_PAGE sample_state = Inr (a, s') \<and> state_wf s'"
proof -
  have "fits BasePMM 20 sample_state"
    by (simp add: has_entry_def sample_state_def empty_manager_def word_le_nat_alt layout_defs)
       (simp add: unat_ceiling_entries [unfolded layout_defs])
  then show ?thesis
    using allocContiguousPhysicalPages_conserves [OF sample_state_ok, of 20 3 BasePMM]
    by (auto simp del: fits.simps split: sum.splits)
qed

definition owned_count :: "PMMState \<Rightarrow> nat \<Rightarrow> nat" where
  "owned_count s x = free_count s x + of_bool (covers BASE_PAGE
     \<lparr>pageStart = memory_buf (basePMM s), numberOfPages = ucast (usedBasePages (basePMM s))\<rparr> x)"

text \<open>
  C32. When the array of the base manager is full and a base region can hold the new buffer, freeing
  a region moves the array: counting the buffer as memory the manager owns, exactly the freed
  region is added, and the array has room again.
\<close>

theorem freePhysicalPage_grows_base:
  assumes "state_wf s" "\<not> can_push BasePMM s" "has_entry BasePMM (ucast (usedBasePages (basePMM s) + 1)) s" "2 \<le> fuel"
  shows "\<exists>s'. freePhysicalPage fuel e BASE_PAGE s = Inr ((), s') \<and>
    usedBasePages (basePMM s') = usedBasePages (basePMM s) + 1 \<and>
    memory_cap (basePMM s') = MEMORY_ENTRIES_IN_BASE_PAGES (ucast (usedBasePages (basePMM s'))) \<and>
    (\<forall>x. owned_count s' x = owned_count s x + of_bool (covers BASE_PAGE e x))"
proof -
  obtain f where f: "fuel = Suc (Suc f)" using assms(4) by (metis add_2_eq_Suc le_Suc_ex)
  obtain newBuf s' where s': "freePhysicalPagesWithManager fuel [e] BasePMM s = Inr ((), s')"
    "memory_buf (basePMM s') = newBuf" "usedBasePages (basePMM s') = usedBasePages (basePMM s) + 1"
    "memory_cap (basePMM s') = MEMORY_ENTRIES_IN_BASE_PAGES (ucast (usedBasePages (basePMM s) + 1))"
    "\<And>x. free_count s' x + of_bool (covers BASE_PAGE \<lparr>pageStart = newBuf, numberOfPages = ucast (usedBasePages (basePMM s) + 1)\<rparr> x) =
       free_count s x + of_bool (covers BASE_PAGE e x) + of_bool (covers BASE_PAGE
         \<lparr>pageStart = memory_buf (basePMM s), numberOfPages = ucast (usedBasePages (basePMM s))\<rparr> x)"
    using free_grows [of s BasePMM f e] assms(1-3) f by (simp del: freePhysicalPagesWithManager.simps) blast
  have "owned_count s' x = owned_count s x + of_bool (covers BASE_PAGE e x)" for x
    using s'(5) [of x] by (simp only: owned_count_def s'(2,3) ac_simps)
  then show ?thesis
    using s' set_manager_pageSizes [of BasePMM] by (simp add: freePhysicalPage_def)
qed

definition full_state :: PMMState where
  "full_state = sample_state\<lparr>basePMM := (basePMM sample_state)\<lparr>memory_entries :=
     replicate 256 \<lparr>pageStart = 0x10000, numberOfPages = 7\<rparr>\<rparr>\<rparr>"

theorem freePhysicalPage_grows_base_witness:
  "\<exists>s'. freePhysicalPage 2 \<lparr>pageStart = 0x50000, numberOfPages = 3\<rparr> BASE_PAGE full_state = Inr ((), s') \<and>
     usedBasePages (basePMM s') = 2"
proof -
  have "state_wf full_state" "\<not> can_push BasePMM full_state" "has_entry BasePMM 2 full_state"
    by (simp_all add: full_state_def sample_state_def state_wf_def wf_manager_def wf_entry_def can_push_def
        empty_manager_def layout_defs has_entry_def list_all_iff list_ex_iff word_le_nat_alt)
  moreover have "usedBasePages (basePMM full_state) = 1"
    by (simp add: full_state_def sample_state_def empty_manager_def)
  ultimately show ?thesis
    using freePhysicalPage_grows_base [of full_state 2 "\<lparr>pageStart = 0x50000, numberOfPages = 3\<rparr>"] by auto
qed

text \<open>
  The same growth of the large or huge manager invents memory: the old buffer consists of base
  pages, but it is entered in an array that counts 2 MiB or 1 GiB pages, so bytes behind the buffer
  become free although the managers never owned them.
\<close>

theorem freePhysicalPage_grows_large_invents:
  assumes "state_wf s" "\<not> can_push LargePMM s" "has_entry BasePMM (ucast (usedBasePages (largePMM s) + 1)) s" "2 \<le> fuel"
  shows "\<exists>newBuf s'. freePhysicalPage fuel e LARGE_PAGE s = Inr ((), s') \<and>
    (\<forall>x. free_count s' x + of_bool (covers BASE_PAGE
            \<lparr>pageStart = newBuf, numberOfPages = ucast (usedBasePages (largePMM s) + 1)\<rparr> x) =
       free_count s x + of_bool (covers LARGE_PAGE e x) + of_bool (covers LARGE_PAGE
            \<lparr>pageStart = memory_buf (largePMM s), numberOfPages = ucast (usedBasePages (largePMM s))\<rparr> x))"
proof -
  obtain f where f: "fuel = Suc (Suc f)" using assms(4) by (metis add_2_eq_Suc le_Suc_ex)
  have "freePhysicalPage fuel e LARGE_PAGE s = freePhysicalPagesWithManager (Suc (Suc f)) [e] LargePMM s"
    using set_manager_pageSizes [of LargePMM] f by (simp add: freePhysicalPage_def)
  then show ?thesis
    using free_grows [of s LargePMM f e] assms(1-3)
    by (simp only: get_manager.simps ref_size.simps) blast
qed

definition full_large_state :: PMMState where
  "full_large_state = sample_state\<lparr>largePMM := (largePMM sample_state)\<lparr>memory_entries :=
     replicate 256 \<lparr>pageStart = 0x200000, numberOfPages = 1\<rparr>\<rparr>\<rparr>"

theorem freePhysicalPage_grows_large_invents_witness:
  "\<exists>s'. freePhysicalPage 2 \<lparr>pageStart = 0x400000, numberOfPages = 1\<rparr> LARGE_PAGE full_large_state = Inr ((), s')"
proof -
  have "state_wf full_large_state" "\<not> can_push LargePMM full_large_state" "has_entry BasePMM 2 full_large_state"
    by (simp_all add: full_large_state_def sample_state_def state_wf_def wf_manager_def wf_entry_def can_push_def
        empty_manager_def layout_defs has_entry_def list_all_iff list_ex_iff word_le_nat_alt)
  moreover have "usedBasePages (largePMM full_large_state) = 1"
    by (simp add: full_large_state_def sample_state_def empty_manager_def)
  ultimately show ?thesis
    using freePhysicalPage_grows_large_invents [of full_large_state 2 "\<lparr>pageStart = 0x400000, numberOfPages = 1\<rparr>"]
    by auto
qed

section \<open>Allocation in pieces\<close>

definition total_pages :: "PagedMemory list \<Rightarrow> nat" where
  "total_pages es = (\<Sum>e \<leftarrow> es. unat (numberOfPages e))"

lemma total_pages_simps [simp]:
  "total_pages [] = 0" "total_pages (e # es) = unat (numberOfPages e) + total_pages es"
  "total_pages (xs @ ys) = total_pages xs + total_pages ys"
  by (simp_all add: total_pages_def)

lemma unat_ucast_u32_u64 [simp]: "unat (ucast (r :: u32) :: u64) = unat r"
  using unat_lt_u32 [of r] by (simp add: unsigned_ucast_eq take_bit_nat_eq_self_iff)

lemma unat_ucast_u64_u32: "unat (w :: u64) < 2 ^ 32 \<Longrightarrow> unat (ucast w :: u32) = unat w"
  by (simp add: unsigned_ucast_eq take_bit_nat_eq_self_iff)

definition take_post :: "ManagerRef \<Rightarrow> u32 \<Rightarrow> PhysicalMemoryManager \<Rightarrow>
    PagedMemory list \<Rightarrow> u32 option \<Rightarrow> PhysicalMemoryManager \<Rightarrow> bool" where
  "take_post ref r m pages missing m' \<longleftrightarrow> wf_manager ref m' \<and> memory_cap m' = memory_cap m \<and>
     list_all (wf_entry (ref_size ref)) pages \<and>
     (\<forall>x. free_in (ref_size ref) (memory_entries m) x =
        free_in (ref_size ref) (memory_entries m') x + free_in (ref_size ref) pages x) \<and>
     length pages + length (memory_entries m') \<le> length (memory_entries m) + of_bool (missing = None) \<and>
     (case missing of
        None \<Rightarrow> total_pages pages = unat r
      | Some q \<Rightarrow> total_pages pages + unat q = unat r \<and> memory_entries m' = [] \<and>
          total_pages pages = total_pages (memory_entries m) \<and> (0 < unat r \<longrightarrow> 0 < unat q))"

lemma take_from_end_ok:
  assumes "wf_manager ref m"
  shows "\<exists>pages missing m'. take_from_end r m = Inr (pages, missing, m') \<and> take_post ref r m pages missing m'"
  using assms
proof (induction r m rule: take_from_end.induct)
  case (1 r m)
  let ?es = "memory_entries m"
  show ?case
  proof (cases "?es = []")
    case True
    then show ?thesis
      using 1(2) by (subst take_from_end.simps) (simp add: take_post_def)
  next
    case False
    let ?e = "last ?es" and ?i = "length ?es - 1"
    have i: "?i < length ?es" "?es ! ?i = ?e" using False by (simp_all add: last_conv_nth)
    have e: "wf_entry (ref_size ref) ?e" using 1(2) False by (simp add: wf_manager_def list_all_iff)
    show ?thesis
    proof (cases "ucast r \<le> numberOfPages ?e")
      case True
      then obtain m' where m': "decreasePages m ?i (ucast r) = Inr m'" "wf_manager ref m'"
        "length (memory_entries m') \<le> length ?es" "memory_cap m' = memory_cap m"
        "\<And>x. free_in (ref_size ref) ?es x = free_in (ref_size ref) (memory_entries m') x +
           of_bool (covers (ref_size ref) \<lparr>pageStart = pageStart ?e, numberOfPages = ucast r\<rparr> x)"
        using decreasePages_ok [OF 1(2) i(1), of "ucast r"] i(2) by metis
      have "wf_entry (ref_size ref) \<lparr>pageStart = pageStart ?e, numberOfPages = ucast r\<rparr>"
        using True e by (simp add: wf_entry_fewer word_le_nat_alt)
      then show ?thesis
        using False True m' by (subst take_from_end.simps) (simp add: Let_def take_post_def)
    next
      case less: False
      let ?q = "ucast (ucast r - numberOfPages ?e) :: u32"
      let ?m = "m\<lparr>memory_entries := butlast ?es\<rparr>"
      have lt: "unat (numberOfPages ?e) < unat r" using less by (simp add: word_le_nat_alt)
      then have q: "unat ?q = unat r - unat (numberOfPages ?e)"
        using unat_lt_u32 [of r] by (simp add: unat_ucast_u64_u32 unat_sub_nowrap)
      have es: "?es = butlast ?es @ [?e]" using False by simp
      have "wf_manager ref ?m" using 1(2) by (auto simp: wf_manager_def list_all_iff dest: in_set_butlastD)
      then obtain pages missing m' where r: "take_from_end ?q ?m = Inr (pages, missing, m')"
        "take_post ref ?q ?m pages missing m'"
        using 1(1) [OF False refl less] by blast
      have eq: "take_from_end r m = Inr (?e # pages, missing, m')"
        using False less r(1) by (subst take_from_end.simps) (simp add: Let_def)
      obtain k where "length ?es = Suc k" using False by (cases ?es) auto
      then have "take_post ref r m (?e # pages) missing m'"
        using r(2) e q lt es free_in_simps(3) [of "ref_size ref" "butlast ?es" "[?e]"]
          total_pages_simps(3) [of "butlast ?es" "[?e]"] False
        by (auto simp: take_post_def Suc_le_eq split: option.splits)
      with eq show ?thesis by blast
    qed
  qed
qed


lemma free_with_room:
  assumes "length (memory_entries (get_manager ref s)) + length pages \<le> unat (memory_cap (get_manager ref s))"
  shows "freePhysicalPagesWithManager (Suc fuel) pages ref s =
    Inr ((), set_manager ref ((get_manager ref s)\<lparr>memory_entries := memory_entries (get_manager ref s) @ pages\<rparr>) s)"
  using assms
proof (induction pages arbitrary: s)
  case Nil
  then show ?case by (cases ref) simp_all
next
  case (Cons e pages)
  let ?m = "get_manager ref s"
  have "unat (of_nat (length (memory_entries ?m)) :: u64) = length (memory_entries ?m)"
    using Cons.prems unat_lt_u64 [of "memory_cap ?m"] by (intro unat_of_nat_lt) simp
  then have room: "\<not> memory_cap ?m \<le> of_nat (length (memory_entries ?m))"
    using Cons.prems by (simp add: word_le_nat_alt)
  have "freePhysicalPagesWithManager (Suc fuel) (e # pages) ref s =
      freePhysicalPagesWithManager (Suc fuel) pages ref (push_entry ref e s)"
    using room by (simp add: Let_def)
  also have "\<dots> = Inr ((), set_manager ref (?m\<lparr>memory_entries := memory_entries ?m @ e # pages\<rparr>) s)"
    using Cons.IH [of "push_entry ref e s"] Cons.prems
    by (cases ref) (simp_all add: push_entry_def Let_def)
  finally show ?case .
qed

lemma free_all_props:
  fixes s pages ref
  defines "s' \<equiv> set_manager ref ((get_manager ref s)\<lparr>memory_entries := memory_entries (get_manager ref s) @ pages\<rparr>) s"
  assumes "state_wf s" "list_all (wf_entry (ref_size ref)) pages"
  shows "state_wf s'" "free_count s' x = free_count s x + free_in (ref_size ref) pages x"
proof -
  show "state_wf s'"
    using assms(2,3) state_wf_get [OF assms(2), of ref] unfolding s'_def
    by (intro state_wf_set) (simp_all add: wf_manager_def)
  show "free_count s' x = free_count s x + free_in (ref_size ref) pages x"
    using free_count_set [of ref "(get_manager ref s)\<lparr>memory_entries := memory_entries (get_manager ref s) @ pages\<rparr>" s x]
    by (simp add: s'_def)
qed

text \<open>Larger pages seen as smaller ones.\<close>

definition as_smaller :: "PagedMemory \<Rightarrow> PagedMemory" where
  "as_smaller e = e\<lparr>numberOfPages := numberOfPages e * ENTRIES\<rparr>"

lemma as_smaller_props:
  assumes "wf_entry P e" "unat P = unat p * 512 \<and> 4096 dvd unat p" "0 < unat p"
  shows "wf_entry p (as_smaller e)" "covers p (as_smaller e) x \<longleftrightarrow> covers P e x"
    "unat (numberOfPages (as_smaller e)) = unat (numberOfPages e) * 512"
proof -
  have "unat (numberOfPages e) * 512 \<le> unat (numberOfPages e) * (unat p * 512)"
    using assms(3) by (cases "unat p") simp_all
  also have "\<dots> < 2 ^ 64" using assms(1) unfolding wf_entry_def conjunct1 [OF assms(2)] by linarith
  finally have "unat (numberOfPages e) * 512 < 2 ^ 64" .
  then show u: "unat (numberOfPages (as_smaller e)) = unat (numberOfPages e) * 512"
    by (simp add: as_smaller_def unat_mult_nowrap)
  have st: "pageStart (as_smaller e) = pageStart e" by (simp add: as_smaller_def)
  show "wf_entry p (as_smaller e)" "covers p (as_smaller e) x \<longleftrightarrow> covers P e x"
    using assms(1,2) by (simp_all add: wf_entry_def covers_def u st ac_simps)
qed

lemma as_smaller_list:
  assumes "list_all (wf_entry P) es" "unat P = unat p * 512 \<and> 4096 dvd unat p" "0 < unat p"
  shows "list_all (wf_entry p) (map as_smaller es)" "free_in p (map as_smaller es) x = free_in P es x"
    "total_pages (map as_smaller es) = total_pages es * 512"
  using assms(1)
  by (induction es) (simp_all add: as_smaller_props [OF _ assms(2,3)])

definition n_entries :: "PMMState \<Rightarrow> nat" where
  "n_entries s = length (memory_entries (basePMM s)) + length (memory_entries (largePMM s)) +
     length (memory_entries (hugePMM s))"

lemma n_entries_set:
  "n_entries (set_manager ref m s) + length (memory_entries (get_manager ref s)) = n_entries s + length (memory_entries m)"
  by (cases ref) (simp_all add: n_entries_def)

primrec avail :: "ManagerRef \<Rightarrow> PMMState \<Rightarrow> nat" where
  "avail HugePMM s = total_pages (memory_entries (hugePMM s))"
| "avail LargePMM s = total_pages (memory_entries (largePMM s)) + 512 * total_pages (memory_entries (hugePMM s))"
| "avail BasePMM s = total_pages (memory_entries (basePMM s)) + 512 * (total_pages (memory_entries (largePMM s)) +
     512 * total_pages (memory_entries (hugePMM s)))"

definition pieces_post :: "ManagerRef \<Rightarrow> nat \<Rightarrow> PMMState \<Rightarrow> (PagedMemory list) pmm_result \<Rightarrow> bool" where
  "pieces_post ref n s r \<longleftrightarrow>
     (case r of
        Inl err \<Rightarrow> err = NoMorePhysicalMemory \<and> avail ref s < n
      | Inr (pages, s') \<Rightarrow> state_wf s' \<and> list_all (wf_entry (ref_size ref)) pages \<and> total_pages pages = n \<and>
          (\<forall>x. free_count s x = free_count s' x + free_in (ref_size ref) pages x) \<and>
          length pages + n_entries s' + rank ref \<le> n_entries s + 3 \<and>
          (\<forall>r. memory_cap (get_manager r s') = memory_cap (get_manager r s)) \<and>
          (\<forall>r. rank r < rank ref \<longrightarrow> get_manager r s' = get_manager r s))"

lemma pieces_satisfied:
  assumes "state_wf s" "take_from_end r (get_manager ref s) = Inr (pages, None, m')"
    "take_post ref r (get_manager ref s) pages None m'" "ucast len = r"
  shows "allocPhysicalPagesWithManager (Suc fuel) len ref s = Inr (pages, set_manager ref m' s)"
    "state_wf (set_manager ref m' s)" "total_pages pages = unat r" "list_all (wf_entry (ref_size ref)) pages"
    "free_count s x = free_count (set_manager ref m' s) x + free_in (ref_size ref) pages x"
    "length pages + n_entries (set_manager ref m' s) \<le> n_entries s + 1"
    "memory_cap (get_manager r' (set_manager ref m' s)) = memory_cap (get_manager r' s)"
proof -
  show "allocPhysicalPagesWithManager (Suc fuel) len ref s = Inr (pages, set_manager ref m' s)"
    using assms by simp
  show "state_wf (set_manager ref m' s)" "total_pages pages = unat r" "list_all (wf_entry (ref_size ref)) pages"
    using assms by (simp_all add: take_post_def state_wf_set)
  show "free_count s x = free_count (set_manager ref m' s) x + free_in (ref_size ref) pages x"
    using assms(3) free_count_set [of ref m' s x] by (simp add: take_post_def)
  show "length pages + n_entries (set_manager ref m' s) \<le> n_entries s + 1"
    using assms(3) n_entries_set [of ref m' s] by (simp add: take_post_def)
  show "memory_cap (get_manager r' (set_manager ref m' s)) = memory_cap (get_manager r' s)"
    using assms(3) by (simp add: take_post_def get_set_manager)
qed

lemma pieces_hit:
  assumes "state_wf s" "unat len < 2 ^ 32" "unat len \<le> total_pages (memory_entries (get_manager ref s))" "0 < unat len"
  shows "\<exists>pages s'. allocPhysicalPagesWithManager (Suc fuel) len ref s = Inr (pages, s') \<and>
     state_wf s' \<and> list_all (wf_entry (ref_size ref)) pages \<and> total_pages pages = unat len \<and>
     (\<forall>x. free_count s x = free_count s' x + free_in (ref_size ref) pages x) \<and>
     length pages + n_entries s' \<le> n_entries s + 1 \<and>
     (\<forall>r. memory_cap (get_manager r s') = memory_cap (get_manager r s)) \<and>
     (\<forall>r. r \<noteq> ref \<longrightarrow> get_manager r s' = get_manager r s)"
proof -
  have u: "unat (ucast len :: u32) = unat len" by (rule unat_ucast_u64_u32 [OF assms(2)])
  obtain pages missing m' where t: "take_from_end (ucast len) (get_manager ref s) = Inr (pages, missing, m')"
    "take_post ref (ucast len) (get_manager ref s) pages missing m'"
    using take_from_end_ok [OF state_wf_get [OF assms(1)]] by metis
  have none: "missing = None"
    using t(2) assms(3,4) u by (auto simp: take_post_def split: option.splits)
  note sat = pieces_satisfied [OF assms(1) t [unfolded none] refl]
  show ?thesis
    using sat u by (intro exI [where x = pages] exI [where x = "set_manager ref m' s"])
      (simp add: get_set_manager del: allocPhysicalPagesWithManager.simps)
qed

definition roomy :: "PMMState \<Rightarrow> bool" where
  "roomy s \<longleftrightarrow> n_entries s + 2 \<le> unat (memory_cap (basePMM s)) \<and> n_entries s + 2 \<le> unat (memory_cap (largePMM s))"

lemma roomy_get: "roomy s \<Longrightarrow> rank ref < 2 \<Longrightarrow> n_entries s + 2 \<le> unat (memory_cap (get_manager ref s))"
  by (cases ref) (simp_all add: roomy_def)

lemma avail_larger:
  assumes "rank larger = Suc (rank ref)"
  shows "avail ref s = total_pages (memory_entries (get_manager ref s)) + 512 * avail larger s"
    "avail larger (set_manager ref m s) = avail larger s"
  using assms by (cases ref; cases larger; simp)+

lemma ref_size_larger:
  assumes "rank larger = Suc (rank ref)"
  shows "toLargerPageSize (ref_size ref) = ref_size larger" "unat (ref_size larger) = unat (ref_size ref) * 512 \<and> 4096 dvd unat (ref_size ref)"
    "ref_size ref < HUGE_PAGE" "0 < unat (ref_size ref)" "rank ref < 2"
  using assms by (cases ref; cases larger; simp add: toLargerPageSize_def layout_defs)+

lemma unat_ceiling_u32:
  assumes "0 < unat q"
  shows "unat (CEILING_DIV_VALUE (ucast (q :: u32)) ENTRIES :: u64) = (unat q + 511) div 512"
    "unat (CEILING_DIV_VALUE (ucast q) ENTRIES :: u64) < 2 ^ 32" "0 < unat (CEILING_DIV_VALUE (ucast q) ENTRIES :: u64)"
proof -
  show k: "unat (CEILING_DIV_VALUE (ucast q) ENTRIES :: u64) = (unat q + 511) div 512"
    using unat_lt_u32 [of q] by (subst unat_ceiling_entries) simp_all
  show "unat (CEILING_DIV_VALUE (ucast q) ENTRIES :: u64) < 2 ^ 32"
    using unat_lt_u32 [of q] unfolding k by (intro less_mult_imp_div_less) simp
  show "0 < unat (CEILING_DIV_VALUE (ucast q) ENTRIES :: u64)"
    using assms unfolding k by (simp add: div_greater_zero_iff)
qed

declare allocPhysicalPagesWithManager.simps [simp del]

lemma pieces_step:
  assumes "state_wf s" "roomy s" "unat len < 2 ^ 32" "0 < unat len" "rank larger = Suc (rank ref)"
    and IH: "\<And>k s. state_wf s \<Longrightarrow> roomy s \<Longrightarrow> unat k < 2 ^ 32 \<Longrightarrow> 0 < unat k \<Longrightarrow>
        pieces_post larger (unat k) s (allocPhysicalPagesWithManager (Suc fuel) k larger s)"
  shows "pieces_post ref (unat len) s (allocPhysicalPagesWithManager (Suc (Suc fuel)) len ref s)"
proof -
  have u: "unat (ucast len :: u32) = unat len" by (rule unat_ucast_u64_u32 [OF assms(3)])
  note size = ref_size_larger [OF assms(5)]
  obtain pages missing m' where t: "take_from_end (ucast len) (get_manager ref s) = Inr (pages, missing, m')"
    "take_post ref (ucast len) (get_manager ref s) pages missing m'"
    using take_from_end_ok [OF state_wf_get [OF assms(1)]] by metis
  let ?s1 = "set_manager ref m' s"
  show ?thesis
  proof (cases missing)
    case None
    show ?thesis
      using pieces_satisfied [OF assms(1) t [unfolded None] refl] size(5) u
      by (simp add: pieces_post_def get_set_manager)
  next
    case (Some q)
    note post = t(2) [unfolded Some take_post_def option.case]
    have q: "0 < unat q" "total_pages pages + unat q = unat len" "memory_entries m' = []"
        "total_pages pages = total_pages (memory_entries (get_manager ref s))"
      using post assms(4) u by simp_all
    let ?k = "CEILING_DIV_VALUE (ucast q) ENTRIES :: u64"
    note k = unat_ceiling_u32 [OF q(1)]
    have n1: "length pages + n_entries ?s1 \<le> n_entries s"
      using post n_entries_set [of ref m' s] by simp
    have s1: "state_wf ?s1" "roomy ?s1" "\<And>r. memory_cap (get_manager r ?s1) = memory_cap (get_manager r s)"
    proof -
      show cap: "memory_cap (get_manager r ?s1) = memory_cap (get_manager r s)" for r
        using post by (simp add: get_set_manager)
      show "state_wf ?s1" using assms(1) post by (simp add: state_wf_set)
      show "roomy ?s1"
        using assms(2) n1 cap [of BasePMM] cap [of LargePMM] by (simp add: roomy_def)
    qed
    have f1: "free_count s x = free_count ?s1 x + free_in (ref_size ref) pages x" for x
      using post free_count_set [of ref m' s x] by simp
    have p: "pmm_pageSize m' = ref_size ref" using post by (simp add: wf_manager_def)
    note IH1 = IH [OF s1(1,2) k(2,3)]
    show ?thesis
    proof (cases "allocPhysicalPagesWithManager (Suc fuel) ?k larger ?s1")
      case (Inl err)
      have "avail larger s < unat ?k" "err = NoMorePhysicalMemory"
        using IH1 Inl avail_larger(2) [OF assms(5)] by (simp_all add: pieces_post_def)
      moreover from this have "avail ref s < unat len"
        using avail_larger(1) [OF assms(5), of s] q k(1) by linarith
      moreover have "allocPhysicalPagesWithManager (Suc (Suc fuel)) len ref s = Inl err"
        using t(1) Some Inl size p by (subst allocPhysicalPagesWithManager.simps) (simp add: Let_def)
      ultimately show ?thesis by (simp add: pieces_post_def)
    next
      case (Inr Ls)
      obtain L s2 where Ls: "Ls = (L, s2)" by (cases Ls)
      let ?p = "ref_size ref" and ?P = "ref_size larger"
      let ?m3 = "(get_manager ref s2)\<lparr>memory_entries := map as_smaller L\<rparr>"
      let ?s3 = "set_manager ref ?m3 s2"
      have s2: "state_wf s2" "list_all (wf_entry ?P) L" "total_pages L = unat ?k"
          "\<And>x. free_count ?s1 x = free_count s2 x + free_in ?P L x"
          "length L + n_entries s2 + rank larger \<le> n_entries ?s1 + 3"
          "\<And>r. memory_cap (get_manager r s2) = memory_cap (get_manager r ?s1)"
          "\<And>r. rank r < rank larger \<Longrightarrow> get_manager r s2 = get_manager r ?s1"
        using IH1 Inr Ls by (simp_all add: pieces_post_def)
      have m2: "get_manager ref s2 = m'" using s2(7) [of ref] assms(5) by (simp add: get_set_manager)
      have "length L \<le> unat (memory_cap m')"
        using s2(5) s2(6) [of ref] n1 roomy_get [OF assms(2) size(5)] s1(3) [of ref] m2 assms(5) by simp
      then have fr: "freePhysicalPages (Suc fuel) (map as_smaller L) ?p s2 = Inr ((), ?s3)"
        using free_with_room [of ref s2 "map as_smaller L" fuel] q(3) m2
        by (simp add: freePhysicalPages_def del: freePhysicalPagesWithManager.simps)
      note sm = as_smaller_list [OF s2(2) size(2,4)]
      have s3: "state_wf ?s3" "free_count ?s3 x = free_count s2 x + free_in ?p (map as_smaller L) x" for x
        using free_all_props [OF s2(1) sm(1)] q(3) m2 by simp_all
      have n3: "n_entries ?s3 = n_entries s2 + length L"
        using n_entries_set [of ref ?m3 s2] q(3) m2 by simp
      have "unat q \<le> total_pages (map as_smaller L)"
        using sm(3) s2(3) k(1) by linarith
      then obtain added s4 where s4: "allocPhysicalPagesWithManager (Suc fuel) (ucast q) ref ?s3 = Inr (added, s4)"
          "state_wf s4" "list_all (wf_entry ?p) added" "total_pages added = unat q"
          "\<And>x. free_count ?s3 x = free_count s4 x + free_in ?p added x"
          "length added + n_entries s4 \<le> n_entries ?s3 + 1"
          "\<And>r. memory_cap (get_manager r s4) = memory_cap (get_manager r ?s3)"
          "\<And>r. r \<noteq> ref \<Longrightarrow> get_manager r s4 = get_manager r ?s3"
        using pieces_hit [OF s3(1), of "ucast q" ref fuel] q(1) unat_lt_u32 [of q]
        by (auto simp: get_set_manager)
      have res: "allocPhysicalPagesWithManager (Suc (Suc fuel)) len ref s = Inr (pages @ added, s4)"
        using t(1) Some Inr Ls size p fr s4(1)
        by (subst allocPhysicalPagesWithManager.simps) (simp add: Let_def as_smaller_def [abs_def])
      have cap: "memory_cap (get_manager r s4) = memory_cap (get_manager r s)" for r
        using s4(7) [of r] s2(6) [of r] s1(3) [of r] by (simp add: get_set_manager split: if_splits)
      have fr: "free_count s x = free_count s4 x + free_in ?p (pages @ added) x" for x
        using f1 [of x] s2(4) [of x] s3(2) [of x] s4(5) [of x] sm(2) [of x] by simp
      have keep: "get_manager r s4 = get_manager r s" if "rank r < rank ref" for r
        using that s4(8) [of r] s2(7) [of r] assms(5) by (auto simp: get_set_manager)
      show ?thesis
        using s4(2-4,6) post q(2) n1 n3 s2(5) assms(5) cap fr keep
        by (simp add: res pieces_post_def)
    qed
  qed
qed


lemma pieces_huge:
  assumes "state_wf s" "unat len < 2 ^ 32" "0 < unat len"
  shows "pieces_post HugePMM (unat len) s (allocPhysicalPagesWithManager (Suc fuel) len HugePMM s)"
proof -
  have u: "unat (ucast len :: u32) = unat len" by (rule unat_ucast_u64_u32 [OF assms(2)])
  obtain pages missing m' where t: "take_from_end (ucast len) (get_manager HugePMM s) = Inr (pages, missing, m')"
    "take_post HugePMM (ucast len) (get_manager HugePMM s) pages missing m'"
    using take_from_end_ok [OF state_wf_get [OF assms(1)]] by metis
  show ?thesis
  proof (cases missing)
    case None
    have "s\<lparr>hugePMM := m'\<rparr> = set_manager HugePMM m' s" by simp
    then show ?thesis
      using pieces_satisfied [OF assms(1) t [unfolded None] refl] u
      by (simp add: pieces_post_def get_set_manager del: set_manager.simps)
  next
    case (Some q)
    then have "pmm_pageSize m' = HUGE_PAGE" "total_pages (memory_entries (hugePMM s)) < unat len"
      using t(2) u assms(3) by (auto simp: take_post_def wf_manager_def)
    then show ?thesis
      using t(1) Some by (subst allocPhysicalPagesWithManager.simps) (simp add: pieces_post_def Let_def)
  qed
qed

lemma pieces_correct:
  assumes "state_wf s" "roomy s" "unat len < 2 ^ 32" "0 < unat len" "2 < fuel + rank ref"
  shows "pieces_post ref (unat len) s (allocPhysicalPagesWithManager fuel len ref s)"
proof -
  have l: "pieces_post LargePMM (unat k) s (allocPhysicalPagesWithManager (Suc (Suc f)) k LargePMM s)"
    if "state_wf s" "roomy s" "unat k < 2 ^ 32" "0 < unat k" for k s f
    using pieces_step [OF that, of HugePMM LargePMM f] pieces_huge by simp
  have b: "pieces_post BasePMM (unat k) s (allocPhysicalPagesWithManager (Suc (Suc (Suc f))) k BasePMM s)"
    if "state_wf s" "roomy s" "unat k < 2 ^ 32" "0 < unat k" for k s f
    using pieces_step [OF that, of LargePMM BasePMM "Suc f"] l by simp
  show ?thesis
  proof (cases ref)
    case BasePMM
    then have "fuel = Suc (Suc (Suc (fuel - 3)))" using assms(5) by simp
    then show ?thesis using b [OF assms(1-4), of "fuel - 3"] BasePMM by simp
  next
    case LargePMM
    then have "fuel = Suc (Suc (fuel - 2))" using assms(5) by simp
    then show ?thesis using l [OF assms(1-4), of "fuel - 2"] LargePMM by simp
  next
    case HugePMM
    then have "fuel = Suc (fuel - 1)" using assms(5) by simp
    then show ?thesis using pieces_huge [OF assms(1,3,4), of "fuel - 1"] HugePMM by simp
  qed
qed



section \<open>Initialisation\<close>

lemma unat_ALIGN_DOWN_ENTRIES: "unat (ALIGN_DOWN_VALUE n ENTRIES) = unat n div 512 * 512"
  using unat_ALIGN_DOWN_VALUE [of n 9] by (simp add: layout_defs)

lemma upgraded_parts:
  assumes "wf_entry p e" "unat P = unat p * 512" "0 < unat p"
  defines "a \<equiv> ALIGN_DOWN_VALUE (numberOfPages e) ENTRIES"
  defines "big \<equiv> \<lparr>pageStart = pageStart e, numberOfPages = toLargerPages a\<rparr>"
    and "rest \<equiv> \<lparr>pageStart = pageStart e + a * p, numberOfPages = numberOfPages e - a\<rparr>"
  shows "wf_entry P big" "wf_entry p rest"
    "of_bool (covers p e x) = (of_bool (covers P big x) + of_bool (covers p rest x) :: nat)"
proof -
  have a: "unat a = unat (numberOfPages e) div 512 * 512" by (simp only: a_def unat_ALIGN_DOWN_ENTRIES)
  then have le: "a \<le> numberOfPages e" by (simp add: word_le_nat_alt)
  have b: "unat (toLargerPages a) * unat P = unat a * unat p"
    using a assms(2) by (simp add: toLargerPages_def unat_div_distrib ac_simps)
  show "wf_entry p rest" unfolding rest_def by (rule split_entry(1) [OF assms(1) le])
  have "wf_entry p \<lparr>pageStart = pageStart e, numberOfPages = a\<rparr>"
    using wf_entry_fewer [OF assms(1), of a] le by (simp add: word_le_nat_alt)
  moreover have "4096 dvd unat P" using assms(1,2) by (simp add: wf_entry_def)
  ultimately show "wf_entry P big" using b by (simp add: wf_entry_def big_def)
  have "covers P big x \<longleftrightarrow> covers p \<lparr>pageStart = pageStart e, numberOfPages = a\<rparr> x"
    using b by (simp add: covers_def big_def)
  then show "of_bool (covers p e x) = (of_bool (covers P big x) + of_bool (covers p rest x) :: nat)"
    using split_entry(2) [OF assms(1) le, of x] by (simp add: rest_def)
qed

lemma covers_no_pages: "numberOfPages e = 0 \<Longrightarrow> \<not> covers p e x"
  by (simp add: covers_def)

lemma ALIGN_UP_aligned:
  assumes "RING_RANGE_VALUE v (2 ^ n) = 0" "n < 64"
  shows "ALIGN_UP_VALUE v (2 ^ n) = (v :: u64)"
proof (rule word_eq_unatI)
  obtain k where k: "unat v = 2 ^ n * k" using assms(1) by (auto simp: RING_RANGE_VALUE_zero_iff elim: dvdE)
  have "2 ^ n dvd (2 ^ 64 :: nat)" using assms(2) by (intro le_imp_power_dvd) simp
  then obtain q where q: "(2 ^ 64 :: nat) = 2 ^ n * q" by (elim dvdE)
  have "2 ^ n * k < 2 ^ n * q" using unat_lt_2p [of v] by (simp only: k q [symmetric]) simp
  then have "k < q" by simp
  then have "2 ^ n * k + 2 ^ n \<le> 2 ^ n * q"
    using mult_le_mono2 [of "k + 1" q "2 ^ n"] by (simp add: algebra_simps)
  moreover have pos: "(0 :: nat) < 2 ^ n" by simp
  ultimately have "unat v + (2 ^ n - 1) < 2 ^ 64" using k q by linarith
  then have "unat (ALIGN_UP_VALUE v (2 ^ n)) = (unat v + (2 ^ n - 1)) div 2 ^ n * 2 ^ n"
    using assms(2) by (intro unat_ALIGN_UP_VALUE) simp_all
  also have "(unat v + (2 ^ n - 1)) div 2 ^ n = k"
    unfolding k by (rule div_nat_eqI, rule le_add1) (unfold mult_Suc_right, use pos in linarith)
  finally show "unat (ALIGN_UP_VALUE v (2 ^ n)) = unat v" using k by (simp add: mult.commute)
qed

lemma can_push_set:
  assumes "can_push r s" "length (memory_entries m) \<le> length (memory_entries (get_manager r s))"
    "length (memory_entries (get_manager r s)) < 2 ^ 64" "memory_cap m = memory_cap (get_manager r s)"
  shows "can_push r (set_manager r m s)"
  using assms by (simp add: can_push_def get_set_manager word_le_nat_alt unat_of_nat_lt)

text \<open>
  One round of \<^verbatim>\<open>initPMM\<close> on a region that starts on a boundary of the larger page size moves
  memory between the two managers without losing or duplicating a byte.
\<close>

theorem initPMM_entry_conserves_aligned:
  assumes "state_wf s" "i < length (memory_entries (basePMM s))"
    "RING_RANGE_VALUE (pageStart (memory_entries (basePMM s) ! i)) LARGE_PAGE = 0"
    "can_push BasePMM s" "can_push LargePMM s" "length (memory_entries (basePMM s)) < 2 ^ 64" "1 \<le> fuel"
  shows "\<exists>s'. initPMM_entry fuel LARGE_PAGE BasePMM i s = Inr ((), s') \<and> state_wf s' \<and>
    (\<forall>x. free_count s' x = free_count s x)"
proof (cases "ENTRIES \<le> numberOfPages (memory_entries (basePMM s) ! i)")
  case False
  then show ?thesis using assms(1) by (simp add: initPMM_entry_def Let_def)
next
  case True
  let ?e = "memory_entries (basePMM s) ! i"
  let ?n = "numberOfPages ?e"
  let ?a = "ALIGN_DOWN_VALUE ?n ENTRIES"
  let ?big = "\<lparr>pageStart = pageStart ?e, numberOfPages = toLargerPages ?a\<rparr>"
  let ?rest = "\<lparr>pageStart = pageStart ?e + ?a * BASE_PAGE, numberOfPages = ?n - ?a\<rparr>"
  obtain f where f: "fuel = Suc f" using assms(7) by (cases fuel) auto
  have up: "ALIGN_UP_VALUE (pageStart ?e) LARGE_PAGE = pageStart ?e"
    using ALIGN_UP_aligned [of "pageStart ?e" 21] assms(3) by (simp add: layout_defs)
  have small: "toSmallerPageSize LARGE_PAGE = BASE_PAGE" by (simp add: toSmallerPageSize_def layout_defs)
  have wfb: "wf_manager BasePMM (basePMM s)" using assms(1) by (simp add: state_wf_def)
  then have we: "wf_entry BASE_PAGE ?e" using assms(2) by (simp add: wf_manager_def list_all_length)
  obtain m' where m': "decreasePages (basePMM s) i ?n = Inr m'" "wf_manager BasePMM m'"
      "length (memory_entries m') \<le> length (memory_entries (basePMM s))" "memory_cap m' = memory_cap (basePMM s)"
      "\<And>x. free_in (ref_size BasePMM) (memory_entries (basePMM s)) x = free_in (ref_size BasePMM) (memory_entries m') x +
        of_bool (covers (ref_size BasePMM) \<lparr>pageStart = pageStart ?e, numberOfPages = ?n\<rparr> x)"
    by (rule decreasePages_ok [OF wfb assms(2) order_refl]) (rule that)
  let ?s1 = "set_manager BasePMM m' s"
  let ?s2 = "push_entry LargePMM ?big ?s1"
  note parts = upgraded_parts [OF we, of LARGE_PAGE]
  have P: "unat LARGE_PAGE = unat BASE_PAGE * 512" "0 < unat BASE_PAGE" by (simp_all add: layout_defs)
  have s1: "state_wf ?s1" using assms(1) m'(2) by (rule state_wf_set)
  have f1: "free_count s x = free_count ?s1 x + of_bool (covers BASE_PAGE ?e x)" for x
  proof -
    have "covers BASE_PAGE \<lparr>pageStart = pageStart ?e, numberOfPages = ?n\<rparr> x \<longleftrightarrow> covers BASE_PAGE ?e x"
      by (simp add: covers_def)
    then show ?thesis using free_count_set [of BasePMM m' s x] m'(5) [of x] by simp
  qed
  have "can_push LargePMM ?s1" using assms(5) by (simp add: can_push_def)
  then have big: "freePhysicalPage fuel ?big LARGE_PAGE ?s1 = Inr ((), ?s2)"
    using set_manager_pageSizes [of LargePMM] free_one_with_room [of LargePMM ?s1 f] f
    by (simp add: freePhysicalPage_def del: freePhysicalPagesWithManager.simps set_manager.simps)
  have s2: "state_wf ?s2" "free_count ?s2 x = free_count ?s1 x + of_bool (covers LARGE_PAGE ?big x)" for x
    using push_entry_props(1,2) [OF s1, of LargePMM ?big] parts(1) [OF P] by simp_all
  have "can_push BasePMM ?s1"
    using can_push_set [of BasePMM s m'] assms(4,6) m'(3,4) by simp
  then have "can_push BasePMM ?s2" by (simp add: can_push_def push_entry_def Let_def)
  then have rest: "freePhysicalPage fuel ?rest BASE_PAGE ?s2 = Inr ((), push_entry BasePMM ?rest ?s2)"
    using set_manager_pageSizes [of BasePMM] free_one_with_room [of BasePMM ?s2 f] f
    by (simp add: freePhysicalPage_def del: freePhysicalPagesWithManager.simps set_manager.simps)
  let ?s' = "if 0 < ?n - ?a then push_entry BasePMM ?rest ?s2 else ?s2"
  have "initPMM_entry fuel LARGE_PAGE BasePMM i s = Inr ((), ?s')"
    using True m'(1) big rest by (simp add: initPMM_entry_def Let_def up small del: set_manager.simps)
  moreover have "state_wf ?s'"
    using push_entry_props(1) [OF s2(1), of BasePMM ?rest] parts(2) [OF P] s2(1) by simp
  moreover have "free_count ?s' x = free_count s x" for x
  proof -
    have "free_count ?s' x = free_count ?s2 x + of_bool (covers BASE_PAGE ?rest x)"
      using covers_no_pages [of ?rest BASE_PAGE x] by (cases "?n - ?a = 0") (simp_all add: free_count_push word_gt_0)
    then show ?thesis using s2(2) [of x] f1 [of x] parts(3) [OF P, of x] by simp
  qed
  ultimately show ?thesis by blast
qed

definition aligned_state :: PMMState where
  "aligned_state = sample_state\<lparr>basePMM := (basePMM sample_state)\<lparr>memory_entries :=
     [\<lparr>pageStart = 0x200000, numberOfPages = 1000\<rparr>]\<rparr>\<rparr>"

theorem initPMM_entry_conserves_aligned_witness:
  "\<exists>s'. initPMM_entry 1 LARGE_PAGE BasePMM 0 aligned_state = Inr ((), s') \<and> (\<forall>x. free_count s' x = free_count aligned_state x)"
proof -
  have "state_wf aligned_state" "can_push BasePMM aligned_state" "can_push LargePMM aligned_state"
    "RING_RANGE_VALUE (pageStart (memory_entries (basePMM aligned_state) ! 0)) LARGE_PAGE = 0"
    "length (memory_entries (basePMM aligned_state)) = 1"
    by (simp_all add: aligned_state_def sample_state_def state_wf_def wf_manager_def wf_entry_def can_push_def
        empty_manager_def layout_defs word_le_nat_alt RING_RANGE_VALUE_def)
  then show ?thesis
    using initPMM_entry_conserves_aligned [of aligned_state 0 1] by auto
qed

definition unaligned_state :: PMMState where
  "unaligned_state =
    \<lparr>basePMM = (empty_manager BASE_PAGE)\<lparr>memory_entries := [\<lparr>pageStart = 0x1FE000, numberOfPages = 1001\<rparr>],
       memory_buf := 0x8000, memory_cap := 256\<rparr>,
     largePMM = empty_manager LARGE_PAGE, hugePMM = empty_manager HUGE_PAGE\<rparr>"

definition corrupted_state :: PMMState where
  "corrupted_state =
    \<lparr>basePMM = (empty_manager BASE_PAGE)\<lparr>memory_entries :=
         [\<lparr>pageStart = 0x5E6000, numberOfPages = 1\<rparr>, \<lparr>pageStart = 0x400000, numberOfPages = 487\<rparr>],
       memory_buf := 0x8000, memory_cap := 256\<rparr>,
     largePMM = (empty_manager LARGE_PAGE)\<lparr>memory_entries := [\<lparr>pageStart = 0x200000, numberOfPages = 1\<rparr>],
       memory_buf := 0x1FE000, memory_cap := 256\<rparr>,
     hugePMM = empty_manager HUGE_PAGE\<rparr>"

lemma unaligned_state_result: "initPMM (Suc (Suc (Suc (Suc 0)))) LARGE_PAGE unaligned_state = Inr ((), corrupted_state)"
  by (simp add: initPMM_def getMemoryManager_def unaligned_state_def corrupted_state_def empty_manager_def
      layout_defs alloc_unfold Let_def decreasePages_def MEMORY_ENTRIES_IN_BASE_PAGES_def toSmallerPageSize_def
      initPMM_entry_def ALIGN_UP_VALUE_def ALIGN_DOWN_VALUE_def toLargerPages_def freePhysicalPage_def
      push_entry_def word_le_nat_alt word_less_nat_alt)


end
