(* ===== verification/Virtual.thy ===== *)
theory Virtual
  imports Physical
begin

text \<open>
  Page tables: \<^verbatim>\<open>x86/memory/virtual/virtual.c\<close> (mapping a region, allocating intermediate tables on
  demand) and the page walk \<^verbatim>\<open>getMappedPage\<close> of \<^verbatim>\<open>x86/memory/policy/virtual.c\<close>. Tables live in
  memory: \<open>ptmem\<close> gives the 8-byte word at an (identity-mapped) address. The page allocator
  \<^verbatim>\<open>allocate4KiBPage\<close> is declared by \<^verbatim>\<open>abstraction/memory/physical/allocation.h\<close> and provided by the
  kernel or by the loader, so it is an argument here; the locale \<open>page_source\<close> states what the
  mapping code relies on, and is interpreted on the kernel's physical memory manager.
\<close>

section \<open>Mapping\<close>

type_synonym ptmem = "addr \<Rightarrow> u64"

datatype 'e map_error = AllocFailed 'e | MapAssertFailed | MapOutOfFuel

definition pageSizeToDepth :: "PageSize \<Rightarrow> nat" where
  "pageSizeToDepth p = (if p = BASE_PAGE then 4 else if p = LARGE_PAGE then 3 else 2)"

definition entry_address :: "addr \<Rightarrow> u64 \<Rightarrow> u64 \<Rightarrow> addr" where
  "entry_address table virt pageSize = table + 8 * RING_RANGE_VALUE (virt div pageSize) ENTRIES"

definition zero_page :: "ptmem \<Rightarrow> addr \<Rightarrow> ptmem" where
  "zero_page m a = (\<lambda>x. if unat (x - a) < unat PAGE_FRAME_SIZE then 0 else m x)"

definition getZeroBasePage ::
  "('s \<Rightarrow> 'e + (addr \<times> 's)) \<Rightarrow> ptmem \<times> 's \<Rightarrow> 'e map_error + (addr \<times> ptmem \<times> 's)" where
  "getZeroBasePage alloc = (\<lambda>(m, s).
     case alloc s of Inl e \<Rightarrow> Inl (AllocFailed e) | Inr (a, s') \<Rightarrow> Inr (a, zero_page m a, s'))"

definition leaf_value :: "PageSize \<Rightarrow> u64 \<Rightarrow> u64 \<Rightarrow> u64" where
  "leaf_value pageType physical additionalFlags =
     (let value = PAGE_PRESENT VirtualPageMasks OR PAGE_WRITABLE VirtualPageMasks OR physical OR additionalFlags
      in if pageType = HUGE_PAGE \<or> pageType = LARGE_PAGE
         then value OR PAGE_EXTENDED_SIZE VirtualPageMasks else value)"

text \<open>The inner loop over the levels; the number of levels left counts down from the depth.\<close>

fun map_levels :: "('s \<Rightarrow> 'e + (addr \<times> 's)) \<Rightarrow> nat \<Rightarrow> addr \<Rightarrow> u64 \<Rightarrow> u64 \<Rightarrow> u64 \<Rightarrow> ptmem \<times> 's \<Rightarrow>
    'e map_error + (ptmem \<times> 's)" where
  "map_levels alloc 0 currentTable pageSize virt value (m, s) = Inr (m, s)"
| "map_levels alloc (Suc 0) currentTable pageSize virt value (m, s) =
     Inr (m(entry_address currentTable virt pageSize := value), s)"
| "map_levels alloc (Suc (Suc k)) currentTable pageSize virt value (m, s) =
     (let address = entry_address currentTable virt pageSize in
      case (if m address = 0 then
              (case getZeroBasePage alloc (m, s) of
                 Inl e \<Rightarrow> Inl e
               | Inr (page, m', s') \<Rightarrow>
                   Inr (m'(address := PAGE_PRESENT VirtualPageMasks OR PAGE_WRITABLE VirtualPageMasks OR page), s'))
            else Inr (m, s)) of
        Inl e \<Rightarrow> Inl e
      | Inr (m', s') \<Rightarrow>
          map_levels alloc (Suc k) (ALIGN_DOWN_EXP (m' address) PAGE_FRAME_SHIFT) (pageSize div ENTRIES) virt value (m', s'))"

fun map_loop :: "nat \<Rightarrow> ('s \<Rightarrow> 'e + (addr \<times> 's)) \<Rightarrow> addr \<Rightarrow> PageSize \<Rightarrow> u64 \<Rightarrow> u64 \<Rightarrow> u64 \<Rightarrow> u64 \<Rightarrow> ptmem \<times> 's \<Rightarrow>
    'e map_error + (ptmem \<times> 's)" where
  "map_loop 0 alloc level4 pageType flags virtualEnd virt physical st = Inl MapOutOfFuel"
| "map_loop (Suc fuel) alloc level4 pageType flags virtualEnd virt physical st =
     (if virt < virtualEnd then
        (case map_levels alloc (pageSizeToDepth pageType) level4 JUMBO_PAGE_SIZE virt
                (leaf_value pageType physical flags) st of
           Inl e \<Rightarrow> Inl e
         | Inr st' \<Rightarrow> map_loop fuel alloc level4 pageType flags virtualEnd (virt + pageType) (physical + pageType) st')
      else Inr st)"

text \<open>
  The assertions that name declared identifiers are kept (\<^verbatim>\<open>ASSERT(isValidPageSixe)\<close> names none).
\<close>

definition mapVirtualRegionWithFlags :: "nat \<Rightarrow> ('s \<Rightarrow> 'e + (addr \<times> 's)) \<Rightarrow> addr \<Rightarrow> u64 \<Rightarrow> PagedMemory \<Rightarrow> u64 \<Rightarrow> u64 \<Rightarrow>
    ptmem \<times> 's \<Rightarrow> 'e map_error + (ptmem \<times> 's)" where
  "mapVirtualRegionWithFlags fuel alloc level4 virt memory pageSize additionalFlags st =
     (if isValidPageSizeForArch pageSize \<and> level4 \<noteq> 0 \<and>
         (drop_bit 48 virt = 0 \<or> drop_bit 48 virt = 0xFFFF) \<and>
         RING_RANGE_VALUE virt pageSize = 0 \<and> RING_RANGE_VALUE (pageStart memory) pageSize = 0
      then map_loop fuel alloc level4 pageSize additionalFlags (virt + pageSize * numberOfPages memory) virt
             (pageStart memory) st
      else Inl MapAssertFailed)"

definition mapVirtualRegion :: "nat \<Rightarrow> ('s \<Rightarrow> 'e + (addr \<times> 's)) \<Rightarrow> addr \<Rightarrow> u64 \<Rightarrow> PagedMemory \<Rightarrow> PageSize \<Rightarrow>
    ptmem \<times> 's \<Rightarrow> 'e map_error + (ptmem \<times> 's)" where
  "mapVirtualRegion fuel alloc level4 virt memory pageType st =
     mapVirtualRegionWithFlags fuel alloc level4 virt memory pageType 0 st"

section \<open>Walking\<close>

definition isExtendedPageLevel :: "nat \<Rightarrow> bool" where
  "isExtendedPageLevel level \<longleftrightarrow> level = 1 \<or> level = 2"

definition is_extended :: "u64 \<Rightarrow> bool" where
  "is_extended e \<longleftrightarrow> e AND PAGE_EXTENDED_SIZE VirtualPageMasks \<noteq> 0"

text \<open>The levels left, the level counter, the table, the two running page sizes, the address.\<close>

fun walk_levels :: "nat \<Rightarrow> nat \<Rightarrow> addr \<Rightarrow> u64 \<Rightarrow> u64 \<Rightarrow> ptmem \<Rightarrow> u64 \<Rightarrow> u64 \<Rightarrow> MappedPage" where
  "walk_levels 0 level currentTable pageSize resultSize m virt address =
     \<lparr>mp_entry = m address, mp_pageSize = resultSize\<rparr>"
| "walk_levels (Suc k) level currentTable pageSize resultSize m virt _ =
     (let address = entry_address currentTable virt pageSize;
          resultSize' = resultSize div ENTRIES in
      if isExtendedPageLevel level \<and> is_extended (m address)
      then \<lparr>mp_entry = m address, mp_pageSize = resultSize'\<rparr>
      else walk_levels k (level + 1) (ALIGN_DOWN_EXP (m address) PAGE_FRAME_SHIFT) (pageSize div ENTRIES)
             resultSize' m virt address)"

definition getMappedPage :: "addr \<Rightarrow> ptmem \<Rightarrow> u64 \<Rightarrow> MappedPage" where
  "getMappedPage level4 m virt =
     walk_levels (pageSizeToDepth BASE_PAGE) 0 level4 JUMBO_PAGE_SIZE WUMBO_PAGE_SIZE m virt 0"

definition getPhysicalAddressFrame :: "u64 \<Rightarrow> u64" where
  "getPhysicalAddressFrame virtualPage = virtualPage AND FRAME_OR_NEXT_PAGE_TABLE VirtualPageMasks"

section \<open>Slots of aligned tables\<close>

definition aligned_page :: "addr \<Rightarrow> bool" where
  "aligned_page P \<longleftrightarrow> ALIGN_DOWN_EXP P PAGE_FRAME_SHIFT = P"

abbreviation slot :: "addr \<Rightarrow> u64 \<Rightarrow> addr" where
  "slot P i \<equiv> P + 8 * i"

lemma aligned_page_iff: "aligned_page P \<longleftrightarrow> 4096 dvd unat P"
proof -
  have u: "unat (ALIGN_DOWN_EXP P PAGE_FRAME_SHIFT) = unat P div 4096 * 4096"
    using unat_ALIGN_DOWN_VALUE [of P 12] by (simp add: ALIGN_DOWN_EXP_eq PAGE_FRAME_SHIFT_def)
  have "aligned_page P \<longleftrightarrow> unat P div 4096 * 4096 = unat P"
    by (metis aligned_page_def u word_unat_eq_iff)
  also have "\<dots> \<longleftrightarrow> 4096 dvd unat P" by (metis dvd_div_mult_self dvd_triv_right)
  finally show ?thesis .
qed

lemma aligned_page_offset:
  assumes "aligned_page P" "unat o' < 4096"
  shows "unat (P + o') = unat P + unat o'" "ALIGN_DOWN_EXP (P + o') PAGE_FRAME_SHIFT = P"
proof -
  obtain k where k: "unat P = 4096 * k" using assms(1) by (auto simp: aligned_page_iff elim: dvdE)
  have "k < 2 ^ 52" using unat_lt_u64 [of P] k by simp
  then show u: "unat (P + o') = unat P + unat o'"
    using k assms(2) by (intro unat_add_nowrap) simp
  have "unat (ALIGN_DOWN_EXP (P + o') PAGE_FRAME_SHIFT) = unat (P + o') div 4096 * 4096"
    using unat_ALIGN_DOWN_VALUE [of "P + o'" 12] by (simp add: ALIGN_DOWN_EXP_eq PAGE_FRAME_SHIFT_def)
  also have "\<dots> = unat P"
    using u k assms(2) by (simp add: div_add1_eq)
  finally show "ALIGN_DOWN_EXP (P + o') PAGE_FRAME_SHIFT = P" by (rule word_eq_unatI)
qed

lemma unat_8_mult: "(i :: u64) < 512 \<Longrightarrow> unat (8 * i) = 8 * unat i \<and> 8 * unat i < 4096"
  by (simp add: word_less_nat_alt unat_mult_nowrap)

lemma slot_page: "aligned_page P \<Longrightarrow> i < 512 \<Longrightarrow> ALIGN_DOWN_EXP (slot P i) PAGE_FRAME_SHIFT = P"
  using unat_8_mult [of i] by (intro aligned_page_offset(2)) simp_all

lemma slot_inj:
  assumes "aligned_page P" "aligned_page Q" "i < 512" "j < 512"
  shows "slot P i = slot Q j \<longleftrightarrow> P = Q \<and> i = j"
proof
  assume eq: "slot P i = slot Q j"
  then have "P = Q" using slot_page [OF assms(1,3)] slot_page [OF assms(2,4)] by simp
  moreover from this eq have "8 * i = 8 * j" by simp
  then have "8 * unat i = 8 * unat j" using unat_8_mult assms(3,4) by metis
  ultimately show "P = Q \<and> i = j" by (simp add: word_unat_eq_iff)
qed simp

lemma zero_page_slot:
  assumes "aligned_page P" "aligned_page a" "i < 512"
  shows "zero_page m a (slot P i) = (if P = a then 0 else m (slot P i))"
proof (cases "P = a")
  case True
  then show ?thesis using unat_8_mult [OF assms(3)] by (simp add: zero_page_def layout_defs)
next
  case False
  have "\<not> unat (slot P i - a) < 4096"
  proof
    assume "unat (slot P i - a) < 4096"
    then have "ALIGN_DOWN_EXP (a + (slot P i - a)) PAGE_FRAME_SHIFT = a"
      by (rule aligned_page_offset(2) [OF assms(2)])
    then show False using slot_page [OF assms(1,3)] False by simp
  qed
  then show ?thesis using False by (simp add: zero_page_def layout_defs)
qed

section \<open>Levels\<close>

definition level_size :: "nat \<Rightarrow> u64" where "level_size k = 2 ^ (3 + 9 * k)"

lemma level_size_values: "level_size 1 = BASE_PAGE" "level_size 2 = LARGE_PAGE" "level_size 3 = HUGE_PAGE"
  "level_size 4 = JUMBO_PAGE_SIZE" "level_size 5 = WUMBO_PAGE_SIZE"
  by (simp_all add: level_size_def layout_defs)

lemma level_size_div:
  assumes "k \<le> 4"
  shows "level_size (Suc k) div ENTRIES = level_size k"
proof -
  have "k \<in> {0, 1, 2, 3, 4}" using assms by auto
  then show ?thesis by (auto simp: level_size_def layout_defs)
qed

definition idx :: "nat \<Rightarrow> u64 \<Rightarrow> u64" where
  "idx k virt = RING_RANGE_VALUE (virt div level_size k) ENTRIES"

lemma idx_less: "idx k virt < 512"
proof -
  have "unat (idx k virt) = unat (virt div level_size k) mod 2 ^ 9"
    using unat_RING_RANGE_VALUE [of "virt div level_size k" 9] by (simp add: idx_def layout_defs)
  then show ?thesis by (simp add: word_less_nat_alt)
qed

lemma entry_address_slot: "entry_address T virt (level_size k) = slot T (idx k virt)"
  by (simp add: entry_address_def idx_def)

definition child :: "u64 \<Rightarrow> addr" where "child e = ALIGN_DOWN_EXP e PAGE_FRAME_SHIFT"

lemma aligned_child: "aligned_page (child e)"
  using unat_ALIGN_DOWN_VALUE [of e 12]
  by (simp add: aligned_page_iff child_def ALIGN_DOWN_EXP_eq PAGE_FRAME_SHIFT_def)

text \<open>The entry of a table with \<open>k\<close> levels left points to another table.\<close>

definition nonleaf :: "nat \<Rightarrow> u64 \<Rightarrow> bool" where
  "nonleaf k e \<longleftrightarrow> e \<noteq> 0 \<and> 1 < k \<and> \<not> ((k = 2 \<or> k = 3) \<and> is_extended e)"

text \<open>The walk with \<open>k\<close> levels left.\<close>

definition walk :: "nat \<Rightarrow> ptmem \<Rightarrow> addr \<Rightarrow> u64 \<Rightarrow> MappedPage" where
  "walk k m T v = walk_levels k (4 - k) T (level_size k) (level_size (Suc k)) m v 0"

lemma walk_levels_address: "0 < k \<Longrightarrow> walk_levels k l T p r m v a = walk_levels k l T p r m v b"
  by (cases k) simp_all

lemma walk_Suc:
  assumes "k \<le> 3"
  shows "walk (Suc k) m T v =
    (let e = m (slot T (idx (Suc k) v)) in
     if (k = 1 \<or> k = 2) \<and> is_extended e \<or> k = 0 then \<lparr>mp_entry = e, mp_pageSize = level_size (Suc k)\<rparr>
     else walk k m (child e) v)"
proof -
  let ?a = "slot T (idx (Suc k) v)"
  have ext: "isExtendedPageLevel (4 - Suc k) \<longleftrightarrow> k = 1 \<or> k = 2"
    using assms by (auto simp: isExtendedPageLevel_def)
  have lv: "level_size (Suc k) div ENTRIES = level_size k" "level_size (Suc (Suc k)) div ENTRIES = level_size (Suc k)"
    using assms by (simp_all add: level_size_div)
  have l: "4 - Suc k + 1 = 4 - k" using assms by simp
  have "walk (Suc k) m T v =
      (if (k = 1 \<or> k = 2) \<and> is_extended (m ?a) then \<lparr>mp_entry = m ?a, mp_pageSize = level_size (Suc k)\<rparr>
       else walk_levels k (4 - k) (child (m ?a)) (level_size k) (level_size (Suc k)) m v ?a)"
    unfolding walk_def
    by (subst walk_levels.simps(2)) (simp only: Let_def entry_address_slot child_def ext lv l)
  moreover have "walk_levels k (4 - k) (child (m ?a)) (level_size k) (level_size (Suc k)) m v ?a =
      (if k = 0 then \<lparr>mp_entry = m ?a, mp_pageSize = level_size (Suc k)\<rparr> else walk k m (child (m ?a)) v)"
    using walk_levels_address [of k _ _ _ _ m v ?a 0] by (cases "k = 0") (simp_all add: walk_def)
  ultimately show ?thesis by (auto simp: Let_def)
qed

lemma getMappedPage_walk: "getMappedPage level4 m v = walk 4 m level4 v"
  by (simp add: getMappedPage_def walk_def pageSizeToDepth_def level_size_values [symmetric])

primrec mapped :: "nat \<Rightarrow> ptmem \<Rightarrow> addr \<Rightarrow> u64 \<Rightarrow> bool" where
  "mapped 0 m T v \<longleftrightarrow> True"
| "mapped (Suc k) m T v \<longleftrightarrow>
     m (slot T (idx (Suc k) v)) \<noteq> 0 \<and>
     (nonleaf (Suc k) (m (slot T (idx (Suc k) v))) \<longrightarrow> mapped k m (child (m (slot T (idx (Suc k) v)))) v)"

section \<open>Page-table trees\<close>

primrec reach :: "nat \<Rightarrow> ptmem \<Rightarrow> addr \<Rightarrow> addr set" where
  "reach 0 m T = {}"
| "reach (Suc k) m T = insert T (\<Union>i \<in> {i. i < 512 \<and> nonleaf (Suc k) (m (slot T i))}. reach k m (child (m (slot T i))))"

text \<open>No table is reachable in two ways.\<close>

primrec tree :: "nat \<Rightarrow> ptmem \<Rightarrow> addr \<Rightarrow> bool" where
  "tree 0 m T \<longleftrightarrow> True"
| "tree (Suc k) m T \<longleftrightarrow>
     (\<forall>i < 512. nonleaf (Suc k) (m (slot T i)) \<longrightarrow>
        tree k m (child (m (slot T i))) \<and> T \<notin> reach k m (child (m (slot T i)))) \<and>
     (\<forall>i < 512. \<forall>j < 512. i \<noteq> j \<longrightarrow> nonleaf (Suc k) (m (slot T i)) \<longrightarrow> nonleaf (Suc k) (m (slot T j)) \<longrightarrow>
        reach k m (child (m (slot T i))) \<inter> reach k m (child (m (slot T j))) = {})"

definition same_tables :: "ptmem \<Rightarrow> ptmem \<Rightarrow> addr set \<Rightarrow> bool" where
  "same_tables m m' S \<longleftrightarrow> (\<forall>P \<in> S. \<forall>i < 512. m' (slot P i) = m (slot P i))"

lemma same_tables_subset: "same_tables m m' S \<Longrightarrow> S' \<subseteq> S \<Longrightarrow> same_tables m m' S'"
  by (auto simp: same_tables_def)

lemma same_tables_cong:
  assumes "same_tables m m' (reach k m T)"
  shows "reach k m' T = reach k m T \<and> (tree k m' T \<longleftrightarrow> tree k m T)"
  using assms
proof (induction k arbitrary: T)
  case (Suc k)
  have T: "m' (slot T i) = m (slot T i)" if "i < 512" for i
    using Suc.prems that by (simp add: same_tables_def)
  have c: "reach k m' (child (m (slot T i))) = reach k m (child (m (slot T i))) \<and>
      (tree k m' (child (m (slot T i))) \<longleftrightarrow> tree k m (child (m (slot T i))))"
    if "i < 512" "nonleaf (Suc k) (m (slot T i))" for i
    using that by (intro Suc.IH same_tables_subset [OF Suc.prems]) auto
  have "{i. i < 512 \<and> nonleaf (Suc k) (m' (slot T i))} = {i. i < 512 \<and> nonleaf (Suc k) (m (slot T i))}"
    using T by auto
  then show ?case using T c by simp
qed simp

lemma same_tables_walk:
  assumes "same_tables m m' (reach k m T)" "mapped k m T v" "k \<le> 4" "0 < k"
  shows "walk k m' T v = walk k m T v \<and> mapped k m' T v"
  using assms
proof (induction k arbitrary: T)
  case (Suc k)
  let ?e = "m (slot T (idx (Suc k) v))"
  have e: "m' (slot T (idx (Suc k) v)) = ?e"
    using Suc.prems(1) idx_less by (auto simp: same_tables_def)
  show ?case
  proof (cases "nonleaf (Suc k) ?e")
    case True
    then have k: "0 < k" by (simp add: nonleaf_def)
    have "same_tables m m' (reach k m (child ?e))"
      using True idx_less by (intro same_tables_subset [OF Suc.prems(1)]) auto
    then have "walk k m' (child ?e) v = walk k m (child ?e) v \<and> mapped k m' (child ?e) v"
      using Suc.IH Suc.prems True k by simp
    then show ?thesis using Suc.prems e True by (auto simp: walk_Suc Let_def)
  next
    case False
    then have "(k = 1 \<or> k = 2) \<and> is_extended ?e \<or> k = 0"
      using Suc.prems by (auto simp: nonleaf_def)
    then show ?thesis using Suc.prems e False by (simp add: walk_Suc Let_def)
  qed
qed simp


lemma tree_child:
  assumes "tree (Suc k) m T" "i < 512" "nonleaf (Suc k) (m (slot T i))"
  shows "tree k m (child (m (slot T i)))" "T \<notin> reach k m (child (m (slot T i)))"
    "reach k m (child (m (slot T i))) \<subseteq> reach (Suc k) m T"
  using assms by auto

text \<open>
  Replacing one subtree: the entry \<open>i\<close> of \<open>T\<close> points to a tree in the new memory, whose tables are
  new or belonged to the old subtree, and nothing else of the tree changed.
\<close>

lemma tree_replace:
  assumes "tree (Suc k) m T" "i < 512"
    and other: "\<And>j. j < 512 \<Longrightarrow> j \<noteq> i \<Longrightarrow> m' (slot T j) = m (slot T j)"
    and same: "\<And>j. j < 512 \<Longrightarrow> j \<noteq> i \<Longrightarrow> nonleaf (Suc k) (m (slot T j)) \<Longrightarrow>
        same_tables m m' (reach k m (child (m (slot T j))))"
    and new: "nonleaf (Suc k) (m' (slot T i)) \<Longrightarrow> tree k m' (child (m' (slot T i))) \<and>
        reach k m' (child (m' (slot T i))) \<subseteq>
          F \<union> (if nonleaf (Suc k) (m (slot T i)) then reach k m (child (m (slot T i))) else {})"
    and fresh: "F \<inter> reach (Suc k) m T = {}"
  shows "tree (Suc k) m' T" "reach (Suc k) m' T \<subseteq> reach (Suc k) m T \<union> F"
proof -
  let ?c = "\<lambda>j. child (m (slot T j))"
  have keep: "reach k m' (child (m' (slot T j))) = reach k m (?c j) \<and> (tree k m' (child (m' (slot T j))) \<longleftrightarrow> tree k m (?c j))"
    if "j < 512" "j \<noteq> i" "nonleaf (Suc k) (m (slot T j))" for j
    using same_tables_cong [OF same [OF that]] other [OF that(1,2)] by simp
  have old: "reach k m (?c j) \<subseteq> reach (Suc k) m T" if "j < 512" "nonleaf (Suc k) (m (slot T j))" for j
    using that by auto
  have sub: "reach k m' (child (m' (slot T i))) \<subseteq> F \<union> reach (Suc k) m T" if "nonleaf (Suc k) (m' (slot T i))"
    using new [OF that] old [OF assms(2)] by (auto split: if_splits)
  have Tn: "T \<notin> F" using fresh by simp
  have disj: "reach k m' (child (m' (slot T i))) \<inter> reach k m (?c j) = {}"
    if "nonleaf (Suc k) (m' (slot T i))" "j < 512" "j \<noteq> i" "nonleaf (Suc k) (m (slot T j))" for j
  proof -
    have "nonleaf (Suc k) (m (slot T i)) \<Longrightarrow> reach k m (?c i) \<inter> reach k m (?c j) = {}"
      using assms(1,2) that by simp
    then show ?thesis
      using new [OF that(1)] fresh old [OF that(2,4)] by (cases "nonleaf (Suc k) (m (slot T i))") (simp_all only: if_True if_False, blast+)
  qed
  have Tc: "T \<notin> reach k m' (child (m' (slot T i)))" if "nonleaf (Suc k) (m' (slot T i))"
    using new [OF that] Tn assms(1,2) by (auto split: if_splits)
  have left: "\<forall>j < 512. nonleaf (Suc k) (m' (slot T j)) \<longrightarrow>
      tree k m' (child (m' (slot T j))) \<and> T \<notin> reach k m' (child (m' (slot T j)))"
  proof (intro allI impI)
    fix j :: u64 assume j: "j < 512" "nonleaf (Suc k) (m' (slot T j))"
    show "tree k m' (child (m' (slot T j))) \<and> T \<notin> reach k m' (child (m' (slot T j)))"
    proof (cases "j = i")
      case True then show ?thesis using new Tc j by simp
    next
      case False then show ?thesis using keep [OF j(1) False] other [OF j(1) False] j(2) assms(1) j(1) by simp
    qed
  qed
  have right: "reach k m' (child (m' (slot T a))) \<inter> reach k m' (child (m' (slot T b))) = {}"
    if ab: "a < 512" "b < 512" "a \<noteq> b" "nonleaf (Suc k) (m' (slot T a))" "nonleaf (Suc k) (m' (slot T b))" for a b
  proof -
    consider "a = i" "b \<noteq> i" | "b = i" "a \<noteq> i" | "a \<noteq> i" "b \<noteq> i" using ab(3) by blast
    then show ?thesis
    proof cases
      case 1 then show ?thesis using ab disj [of b] keep [of b] other [of b] by simp
    next
      case 2 then show ?thesis using ab disj [of a] keep [of a] other [of a] by (simp add: Int_commute)
    next
      case 3 then show ?thesis using ab keep [of a] keep [of b] other [of a] other [of b] assms(1) by simp
    qed
  qed
  show "tree (Suc k) m' T" using left right by simp
  have "reach k m' (child (m' (slot T j))) \<subseteq> reach (Suc k) m T \<union> F"
    if "j < 512" "nonleaf (Suc k) (m' (slot T j))" for j
    using that sub keep [of j] other [of j] old [of j] by (cases "j = i") auto
  then show "reach (Suc k) m' T \<subseteq> reach (Suc k) m T \<union> F" by auto
qed

section \<open>Setting one entry\<close>

lemma reach_aligned: "aligned_page T \<Longrightarrow> P \<in> reach k m T \<Longrightarrow> aligned_page P"
  by (induction k arbitrary: T) (auto, blast intro: aligned_child)

lemma walk_entry_same:
  assumes "k \<le> 3" "m' (slot T (idx (Suc k) w)) = m (slot T (idx (Suc k) w))" "mapped (Suc k) m T w"
    "nonleaf (Suc k) (m (slot T (idx (Suc k) w))) \<Longrightarrow> same_tables m m' (reach k m (child (m (slot T (idx (Suc k) w)))))"
  shows "walk (Suc k) m' T w = walk (Suc k) m T w \<and> mapped (Suc k) m' T w"
proof (cases "nonleaf (Suc k) (m (slot T (idx (Suc k) w)))")
  case True
  then have k: "0 < k" by (simp add: nonleaf_def)
  have "walk k m' (child (m (slot T (idx (Suc k) w)))) w = walk k m (child (m (slot T (idx (Suc k) w)))) w \<and>
      mapped k m' (child (m (slot T (idx (Suc k) w)))) w"
    using assms True k by (intro same_tables_walk) auto
  then show ?thesis using assms True by (auto simp: walk_Suc Let_def)
next
  case False
  then have "(k = 1 \<or> k = 2) \<and> is_extended (m (slot T (idx (Suc k) w))) \<or> k = 0"
    using assms(1,3) by (auto simp: nonleaf_def)
  then show ?thesis using assms False by (simp add: walk_Suc Let_def)
qed

lemma walk_leaf_entry:
  assumes "k \<le> 3" "m (slot T (idx (Suc k) w)) = val" "\<not> nonleaf (Suc k) val" "val \<noteq> 0"
  shows "walk (Suc k) m T w = \<lparr>mp_entry = val, mp_pageSize = level_size (Suc k)\<rparr> \<and> mapped (Suc k) m T w"
  using assms by (auto simp: walk_Suc Let_def nonleaf_def)

lemma walk_nonleaf_entry:
  assumes "k \<le> 3" "m (slot T (idx (Suc k) w)) = e" "nonleaf (Suc k) e"
  shows "walk (Suc k) m T w = walk k m (child e) w" "mapped (Suc k) m T w \<longleftrightarrow> mapped k m (child e) w"
  using assms by (auto simp: walk_Suc Let_def nonleaf_def)

fun path_free :: "nat \<Rightarrow> nat \<Rightarrow> ptmem \<Rightarrow> addr \<Rightarrow> u64 \<Rightarrow> bool" where
  "path_free (Suc (Suc j)) c m T v \<longleftrightarrow>
     (let e = m (slot T (idx (Suc (Suc j) + c) v)) in
      e = 0 \<or> nonleaf (Suc (Suc j) + c) e \<and> path_free (Suc j) c m (child e) v)"
| "path_free _ c m T v \<longleftrightarrow> True"

lemma same_tables_path_free:
  assumes "same_tables m m' (reach (j + c) m T)" "path_free j c m T w"
  shows "path_free j c m' T w"
  using assms
proof (induction j arbitrary: T)
  case (Suc j)
  show ?case
  proof (cases j)
    case (Suc j')
    let ?e = "m (slot T (idx (Suc j + c) w))"
    have e: "m' (slot T (idx (Suc j + c) w)) = ?e"
      using Suc.prems(1) idx_less by (auto simp: same_tables_def)
    have "path_free j c m' (child ?e) w" if nl: "nonleaf (Suc j + c) ?e" "path_free j c m (child ?e) w"
      using nl idx_less by (intro Suc.IH same_tables_subset [OF Suc.prems(1)]) auto
    then show ?thesis using Suc.prems(2) Suc e by (auto simp: Let_def)
  qed simp
qed simp

text \<open>
  What mapping one page through \<open>j\<close> levels promises; \<open>c\<close> levels stay below the leaf, and \<open>F\<close> are
  the pages taken from the allocator.
\<close>

definition map_post :: "nat \<Rightarrow> nat \<Rightarrow> ptmem \<Rightarrow> addr \<Rightarrow> u64 \<Rightarrow> u64 \<Rightarrow> addr set \<Rightarrow> ptmem \<Rightarrow> bool" where
  "map_post c j m T v val F m' \<longleftrightarrow>
     tree (j + c) m' T \<and> reach (j + c) m' T \<subseteq> reach (j + c) m T \<union> F \<and>
     (\<forall>P. aligned_page P \<longrightarrow> P \<notin> reach (j + c) m T \<union> F \<longrightarrow> same_tables m m' {P}) \<and>
     (\<forall>w. path_free j c m T w \<longrightarrow> path_free j c m' T w) \<and>
     (\<forall>w. (\<forall>l \<in> {Suc c..j + c}. idx l w = idx l v) \<longrightarrow>
        walk (j + c) m' T w = \<lparr>mp_entry = val, mp_pageSize = level_size (Suc c)\<rparr> \<and> mapped (j + c) m' T w) \<and>
     (\<forall>w. (\<exists>l \<in> {Suc c..j + c}. idx l w \<noteq> idx l v) \<longrightarrow> mapped (j + c) m T w \<longrightarrow>
        walk (j + c) m' T w = walk (j + c) m T w \<and> mapped (j + c) m' T w)"

lemma map_post_leaf:
  fixes v :: u64
  assumes "c \<le> 2" "aligned_page T" "tree (Suc c) m T" "\<not> nonleaf (Suc c) val" "val \<noteq> 0"
  defines "m' \<equiv> m(slot T (idx (Suc c) v) := val)"
  shows "map_post c (Suc 0) m T v val {} m'"
proof -
  let ?i = "idx (Suc c) v"
  have i: "?i < 512" by (rule idx_less)
  have other: "m' (slot P j) = m (slot P j)" if "aligned_page P" "j < 512" "P \<noteq> T \<or> j \<noteq> ?i" for P j
    using that slot_inj [OF that(1) assms(2) that(2) i] by (auto simp: m'_def)
  have sib: "same_tables m m' (reach c m (child (m (slot T j))))" if "j < 512" "nonleaf (Suc c) (m (slot T j))" for j
  proof -
    have "T \<notin> reach c m (child (m (slot T j)))" using tree_child(2) [OF assms(3) that] .
    then show ?thesis using reach_aligned [OF aligned_child] other unfolding same_tables_def by blast
  qed
  have hit: "m' (slot T ?i) = val" by (simp add: m'_def)
  have t: "tree (Suc c) m' T" "reach (Suc c) m' T \<subseteq> reach (Suc c) m T \<union> {}"
    by (rule tree_replace [OF assms(3) i, where F = "{}"]; use other [OF assms(2)] sib hit assms(4) in simp)+
  have "walk (Suc c) m' T w = walk (Suc c) m T w \<and> mapped (Suc c) m' T w"
    if "idx (Suc c) w \<noteq> ?i" "mapped (Suc c) m T w" for w
    using that assms(1,2) other sib idx_less by (intro walk_entry_same) auto
  moreover have "walk (Suc c) m' T w = \<lparr>mp_entry = val, mp_pageSize = level_size (Suc c)\<rparr> \<and> mapped (Suc c) m' T w"
    if "idx (Suc c) w = ?i" for w
    using assms(1,4,5) hit that by (intro walk_leaf_entry) simp_all
  moreover have "same_tables m m' {P}" if "aligned_page P" "P \<notin> reach (Suc c) m T" for P
    using that other by (auto simp: same_tables_def)
  ultimately show ?thesis using t by (simp add: map_post_def del: tree.simps reach.simps mapped.simps)
qed

text \<open>One level: a subtree is mapped through, after the entry was made to point to it.\<close>

lemma map_post_step:
  assumes k: "Suc (j + c) \<le> 4" and T: "aligned_page T" "tree (Suc (j + c)) m T"
    and i: "i = idx (Suc (j + c)) v"
    and m1: "\<And>P n. aligned_page P \<Longrightarrow> n < 512 \<Longrightarrow> P \<notin> F1 \<Longrightarrow> P \<noteq> T \<or> n \<noteq> i \<Longrightarrow> m1 (slot P n) = m (slot P n)"
    and E: "nonleaf (Suc (j + c)) (m1 (slot T i))" "C = child (m1 (slot T i))"
    and C: "reach (j + c) m1 C \<subseteq> F1 \<union> (if nonleaf (Suc (j + c)) (m (slot T i)) then reach (j + c) m (child (m (slot T i))) else {})"
    and w1: "\<And>w. idx (Suc (j + c)) w = i \<Longrightarrow> mapped (Suc (j + c)) m T w \<Longrightarrow>
        walk (Suc (j + c)) m T w = walk (j + c) m1 C w \<and> mapped (j + c) m1 C w"
    and pf: "\<And>w. idx (Suc (j + c)) w = i \<Longrightarrow> path_free (Suc j) c m T w \<Longrightarrow> path_free j c m1 C w"
    and F: "(F1 \<union> F2) \<inter> reach (Suc (j + c)) m T = {}"
    and post: "map_post c j m1 C v val F2 m'"
  shows "map_post c (Suc j) m T v val (F1 \<union> F2) m'"
proof -
  let ?K = "j + c"
  have i': "i < 512" using i idx_less by simp
  have TC: "T \<notin> reach ?K m1 C \<union> F2"
    using C F tree_child(2) [OF T(2) i'] by (auto split: if_splits)
  have p: "tree ?K m' C" "reach ?K m' C \<subseteq> reach ?K m1 C \<union> F2"
      "\<And>P. aligned_page P \<Longrightarrow> P \<notin> reach ?K m1 C \<union> F2 \<Longrightarrow> same_tables m1 m' {P}"
    using post by (simp_all add: map_post_def)
  have Tsame: "m' (slot T n) = m1 (slot T n)" if "n < 512" for n
    using p(3) [OF T(1) TC] that by (simp add: same_tables_def)
  have TF: "T \<notin> F1" using F by auto
  have other: "m' (slot T n) = m (slot T n)" if "n < 512" "n \<noteq> i" for n
    using Tsame [OF that(1)] m1 [OF T(1) that(1) TF] that(2) by simp
  have sub: "reach ?K m (child (m (slot T n))) \<subseteq> reach (Suc ?K) m T" if "n < 512" "nonleaf (Suc ?K) (m (slot T n))" for n
    using that by auto
  have same: "same_tables m m' (reach ?K m (child (m (slot T n))))"
    if n: "n < 512" "n \<noteq> i" "nonleaf (Suc ?K) (m (slot T n))" for n
    unfolding same_tables_def
  proof (intro ballI allI impI)
    fix P and q :: u64 assume P: "P \<in> reach ?K m (child (m (slot T n)))" and q: "q < 512"
    have ap: "aligned_page P" using reach_aligned [OF aligned_child P] .
    have PF: "P \<notin> F1" "P \<notin> F2" using sub [OF n(1,3)] P F by blast+
    have "nonleaf (Suc ?K) (m (slot T i)) \<Longrightarrow>
        reach ?K m (child (m (slot T i))) \<inter> reach ?K m (child (m (slot T n))) = {}"
      using T(2) n i' by simp
    then have "P \<notin> reach ?K m1 C" using C P PF by (auto split: if_splits)
    then have "m' (slot P q) = m1 (slot P q)"
      using p(3) [OF ap] PF q by (simp add: same_tables_def)
    moreover have "P \<noteq> T" using tree_child(2) [OF T(2) n(1,3)] P by auto
    ultimately show "m' (slot P q) = m (slot P q)" using m1 [OF ap q PF(1)] by simp
  qed
  have E': "m' (slot T i) = m1 (slot T i)" by (rule Tsame [OF i'])
  have t: "tree (Suc ?K) m' T" "reach (Suc ?K) m' T \<subseteq> reach (Suc ?K) m T \<union> (F1 \<union> F2)"
    by (rule tree_replace [OF T(2) i' other same, where F = "F1 \<union> F2"]; use p E E' C F in \<open>fastforce split: if_splits\<close>)+
  have frame: "same_tables m m' {P}" if P: "aligned_page P" "P \<notin> reach (Suc ?K) m T \<union> (F1 \<union> F2)" for P
  proof -
    have "P \<notin> reach ?K m1 C \<union> F2" using P C sub [OF i'] by (auto split: if_splits)
    then have "same_tables m1 m' {P}" using p(3) P(1) by blast
    moreover have "P \<noteq> T" using P(2) by auto
    ultimately show ?thesis using m1 [OF P(1)] P(2) by (simp add: same_tables_def)
  qed
  have walkC: "walk (Suc ?K) m' T w = walk ?K m' C w \<and> (mapped (Suc ?K) m' T w \<longleftrightarrow> mapped ?K m' C w)"
    if "idx (Suc ?K) w = i" for w
    using walk_nonleaf_entry [of ?K m' T w "m1 (slot T i)"] that E E' k by simp
  have hit: "walk (Suc ?K) m' T w = \<lparr>mp_entry = val, mp_pageSize = level_size (Suc c)\<rparr> \<and> mapped (Suc ?K) m' T w"
    if "\<forall>l \<in> {Suc c..Suc ?K}. idx l w = idx l v" for w
    using that walkC [of w] i post by (simp add: map_post_def del: mapped.simps)
  have miss: "walk (Suc ?K) m' T w = walk (Suc ?K) m T w \<and> mapped (Suc ?K) m' T w"
    if w: "\<exists>l \<in> {Suc c..Suc ?K}. idx l w \<noteq> idx l v" "mapped (Suc ?K) m T w" for w
  proof (cases "idx (Suc ?K) w = i")
    case True
    then obtain l where l: "l \<in> {Suc c..?K}" "idx l w \<noteq> idx l v"
      using w(1) i by (auto simp: le_Suc_eq)
    have "\<forall>w. (\<exists>l \<in> {Suc c..?K}. idx l w \<noteq> idx l v) \<longrightarrow> mapped ?K m1 C w \<longrightarrow>
        walk ?K m' C w = walk ?K m1 C w \<and> mapped ?K m' C w"
      using post unfolding map_post_def by (elim conjE)
    then have "walk ?K m' C w = walk ?K m1 C w \<and> mapped ?K m' C w"
      using w1 [OF True w(2)] l by blast
    then show ?thesis using walkC [OF True] w1 [OF True w(2)] by simp
  next
    case False
    then show ?thesis
      using w(2) other [OF idx_less] same [OF idx_less] k by (intro walk_entry_same) auto
  qed
  have free: "path_free (Suc j) c m' T w" if w: "path_free (Suc j) c m T w" for w
  proof (cases j)
    case (Suc j')
    show ?thesis
    proof (cases "idx (Suc ?K) w = i")
      case True
      have "path_free j c m' C w" using post pf [OF True w] by (simp add: map_post_def)
      then show ?thesis using True E E' Suc by (simp add: Let_def)
    next
      case False
      have e: "m' (slot T (idx (Suc ?K) w)) = m (slot T (idx (Suc ?K) w))"
        using other [OF idx_less False] .
      have "path_free j c m' (child (m (slot T (idx (Suc ?K) w)))) w"
        if "nonleaf (Suc ?K) (m (slot T (idx (Suc ?K) w)))" "path_free j c m (child (m (slot T (idx (Suc ?K) w)))) w"
        using same_tables_path_free [OF same [OF idx_less False that(1)] that(2)] .
      then show ?thesis using w e Suc by (auto simp: Let_def)
    qed
  qed simp
  show ?thesis
    using t frame hit miss free by (simp add: map_post_def del: tree.simps reach.simps mapped.simps path_free.simps)
qed

text \<open>A fresh intermediate table: the entry that points to it and its empty slots.\<close>

abbreviation table_entry :: "addr \<Rightarrow> u64" where
  "table_entry a \<equiv> PAGE_PRESENT VirtualPageMasks OR PAGE_WRITABLE VirtualPageMasks OR a"

lemma bit_aligned_page: "aligned_page a \<Longrightarrow> n < 12 \<Longrightarrow> \<not> bit a n"
proof -
  assume "aligned_page a" "n < 12"
  then have "a = a AND NOT (mask 12)"
    by (simp add: aligned_page_def ALIGN_DOWN_EXP_eq ALIGN_DOWN_VALUE_def PAGE_FRAME_SHIFT_def mask_eq_exp_minus_1)
  then have "bit a n \<longleftrightarrow> bit (a AND NOT (mask 12)) n" by simp
  then show ?thesis using \<open>n < 12\<close> by (simp add: bit_and_iff bit_not_iff bit_mask_iff)
qed

lemma bit_table_entry: "bit (table_entry a) n \<longleftrightarrow> n = 0 \<or> n = 1 \<or> bit a n"
  by (auto simp: VirtualPageMasks_def bit_or_iff bit_1_iff bit_push_bit_iff bit_2_iff)

lemma table_entry_props:
  assumes "aligned_page a"
  shows "child (table_entry a) = a" "table_entry a \<noteq> 0" "\<not> is_extended (table_entry a)"
proof -
  have m: "child e = e AND NOT (mask 12)" for e
    by (simp add: child_def ALIGN_DOWN_EXP_eq ALIGN_DOWN_VALUE_def PAGE_FRAME_SHIFT_def mask_eq_exp_minus_1)
  show "child (table_entry a) = a"
  proof (rule bit_word_eqI)
    fix n assume "n < LENGTH(64)"
    have "bit (child (table_entry a)) n \<longleftrightarrow> bit (table_entry a) n \<and> \<not> n < 12"
      using \<open>n < LENGTH(64)\<close> by (simp only: m bit_and_iff bit_not_iff bit_mask_iff) simp
    also have "\<dots> \<longleftrightarrow> bit a n"
      using bit_aligned_page [OF assms, of n] by (auto simp only: bit_table_entry)
    finally show "bit (child (table_entry a)) n \<longleftrightarrow> bit a n" .
  qed
  have "bit (table_entry a) 0" by (simp only: bit_table_entry) simp
  then show "table_entry a \<noteq> 0" by (metis bit_0_eq bot_apply bot_bool_def)
  have "\<not> bit (table_entry a) 7" using bit_aligned_page [OF assms, of 7] by (simp only: bit_table_entry) simp
  moreover have "PAGE_EXTENDED_SIZE VirtualPageMasks = 2 ^ 7" by (simp add: VirtualPageMasks_def)
  ultimately show "\<not> is_extended (table_entry a)"
    by (simp only: is_extended_def and_exp_eq_0_iff_not_bit) simp
qed

lemma nonleaf_zero [simp]: "\<not> nonleaf k 0"
  by (simp add: nonleaf_def)

lemma empty_table:
  assumes "\<And>n. n < 512 \<Longrightarrow> m (slot a n) = 0" "0 < k"
  shows "tree k m a" "reach k m a = {a}" "path_free k c m a v"
proof -
  show "tree k m a" "reach k m a = {a}" using assms by (cases k; auto)+
  show "path_free k c m a v" using assms idx_less by (cases "(k, c, m, a, v)" rule: path_free.cases) (auto simp: Let_def)
qed

section \<open>Page numbers\<close>

text \<open>The number of the page of an address among the pages of \<open>c\<close> levels below the leaf.\<close>

definition page_number :: "nat \<Rightarrow> u64 \<Rightarrow> nat" where
  "page_number c w = unat w mod 2 ^ 48 div 2 ^ (12 + 9 * c)"

lemma unat_level_size: "l \<le> 5 \<Longrightarrow> unat (level_size l) = 2 ^ (3 + 9 * l)"
  by (simp add: level_size_def unat_power_of_two del: power_add)

lemma unat_idx:
  assumes "l \<le> 4"
  shows "unat (idx l w) = unat w div 2 ^ (3 + 9 * l) mod 512"
proof -
  have "unat (idx l w) = unat (w div level_size l) mod 2 ^ 9"
    using unat_RING_RANGE_VALUE [of "w div level_size l" 9] by (simp add: idx_def layout_defs)
  then show ?thesis using assms unat_level_size [of l] by (simp add: unat_div_distrib)
qed

lemma idx_page_number:
  assumes "l \<le> 3"
  shows "unat (idx (Suc l) w) = page_number l w mod 512"
proof -
  have e: "(2 :: nat) ^ 48 = 2 ^ (12 + 9 * l) * 2 ^ (36 - 9 * l)"
    using assms by (simp flip: power_add)
  have "page_number l w = unat w div 2 ^ (12 + 9 * l) mod 2 ^ (36 - 9 * l)"
    unfolding page_number_def e by (simp add: mod_mult2_eq)
  moreover have "(512 :: nat) dvd 2 ^ (36 - 9 * l)"
    using assms le_imp_power_dvd [of 9 "36 - 9 * l" "2 :: nat"] by simp
  ultimately have "page_number l w mod 512 = unat w div 2 ^ (12 + 9 * l) mod 512"
    by (simp add: mod_mod_cancel)
  then show ?thesis using assms unat_idx [of "Suc l" w] by simp
qed

lemma page_number_Suc: "page_number (Suc l) w = page_number l w div 512"
proof -
  have "(2 :: nat) ^ (12 + 9 * Suc l) = 2 ^ (12 + 9 * l) * 512" by (simp add: power_add)
  then show ?thesis unfolding page_number_def by (simp only: div_mult2_eq)
qed

lemma page_number_top: "page_number 4 w = 0"
  by (simp add: page_number_def)

lemma same_indices_iff:
  assumes "c \<le> 3"
  shows "(\<forall>l \<in> {Suc c..4}. idx l w = idx l v) \<longleftrightarrow> page_number c w = page_number c v"
proof -
  have "(\<forall>l \<in> {Suc (4 - d)..4}. idx l w = idx l v) \<longleftrightarrow> page_number (4 - d) w = page_number (4 - d) v"
    if "d \<le> 4" for d
    using that
  proof (induction d)
    case 0 then show ?case by (simp add: page_number_top)
  next
    case (Suc d)
    let ?l = "4 - Suc d"
    have l: "Suc ?l = 4 - d" "?l \<le> 3" using Suc.prems by simp_all
    have split: "{Suc ?l..4} = insert (Suc ?l) {Suc (4 - d)..4}" using l Suc.prems by auto
    have "idx (Suc ?l) w = idx (Suc ?l) v \<longleftrightarrow> page_number ?l w mod 512 = page_number ?l v mod 512"
      using idx_page_number [OF l(2)] by (simp add: word_unat_eq_iff)
    moreover have "page_number (4 - d) w = page_number (4 - d) v \<longleftrightarrow> page_number ?l w div 512 = page_number ?l v div 512"
      using page_number_Suc [of ?l] l(1) by simp
    moreover have "page_number ?l w = page_number ?l v \<longleftrightarrow>
        page_number ?l w mod 512 = page_number ?l v mod 512 \<and> page_number ?l w div 512 = page_number ?l v div 512"
      by (metis div_mult_mod_eq)
    ultimately show ?case unfolding split using Suc by auto
  qed
  from this [of "4 - c"] assms show ?thesis by simp
qed

lemma add_below_48:
  assumes "unat (v :: u64) mod 2 ^ 48 + d < 2 ^ 48"
  shows "unat v + d < 2 ^ 64"
proof -
  have "unat v div 281474976710656 * 281474976710656 + unat v mod 281474976710656 = unat v" by (rule div_mult_mod_eq)
  moreover have "unat v div 281474976710656 < 65536"
    using unat_lt_u64 [of v] by (simp add: less_mult_imp_div_less)
  moreover have "unat v mod 281474976710656 + d < 281474976710656" using assms by simp
  ultimately have "unat v + d < 18446744073709551616" by linarith
  then show ?thesis by simp
qed

lemma region_end_above:
  assumes "c \<le> 2" "unat v mod 2 ^ 48 + n * 2 ^ (12 + 9 * c) < 2 ^ 48" "0 < n"
  shows "v < v + of_nat n * level_size (Suc c)"
proof -
  let ?S = "(2 :: nat) ^ (12 + 9 * c)"
  have s: "unat (level_size (Suc c)) = ?S" using assms(1) unat_level_size [of "Suc c"] by simp
  have "unat v + n * ?S < 2 ^ 64" by (rule add_below_48 [OF assms(2)])
  moreover have "n \<le> n * ?S" by simp
  ultimately have "n < 2 ^ 64" "n * ?S < 2 ^ 64" by linarith+
  then have "unat (of_nat n * level_size (Suc c)) = n * ?S"
    by (simp add: unat_mult_nowrap unat_of_nat_lt s)
  then have "unat (v + of_nat n * level_size (Suc c)) = unat v + n * ?S"
    using \<open>unat v + n * ?S < 2 ^ 64\<close> by (simp add: unat_add_nowrap)
  then show ?thesis using assms(3) by (simp add: word_less_nat_alt)
qed

lemma page_number_step:
  assumes "c \<le> 2" "unat v mod 2 ^ 48 + 2 ^ (12 + 9 * c) < 2 ^ 48"
  shows "page_number c (v + level_size (Suc c)) = page_number c v + 1"
    "unat (v + level_size (Suc c)) = unat v + 2 ^ (12 + 9 * c)"
    "unat (v + level_size (Suc c)) mod 2 ^ 48 = unat v mod 2 ^ 48 + 2 ^ (12 + 9 * c)"
proof -
  have s: "unat (level_size (Suc c)) = 2 ^ (12 + 9 * c)" using assms(1) unat_level_size [of "Suc c"] by simp
  have "unat v + 2 ^ (12 + 9 * c) < 2 ^ 64" by (rule add_below_48 [OF assms(2)])
  then show u: "unat (v + level_size (Suc c)) = unat v + 2 ^ (12 + 9 * c)" by (simp add: unat_add_nowrap s)
  then show md: "unat (v + level_size (Suc c)) mod 2 ^ 48 = unat v mod 2 ^ 48 + 2 ^ (12 + 9 * c)"
    using assms(2) mod_less [OF assms(2)] by (metis mod_add_left_eq)
  show "page_number c (v + level_size (Suc c)) = page_number c v + 1"
    unfolding page_number_def md by (subst div_add_self2) simp_all
qed

definition region_post :: "nat \<Rightarrow> nat \<Rightarrow> u64 \<Rightarrow> u64 \<Rightarrow> u64 \<Rightarrow> addr \<Rightarrow> ptmem \<Rightarrow> ptmem \<Rightarrow> bool" where
  "region_post c n virt physical flags L m m' \<longleftrightarrow>
     (\<forall>w q. q < n \<longrightarrow> page_number c w = page_number c virt + q \<longrightarrow>
        walk 4 m' L w = \<lparr>mp_entry = leaf_value (level_size (Suc c)) (physical + of_nat q * level_size (Suc c)) flags,
                       mp_pageSize = level_size (Suc c)\<rparr> \<and> mapped 4 m' L w) \<and>
     (\<forall>w. mapped 4 m L w \<longrightarrow> (\<forall>q < n. page_number c w \<noteq> page_number c virt + q) \<longrightarrow>
        walk 4 m' L w = walk 4 m L w \<and> mapped 4 m' L w)"

lemma region_post_Cons:
  assumes "region_post c 1 virt physical flags L m m1"
    "region_post c n (virt + level_size (Suc c)) (physical + level_size (Suc c)) flags L m1 m'"
    "page_number c (virt + level_size (Suc c)) = page_number c virt + 1"
  shows "region_post c (Suc n) virt physical flags L m m'"
proof -
  note one = assms(1) [unfolded region_post_def] and rest = assms(2) [unfolded region_post_def assms(3)]
  let ?p = "level_size (Suc c)"
  have "walk 4 m' L w = \<lparr>mp_entry = leaf_value ?p (physical + of_nat q * ?p) flags, mp_pageSize = ?p\<rparr> \<and> mapped 4 m' L w"
    if q: "q < Suc n" "page_number c w = page_number c virt + q" for w q
  proof (cases q)
    case 0
    then have "walk 4 m1 L w = \<lparr>mp_entry = leaf_value ?p physical flags, mp_pageSize = ?p\<rparr>" "mapped 4 m1 L w"
      using one q by auto
    then show ?thesis using rest q 0 by auto
  next
    case (Suc q')
    then have "walk 4 m' L w = \<lparr>mp_entry = leaf_value ?p (physical + ?p + of_nat q' * ?p) flags, mp_pageSize = ?p\<rparr> \<and>
        mapped 4 m' L w"
      using rest q by auto
    then show ?thesis using Suc by (simp add: algebra_simps)
  qed
  moreover have "walk 4 m' L w = walk 4 m L w \<and> mapped 4 m' L w"
    if w: "mapped 4 m L w" "\<forall>q < Suc n. page_number c w \<noteq> page_number c virt + q" for w
  proof -
    have "walk 4 m1 L w = walk 4 m L w \<and> mapped 4 m1 L w" using one w by auto
    moreover have "page_number c w \<noteq> page_number c virt + 1 + q" if "q < n" for q
      using w(2) that by (metis Suc_less_eq add.assoc plus_1_eq_Suc)
    ultimately show ?thesis using rest by auto
  qed
  ultimately show ?thesis unfolding region_post_def by blast
qed

lemma leaf_value_props:
  assumes "c \<le> 2"
  shows "\<not> nonleaf (Suc c) (leaf_value (level_size (Suc c)) physical flags)"
    "leaf_value (level_size (Suc c)) physical flags \<noteq> 0"
proof -
  let ?v = "leaf_value (level_size (Suc c)) physical flags"
  have c: "c \<in> {0, 1, 2}" using assms by auto
  have "bit ?v 0" by (simp add: leaf_value_def Let_def VirtualPageMasks_def bit_or_iff)
  then show "?v \<noteq> 0" by (metis bit_0_eq bot_apply bot_bool_def)
  have "is_extended ?v" if "c \<noteq> 0"
  proof -
    have "level_size (Suc c) = HUGE_PAGE \<or> level_size (Suc c) = LARGE_PAGE"
      using that c level_size_values by (auto simp: numeral_2_eq_2 numeral_3_eq_3)
    then have "bit ?v 7" by (auto simp: leaf_value_def Let_def VirtualPageMasks_def bit_or_iff)
    moreover have "PAGE_EXTENDED_SIZE VirtualPageMasks = 2 ^ 7" by (simp add: VirtualPageMasks_def)
    ultimately show ?thesis by (simp only: is_extended_def and_exp_eq_0_iff_not_bit) simp
  qed
  then show "\<not> nonleaf (Suc c) ?v" using c by (auto simp: nonleaf_def)
qed

lemma pageSizeToDepth_level: "c \<le> 2 \<Longrightarrow> pageSizeToDepth (level_size (Suc c)) = 4 - c"
proof -
  assume "c \<le> 2"
  then have "c = 0 \<or> c = 1 \<or> c = 2" by auto
  then show ?thesis by (elim disjE) (simp_all add: pageSizeToDepth_def level_size_def layout_defs)
qed

section \<open>The page allocator interface\<close>

text \<open>
  \<open>pages s\<close> are the pages the allocator may still hand out, \<open>ready n s\<close> says that it can be called
  \<open>n\<close> more times. A page handed out is aligned and never handed out again.
\<close>

locale page_source =
  fixes alloc :: "'s \<Rightarrow> 'e + (addr \<times> 's)"
    and pages :: "'s \<Rightarrow> addr set"
    and ready :: "nat \<Rightarrow> 's \<Rightarrow> bool"
  assumes alloc_law: "ready (Suc n) s \<Longrightarrow> alloc s = Inr (a, s') \<Longrightarrow>
      ready n s' \<and> a \<in> pages s \<and> a \<notin> pages s' \<and> pages s' \<subseteq> pages s \<and> aligned_page a"
    and ready_less: "ready (Suc n) s \<Longrightarrow> ready n s"
begin

lemma ready_le: "ready n s \<Longrightarrow> k \<le> n \<Longrightarrow> ready k s"
  by (induction n) (auto simp: le_Suc_eq dest: ready_less)

lemma map_levels_spec:
  assumes "0 < j" "j + c \<le> 4" "c \<le> 2" "aligned_page T" "tree (j + c) m T" "reach (j + c) m T \<inter> pages s = {}"
    "ready (n + j) s" "path_free j c m T v" "\<not> nonleaf (Suc c) val" "val \<noteq> 0"
  shows "(\<exists>e. map_levels alloc j T (level_size (j + c)) v val (m, s) = Inl (AllocFailed e)) \<or>
    (\<exists>m' s'. map_levels alloc j T (level_size (j + c)) v val (m, s) = Inr (m', s') \<and>
       map_post c j m T v val (pages s - pages s') m' \<and> pages s' \<subseteq> pages s \<and> ready n s')"
  using assms
proof (induction j arbitrary: T m s n)
  case (Suc j)
  show ?case
  proof (cases j)
    case 0
    then show ?thesis
      using Suc.prems map_post_leaf [of c T m val v] ready_le [of "n + 1" s n]
      by (simp add: entry_address_slot)
  next
    case j: (Suc j')
    let ?K = "j + c"
    let ?i = "idx (Suc ?K) v"
    let ?e = "m (slot T ?i)"
    have lv: "level_size (Suc ?K) div ENTRIES = level_size ?K" using Suc.prems by (intro level_size_div) simp
    have K: "Suc ?K \<le> 4" "0 < j" using Suc.prems j by simp_all
    have T: "aligned_page T" "tree (Suc ?K) m T" "reach (Suc ?K) m T \<inter> pages s = {}" using Suc.prems by simp_all
    show ?thesis
    proof (cases "?e = 0")
      case False
      then have nl: "nonleaf (Suc ?K) ?e" "path_free j c m (child ?e) v" using Suc.prems(8) j by (simp_all add: Let_def)
      note ch = tree_child [OF T(2) idx_less nl(1)]
      have st: "map_levels alloc (Suc j) T (level_size (Suc ?K)) v val (m, s) =
          map_levels alloc j (child ?e) (level_size ?K) v val (m, s)"
        using False j lv by (simp add: entry_address_slot child_def Let_def)
      have "(\<exists>e. map_levels alloc j (child ?e) (level_size ?K) v val (m, s) = Inl (AllocFailed e)) \<or>
          (\<exists>m' s'. map_levels alloc j (child ?e) (level_size ?K) v val (m, s) = Inr (m', s') \<and>
             map_post c j m (child ?e) v val (pages s - pages s') m' \<and> pages s' \<subseteq> pages s \<and> ready n s')"
        using Suc.prems nl ch T(3) K ready_le [of "n + Suc j" s "n + j"] aligned_child
        by (intro Suc.IH) (auto simp del: reach.simps)
      moreover have pf: "path_free j c m (child ?e) w" if "idx (Suc ?K) w = ?i" "path_free (Suc j) c m T w" for w
        using that nl(1) j False by (simp add: Let_def)
      moreover have "map_post c (Suc j) m T v val (pages s - pages s') m'"
        if "map_post c j m (child ?e) v val (pages s - pages s') m'" for m' s'
        using map_post_step [of j c T m ?i v "{}" m "child ?e" "pages s - pages s'" val m']
          that K T nl walk_nonleaf_entry [of ?K m T _ ?e] pf
        by (auto simp del: reach.simps tree.simps mapped.simps path_free.simps)
      ultimately show ?thesis using st by auto
    next
      case True
      show ?thesis
      proof (cases "alloc s")
        case (Inl e)
        then show ?thesis
          using True j by (simp add: entry_address_slot Let_def getZeroBasePage_def)
      next
        case (Inr as)
        obtain a s1 where as: "as = (a, s1)" by (cases as)
        define M where "M = (zero_page m a)(slot T ?i := table_entry a)"
        have a: "ready (n + j) s1" "a \<in> pages s" "a \<notin> pages s1" "pages s1 \<subseteq> pages s" "aligned_page a"
          using alloc_law [of "n + j" s a s1] Suc.prems(7) Inr as by simp_all
        have aT: "a \<noteq> T" using a(2) T(3) by auto
        have m1: "M (slot P q) = m (slot P q)"
          if "aligned_page P" "q < 512" "P \<notin> pages s - pages s1" "P \<noteq> T \<or> q \<noteq> ?i" for P q
          using that a zero_page_slot [OF that(1) a(5) that(2), of m] slot_inj [OF that(1) T(1) that(2) idx_less]
          by (auto simp: M_def)
        have za: "M (slot a q) = 0" if "q < 512" for q
          using that aT zero_page_slot [OF a(5,5) that, of m] slot_inj [OF a(5) T(1) that idx_less] by (auto simp: M_def)
        note te = table_entry_props [OF a(5)]
        have K0: "0 < ?K" using K(2) by simp
        note em = empty_table(1,2) [of M a, OF za K0] empty_table(3) [of M a, OF za K(2)]
        have E: "M (slot T ?i) = table_entry a" by (simp add: M_def)
        have st: "map_levels alloc (Suc j) T (level_size (Suc ?K)) v val (m, s) =
            map_levels alloc j a (level_size ?K) v val (M, s1)"
          using True j lv Inr as te(1) by (simp add: entry_address_slot child_def Let_def getZeroBasePage_def M_def)
        have "(\<exists>e. map_levels alloc j a (level_size ?K) v val (M, s1) = Inl (AllocFailed e)) \<or>
            (\<exists>m' s'. map_levels alloc j a (level_size ?K) v val (M, s1) = Inr (m', s') \<and>
               map_post c j M a v val (pages s1 - pages s') m' \<and> pages s' \<subseteq> pages s1 \<and> ready n s')"
          using Suc.prems(2,3,9,10) K em a by (intro Suc.IH) auto
        moreover have "map_post c (Suc j) m T v val (pages s - pages s') m'"
          if post: "map_post c j M a v val (pages s1 - pages s') m'" "pages s' \<subseteq> pages s1" for m' s'
        proof -
          have F: "pages s - pages s' = (pages s - pages s1) \<union> (pages s1 - pages s')" using a(4) post(2) by blast
          have nl: "nonleaf (Suc ?K) (table_entry a)" using te K0 by (simp add: nonleaf_def)
          show ?thesis
            unfolding F
          proof (rule map_post_step [OF K(1) T(1,2) refl, where ?m1.0 = M and C = a])
            show "M (slot P q) = m (slot P q)"
              if "aligned_page P" "q < 512" "P \<notin> pages s - pages s1" "P \<noteq> T \<or> q \<noteq> ?i" for P q
              using m1 [OF that] .
            show "nonleaf (Suc ?K) (M (slot T ?i))" "a = child (M (slot T ?i))" using nl te(1) by (simp_all add: E)
            show "reach ?K M a \<subseteq> pages s - pages s1 \<union>
                (if nonleaf (Suc ?K) ?e then reach ?K m (child ?e) else {})" using em(2) a by simp
            show "(pages s - pages s1 \<union> (pages s1 - pages s')) \<inter> reach (Suc ?K) m T = {}"
              using T(3) a(4) by (auto simp del: reach.simps)
            show "walk (Suc ?K) m T w = walk ?K M a w \<and> mapped ?K M a w"
              if "idx (Suc ?K) w = ?i" "mapped (Suc ?K) m T w" for w
              using that True by simp
            show "path_free j c M a w" for w by (rule em(3))
          qed (rule post(1))
        qed
        ultimately show ?thesis using st a(4) by auto
      qed
    qed
  qed
qed simp

lemma map_loop_spec:
  assumes "c \<le> 2" "aligned_page L" "tree 4 m L" "reach 4 m L \<inter> pages s = {}" "ready (k + 4 * n) s"
    "unat virt mod 2 ^ 48 + n * 2 ^ (12 + 9 * c) < 2 ^ 48"
    "\<And>w q. q < n \<Longrightarrow> page_number c w = page_number c virt + q \<Longrightarrow> path_free (4 - c) c m L w" "n < fuel"
  shows "(\<exists>e. map_loop fuel alloc L (level_size (Suc c)) flags (virt + of_nat n * level_size (Suc c)) virt physical (m, s) =
            Inl (AllocFailed e)) \<or>
    (\<exists>m' s'. map_loop fuel alloc L (level_size (Suc c)) flags (virt + of_nat n * level_size (Suc c)) virt physical (m, s) =
            Inr (m', s') \<and>
       region_post c n virt physical flags L m m' \<and> tree 4 m' L \<and> reach 4 m' L \<inter> pages s' = {} \<and>
       pages s' \<subseteq> pages s \<and> ready k s')"
  using assms(2-8)
proof (induction n arbitrary: m s virt physical fuel)
  case 0
  then show ?case by (cases fuel) (auto simp: region_post_def)
next
  case (Suc n)
  let ?p = "level_size (Suc c)" and ?val = "leaf_value (level_size (Suc c)) physical flags"
  obtain f where f: "fuel = Suc f" "n < f" using Suc.prems(7) by (cases fuel) auto
  have less: "unat virt mod 2 ^ 48 + 2 ^ (12 + 9 * c) < 2 ^ 48" using Suc.prems(5) by simp
  note step = page_number_step [OF assms(1) less]
  have lt: "virt < virt + of_nat (Suc n) * ?p"
    using region_end_above [OF assms(1) Suc.prems(5)] by simp
  have c4: "4 - c + c = 4" using assms(1) by simp
  have pf: "path_free (4 - c) c m L virt" using Suc.prems(6) [of 0 virt] by simp
  have one: "(\<exists>e. map_levels alloc (4 - c) L JUMBO_PAGE_SIZE virt ?val (m, s) = Inl (AllocFailed e)) \<or>
    (\<exists>m1 s1. map_levels alloc (4 - c) L JUMBO_PAGE_SIZE virt ?val (m, s) = Inr (m1, s1) \<and>
       map_post c (4 - c) m L virt ?val (pages s - pages s1) m1 \<and> pages s1 \<subseteq> pages s \<and> ready (k + 4 * n) s1)"
    using map_levels_spec [of "4 - c" c L m s "k + 4 * n" virt ?val] assms(1) Suc.prems(1-4) pf c4 leaf_value_props [OF assms(1)]
      ready_le [of "k + 4 * Suc n" s "k + 4 * n + (4 - c)"] level_size_values(4)
    by simp
  show ?case
  proof (cases "\<exists>e. map_levels alloc (4 - c) L JUMBO_PAGE_SIZE virt ?val (m, s) = Inl (AllocFailed e)")
    case True
    then show ?thesis using f lt pageSizeToDepth_level [OF assms(1)] by auto
  next
    case False
    then obtain m1 s1 where m1: "map_levels alloc (4 - c) L JUMBO_PAGE_SIZE virt ?val (m, s) = Inr (m1, s1)"
       "map_post c (4 - c) m L virt ?val (pages s - pages s1) m1" "pages s1 \<subseteq> pages s" "ready (k + 4 * n) s1"
      using one by blast
    note post = m1(2) [unfolded map_post_def c4]
    have r1: "region_post c 1 virt physical flags L m m1"
      using post same_indices_iff [of c _ virt] assms(1) by (simp add: region_post_def) blast
    have st: "map_loop fuel alloc L ?p flags (virt + of_nat (Suc n) * ?p) virt physical (m, s) =
        map_loop f alloc L ?p flags (virt + ?p + of_nat n * ?p) (virt + ?p) (physical + ?p) (m1, s1)"
      using f lt m1(1) pageSizeToDepth_level [OF assms(1)] by (simp add: algebra_simps)
    have "(\<exists>e. map_loop f alloc L ?p flags (virt + ?p + of_nat n * ?p) (virt + ?p) (physical + ?p) (m1, s1) = Inl (AllocFailed e)) \<or>
      (\<exists>m' s'. map_loop f alloc L ?p flags (virt + ?p + of_nat n * ?p) (virt + ?p) (physical + ?p) (m1, s1) = Inr (m', s') \<and>
         region_post c n (virt + ?p) (physical + ?p) flags L m1 m' \<and> tree 4 m' L \<and> reach 4 m' L \<inter> pages s' = {} \<and>
         pages s' \<subseteq> pages s1 \<and> ready k s')"
    proof (rule Suc.IH)
      show "tree 4 m1 L" using post by blast
      show "reach 4 m1 L \<inter> pages s1 = {}" using post Suc.prems(3) m1(3) by blast
      show "unat (virt + ?p) mod 2 ^ 48 + n * 2 ^ (12 + 9 * c) < 2 ^ 48" using step(3) Suc.prems(5) by simp
      show "path_free (4 - c) c m1 L w" if "q < n" "page_number c w = page_number c (virt + ?p) + q" for w q
        using Suc.prems(6) [of "Suc q" w] that step(1) post by auto
    qed (use Suc.prems m1 f in auto)
    then show ?thesis
      using st region_post_Cons [OF r1 _ step(1)] m1(3) by auto
  qed
qed

end


section \<open>The kernel's physical memory manager as page source\<close>

definition pmm_pages :: "PMMState \<Rightarrow> addr set" where
  "pmm_pages s = {a. aligned_page a \<and> 0 < free_count s (unat a)}"

definition pmm_ready :: "nat \<Rightarrow> PMMState \<Rightarrow> bool" where
  "pmm_ready n s \<longleftrightarrow> state_wf s \<and> (\<forall>x. free_count s x \<le> 1) \<and>
     length (memory_entries (basePMM s)) + n \<le> unat (memory_cap (basePMM s)) \<and>
     length (memory_entries (largePMM s)) + n \<le> unat (memory_cap (largePMM s))"

lemma can_pushI:
  assumes "length (memory_entries (get_manager ref s)) < unat (memory_cap (get_manager ref s))"
  shows "can_push ref s"
proof -
  have "length (memory_entries (get_manager ref s)) < 2 ^ 64"
    using assms unat_lt_u64 [of "memory_cap (get_manager ref s)"] by simp
  then show ?thesis using assms by (simp add: can_push_def word_le_nat_alt unat_of_nat_lt)
qed

interpretation pmm: page_source "allocate4KiBPage 3 1" pmm_pages pmm_ready
proof
  fix n s a s'
  assume r: "pmm_ready (Suc n) s" and al: "allocate4KiBPage 3 1 s = Inr (a, s')"
  have "can_push BasePMM s" "can_push LargePMM s" "state_wf s"
    using r by (auto simp: pmm_ready_def intro: can_pushI)
  then have "alloc_post BasePMM 1 s (allocContiguousPhysicalPagesWithManager 3 1 BasePMM s)"
    by (intro alloc_correct) simp_all
  moreover have "allocContiguousPhysicalPagesWithManager 3 1 BasePMM s = Inr (a, s')"
    using al set_manager_pageSizes [of BasePMM] by (simp add: allocate4KiBPage_def allocContiguousPhysicalPages_def)
  ultimately have post: "state_wf s'" "wf_entry BASE_PAGE \<lparr>pageStart = a, numberOfPages = 1\<rparr>"
      "\<And>x. free_count s x = free_count s' x + of_bool (covers BASE_PAGE \<lparr>pageStart = a, numberOfPages = 1\<rparr> x)"
      "\<And>r. length (memory_entries (get_manager r s')) \<le> length (memory_entries (get_manager r s)) + 1 \<and>
             memory_cap (get_manager r s') = memory_cap (get_manager r s)"
    by (simp_all add: alloc_post_def)
  have c: "covers BASE_PAGE \<lparr>pageStart = a, numberOfPages = 1\<rparr> (unat a)" by (simp add: covers_def layout_defs)
  have le: "free_count s' x \<le> free_count s x" for x using post(3) [of x] by simp
  have "pmm_ready n s'"
    using r post(1) post(4) [of BasePMM] post(4) [of LargePMM] order_trans [OF le] by (auto simp: pmm_ready_def)
  moreover have "free_count s (unat a) = free_count s' (unat a) + 1" using post(3) [of "unat a"] c by simp
  moreover have "free_count s (unat a) \<le> 1" using r by (simp add: pmm_ready_def)
  moreover have "aligned_page a" using post(2) by (simp add: wf_entry_def aligned_page_iff)
  ultimately show "pmm_ready n s' \<and> a \<in> pmm_pages s \<and> a \<notin> pmm_pages s' \<and> pmm_pages s' \<subseteq> pmm_pages s \<and> aligned_page a"
    using le by (auto simp: pmm_pages_def intro: less_le_trans)
qed (auto simp: pmm_ready_def)

text \<open>
  C2. \<^verbatim>\<open>mapVirtualRegionWithFlags\<close> over the kernel's page allocator: from a page table without
  shared tables whose pages the allocator does not own, and with no larger page in the way, the
  call either fails because no page for an intermediate table is left, or afterwards
  \<^verbatim>\<open>getMappedPage\<close> finds for every address of the region the entry for the right physical page with
  the right page size, finds for every other mapped address what it found before, and the tables
  still form a tree the allocator does not own.
\<close>

theorem mapVirtualRegion_correct:
  assumes "c \<le> 2" "pageSize = level_size (Suc c)" "aligned_page L" "L \<noteq> 0" "tree 4 m L" "reach 4 m L \<inter> pmm_pages s = {}"
    "pmm_ready (4 * unat n) s" "drop_bit 48 virt = 0 \<or> drop_bit 48 virt = 0xFFFF"
    "RING_RANGE_VALUE virt pageSize = 0" "RING_RANGE_VALUE physical pageSize = 0"
    "unat virt mod 2 ^ 48 + unat n * unat pageSize < 2 ^ 48" "unat n < fuel"
    "\<And>w q. q < unat n \<Longrightarrow> page_number c w = page_number c virt + q \<Longrightarrow> path_free (4 - c) c m L w"
  shows "case mapVirtualRegionWithFlags fuel (allocate4KiBPage 3 1) L virt
              \<lparr>pageStart = physical, numberOfPages = n\<rparr> pageSize flags (m, s) of
      Inl err \<Rightarrow> \<exists>e. err = AllocFailed e
    | Inr (m', s') \<Rightarrow>
        (\<forall>w q. q < unat n \<longrightarrow> page_number c w = page_number c virt + q \<longrightarrow> getMappedPage L m' w =
           \<lparr>mp_entry = leaf_value pageSize (physical + of_nat q * pageSize) flags, mp_pageSize = pageSize\<rparr>) \<and>
        (\<forall>w. mapped 4 m L w \<longrightarrow> (\<forall>q < unat n. page_number c w \<noteq> page_number c virt + q) \<longrightarrow>
           getMappedPage L m' w = getMappedPage L m w) \<and>
        tree 4 m' L \<and> reach 4 m' L \<inter> pmm_pages s' = {}"
proof -
  have "isValidPageSizeForArch pageSize"
    using assms(1,2) level_size_values
    by (auto simp: isValidPageSizeForArch_def pageSizes_def le_Suc_eq numeral_2_eq_2 numeral_3_eq_3)
  moreover have "unat pageSize = 2 ^ (12 + 9 * c)" using assms(1,2) unat_level_size [of "Suc c"] by simp
  moreover have "virt + pageSize * n = virt + of_nat (unat n) * pageSize" by simp
  ultimately have "mapVirtualRegionWithFlags fuel (allocate4KiBPage 3 1) L virt \<lparr>pageStart = physical, numberOfPages = n\<rparr>
      pageSize flags (m, s) = map_loop fuel (allocate4KiBPage 3 1) L pageSize flags (virt + of_nat (unat n) * pageSize)
        virt physical (m, s)"
    using assms(4,8-10) by (simp add: mapVirtualRegionWithFlags_def mult.commute [of n])
  then show ?thesis
    using pmm.map_loop_spec [of c L m s 0 "unat n" virt fuel flags physical] assms \<open>unat pageSize = 2 ^ (12 + 9 * c)\<close>
    by (auto simp: region_post_def getMappedPage_walk)
qed

theorem mapVirtualRegion_correct_witness:
  "case mapVirtualRegionWithFlags 2 (allocate4KiBPage 3 1) 0x1000 0xffff800000000000
        \<lparr>pageStart = 0x5000, numberOfPages = 1\<rparr> BASE_PAGE 0 (\<lambda>_. 0, sample_state) of
      Inl err \<Rightarrow> \<exists>e. err = AllocFailed e
    | Inr (m', s') \<Rightarrow> getMappedPage 0x1000 m' 0xffff800000000123 =
        \<lparr>mp_entry = leaf_value BASE_PAGE 0x5000 0, mp_pageSize = BASE_PAGE\<rparr>"
proof -
  have z: "tree 4 (\<lambda>_. 0) L" "reach 4 (\<lambda>_. 0) L = {L}" "path_free 4 c (\<lambda>_. 0) L w" for L c w
    using empty_table [of "\<lambda>_. 0" L 4] by simp_all
  have "free_count sample_state x \<le> 1" for x
    by (simp add: free_count_def sample_state_def empty_manager_def covers_def layout_defs)
  then have "pmm_ready 4 sample_state" "0x1000 \<notin> pmm_pages sample_state"
    using sample_state_ok(1)
    by (simp_all add: pmm_ready_def pmm_pages_def) (simp_all add: free_count_def sample_state_def empty_manager_def covers_def layout_defs)
  moreover have "aligned_page 0x1000" by (simp add: aligned_page_iff)
  moreover have "BASE_PAGE = level_size (Suc 0)" using level_size_values(1) by simp
  moreover have "drop_bit 48 0xffff800000000000 = (0xFFFF :: u64)" by (rule word_eq_unatI) (simp add: unat_drop_bit)
  moreover have "page_number 0 0xffff800000000123 = page_number 0 0xffff800000000000" by (simp add: page_number_def)
  ultimately show ?thesis
    using mapVirtualRegion_correct [of 0 BASE_PAGE "0x1000" "\<lambda>_. 0" sample_state 1 "0xffff800000000000" "0x5000" 2 0] z
    by (auto simp: RING_RANGE_VALUE_def layout_defs split: sum.splits)
qed

end
