(* ===== verification/Policy.thy ===== *)
theory Policy
  imports Virtual
begin

text \<open>
  The memory policy of the kernel, \<^verbatim>\<open>x86/memory/policy\<close>: handing out virtual address ranges of the
  higher half, allocating physical pages and mapping them, and giving mapped memory back. Model-specific
  registers are a map from register number to value; flushing caches and the TLB has no effect on the
  state of the model.
\<close>

section \<open>State\<close>

definition LOWER_HALF_END :: u64 where "LOWER_HALF_END = 0x0000FFFFFFFFFFFF"
definition HIGHER_HALF_START :: u64 where "HIGHER_HALF_START = 0xffff800000000000"
definition KERNEL_SPACE_START :: u64 where "KERNEL_SPACE_START = 0xfffffffff8000000"
definition KERNEL_SPACE_END :: u64 where "KERNEL_SPACE_END = 0xfffffffffffff000"
definition KERNEL_CODE_START :: u64 where "KERNEL_CODE_START = KERNEL_SPACE_START"
definition KERNEL_PARAMS_SIZE :: u64 where "KERNEL_PARAMS_SIZE = push_bit 12 1"
definition KERNEL_PARAMS_START :: u64 where "KERNEL_PARAMS_START = KERNEL_SPACE_END - KERNEL_PARAMS_SIZE"
definition STACK_SIZE :: u64 where "STACK_SIZE = push_bit 14 1"
definition BOTTOM_STACK :: u64 where "BOTTOM_STACK = KERNEL_PARAMS_START - STACK_SIZE"

record KernelState =
  ks_pmm :: PMMState
  ks_tables :: ptmem
  level4PageTable :: addr
  higherHalfRegion :: VirtualRegion
  lowerHalfRegion :: VirtualRegion
  ks_msr :: "u32 \<Rightarrow> u64"

definition initial_regions :: "KernelState \<Rightarrow> KernelState" where
  "initial_regions s = s\<lparr>higherHalfRegion := \<lparr>region_start = HIGHER_HALF_START, region_end = KERNEL_SPACE_START\<rparr>,
     lowerHalfRegion := \<lparr>region_start = 0, region_end = LOWER_HALF_END\<rparr>\<rparr>"

datatype PolicyError = PhysicalError PMMError | MappingError "PMMError map_error" | TooLargeAllocation
  | PolicyAssertFailed | NoPageSize | PolicyOutOfFuel

section \<open>Virtual ranges\<close>

definition getVirtualMemory :: "u64 \<Rightarrow> PageSize \<Rightarrow> KernelState \<Rightarrow> PolicyError + (u64 \<times> KernelState)" where
  "getVirtualMemory sz alignValue s =
     (let r = higherHalfRegion s;
          alignedUpValue = ALIGN_UP_VALUE (region_start r) alignValue in
      if sz \<le> JUMBO_PAGE_SIZE \<and> region_start r \<le> alignedUpValue \<and> alignedUpValue \<le> region_end r \<and>
         region_end r - (alignedUpValue + sz) < region_start r
      then Inr (alignedUpValue, s\<lparr>higherHalfRegion := r\<lparr>region_start := alignedUpValue + sz\<rparr>\<rparr>)
      else Inl PolicyAssertFailed)"

definition programPat :: "KernelState \<Rightarrow> KernelState" where
  "programPat s = s\<lparr>ks_msr := (ks_msr s)(PAT_LOCATION := set_pat (ks_msr s PAT_LOCATION) 3 PAT_WRITE_COMBINGING_WC)\<rparr>"

primrec highest_address :: "MemoryDescriptor list \<Rightarrow> u64 \<Rightarrow> u64" where
  "highest_address [] current = current"
| "highest_address (d # ds) current =
     (let h = md_virtualStart d + md_numberOfPages d * PAGE_FRAME_SIZE in
      highest_address ds (if h > current then h else current))"

text \<open>The control register \<^verbatim>\<open>CR3\<close> is an argument.\<close>

definition initVirtualMemoryManager :: "u64 \<Rightarrow> KernelMemory \<Rightarrow> KernelState \<Rightarrow> KernelState" where
  "initVirtualMemoryManager cr3 km s =
     programPat (s\<lparr>lowerHalfRegion := (lowerHalfRegion s)\<lparr>region_start := highest_address (km_descriptors km) 0\<rparr>,
                  level4PageTable := cr3\<rparr>)"

definition initMemoryManager :: "nat \<Rightarrow> u64 \<Rightarrow> KernelMemory \<Rightarrow> KernelState \<Rightarrow> PolicyError + KernelState" where
  "initMemoryManager fuel cr3 km s =
     (case initPhysicalMemoryManager fuel km of
        Inl e \<Rightarrow> Inl (PhysicalError e)
      | Inr (_, p) \<Rightarrow> Inr (initVirtualMemoryManager cr3 km (s\<lparr>ks_pmm := p\<rparr>)))"

section \<open>Allocating and mapping\<close>

definition map_in_kernel :: "nat \<Rightarrow> u64 \<Rightarrow> PagedMemory \<Rightarrow> PageSize \<Rightarrow> u64 \<Rightarrow> KernelState \<Rightarrow> PolicyError + KernelState" where
  "map_in_kernel fuel virt memory pageSize flags s =
     (case mapVirtualRegionWithFlags fuel (allocate4KiBPage fuel 1) (level4PageTable s) virt memory pageSize flags
             (ks_tables s, ks_pmm s) of
        Inl e \<Rightarrow> Inl (MappingError e)
      | Inr (m, p) \<Rightarrow> Inr (s\<lparr>ks_tables := m, ks_pmm := p\<rparr>))"

fun map_regions :: "nat \<Rightarrow> u64 \<Rightarrow> PagedMemory list \<Rightarrow> PageSize \<Rightarrow> KernelState \<Rightarrow> PolicyError + KernelState" where
  "map_regions fuel virtualRegion [] pageSize s = Inr s"
| "map_regions fuel virtualRegion (e # es) pageSize s =
     (case map_in_kernel fuel virtualRegion e pageSize 0 s of
        Inl err \<Rightarrow> Inl err
      | Inr s' \<Rightarrow> map_regions fuel (virtualRegion + numberOfPages e * pageSize) es pageSize s')"

definition allocAndMapExplicit :: "nat \<Rightarrow> u64 \<Rightarrow> u64 \<Rightarrow> KernelState \<Rightarrow> PolicyError + (u64 \<times> KernelState)" where
  "allocAndMapExplicit fuel n preferredPageSizePowerOfTwo s =
     (case convertPreferredPageToAvailablePages preferredPageSizePowerOfTwo of
        None \<Rightarrow> Inl NoPageSize
      | Some conversion \<Rightarrow>
          (let n = n * psc_numberOfPages conversion; p = psc_pageSize conversion in
           if n > ENTRIES then Inl TooLargeAllocation
           else case getVirtualMemory (p * n) p s of
             Inl e \<Rightarrow> Inl e
           | Inr (virtualAddress, s1) \<Rightarrow>
               (case allocPhysicalPages fuel n p (ks_pmm s1) of
                  Inl e \<Rightarrow> Inl (PhysicalError e)
                | Inr (pages, pm) \<Rightarrow>
                    (case map_regions fuel virtualAddress pages p (s1\<lparr>ks_pmm := pm\<rparr>) of
                       Inl e \<Rightarrow> Inl e
                     | Inr s2 \<Rightarrow> Inr (virtualAddress, s2)))))"

text \<open>The page size \<^verbatim>\<open>allocAndMap\<close> settles for: the first with at most half a table of pages, or the last.\<close>

fun pick_page_size :: "PageSize list \<Rightarrow> u64 \<Rightarrow> (u64 \<times> PageSize) option" where
  "pick_page_size [] bytes = None"
| "pick_page_size [p] bytes = Some (CEILING_DIV_VALUE bytes p, p)"
| "pick_page_size (p # ps) bytes =
     (let inPages = CEILING_DIV_VALUE bytes p in
      if inPages \<le> ENTRIES div 2 then Some (inPages, p) else pick_page_size ps bytes)"

definition allocAndMap :: "nat \<Rightarrow> u64 \<Rightarrow> KernelState \<Rightarrow> PolicyError + (u64 \<times> KernelState)" where
  "allocAndMap fuel bytes s =
     (case pick_page_size pageSizes bytes of
        None \<Rightarrow> Inl NoPageSize
      | Some (inPages, p) \<Rightarrow> allocAndMapExplicit fuel inPages p s)"

definition allocContiguousAndMap :: "nat \<Rightarrow> u64 \<Rightarrow> u64 \<Rightarrow> KernelState \<Rightarrow> PolicyError + (u64 \<times> KernelState)" where
  "allocContiguousAndMap fuel n preferredPageSizePowerOfTwo s =
     (case convertPreferredPageToAvailablePages preferredPageSizePowerOfTwo of
        None \<Rightarrow> Inl NoPageSize
      | Some conversion \<Rightarrow>
          (let n = n * psc_numberOfPages conversion; p = psc_pageSize conversion in
           if n > ENTRIES then Inl TooLargeAllocation
           else case getVirtualMemory (n * p) p s of
             Inl e \<Rightarrow> Inl e
           | Inr (virtualAddress, s1) \<Rightarrow>
               (case allocContiguousPhysicalPages fuel n p (ks_pmm s1) of
                  Inl e \<Rightarrow> Inl (PhysicalError e)
                | Inr (physicalAddress, pm) \<Rightarrow>
                    (case map_in_kernel fuel virtualAddress \<lparr>pageStart = physicalAddress, numberOfPages = n\<rparr> p 0
                            (s1\<lparr>ks_pmm := pm\<rparr>) of
                       Inl e \<Rightarrow> Inl e
                     | Inr s2 \<Rightarrow> Inr (virtualAddress, s2)))))"

definition initScreenMemory :: "nat \<Rightarrow> u64 \<Rightarrow> u64 \<Rightarrow> KernelState \<Rightarrow> PolicyError + KernelState" where
  "initScreenMemory fuel screenAddress bytes s =
     map_in_kernel fuel screenAddress
       \<lparr>pageStart = screenAddress, numberOfPages = CEILING_DIV_EXP bytes PAGE_FRAME_SHIFT\<rparr> BASE_PAGE
       (PATMapping ! 3) s"

section \<open>Freeing mapped memory\<close>

fun freeMapped_loop :: "nat \<Rightarrow> nat \<Rightarrow> (u64 \<Rightarrow> MappedPage) \<Rightarrow> u64 \<Rightarrow> u64 \<Rightarrow> PagedMemory \<Rightarrow> PageSize \<Rightarrow> u64 \<Rightarrow> PMMState \<Rightarrow>
    PMMError + PMMState" where
  "freeMapped_loop 0 fuel lookup start end' pagedEntry previousPageSize nextPhysical p = Inl OutOfFuel"
| "freeMapped_loop (Suc rounds) fuel lookup start end' pagedEntry previousPageSize nextPhysical p =
     (if start < end' then
        (let page = lookup start;
             physicalOfPage = getPhysicalAddressFrame (mp_entry page) in
         if physicalOfPage = nextPhysical \<and> previousPageSize = mp_pageSize page
         then freeMapped_loop rounds fuel lookup (start + mp_pageSize page) end'
                (pagedEntry\<lparr>numberOfPages := numberOfPages pagedEntry + 1\<rparr>) previousPageSize
                (nextPhysical + previousPageSize) p
         else case freePhysicalPage fuel pagedEntry previousPageSize p of
                Inl e \<Rightarrow> Inl e
              | Inr (_, p') \<Rightarrow>
                  freeMapped_loop rounds fuel lookup (start + mp_pageSize page) end'
                    \<lparr>pageStart = physicalOfPage, numberOfPages = 1\<rparr> (mp_pageSize page)
                    (physicalOfPage + mp_pageSize page) p')
      else case freePhysicalPage fuel pagedEntry previousPageSize p of
             Inl e \<Rightarrow> Inl e
           | Inr (_, p') \<Rightarrow> Inr p')"

definition freeMapped :: "nat \<Rightarrow> u64 \<Rightarrow> u64 \<Rightarrow> KernelState \<Rightarrow> PMMError + KernelState" where
  "freeMapped fuel start bytes s =
     (let end' = start + bytes;
          lookup = getMappedPage (level4PageTable s) (ks_tables s);
          page0 = lookup start;
          unaligned = RING_RANGE_VALUE start (mp_pageSize page0) \<noteq> 0;
          start1 = (if unaligned then ALIGN_UP_VALUE start (mp_pageSize page0) else start) in
      if unaligned \<and> start1 \<ge> end' then Inr s
      else
        (let page = (if unaligned then lookup start1 else page0);
             physicalOfPage = getPhysicalAddressFrame (mp_entry page) in
         case freeMapped_loop fuel fuel lookup (start1 + mp_pageSize page) end'
                \<lparr>pageStart = physicalOfPage, numberOfPages = 1\<rparr> (mp_pageSize page)
                (physicalOfPage + mp_pageSize page) (ks_pmm s) of
           Inl e \<Rightarrow> Inl e
         | Inr p \<Rightarrow> Inr (s\<lparr>ks_pmm := p\<rparr>)))"

section \<open>Properties\<close>

text \<open>
  \<^verbatim>\<open>getVirtualMemory\<close> hands out aligned ranges inside the higher-half region and moves the start
  of the region behind the range, so ranges of successive calls never overlap.
\<close>

theorem getVirtualMemory_range:
  assumes "getVirtualMemory sz (2 ^ k) s = Inr (a, s')" "k < 64"
    "unat (region_start (higherHalfRegion s)) \<le> 2 ^ 64 - unat JUMBO_PAGE_SIZE"
    "unat (region_start (higherHalfRegion s)) + (2 ^ k - 1) < 2 ^ 64"
  shows "2 ^ k dvd unat a \<and> unat (region_start (higherHalfRegion s)) \<le> unat a \<and>
    unat a + unat sz \<le> unat (region_end (higherHalfRegion s)) \<and>
    unat (region_start (higherHalfRegion s')) = unat a + unat sz \<and>
    region_end (higherHalfRegion s') = region_end (higherHalfRegion s)"
proof -
  let ?r = "higherHalfRegion s"
  let ?e = "unat (region_end ?r)" and ?st = "unat (region_start ?r)"
  have g: "a = ALIGN_UP_VALUE (region_start ?r) (2 ^ k)" "sz \<le> JUMBO_PAGE_SIZE" "region_start ?r \<le> a" "a \<le> region_end ?r"
      "region_end ?r - (a + sz) < region_start ?r" "s' = s\<lparr>higherHalfRegion := ?r\<lparr>region_start := a + sz\<rparr>\<rparr>"
    using assms(1) by (auto simp: getVirtualMemory_def Let_def split: if_splits)
  have j: "unat JUMBO_PAGE_SIZE = 2 ^ 39" by (simp add: layout_defs)
  have u: "unat a = (?st + (2 ^ k - 1)) div 2 ^ k * 2 ^ k"
    using g(1) assms(2,4) by (simp add: unat_ALIGN_UP_VALUE)
  have sz: "unat sz \<le> 2 ^ 39" using g(2) j by (simp add: word_le_nat_alt)
  have ae: "unat a \<le> ?e" using g(4) by (simp add: word_le_nat_alt)
  have "unat (region_end ?r - a - sz) = (if unat sz \<le> ?e - unat a then ?e - unat a - unat sz else 2 ^ 64 + (?e - unat a) - unat sz)"
    using ae unat_lt_u64 [of sz] by (auto simp: unat_sub_if_size word_size word_le_nat_alt)
  moreover have "unat (region_end ?r - a - sz) < ?st" using g(5) by (simp add: word_less_nat_alt diff_diff_add)
  ultimately have fit: "unat sz \<le> ?e - unat a"
    using assms(3) j sz by (auto split: if_splits)
  then have "unat a + unat sz < 2 ^ 64" using ae unat_lt_u64 [of "region_end ?r"] by simp
  then have "unat (a + sz) = unat a + unat sz" by (simp add: unat_add_nowrap)
  then show ?thesis using u g(3,6) fit ae by (simp add: word_le_nat_alt)
qed

definition fresh_kernel :: KernelState where
  "fresh_kernel = initial_regions \<lparr>ks_pmm = sample_state, ks_tables = \<lambda>_. 0, level4PageTable = 0x1000,
     higherHalfRegion = \<lparr>region_start = 0, region_end = 0\<rparr>, lowerHalfRegion = \<lparr>region_start = 0, region_end = 0\<rparr>,
     ks_msr = \<lambda>_. 0\<rparr>"

theorem getVirtualMemory_range_witness:
  "\<exists>a s'. getVirtualMemory 0x3000 (2 ^ 21) fresh_kernel = Inr (a, s') \<and> 2 ^ 21 dvd unat a"
proof -
  have r: "higherHalfRegion fresh_kernel = \<lparr>region_start = 0xffff800000000000, region_end = 0xfffffffff8000000\<rparr>"
    by (simp add: fresh_kernel_def initial_regions_def HIGHER_HALF_START_def KERNEL_SPACE_START_def)
  obtain a s' where g: "getVirtualMemory 0x3000 (2 ^ 21) fresh_kernel = Inr (a, s')"
    by (simp add: getVirtualMemory_def r ALIGN_UP_VALUE_def layout_defs word_le_nat_alt word_less_nat_alt)
  then show ?thesis using getVirtualMemory_range [OF g] by (simp add: r layout_defs)
qed

text \<open>
  The last assertion of \<^verbatim>\<open>getVirtualMemory\<close> does not stop a request at the end of the region:
  with the region exhausted, a request for 512 GiB succeeds and the returned range wraps past the
  end of the address space into the lower half.
\<close>

theorem getVirtualMemory_exhausted_succeeds:
  "\<exists>s'. getVirtualMemory JUMBO_PAGE_SIZE BASE_PAGE
      (fresh_kernel\<lparr>higherHalfRegion := \<lparr>region_start = KERNEL_SPACE_START, region_end = KERNEL_SPACE_START\<rparr>\<rparr>) =
    Inr (KERNEL_SPACE_START, s') \<and> region_start (higherHalfRegion s') < LOWER_HALF_END"
  by (simp add: getVirtualMemory_def KERNEL_SPACE_START_def LOWER_HALF_END_def ALIGN_UP_VALUE_def layout_defs
      word_le_nat_alt word_less_nat_alt)

lemma freeMapped_loop_contiguous:
  assumes "\<And>i. k \<le> i \<Longrightarrow> i < n \<Longrightarrow> mp_pageSize (lookup (start + of_nat i * p)) = p \<and>
      getPhysicalAddressFrame (mp_entry (lookup (start + of_nat i * p))) = physical + of_nat i * p"
    and "unat start + n * unat p < 2 ^ 64" "0 < unat p" "k \<le> n" "n - k < rounds" "0 < k"
  shows "freeMapped_loop rounds fuel lookup (start + of_nat k * p) (start + of_nat n * p)
      \<lparr>pageStart = physical, numberOfPages = of_nat k\<rparr> p (physical + of_nat k * p) pm =
    (case freePhysicalPage fuel \<lparr>pageStart = physical, numberOfPages = of_nat n\<rparr> p pm of Inl e \<Rightarrow> Inl e | Inr (_, p') \<Rightarrow> Inr p')"
  using assms
proof (induction "n - k" arbitrary: k rounds)
  case 0
  then show ?case by (cases rounds) auto
next
  case (Suc d)
  obtain r where r: "rounds = Suc r" "n - (k + 1) < r" using Suc.prems(5) Suc.hyps(2) by (cases rounds) auto
  have off: "unat (start + of_nat i * p) = unat start + i * unat p" if "i \<le> n" for i
  proof -
    have "i * unat p \<le> n * unat p" using that by simp
    then have b: "unat start + i * unat p < 2 ^ 64" using Suc.prems(2) by linarith
    moreover have "i \<le> i * unat p" using Suc.prems(3) by simp
    ultimately have i: "i < 2 ^ 64" by linarith
    have "unat (of_nat i * p) = i * unat p"
      using b i by (simp add: unat_mult_nowrap unat_of_nat_lt)
    then show ?thesis using b by (simp add: unat_add_nowrap)
  qed
  have lt: "start + of_nat k * p < start + of_nat n * p"
    using off [of k] off [of n] Suc.prems(3,4) Suc.hyps(2) by (simp add: word_less_nat_alt)
  have look: "mp_pageSize (lookup (start + of_nat k * p)) = p"
      "getPhysicalAddressFrame (mp_entry (lookup (start + of_nat k * p))) = physical + of_nat k * p"
    using Suc.prems(1) [of k] Suc.hyps(2) by simp_all
  have "freeMapped_loop rounds fuel lookup (start + of_nat k * p) (start + of_nat n * p)
      \<lparr>pageStart = physical, numberOfPages = of_nat k\<rparr> p (physical + of_nat k * p) pm =
    freeMapped_loop r fuel lookup (start + of_nat (k + 1) * p) (start + of_nat n * p)
      \<lparr>pageStart = physical, numberOfPages = of_nat (k + 1)\<rparr> p (physical + of_nat (k + 1) * p) pm"
    using r(1) lt look by (simp add: algebra_simps)
  also have "\<dots> = (case freePhysicalPage fuel \<lparr>pageStart = physical, numberOfPages = of_nat n\<rparr> p pm of
      Inl e \<Rightarrow> Inl e | Inr (_, p') \<Rightarrow> Inr p')"
    using Suc.prems Suc.hyps(2) r(2) by (intro Suc.hyps(1)) auto
  finally show ?case .
qed

text \<open>
  C34. \<^verbatim>\<open>freeMapped\<close> on a range of \<open>n\<close> equally sized pages that are mapped to consecutive frames
  gives back exactly that physical region, as one entry, and terminates after \<open>n\<close> page walks.
\<close>

theorem freeMapped_contiguous:
  assumes "\<And>i. i < n \<Longrightarrow> mp_pageSize (getMappedPage (level4PageTable s) (ks_tables s) (start + of_nat i * p)) = p \<and>
      getPhysicalAddressFrame (mp_entry (getMappedPage (level4PageTable s) (ks_tables s) (start + of_nat i * p))) =
        physical + of_nat i * p"
    and "RING_RANGE_VALUE start p = 0" "unat start + n * unat p < 2 ^ 64" "0 < unat p" "0 < n" "n \<le> fuel"
  shows "freeMapped fuel start (of_nat n * p) s =
    (case freePhysicalPage fuel \<lparr>pageStart = physical, numberOfPages = of_nat n\<rparr> p (ks_pmm s) of
       Inl e \<Rightarrow> Inl e | Inr (_, p') \<Rightarrow> Inr (s\<lparr>ks_pmm := p'\<rparr>))"
proof -
  have "mp_pageSize (getMappedPage (level4PageTable s) (ks_tables s) start) = p"
      "getPhysicalAddressFrame (mp_entry (getMappedPage (level4PageTable s) (ks_tables s) start)) = physical"
    using assms(1) [of 0] assms(5) by simp_all
  then show ?thesis
    using freeMapped_loop_contiguous [of 1 n "getMappedPage (level4PageTable s) (ks_tables s)" start p physical fuel fuel "ks_pmm s"] assms
    by (auto simp: freeMapped_def Let_def split: sum.splits prod.splits)
qed

definition flat_kernel :: KernelState where
  "flat_kernel = fresh_kernel\<lparr>ks_tables := \<lambda>_. 0x5003\<rparr>"

lemma flat_kernel_walk: "getMappedPage L (\<lambda>_. 0x5003) v = \<lparr>mp_entry = 0x5003, mp_pageSize = BASE_PAGE\<rparr>"
proof -
  have "\<not> is_extended 0x5003" by (simp add: is_extended_def VirtualPageMasks_def)
  then show ?thesis
    using walk_Suc [of 3 "\<lambda>_. 0x5003" L v] walk_Suc [of 2 "\<lambda>_. 0x5003" "child 0x5003" v]
      walk_Suc [of 1 "\<lambda>_. 0x5003" "child 0x5003" v] walk_Suc [of 0 "\<lambda>_. 0x5003" "child 0x5003" v] level_size_values(1)
    by (simp add: getMappedPage_walk Let_def eval_nat_numeral)
qed

theorem freeMapped_contiguous_witness:
  "\<exists>s'. freeMapped 1 0x7000 0x1000 flat_kernel = Inr s'"
proof -
  have "getPhysicalAddressFrame 0x5003 = 0x5000" by (simp add: getPhysicalAddressFrame_def VirtualPageMasks_def)
  moreover have "ks_tables flat_kernel = (\<lambda>_. 0x5003)" "ks_pmm flat_kernel = sample_state"
    by (simp_all add: flat_kernel_def fresh_kernel_def initial_regions_def)
  moreover have "freePhysicalPage 1 e BASE_PAGE sample_state = Inr ((), push_entry BasePMM e sample_state)" for e
    using free_one_with_room [OF sample_state_ok(2), of 0 e] set_manager_pageSizes [of BasePMM] by (simp add: freePhysicalPage_def)
  ultimately show ?thesis
    using freeMapped_contiguous [of 1 flat_kernel "0x7000" BASE_PAGE "0x5000" 1]
    by (simp add: flat_kernel_walk RING_RANGE_VALUE_def layout_defs)
qed

end
