(* ===== verification/Cpu.thy ===== *)
theory Cpu
  imports Prelude
begin

text \<open>
  The processor set-up of \<^verbatim>\<open>x86/code\<close>: the interrupt descriptor table and the faults it serves
  (\<^verbatim>\<open>idt\<close>, \<^verbatim>\<open>fault\<close>), the global descriptor table (\<^verbatim>\<open>gdt\<close>), the control registers
  (\<^verbatim>\<open>configuration/features.c\<close>) and the register access of \<^verbatim>\<open>configuration/cpu2.c\<close>. The registers
  that the inline assembly reads and writes are a record; the addresses of the 256 assembly stubs are
  a function. Bit fields are packed from the lowest bit up, as on the target.
\<close>

section \<open>Faults and the interrupt descriptor table\<close>

datatype Fault =
    FAULT_DIVIDE_ERROR | FAULT_DEBUG | FAULT_NMI | FAULT_BREAKPOINT | FAULT_OVERFLOW | FAULT_BOUND_RANGE_EXCEED
  | FAULT_INVALID_OPCODE | FAULT_DEVICE_NOT_AVAILABLE | FAULT_DOUBLE_FAULT | FAULT_9_RESERVED | FAULT_INVALID_TSS
  | FAULT_SEGMENT_NOT_PRESENT | FAULT_STACK_FAULT | FAULT_GENERAL_PROTECTION | FAULT_PAGE_FAULT | FAULT_15_RESERVED
  | FAULT_FPU_ERROR | FAULT_ALIGNMENT_CHECK | FAULT_MACHINE_CHECK | FAULT_SIMD_FLOATING_POINT | FAULT_VIRTUALIZATION
  | FAULT_CONTROL_PROTECTION | FAULT_22_RESERVED | FAULT_23_RESERVED | FAULT_24_RESERVED | FAULT_25_RESERVED
  | FAULT_26_RESERVED | FAULT_27_RESERVED | FAULT_28_RESERVED | FAULT_29_RESERVED | FAULT_30_RESERVED | FAULT_31_RESERVED
  | FAULT_USER | FAULT_SYSCALL | FAULT_NO_MORE_PHYSICAL_MEMORY | FAULT_TOO_LARGE_ALLOCATION

text \<open>The value of the enumeration constant.\<close>

fun fault_number :: "Fault \<Rightarrow> u64" where
  "fault_number FAULT_DIVIDE_ERROR = 0"
| "fault_number FAULT_DEBUG = 1"
| "fault_number FAULT_NMI = 2"
| "fault_number FAULT_BREAKPOINT = 3"
| "fault_number FAULT_OVERFLOW = 4"
| "fault_number FAULT_BOUND_RANGE_EXCEED = 5"
| "fault_number FAULT_INVALID_OPCODE = 6"
| "fault_number FAULT_DEVICE_NOT_AVAILABLE = 7"
| "fault_number FAULT_DOUBLE_FAULT = 8"
| "fault_number FAULT_9_RESERVED = 9"
| "fault_number FAULT_INVALID_TSS = 10"
| "fault_number FAULT_SEGMENT_NOT_PRESENT = 11"
| "fault_number FAULT_STACK_FAULT = 12"
| "fault_number FAULT_GENERAL_PROTECTION = 13"
| "fault_number FAULT_PAGE_FAULT = 14"
| "fault_number FAULT_15_RESERVED = 15"
| "fault_number FAULT_FPU_ERROR = 16"
| "fault_number FAULT_ALIGNMENT_CHECK = 17"
| "fault_number FAULT_MACHINE_CHECK = 18"
| "fault_number FAULT_SIMD_FLOATING_POINT = 19"
| "fault_number FAULT_VIRTUALIZATION = 20"
| "fault_number FAULT_CONTROL_PROTECTION = 21"
| "fault_number FAULT_22_RESERVED = 22"
| "fault_number FAULT_23_RESERVED = 23"
| "fault_number FAULT_24_RESERVED = 24"
| "fault_number FAULT_25_RESERVED = 25"
| "fault_number FAULT_26_RESERVED = 26"
| "fault_number FAULT_27_RESERVED = 27"
| "fault_number FAULT_28_RESERVED = 28"
| "fault_number FAULT_29_RESERVED = 29"
| "fault_number FAULT_30_RESERVED = 30"
| "fault_number FAULT_31_RESERVED = 31"
| "fault_number FAULT_USER = 32"
| "fault_number FAULT_SYSCALL = 33"
| "fault_number FAULT_NO_MORE_PHYSICAL_MEMORY = 34"
| "fault_number FAULT_TOO_LARGE_ALLOCATION = 35"

text \<open>The vector of the \<^verbatim>\<open>int\<close> instruction that \<^verbatim>\<open>triggerFault\<close> executes for the fault.\<close>

fun triggerFault :: "Fault \<Rightarrow> u8" where
  "triggerFault FAULT_DIVIDE_ERROR = 0x00"
| "triggerFault FAULT_DEBUG = 0x01"
| "triggerFault FAULT_NMI = 0x02"
| "triggerFault FAULT_BREAKPOINT = 0x03"
| "triggerFault FAULT_OVERFLOW = 0x04"
| "triggerFault FAULT_BOUND_RANGE_EXCEED = 0x05"
| "triggerFault FAULT_INVALID_OPCODE = 0x06"
| "triggerFault FAULT_DEVICE_NOT_AVAILABLE = 0x07"
| "triggerFault FAULT_DOUBLE_FAULT = 0x08"
| "triggerFault FAULT_9_RESERVED = 0x09"
| "triggerFault FAULT_INVALID_TSS = 0x0A"
| "triggerFault FAULT_SEGMENT_NOT_PRESENT = 0x0B"
| "triggerFault FAULT_STACK_FAULT = 0x0C"
| "triggerFault FAULT_GENERAL_PROTECTION = 0x0D"
| "triggerFault FAULT_PAGE_FAULT = 0x0E"
| "triggerFault FAULT_15_RESERVED = 0x0F"
| "triggerFault FAULT_FPU_ERROR = 0x10"
| "triggerFault FAULT_ALIGNMENT_CHECK = 0x11"
| "triggerFault FAULT_MACHINE_CHECK = 0x12"
| "triggerFault FAULT_SIMD_FLOATING_POINT = 0x13"
| "triggerFault FAULT_VIRTUALIZATION = 0x14"
| "triggerFault FAULT_CONTROL_PROTECTION = 0x15"
| "triggerFault FAULT_22_RESERVED = 0x16"
| "triggerFault FAULT_23_RESERVED = 0x17"
| "triggerFault FAULT_24_RESERVED = 0x18"
| "triggerFault FAULT_25_RESERVED = 0x19"
| "triggerFault FAULT_26_RESERVED = 0x1A"
| "triggerFault FAULT_27_RESERVED = 0x1B"
| "triggerFault FAULT_28_RESERVED = 0x1C"
| "triggerFault FAULT_29_RESERVED = 0x1D"
| "triggerFault FAULT_30_RESERVED = 0x1E"
| "triggerFault FAULT_31_RESERVED = 0x1F"
| "triggerFault FAULT_USER = 0x20"
| "triggerFault FAULT_SYSCALL = 0x21"
| "triggerFault FAULT_NO_MORE_PHYSICAL_MEMORY = 0x22"
| "triggerFault FAULT_TOO_LARGE_ALLOCATION = 0x23"

definition interruptNoMorePhysicalMemory :: u8 where
  "interruptNoMorePhysicalMemory = triggerFault FAULT_NO_MORE_PHYSICAL_MEMORY"

definition interruptTooLargeAllocation :: u8 where
  "interruptTooLargeAllocation = triggerFault FAULT_TOO_LARGE_ALLOCATION"

record InterruptDescriptor =
  offset_1 :: u16
  selector :: u16
  ist :: u8
  type_attributes :: u8
  offset_2 :: u16
  offset_3 :: u32
  zero :: u32

record DescriptorTableRegister =
  dtr_limit :: u16
  dtr_base :: u64

datatype GateType = INTERRUPT_GATE | TRAP_GATE

fun gateFlags :: "GateType \<Rightarrow> u8" where
  "gateFlags INTERRUPT_GATE = 0x8E"
| "gateFlags TRAP_GATE = 0x8F"

definition idt_set_gate :: "u8 \<Rightarrow> u64 \<Rightarrow> GateType \<Rightarrow> InterruptDescriptor list \<Rightarrow> InterruptDescriptor list" where
  "idt_set_gate num base gateType idt = idt[unat num :=
     \<lparr>offset_1 = ucast (base AND 0xFFFF), selector = 0x08, ist = 0, type_attributes = gateFlags gateType,
      offset_2 = ucast (drop_bit 16 base AND 0xFFFF), offset_3 = ucast (drop_bit 32 base AND 0xFFFFFFFF), zero = 0\<rparr>]"

text \<open>
  The 256 calls in their order, for the stub addresses \<open>isr\<close> and the table at \<open>idt_address\<close>; the result
  is the table and the register that \<^verbatim>\<open>lidt\<close> loads.
\<close>

definition initIDT :: "(nat \<Rightarrow> u64) \<Rightarrow> u64 \<Rightarrow> InterruptDescriptor list \<Rightarrow> InterruptDescriptor list \<times> DescriptorTableRegister" where
  "initIDT isr idt_address idt =
     (fold (\<lambda>n. idt_set_gate (of_nat n) (isr n) INTERRUPT_GATE) [0..<256] idt,
      \<lparr>dtr_limit = 16 * 256 - 1, dtr_base = idt_address\<rparr>)"

section \<open>The fault recorder used in tests\<close>

definition CPU_FAULT_COUNT :: nat where "CPU_FAULT_COUNT = 36"

definition mock_triggerFault :: "Fault \<Rightarrow> bool list \<Rightarrow> bool list" where
  "mock_triggerFault fault triggeredFaults = triggeredFaults[unat (fault_number fault) := True]"

definition resetTriggeredFaults :: "bool list \<Rightarrow> bool list" where
  "resetTriggeredFaults triggeredFaults = fold (\<lambda>i fs. fs[i := False]) [0..<CPU_FAULT_COUNT] triggeredFaults"

definition compareInterrupts :: "bool list \<Rightarrow> bool list \<Rightarrow> bool" where
  "compareInterrupts expectedFaults actualFaults \<longleftrightarrow>
     list_all (\<lambda>i. expectedFaults ! i = actualFaults ! i) [0..<CPU_FAULT_COUNT]"

section \<open>Global descriptor table\<close>

record SegmentDescriptor =
  limit_15_0 :: u64
  base_15_0 :: u64
  base_23_16 :: u64
  seg_type :: u64
  s_flag :: u64
  dpl :: u64
  p_flag :: u64
  limit_19_16 :: u64
  avl :: u64
  l_flag :: u64
  db_flag :: u64
  g_flag :: u64
  base_31_24 :: u64

text \<open>\<open>pack\<close> lays out bit fields, each with its width, from the lowest bit up; the rest of a value is cut off.\<close>

fun pack_fields :: "(nat \<times> u64) list \<Rightarrow> u64" where
  "pack_fields [] = 0"
| "pack_fields ((n, v) # fs) = take_bit n v OR push_bit n (pack_fields fs)"

definition segment_value :: "SegmentDescriptor \<Rightarrow> u64" where
  "segment_value d = pack_fields
     [(16, limit_15_0 d), (16, base_15_0 d), (8, base_23_16 d), (4, seg_type d), (1, s_flag d), (2, dpl d), (1, p_flag d),
      (4, limit_19_16 d), (1, avl d), (1, l_flag d), (1, db_flag d), (1, g_flag d), (8, base_31_24 d)]"

text \<open>The second half of a \<^verbatim>\<open>TSSDescriptor\<close>; its first half is laid out like a segment descriptor.\<close>

record TSSDescriptor =
  tss_low :: SegmentDescriptor
  base_63_32 :: u64

definition tss_values :: "TSSDescriptor \<Rightarrow> u64 list" where
  "tss_values d = [segment_value (tss_low d), pack_fields [(32, base_63_32 d), (8, 0), (5, 0), (19, 0)]]"

record GDTTable =
  null :: u64
  kernel_code :: SegmentDescriptor
  kernel_data :: SegmentDescriptor
  tssDescriptor :: TSSDescriptor

definition gdt_values :: "GDTTable \<Rightarrow> u64 list" where
  "gdt_values g = [null g, segment_value (kernel_code g), segment_value (kernel_data g)] @ tss_values (tssDescriptor g)"

text \<open>
  The task state segment is 104 bytes of a zeroed page, of which only the last field is set. The
  result is that field's value, the table and the register, for the three pages at the given addresses.
\<close>

definition SIZEOF_TSS :: u64 where "SIZEOF_TSS = 25 * 4 + 2 * 2"

definition prepNewGDT :: "u64 \<Rightarrow> u64 \<Rightarrow> u16 \<times> GDTTable \<times> DescriptorTableRegister" where
  "prepNewGDT page0 page1 =
     (let io_map_base_address = ucast SIZEOF_TSS;
          gdt = \<lparr>null = 0,
            kernel_code = \<lparr>limit_15_0 = 0xFFFF, base_15_0 = 0, base_23_16 = 0, seg_type = 0xA, s_flag = 1, dpl = 0, p_flag = 1,
              limit_19_16 = 0xF, avl = 0, l_flag = 1, db_flag = 0, g_flag = 1, base_31_24 = 0\<rparr>,
            kernel_data = \<lparr>limit_15_0 = 0xFFFF, base_15_0 = 0, base_23_16 = 0, seg_type = 0x2, s_flag = 1, dpl = 0, p_flag = 1,
              limit_19_16 = 0xF, avl = 0, l_flag = 0, db_flag = 1, g_flag = 1, base_31_24 = 0\<rparr>,
            tssDescriptor = \<lparr>tss_low = \<lparr>limit_15_0 = SIZEOF_TSS - 1, base_15_0 = page0 AND 0xFFFF,
              base_23_16 = drop_bit 16 page0 AND 0xFF, seg_type = 9, s_flag = 0, dpl = 0, p_flag = 1,
              limit_19_16 = 0, avl = 0, l_flag = 0, db_flag = 0, g_flag = 0, base_31_24 = drop_bit 24 page0 AND 0xFF\<rparr>,
              base_63_32 = drop_bit 32 page0 AND 0xFFFFFFFF\<rparr>\<rparr> in
      (io_map_base_address, gdt, \<lparr>dtr_limit = 5 * 8 - 1, dtr_base = page1\<rparr>))"

section \<open>Registers\<close>

record cpu =
  cr0 :: u64
  cr3 :: u64
  cr4 :: u64
  xcr0 :: u64
  msr :: "u32 \<Rightarrow> u64"
  gdtr :: DescriptorTableRegister
  reg_tr :: u16
  reg_cs :: u16
  reg_ds :: u16
  reg_es :: u16
  reg_fs :: u16
  reg_gs :: u16
  reg_ss :: u16
  port :: "u16 \<Rightarrow> u8"

definition enableNewGDT :: "DescriptorTableRegister \<Rightarrow> cpu \<Rightarrow> cpu" where
  "enableNewGDT GDTRegister c =
     c\<lparr>gdtr := GDTRegister, reg_tr := 0x18, reg_cs := 0x08, reg_ds := 0x10, reg_es := 0x10, reg_fs := 0x10, reg_gs := 0x10, reg_ss := 0x10\<rparr>"

text \<open>The bit-field structures, from the lowest bit up: every field with its width, and the bit where a field starts.\<close>

fun field_offset :: "(string \<times> nat) list \<Rightarrow> string \<Rightarrow> nat" where
  "field_offset [] f = 0"
| "field_offset ((g, n) # fs) f = (if g = f then 0 else n + field_offset fs f)"

definition CR0_fields :: "(string \<times> nat) list" where
  "CR0_fields =
    [(''PE'', 1), (''MP'', 1), (''EM'', 1), (''TS'', 1), (''ET'', 1), (''NE'', 1), (''reserved'', 10), (''WP'', 1),
     (''reserved1'', 1), (''AM'', 1), (''reserved2'', 10), (''NW'', 1), (''CD'', 1), (''PG'', 1), (''reserved3'', 32)]"

definition CR4_fields :: "(string \<times> nat) list" where
  "CR4_fields =
    [(''VME'', 1), (''PVI'', 1), (''TSD'', 1), (''DE'', 1), (''PSE'', 1), (''PAE'', 1), (''MCE'', 1), (''PGE'', 1),
     (''PCE'', 1), (''OSFXSR'', 1), (''OSXMMEXCPT'', 1), (''UMIP'', 1), (''LA57'', 1), (''VMXE'', 1), (''SMXE'', 1),
     (''reserved'', 1), (''FSGSBASE'', 1), (''PCIDE'', 1), (''OSXSAVE'', 1), (''KL'', 1), (''SMEP'', 1),
     (''SMAP'', 1), (''PKE'', 1), (''CET'', 1), (''PKS'', 1), (''UINTR'', 1), (''reserved1'', 38)]"

definition XCR0_fields :: "(string \<times> nat) list" where
  "XCR0_fields =
    [(''FPU_MMX'', 1), (''SSE'', 1), (''AVX'', 1), (''BNDREG'', 1), (''BNDCSR'', 1), (''opmask'', 1),
     (''ZMM_Hi256'', 1), (''Hi16_ZMM'', 1), (''reserved'', 1), (''PKRU'', 1), (''reserved1'', 7),
     (''TILECONFIG'', 1), (''TILEDATA'', 1), (''reserved2'', 44), (''expansion'', 1)]"

definition CPUFeatures_ecx_fields :: "(string \<times> nat) list" where
  "CPUFeatures_ecx_fields =
    [(''SSE3'', 1), (''PCLMULQDQ'', 1), (''DTES64'', 1), (''MONITOR'', 1), (''DS_CPL'', 1), (''VMX'', 1),
     (''SMX'', 1), (''EIST'', 1), (''TM2'', 1), (''SSSE3'', 1), (''CNXT_ID'', 1), (''SDBG'', 1), (''FMA'', 1),
     (''CMPXCHG16B'', 1), (''xTPR_Update_Control'', 1), (''PDCM'', 1), (''reserved'', 1), (''PCID'', 1),
     (''DCA'', 1), (''SSE4_1'', 1), (''SSE4_2'', 1), (''x2APIC'', 1), (''MOVBE'', 1), (''POPCNT'', 1),
     (''TSC_DEADLINE'', 1), (''AESNI'', 1), (''XSAVE'', 1), (''OSXSAVE'', 1), (''AVX'', 1), (''F16C'', 1),
     (''RDRAND'', 1), (''reserved1'', 1)]"

definition CPUFeatures_edx_fields :: "(string \<times> nat) list" where
  "CPUFeatures_edx_fields =
    [(''FPU'', 1), (''VME'', 1), (''DE'', 1), (''PSE'', 1), (''TSC'', 1), (''MSR'', 1), (''PAE'', 1), (''MCE'', 1),
     (''CX8'', 1), (''APIC'', 1), (''reserved2'', 1), (''SEP'', 1), (''MTRR'', 1), (''PGE'', 1), (''MCA'', 1),
     (''CMOV'', 1), (''PAT'', 1), (''PSE_36'', 1), (''PSN'', 1), (''CLFSH'', 1), (''reserved3'', 1), (''DS'', 1),
     (''ACPI'', 1), (''MMX'', 1), (''FXSR'', 1), (''SSE'', 1), (''SSE2'', 1), (''SS'', 1), (''HTT'', 1), (''TM'', 1),
     (''reserved4'', 1), (''PBE'', 1)]"

definition CR0_MP :: nat where "CR0_MP = field_offset CR0_fields ''MP''"
definition CR0_EM :: nat where "CR0_EM = field_offset CR0_fields ''EM''"
definition CR0_TS :: nat where "CR0_TS = field_offset CR0_fields ''TS''"
definition CR0_NE :: nat where "CR0_NE = field_offset CR0_fields ''NE''"

definition CR4_PGE :: nat where "CR4_PGE = field_offset CR4_fields ''PGE''"
definition CR4_OSFXSR :: nat where "CR4_OSFXSR = field_offset CR4_fields ''OSFXSR''"
definition CR4_OSXMMEXCPT :: nat where "CR4_OSXMMEXCPT = field_offset CR4_fields ''OSXMMEXCPT''"
definition CR4_SMXE :: nat where "CR4_SMXE = field_offset CR4_fields ''SMXE''"
definition CR4_OSXSAVE :: nat where "CR4_OSXSAVE = field_offset CR4_fields ''OSXSAVE''"

definition XCR0_SSE :: nat where "XCR0_SSE = field_offset XCR0_fields ''SSE''"
definition XCR0_AVX :: nat where "XCR0_AVX = field_offset XCR0_fields ''AVX''"

text \<open>The fields that the program sets are where the architecture has them, and every structure fills its register.\<close>

lemma register_bits:
  "CR0_MP = 1" "CR0_EM = 2" "CR0_TS = 3" "CR0_NE = 5" "CR4_PGE = 7" "CR4_OSFXSR = 9" "CR4_OSXMMEXCPT = 10" "CR4_SMXE = 14" "CR4_OSXSAVE = 18" "XCR0_SSE = 1" "XCR0_AVX = 2"
  by (simp_all add: CR0_MP_def CR0_EM_def CR0_TS_def CR0_NE_def CR4_PGE_def CR4_OSFXSR_def CR4_OSXMMEXCPT_def CR4_SMXE_def
      CR4_OSXSAVE_def XCR0_SSE_def XCR0_AVX_def CR0_fields_def CR4_fields_def XCR0_fields_def)

lemma register_widths:
  "sum_list (map snd CR0_fields) = 64" "sum_list (map snd CR4_fields) = 64" "sum_list (map snd XCR0_fields) = 64"
  "sum_list (map snd CPUFeatures_ecx_fields) = 32" "sum_list (map snd CPUFeatures_edx_fields) = 32"
  by (simp_all add: CR0_fields_def CR4_fields_def XCR0_fields_def CPUFeatures_ecx_fields_def CPUFeatures_edx_fields_def)

definition CPUEnableGPE :: "cpu \<Rightarrow> cpu" where
  "CPUEnableGPE c = c\<lparr>cr4 := set_bit CR4_PGE (cr4 c)\<rparr>"

definition CPUEnableFPU :: "cpu \<Rightarrow> cpu" where
  "CPUEnableFPU c =
     (let v = cr0 c; v = set_bit CR0_MP v; v = unset_bit CR0_EM v; v = set_bit CR0_NE v; v = unset_bit CR0_TS v in
      c\<lparr>cr0 := v\<rparr>)"

text \<open>
  The union of \<^verbatim>\<open>XCR0\<close> names its low half \<^verbatim>\<open>edx\<close> and its high half \<^verbatim>\<open>eax\<close>; the instructions deliver
  and take the low half of the register in EAX.
\<close>

definition CPUEnableXSAVE :: "cpu \<Rightarrow> cpu" where
  "CPUEnableXSAVE c =
     (let c = c\<lparr>cr4 := set_bit CR4_OSXSAVE (cr4 c)\<rparr>;
          eax = ucast (xcr0 c) :: u32; edx = ucast (drop_bit 32 (xcr0 c)) :: u32;
          v = ucast edx OR push_bit 32 (ucast eax) :: u64;
          v = set_bit XCR0_AVX v; v = set_bit XCR0_SSE v;
          edx = ucast v :: u32; eax = ucast (drop_bit 32 v) :: u32 in
      c\<lparr>xcr0 := ucast eax OR push_bit 32 (ucast edx)\<rparr>)"

definition CPUEnableAVX :: "cpu \<Rightarrow> cpu" where
  "CPUEnableAVX c = c\<lparr>cr4 := set_bit CR4_SMXE (cr4 c)\<rparr>"

definition CPUEnableSSE :: "cpu \<Rightarrow> cpu" where
  "CPUEnableSSE c = c\<lparr>cr4 := set_bit CR4_OSXMMEXCPT (set_bit CR4_OSFXSR (cr4 c))\<rparr>"

definition rdmsr :: "u32 \<Rightarrow> cpu \<Rightarrow> u64" where
  "rdmsr r c =
     (let eax = ucast (msr c r) :: u32; edx = ucast (drop_bit 32 (msr c r)) :: u32 in
      push_bit 32 (ucast edx) OR ucast eax)"

definition wrmsr :: "u32 \<Rightarrow> u64 \<Rightarrow> cpu \<Rightarrow> cpu" where
  "wrmsr r v c =
     (let edx = ucast (drop_bit 32 v) :: u32; eax = ucast v :: u32 in
      c\<lparr>msr := (msr c)(r := push_bit 32 (ucast edx) OR ucast eax)\<rparr>)"

definition flushTLB :: "cpu \<Rightarrow> cpu" where
  "flushTLB c = (let v = cr3 c in c\<lparr>cr3 := v\<rparr>)"

definition CR3 :: "cpu \<Rightarrow> u64" where
  "CR3 c = cr3 c"

definition disablePICAndNMI :: "cpu \<Rightarrow> cpu" where
  "disablePICAndNMI c =
     (let p = (port c)(0x21 := 0xFF, 0xA1 := 0xFF) in c\<lparr>port := p(0x70 := p 0x70 OR 0x80)\<rparr>)"

text \<open>
  \<open>tsc n\<close> is what the \<open>n\<close>-th reading of the time stamp counter gives; the result is the number of
  readings that the loop made.
\<close>

fun wait_loop :: "nat \<Rightarrow> (nat \<Rightarrow> u64) \<Rightarrow> nat \<Rightarrow> u64 \<Rightarrow> nat option" where
  "wait_loop 0 tsc n endInCycles = None"
| "wait_loop (Suc fuel) tsc n endInCycles = (if tsc n < endInCycles then wait_loop fuel tsc (n + 1) endInCycles else Some (n + 1))"

definition wait :: "nat \<Rightarrow> (nat \<Rightarrow> u64) \<Rightarrow> u64 \<Rightarrow> u64 \<Rightarrow> nat option" where
  "wait fuel tsc cyclesPerMicroSecond microSeconds =
     (let endInCycles = tsc 0 + microSeconds * cyclesPerMicroSecond in wait_loop fuel tsc 1 endInCycles)"

definition CALIBRATION_MICROSECONDS :: u64 where "CALIBRATION_MICROSECONDS = 100"

definition calibrateWait :: "u64 \<Rightarrow> u64 \<Rightarrow> u64" where
  "calibrateWait currentCycles endCycles = endCycles - currentCycles div CALIBRATION_MICROSECONDS"

section \<open>Every fault reaches its handler\<close>

text \<open>The address the processor takes from a gate, and its gate type with privilege and present bit.\<close>

definition gate_target :: "InterruptDescriptor \<Rightarrow> u64" where
  "gate_target d = ucast (offset_1 d) OR push_bit 16 (ucast (offset_2 d)) OR push_bit 32 (ucast (offset_3 d))"

definition gate_ok :: "InterruptDescriptor \<Rightarrow> bool" where
  "gate_ok d \<longleftrightarrow> bit (type_attributes d) 7 \<and> drop_bit 5 (type_attributes d) AND 3 = 0 \<and> type_attributes d AND 0xF = 0xE \<and>
     ist d = 0 \<and> zero d = 0"

lemma low_masks:
  "(0xFF :: u64) = mask 8" "(0xFFFF :: u64) = mask 16" "(0xFFFFFFFF :: u64) = mask 32"
  by (simp_all add: mask_eq_exp_minus_1)

lemma gate_target_set:
  assumes "unat num < length idt"
  shows "gate_target (idt_set_gate num base g idt ! unat num) = base"
proof (rule bit_word_eqI)
  fix n :: nat
  assume "n < LENGTH(64)"
  then show "bit (gate_target (idt_set_gate num base g idt ! unat num)) n = bit base n"
    using assms by (cases "n < 16"; cases "n < 32") (auto simp: gate_target_def idt_set_gate_def low_masks bit_simps)
qed

lemma length_idt_set_gate [simp]: "length (idt_set_gate num base g idt) = length idt"
  by (simp add: idt_set_gate_def)

lemma idt_set_gate_other: "n \<noteq> unat num \<Longrightarrow> idt_set_gate num base g idt ! n = idt ! n"
  by (simp add: idt_set_gate_def)

lemma initIDT_prefix:
  fixes isr :: "nat \<Rightarrow> u64"
  assumes "length idt = 256" "m \<le> 256"
  defines "r \<equiv> fold (\<lambda>n. idt_set_gate (of_nat n) (isr n) INTERRUPT_GATE) [0..<m] idt"
  shows "length r = 256 \<and> (\<forall>n < m. gate_target (r ! n) = isr n \<and> gate_ok (r ! n) \<and> selector (r ! n) = 8)"
  using assms(2) unfolding r_def
proof (induction m)
  case (Suc m)
  let ?r = "fold (\<lambda>n. idt_set_gate (of_nat n) (isr n) INTERRUPT_GATE) [0..<m] idt"
  have IH: "length ?r = 256" "\<And>n. n < m \<Longrightarrow> gate_target (?r ! n) = isr n \<and> gate_ok (?r ! n) \<and> selector (?r ! n) = 8"
    using Suc by simp_all
  have u: "unat (of_nat m :: u8) = m" using Suc.prems by (intro unat_of_nat_lt) simp
  let ?s = "idt_set_gate (of_nat m) (isr m) INTERRUPT_GATE ?r"
  have new: "gate_target (?s ! m) = isr m" using gate_target_set [of "of_nat m" ?r "isr m" INTERRUPT_GATE] IH(1) Suc.prems u by simp
  have "gate_ok (?s ! m) \<and> selector (?s ! m) = 8" using IH(1) Suc.prems u by (simp add: idt_set_gate_def gate_ok_def)
  then have "gate_target (?s ! n) = isr n \<and> gate_ok (?s ! n) \<and> selector (?s ! n) = 8" if "n < Suc m" for n
    using new that IH(2) u by (cases "n = m") (auto simp: idt_set_gate_other)
  then show ?case using IH(1) by simp
qed (simp add: assms(1))

lemma triggerFault_number: "unat (triggerFault f) = unat (fault_number f)"
  by (cases f) simp_all

text \<open>
  After the set-up every fault reaches its own handler: the gate of the vector that
  \<^verbatim>\<open>triggerFault\<close> raises is a present interrupt gate of the kernel code segment and leads to the stub
  with the number of the fault; the table has a gate for each of the 256 vectors and the limit of the
  register covers exactly the table.
\<close>

theorem initIDT_fault_reaches_handler:
  assumes "length idt = 256" "initIDT isr a idt = (idt', r)"
  shows "gate_target (idt' ! unat (triggerFault f)) = isr (unat (fault_number f)) \<and>
     list_all (\<lambda>g. gate_ok g \<and> selector g = 0x08) idt' \<and> map gate_target idt' = map isr [0..<256] \<and>
     dtr_base r = a \<and> unat (dtr_limit r) + 1 = 16 * length idt'"
proof -
  have i: "idt' = fold (\<lambda>n. idt_set_gate (of_nat n) (isr n) INTERRUPT_GATE) [0..<256] idt" "r = \<lparr>dtr_limit = 16 * 256 - 1, dtr_base = a\<rparr>"
    using assms(2) by (simp_all only: initIDT_def prod.inject)
  have l: "length idt' = 256" and g: "\<And>n. n < 256 \<Longrightarrow> gate_target (idt' ! n) = isr n \<and> gate_ok (idt' ! n) \<and> selector (idt' ! n) = 8"
    using initIDT_prefix [OF assms(1), of 256 isr] unfolding i(1) [symmetric] by simp_all
  have "unat (triggerFault f) < 256" by (rule unat_lt_u8)
  moreover have "map gate_target idt' = map isr [0..<256]" using l g by (intro nth_equalityI) simp_all
  moreover have "list_all (\<lambda>g. gate_ok g \<and> selector g = 0x08) idt'" using l g by (simp add: list_all_length)
  ultimately show ?thesis using g triggerFault_number [of f] l by (simp add: i(2))
qed

theorem initIDT_fault_reaches_handler_witness:
  "let idt' = fst (initIDT (\<lambda>n. 0x400000 + 16 * of_nat n) 0x1000 (replicate 256 undefined)) in
     gate_target (idt' ! unat (triggerFault FAULT_PAGE_FAULT)) = 0x4000E0"
  using initIDT_fault_reaches_handler [of "replicate 256 undefined" "\<lambda>n. 0x400000 + 16 * of_nat n" "0x1000"
      "fst (initIDT (\<lambda>n. 0x400000 + 16 * of_nat n) 0x1000 (replicate 256 undefined))"
      "snd (initIDT (\<lambda>n. 0x400000 + 16 * of_nat n) 0x1000 (replicate 256 undefined))" FAULT_PAGE_FAULT]
  by (simp add: Let_def)

section \<open>Segments\<close>

text \<open>What the processor reads from a descriptor: the base (of both halves for a system segment) and the limit.\<close>

definition descriptor_base :: "u64 \<Rightarrow> u64 \<Rightarrow> u64" where
  "descriptor_base low high = (drop_bit 16 low AND 0xFFFFFF) OR push_bit 24 (drop_bit 56 low) OR push_bit 32 high"

definition descriptor_limit :: "u64 \<Rightarrow> u64" where
  "descriptor_limit low = (low AND 0xFFFF) OR push_bit 16 (drop_bit 48 low AND 0xF)"

lemma bit_pack_fields: "bit (pack_fields ((n, v) # fs)) i \<longleftrightarrow> i < 64 \<and> (if i < n then bit v i else bit (pack_fields fs) (i - n))"
  by (auto simp: bit_simps dest: bit_imp_le_length)

lemma tss_halves:
  "gdt_values (fst (snd (prepNewGDT page0 page1))) ! 3 = pack_fields
     [(16, 103), (16, page0 AND mask 16), (8, drop_bit 16 page0 AND mask 8), (4, 9), (1, 0), (2, 0), (1, 1),
      (4, 0), (1, 0), (1, 0), (1, 0), (1, 0), (8, drop_bit 24 page0 AND mask 8)]"
  "gdt_values (fst (snd (prepNewGDT page0 page1))) ! 4 = drop_bit 32 page0"
proof -
  show "gdt_values (fst (snd (prepNewGDT page0 page1))) ! 3 = pack_fields
     [(16, 103), (16, page0 AND mask 16), (8, drop_bit 16 page0 AND mask 8), (4, 9), (1, 0), (2, 0), (1, 1),
      (4, 0), (1, 0), (1, 0), (1, 0), (1, 0), (8, drop_bit 24 page0 AND mask 8)]"
    unfolding prepNewGDT_def Let_def gdt_values_def tss_values_def segment_value_def low_masks
    by (simp add: SIZEOF_TSS_def del: pack_fields.simps)
  have "gdt_values (fst (snd (prepNewGDT page0 page1))) ! 4 = pack_fields [(32, drop_bit 32 page0 AND mask 32), (8, 0), (5, 0), (19, 0)]"
    unfolding prepNewGDT_def Let_def gdt_values_def tss_values_def segment_value_def low_masks
    by (simp del: pack_fields.simps)
  also have "\<dots> = drop_bit 32 page0" by (intro bit_word_eqI) (auto simp: bit_pack_fields bit_simps dest: bit_imp_le_length simp del: pack_fields.simps(2))
  finally show "gdt_values (fst (snd (prepNewGDT page0 page1))) ! 4 = drop_bit 32 page0" .
qed

lemma tss_descriptor:
  fixes page0 page1 :: u64
  defines "g \<equiv> fst (snd (prepNewGDT page0 page1))"
  shows "descriptor_base (gdt_values g ! 3) (gdt_values g ! 4) = page0" "descriptor_limit (gdt_values g ! 3) = 103"
proof -
  have m: "(0xFFFFFF :: u64) = mask 24" "(0xF :: u64) = mask 4" by (simp_all add: mask_eq_exp_minus_1)
  show "descriptor_base (gdt_values g ! 3) (gdt_values g ! 4) = page0"
    unfolding g_def tss_halves descriptor_base_def m
    by (intro bit_word_eqI) (auto simp: bit_pack_fields bit_simps simp del: pack_fields.simps(2))
  have b: "n < 7" if "bit (103 :: int) n" for n
  proof -
    have "(103 :: int) AND mask 7 = 103" by (simp add: mask_eq_exp_minus_1)
    then have "bit ((103 :: int) AND mask 7) n" using that by simp
    then show ?thesis by (simp only: bit_and_iff bit_mask_iff)
  qed
  show "descriptor_limit (gdt_values g ! 3) = 103"
    unfolding g_def tss_halves descriptor_limit_def m low_masks
    by (intro bit_word_eqI) (auto simp: bit_pack_fields bit_simps dest!: b simp del: pack_fields.simps(2))
qed

text \<open>
  The table set up for the kernel: the null descriptor, a 64-bit code segment, a data segment and
  the task state segment, whose descriptor gives back the full address of its page; the selectors that
  are then loaded pick exactly these entries, the gates of the interrupt table select the code segment,
  and the register's limit covers the five quadwords.
\<close>

theorem gdt_selectors_correct:
  assumes "prepNewGDT page0 page1 = (io, g, r)" "c' = enableNewGDT r c"
  shows "gdt_values g ! 0 = 0 \<and> gdt_values g ! (unat (reg_cs c') div 8) = 0x00AF9A000000FFFF \<and>
     gdt_values g ! (unat (reg_ds c') div 8) = 0x00CF92000000FFFF \<and> reg_ss c' = reg_ds c' \<and>
     descriptor_base (gdt_values g ! (unat (reg_tr c') div 8)) (gdt_values g ! (unat (reg_tr c') div 8 + 1)) = page0 \<and>
     descriptor_limit (gdt_values g ! (unat (reg_tr c') div 8)) = 103 \<and> io = 104 \<and>
     dtr_base (gdtr c') = page1 \<and> unat (dtr_limit (gdtr c')) + 1 = 8 * length (gdt_values g)"
proof -
  have e: "io = 104" "r = \<lparr>dtr_limit = 39, dtr_base = page1\<rparr>" "g = fst (snd (prepNewGDT page0 page1))"
    using assms(1) by (auto simp: prepNewGDT_def Let_def SIZEOF_TSS_def)
  have v: "gdt_values g ! 0 = 0" "gdt_values g ! 1 = 0x00AF9A000000FFFF" "gdt_values g ! 2 = 0x00CF92000000FFFF" "length (gdt_values g) = 5"
    unfolding e(3) by (simp_all add: prepNewGDT_def Let_def gdt_values_def segment_value_def tss_values_def)
  have base: "descriptor_base (gdt_values g ! 3) (gdt_values g ! 4) = page0" and lim: "descriptor_limit (gdt_values g ! 3) = 103"
    unfolding e(3) by (rule tss_descriptor)+
  show ?thesis using v base lim e(1,2) assms(2) by (simp add: enableNewGDT_def)
qed

theorem gdt_selectors_correct_witness:
  "gdt_values (fst (snd (prepNewGDT 0x123456789000 0x2000))) ! 0 = 0 \<and>
   descriptor_base (gdt_values (fst (snd (prepNewGDT 0x123456789000 0x2000))) ! 3) (gdt_values (fst (snd (prepNewGDT 0x123456789000 0x2000))) ! 4) = 0x123456789000"
  using gdt_selectors_correct [of "0x123456789000" "0x2000" "fst (prepNewGDT 0x123456789000 0x2000)" "fst (snd (prepNewGDT 0x123456789000 0x2000))"
      "snd (snd (prepNewGDT 0x123456789000 0x2000))" "enableNewGDT (snd (snd (prepNewGDT 0x123456789000 0x2000))) undefined" undefined]
  by (simp add: enableNewGDT_def)

section \<open>Control registers\<close>

text \<open>
  Enabling XSAVE sets bits 33 and 34 of the extended control register and leaves the bits of the
  SSE and AVX state as they were: the union has the halves of the register the wrong way round.
\<close>

theorem CPUEnableXSAVE_sets_reserved_bits:
  "bit (xcr0 (CPUEnableXSAVE c)) 33 \<and> bit (xcr0 (CPUEnableXSAVE c)) 34 \<and>
   bit (xcr0 (CPUEnableXSAVE c)) XCR0_SSE = bit (xcr0 c) XCR0_SSE \<and> bit (xcr0 (CPUEnableXSAVE c)) XCR0_AVX = bit (xcr0 c) XCR0_AVX"
  by (simp add: CPUEnableXSAVE_def Let_def register_bits bit_simps)

text \<open>
  A model-specific register written in two halves is read back whole, and writing one register
  leaves all others alone.
\<close>

theorem wrmsr_rdmsr: "rdmsr r' (wrmsr r v c) = (if r' = r then v else rdmsr r' c)"
proof -
  have halves: "push_bit 32 (ucast (ucast (drop_bit 32 w) :: u32)) OR ucast (ucast w :: u32) = w" for w :: u64
    by (intro bit_word_eqI) (auto simp: bit_simps dest: bit_imp_le_length)
  show ?thesis by (simp add: rdmsr_def wrmsr_def Let_def halves)
qed

lemma wait_loop_returns:
  assumes "n \<le> k" "k < n + fuel" "\<not> tsc k < e" "\<And>i. n \<le> i \<Longrightarrow> i < k \<Longrightarrow> tsc i < e"
  shows "wait_loop fuel tsc n e = Some (k + 1)"
  using assms
proof (induction fuel arbitrary: n)
  case (Suc fuel)
  then show ?case by (cases "n = k") auto
qed simp

text \<open>
  Waiting ends at the first reading of the counter that has reached the end of the interval, if
  there is one.
\<close>

theorem wait_returns:
  assumes "0 < k" "k \<le> fuel" "tsc 0 + us * cycles \<le> tsc k" "\<forall>i. 0 < i \<and> i < k \<longrightarrow> tsc i < tsc 0 + us * cycles"
  shows "wait fuel tsc cycles us = Some (k + 1)"
  using wait_loop_returns [of 1 k fuel tsc "tsc 0 + us * cycles"] assms by (auto simp: wait_def Let_def)

theorem wait_returns_witness: "wait 10 (\<lambda>n. 100 * of_nat n) 50 8 = Some 5"
proof -
  have "\<forall>i. 0 < i \<and> i < (4 :: nat) \<longrightarrow> (100 * of_nat i :: u64) < 400"
  proof (intro allI impI)
    fix i :: nat assume "0 < i \<and> i < 4"
    then have "i = 1 \<or> i = 2 \<or> i = 3" by auto
    then show "(100 * of_nat i :: u64) < 400" by auto
  qed
  then show ?thesis using wait_returns [of 4 10 "\<lambda>n. 100 * of_nat n" 8 50] by simp
qed

text \<open>
  The calibration subtracts a hundredth of the first reading from the second one: after a
  hundred microseconds of a thousand cycles each, on a counter that started at a million, it yields
  more than a million cycles per microsecond.
\<close>

theorem calibrateWait_precedence: "calibrateWait 1000000 (1000000 + 100 * 1000) = 1090000"
  by (simp add: calibrateWait_def CALIBRATION_MICROSECONDS_def)

end
