(* ===== verification/Log.thy ===== *)
theory Log
  imports Allocator
begin

text \<open>
  The logs of the three environments (\<^verbatim>\<open>freestanding/log\<close>, \<^verbatim>\<open>efi/log\<close>, \<^verbatim>\<open>posix/log\<close>): a flush buffer
  that collects bytes and is emptied into the environment's sink when it is full or when a message
  asks for it. The environments share the appending loop and the handling of the flags; they differ in
  the sink, which is the screen, the firmware's console or a file descriptor. The interface \<open>log_sink\<close>
  states what a sink promises and carries the correctness of the loop for all of them. What
  \<^verbatim>\<open>flushToScreen\<close>, the firmware's \<^verbatim>\<open>output_string\<close> and the system call \<^verbatim>\<open>write\<close> do with the bytes
  is an argument.
\<close>

section \<open>The flush buffer\<close>

definition NEWLINE :: u8 where "NEWLINE = 1"
definition FLUSH :: u8 where "FLUSH = 2"

record U8_max_a =
  max_buf :: bytes
  max_len :: nat
  max_cap :: nat

text \<open>
  A sink takes the bytes of the buffer and its own state; it returns whether it succeeded, or does not
  return. The buffer is empty afterwards in either case.
\<close>

type_synonym 'o sink = "bytes \<Rightarrow> 'o \<Rightarrow> (bool \<times> 'o) option"

definition flush_with :: "'o sink \<Rightarrow> U8_max_a \<Rightarrow> 'o \<Rightarrow> (bool \<times> U8_max_a \<times> 'o) option" where
  "flush_with sink b out =
     (case sink (take (max_len b) (max_buf b)) out of
        None \<Rightarrow> None | Some (r, out) \<Rightarrow> Some (r, b\<lparr>max_len := 0\<rparr>, out))"

definition handleFlags :: "'o sink \<Rightarrow> u8 \<Rightarrow> U8_max_a \<Rightarrow> 'o \<Rightarrow> (bool \<times> U8_max_a \<times> 'o) option" where
  "handleFlags sink flags b out =
     (case (if flags AND NEWLINE \<noteq> 0 then
              (case (if max_len b \<ge> max_cap b then flush_with sink b out else Some (True, b, out)) of
                 None \<Rightarrow> None
               | Some (r, b, out) \<Rightarrow>
                   if \<not> r then Some (False, b, out)
                   else Some (True, b\<lparr>max_buf := (max_buf b)[max_len b := 10], max_len := max_len b + 1\<rparr>, out))
            else Some (True, b, out)) of
        None \<Rightarrow> None
      | Some (r, b, out) \<Rightarrow>
          if \<not> r then Some (False, b, out)
          else if flags AND FLUSH \<noteq> 0 then flush_with sink b out
          else Some (True, b, out))"

text \<open>\<open>piece w k\<close>: the \<open>k\<close> bytes the round stores when \<open>w\<close> bytes were stored before it.\<close>

primrec append_loop :: "'o sink \<Rightarrow> nat \<Rightarrow> (nat \<Rightarrow> nat \<Rightarrow> bytes) \<Rightarrow> nat \<Rightarrow> nat \<Rightarrow> U8_max_a \<Rightarrow> 'o \<Rightarrow> (bool \<times> U8_max_a \<times> 'o) option" where
  "append_loop sink 0 piece n w b out = None"
| "append_loop sink (Suc fuel) piece n w b out =
     (if \<not> w < n then Some (True, b, out)
      else
        let spaceInBuffer = max_cap b - max_len b; dataToWrite = n - w; bytesToWrite = min spaceInBuffer dataToWrite;
            b = b\<lparr>max_buf := take (max_len b) (max_buf b) @ piece w bytesToWrite @ drop (max_len b + bytesToWrite) (max_buf b),
                  max_len := max_len b + bytesToWrite\<rparr>;
            w = w + bytesToWrite in
        if max_cap b = max_len b then
          (case flush_with sink b out of
             None \<Rightarrow> None
           | Some (r, b, out) \<Rightarrow> if \<not> r then Some (False, b, out) else append_loop sink fuel piece n w b out)
        else append_loop sink fuel piece n w b out)"

definition append_with :: "'o sink \<Rightarrow> (nat \<Rightarrow> nat \<Rightarrow> bytes) \<Rightarrow> nat \<Rightarrow> u8 \<Rightarrow> U8_max_a \<Rightarrow> 'o \<Rightarrow> (bool \<times> U8_max_a \<times> 'o) option" where
  "append_with sink piece n flags b out =
     (case append_loop sink (n + 2) piece n 0 b out of
        None \<Rightarrow> None
      | Some (r, b, out) \<Rightarrow> if \<not> r then Some (False, b, out) else handleFlags sink flags b out)"

section \<open>Freestanding\<close>

definition FLUSH_BUFFER_SIZE :: u64 where "FLUSH_BUFFER_SIZE = 2 * 0x100000"

text \<open>\<^verbatim>\<open>initLogger\<close>: the address of the buffer, which is empty, and the arena behind it.\<close>

definition initLogger :: "memory \<Rightarrow> Arena \<Rightarrow> (addr \<times> U8_max_a \<times> memory \<times> Arena) control" where
  "initLogger m perm =
     (case alloc m perm 1 1 FLUSH_BUFFER_SIZE 0 of
        Ret (p, m, perm) \<Rightarrow>
          Ret (p, \<lparr>max_buf = load_bytes m p (unat FLUSH_BUFFER_SIZE), max_len = 0, max_cap = unat FLUSH_BUFFER_SIZE\<rparr>, m, perm)
      | Jump \<Rightarrow> Jump | Stuck \<Rightarrow> Stuck)"

definition screen_sink :: "(bytes \<Rightarrow> 's \<Rightarrow> 's) \<Rightarrow> 's sink" where
  "screen_sink flushToScreen bs s = Some (True, flushToScreen bs s)"

definition freestanding_appendToFlushBuffer where
  "freestanding_appendToFlushBuffer flushToScreen data flags b s =
     append_with (screen_sink flushToScreen) (\<lambda>w k. take k (drop w data)) (length data) flags b s"

definition freestanding_appendZeroToFlushBuffer where
  "freestanding_appendZeroToFlushBuffer flushToScreen n flags b s =
     append_with (screen_sink flushToScreen) (\<lambda>w k. replicate k 0) n flags b s"

definition freestanding_flushStandardBuffer where
  "freestanding_flushStandardBuffer flushToScreen b s = flush_with (screen_sink flushToScreen) b s"

section \<open>EFI\<close>

text \<open>
  The console gets one string per byte; the characters it is given, without the terminating zeros, are
  the state of the sink.
\<close>

definition efi_char :: "u8 \<Rightarrow> u16 list" where
  "efi_char c = (if c = 10 then [13, 10] else takeWhile (\<lambda>u. u \<noteq> 0) [ucast c, 0])"

fun efi_flush_loop :: "bytes \<Rightarrow> u16 list \<Rightarrow> u16 list" where
  "efi_flush_loop [] con_out = con_out"
| "efi_flush_loop (c # cs) con_out = efi_flush_loop cs (con_out @ efi_char c)"

definition efi_sink :: "u16 list sink" where
  "efi_sink bs con_out = Some (True, efi_flush_loop bs con_out)"

definition efi_flushBuf :: U8_max_a where
  "efi_flushBuf = \<lparr>max_buf = replicate 0x800 0, max_len = 0, max_cap = 0x800\<rparr>"

definition efi_appendToFlushBuffer :: "bytes \<Rightarrow> u8 \<Rightarrow> U8_max_a \<Rightarrow> u16 list \<Rightarrow> (bool \<times> U8_max_a \<times> u16 list) option" where
  "efi_appendToFlushBuffer data flags b con_out =
     append_with efi_sink (\<lambda>w k. take k (drop w data)) (length data) flags b con_out"

definition efi_appendZeroToFlushBuffer :: "nat \<Rightarrow> u8 \<Rightarrow> U8_max_a \<Rightarrow> u16 list \<Rightarrow> (bool \<times> U8_max_a \<times> u16 list) option" where
  "efi_appendZeroToFlushBuffer n flags b con_out =
     append_with efi_sink (\<lambda>w k. replicate k 0) n flags b con_out"

definition efi_flushStandardBuffer :: "U8_max_a \<Rightarrow> u16 list \<Rightarrow> (bool \<times> U8_max_a \<times> u16 list) option" where
  "efi_flushStandardBuffer b con_out = flush_with efi_sink b con_out"

section \<open>POSIX\<close>

record WriteBuffer =
  wb_array :: U8_max_a
  fileDescriptor :: nat

definition STDOUT_FILENO :: nat where "STDOUT_FILENO = 1"
definition STDERR_FILENO :: nat where "STDERR_FILENO = 2"

text \<open>
  \<open>write fd bs w\<close> is the system call: the number of bytes it took, negative for an error, and the
  state after it. The loop ends only if it makes progress.
\<close>

primrec flushBufferWithFileDescriptor :: "(nat \<Rightarrow> bytes \<Rightarrow> 'w \<Rightarrow> int \<times> 'w) \<Rightarrow> nat \<Rightarrow> nat \<Rightarrow> bytes \<Rightarrow> nat \<Rightarrow> 'w \<Rightarrow> (bool \<times> 'w) option" where
  "flushBufferWithFileDescriptor write 0 fd buffer bytesWritten w = None"
| "flushBufferWithFileDescriptor write (Suc fuel) fd buffer bytesWritten w =
     (if \<not> bytesWritten < length buffer then Some (True, w)
      else case write fd (drop bytesWritten buffer) w of
        (partialBytesWritten, w) \<Rightarrow>
          if partialBytesWritten < 0 then Some (False, w)
          else flushBufferWithFileDescriptor write fuel fd buffer (bytesWritten + nat partialBytesWritten) w)"

definition posix_sink :: "(nat \<Rightarrow> bytes \<Rightarrow> 'w \<Rightarrow> int \<times> 'w) \<Rightarrow> nat \<Rightarrow> 'w sink" where
  "posix_sink write fd bs w = flushBufferWithFileDescriptor write (length bs + 1) fd bs 0 w"

definition on_array :: "WriteBuffer \<Rightarrow> (bool \<times> U8_max_a \<times> 'w) option \<Rightarrow> (bool \<times> WriteBuffer \<times> 'w) option" where
  "on_array wb = map_option (\<lambda>(r, b, w). (r, wb\<lparr>wb_array := b\<rparr>, w))"

definition flushBufferWithWriter where
  "flushBufferWithWriter write wb w = on_array wb (flush_with (posix_sink write (fileDescriptor wb)) (wb_array wb) w)"

text \<open>\<^verbatim>\<open>flushBuffer\<close> works on a copy of the buffer and empties the original only after a success.\<close>

definition posix_flushBuffer where
  "posix_flushBuffer write b w =
     (case flushBufferWithWriter write \<lparr>wb_array = b, fileDescriptor = STDOUT_FILENO\<rparr> w of
        None \<Rightarrow> None
      | Some (r, _, w) \<Rightarrow> Some (r, if r then b\<lparr>max_len := 0\<rparr> else b, w))"

definition appendToFlushBufferWithWriter where
  "appendToFlushBufferWithWriter write data flags wb w =
     on_array wb (append_with (posix_sink write (fileDescriptor wb)) (\<lambda>i k. take k (drop i data)) (length data) flags (wb_array wb) w)"

definition appendZeroToFlushBufferWithWriter where
  "appendZeroToFlushBufferWithWriter write n flags wb w =
     on_array wb (append_with (posix_sink write (fileDescriptor wb)) (\<lambda>i k. replicate k 0) n flags (wb_array wb) w)"

datatype BufferType = STDOUT | STDERR

record 'w posix_log =
  stdoutBuffer :: WriteBuffer
  stderrBuffer :: WriteBuffer
  os :: 'w

definition getWriteBuffer :: "BufferType \<Rightarrow> 'w posix_log \<Rightarrow> WriteBuffer" where
  "getWriteBuffer t s = (if t = STDOUT then stdoutBuffer s else stderrBuffer s)"

definition put_back :: "BufferType \<Rightarrow> 'w posix_log \<Rightarrow> (bool \<times> WriteBuffer \<times> 'w) option \<Rightarrow> (bool \<times> 'w posix_log) option" where
  "put_back t s = map_option (\<lambda>(r, wb, w). (r, (if t = STDOUT then s\<lparr>stdoutBuffer := wb\<rparr> else s\<lparr>stderrBuffer := wb\<rparr>)\<lparr>os := w\<rparr>))"

definition posix_appendToFlushBuffer where
  "posix_appendToFlushBuffer write data flags s =
     put_back STDOUT s (appendToFlushBufferWithWriter write data flags (stdoutBuffer s) (os s))"

definition posix_appendZeroToFlushBuffer where
  "posix_appendZeroToFlushBuffer write n flags s =
     put_back STDOUT s (appendZeroToFlushBufferWithWriter write n flags (stdoutBuffer s) (os s))"

definition posix_flushStandardBuffer where
  "posix_flushStandardBuffer write s = put_back STDOUT s (flushBufferWithWriter write (stdoutBuffer s) (os s))"

datatype AnsiColor = COLOR_RED | COLOR_GREEN | COLOR_YELLOW | COLOR_BLUE | COLOR_MAGENTA | COLOR_CYAN | COLOR_RESET

fun ansiColorToCode :: "AnsiColor \<Rightarrow> bytes" where
  "ansiColorToCode COLOR_RED = [0x1b, 0x5b, 0x33, 0x31, 0x6d]"
| "ansiColorToCode COLOR_GREEN = [0x1b, 0x5b, 0x33, 0x32, 0x6d]"
| "ansiColorToCode COLOR_YELLOW = [0x1b, 0x5b, 0x33, 0x33, 0x6d]"
| "ansiColorToCode COLOR_BLUE = [0x1b, 0x5b, 0x33, 0x34, 0x6d]"
| "ansiColorToCode COLOR_MAGENTA = [0x1b, 0x5b, 0x33, 0x35, 0x6d]"
| "ansiColorToCode COLOR_CYAN = [0x1b, 0x5b, 0x33, 0x36, 0x6d]"
| "ansiColorToCode COLOR_RESET = [0x1b, 0x5b, 0x30, 0x6d]"

definition appendColor where
  "appendColor write isatty color t s =
     (let wb = getWriteBuffer t s in
      put_back t s (appendToFlushBufferWithWriter write (if isatty (fileDescriptor wb) then ansiColorToCode color else []) 0 wb (os s)))"

definition appendColorReset where
  "appendColorReset write isatty t s =
     (let wb = getWriteBuffer t s in
      put_back t s (appendToFlushBufferWithWriter write
        (if isatty (fileDescriptor wb) then ansiColorToCode COLOR_RESET else []) 0 wb (os s)))"

section \<open>Nothing is lost and nothing is reordered\<close>

definition pending :: "U8_max_a \<Rightarrow> bytes" where
  "pending b = take (max_len b) (max_buf b)"

definition buffer_ok :: "U8_max_a \<Rightarrow> bool" where
  "buffer_ok b \<longleftrightarrow> 0 < max_cap b \<and> length (max_buf b) = max_cap b \<and> max_len b \<le> max_cap b"

text \<open>
  A sink for an output seen through \<open>out\<close>: it always returns, and on success it has appended the
  encoding of exactly the bytes it was given.
\<close>

locale log_sink =
  fixes sink :: "'o sink"
    and out :: "'o \<Rightarrow> 'c list"
    and enc :: "bytes \<Rightarrow> 'c list"
  assumes enc_append: "enc (xs @ ys) = enc xs @ enc ys"
    and sink_returns: "\<exists>r o'. sink bs s = Some (r, o')"
    and sink_emits: "sink bs s = Some (True, o') \<Longrightarrow> out o' = out s @ enc bs"
begin

definition stream :: "U8_max_a \<Rightarrow> 'o \<Rightarrow> 'c list" where
  "stream b s = out s @ enc (pending b)"

lemma enc_Nil [simp]: "enc [] = []"
  using enc_append [of "[]" "[]"] by simp

lemma flush_with_spec:
  assumes "buffer_ok b"
  shows "\<exists>r b' s'. flush_with sink b s = Some (r, b', s') \<and> buffer_ok b' \<and> max_len b' = 0 \<and> max_cap b' = max_cap b \<and>
     (r \<longrightarrow> out s' = stream b s)"
proof -
  obtain r s' where "sink (pending b) s = Some (r, s')" using sink_returns by blast
  then show ?thesis using assms sink_emits [of "pending b" s s']
    by (auto simp: flush_with_def pending_def buffer_ok_def stream_def)
qed

lemma append_loop_spec:
  assumes "buffer_ok b" "w \<le> n" "n - w + of_bool (max_len b = max_cap b) < fuel"
    and "\<And>w k. w + k \<le> n \<Longrightarrow> piece w k = take k (drop w data)" "length data = n"
  shows "\<exists>r b' s'. append_loop sink fuel piece n w b s = Some (r, b', s') \<and> buffer_ok b' \<and> max_cap b' = max_cap b \<and>
     (r \<longrightarrow> stream b' s' = stream b s @ enc (drop w data))"
  using assms(1-3)
proof (induction fuel arbitrary: w b s)
  case (Suc fuel)
  show ?case
  proof (cases "w < n")
    case False
    then show ?thesis using Suc.prems(1,2) assms(5) by (simp add: ex_bool_eq)
  next
    case True
    define k where "k = min (max_cap b - max_len b) (n - w)"
    define b' where "b' = b\<lparr>max_buf := take (max_len b) (max_buf b) @ piece w k @ drop (max_len b + k) (max_buf b), max_len := max_len b + k\<rparr>"
    have b: "0 < max_cap b" "length (max_buf b) = max_cap b" "max_len b \<le> max_cap b" using Suc.prems(1) by (auto simp: buffer_ok_def)
    have k: "w + k \<le> n" "max_len b + k \<le> max_cap b" "k = 0 \<Longrightarrow> max_len b = max_cap b" using True b by (auto simp: k_def)
    have pl: "piece w k = take k (drop w data)" "length (piece w k) = k" using assms(4) [OF k(1)] k(1) assms(5) by simp_all
    have ok': "buffer_ok b'" "max_cap b' = max_cap b" "max_len b' = max_len b + k" using b k pl by (auto simp: buffer_ok_def b'_def)
    have pend: "pending b' = pending b @ take k (drop w data)" using b k pl by (simp add: pending_def b'_def)
    have split: "drop w data = take k (drop w data) @ drop (w + k) data" by (metis append_take_drop_id drop_drop add.commute)
    have enc: "enc (drop w data) = enc (take k (drop w data)) @ enc (drop (w + k) data)" by (subst split) (rule enc_append)
    have str: "stream b' s = stream b s @ enc (take k (drop w data))" by (simp add: stream_def pend enc_append)
    have unf: "append_loop sink (Suc fuel) piece n w b s = (if max_cap b' = max_len b' then
        (case flush_with sink b' s of None \<Rightarrow> None
         | Some (r, b, s) \<Rightarrow> if \<not> r then Some (False, b, s) else append_loop sink fuel piece n (w + k) b s)
        else append_loop sink fuel piece n (w + k) b' s)"
      using True by (simp only: append_loop.simps Let_def not_True_eq_False if_False k_def [symmetric] b'_def [symmetric])
    have fuel: "n - (w + k) < fuel" using Suc.prems(3) k(3) True by (cases "k = 0") auto
    show ?thesis
    proof (cases "max_cap b' = max_len b'")
      case full: True
      obtain r b'' s'' where f: "flush_with sink b' s = Some (r, b'', s'')" "buffer_ok b''" "max_len b'' = 0"
          "max_cap b'' = max_cap b'" "r \<longrightarrow> out s'' = stream b' s"
        using flush_with_spec [OF ok'(1)] by blast
      show ?thesis
      proof (cases r)
        case True
        have "n - (w + k) + of_bool (max_len b'' = max_cap b'') < fuel" using fuel f(3,4) b(1) ok'(2) by simp
        then obtain r2 b2 s2 where r2: "append_loop sink fuel piece n (w + k) b'' s'' = Some (r2, b2, s2)" "buffer_ok b2"
            "max_cap b2 = max_cap b''" "r2 \<longrightarrow> stream b2 s2 = stream b'' s'' @ enc (drop (w + k) data)"
          using Suc.IH [OF f(2) k(1)] by blast
        have "stream b'' s'' = stream b' s" using f(3,5) True by (simp add: stream_def pending_def)
        then show ?thesis using unf full f r2 True ok'(2) enc str by auto
      next
        case False
        then show ?thesis using unf full f ok'(2) by auto
      qed
    next
      case False
      then have "n - (w + k) + of_bool (max_len b' = max_cap b') < fuel" using fuel by simp
      then obtain r2 b2 s2 where "append_loop sink fuel piece n (w + k) b' s = Some (r2, b2, s2)" "buffer_ok b2"
          "max_cap b2 = max_cap b'" "r2 \<longrightarrow> stream b2 s2 = stream b' s @ enc (drop (w + k) data)"
        using Suc.IH [OF ok'(1) k(1)] by blast
      then show ?thesis using unf False ok'(2) enc str by auto
    qed
  qed
qed simp

lemma newline_spec:
  assumes "buffer_ok b" "max_len b < max_cap b"
  defines "b' \<equiv> b\<lparr>max_buf := (max_buf b)[max_len b := 10], max_len := max_len b + 1\<rparr>"
  shows "buffer_ok b'" "max_cap b' = max_cap b" "stream b' s = stream b s @ enc [10]"
proof -
  have "pending b' = pending b @ [10]" using assms by (simp add: pending_def buffer_ok_def take_Suc_conv_app_nth)
  then show "stream b' s = stream b s @ enc [10]" by (simp add: stream_def enc_append)
qed (use assms in \<open>simp_all add: buffer_ok_def\<close>)

lemma handleFlags_spec:
  assumes "buffer_ok b"
  shows "\<exists>r b' s'. handleFlags sink flags b s = Some (r, b', s') \<and> buffer_ok b' \<and> max_cap b' = max_cap b \<and>
     (r \<longrightarrow> stream b' s' = stream b s @ (if flags AND NEWLINE \<noteq> 0 then enc [10] else []) \<and>
        (flags AND FLUSH \<noteq> 0 \<longrightarrow> pending b' = []))"
proof -
  let ?flush = "\<lambda>b s. if flags AND FLUSH \<noteq> 0 then flush_with sink b s else Some (True, b, s)"
  have fl: "\<exists>r b' s'. ?flush b1 s1 = Some (r, b', s') \<and> buffer_ok b' \<and> max_cap b' = max_cap b1 \<and>
      (r \<longrightarrow> stream b' s' = stream b1 s1 \<and> (flags AND FLUSH \<noteq> 0 \<longrightarrow> pending b' = []))" if "buffer_ok b1" for b1 s1
    using flush_with_spec [OF that, of s1] that by (auto simp: stream_def pending_def)
  have add: "\<exists>r b' s'. ?flush b1 s1 = Some (r, b', s') \<and> buffer_ok b' \<and> max_cap b' = max_cap b \<and>
      (r \<longrightarrow> stream b' s' = stream b s @ xs \<and> (flags AND FLUSH \<noteq> 0 \<longrightarrow> pending b' = []))"
    if "buffer_ok b1" "max_cap b1 = max_cap b" "stream b1 s1 = stream b s @ xs" for b1 s1 xs
    using fl [OF that(1), of s1] unfolding that(2,3) .
  show ?thesis
  proof (cases "flags AND NEWLINE = 0")
    case True
    then have "handleFlags sink flags b s = ?flush b s" by (simp add: handleFlags_def)
    then show ?thesis using add [OF assms refl, of s "[]"] True by simp
  next
    case nl: False
    show ?thesis
    proof (cases "max_len b < max_cap b")
      case True
      note n = newline_spec [OF assms True]
      have "handleFlags sink flags b s = ?flush (b\<lparr>max_buf := (max_buf b)[max_len b := 10], max_len := max_len b + 1\<rparr>) s"
        using nl True by (simp add: handleFlags_def)
      then show ?thesis using add [OF n] nl by simp
    next
      case False
      obtain r b1 s1 where f: "flush_with sink b s = Some (r, b1, s1)" "buffer_ok b1" "max_len b1 = 0"
          "max_cap b1 = max_cap b" "r \<longrightarrow> out s1 = stream b s"
        using flush_with_spec [OF assms] by blast
      have lt: "max_len b1 < max_cap b1" using f(2,3) by (simp add: buffer_ok_def)
      note n = newline_spec [OF f(2) lt]
      show ?thesis
      proof (cases r)
        case True
        then have "stream b1 s1 = stream b s" using f(3,5) by (simp add: stream_def pending_def)
        then have "stream (b1\<lparr>max_buf := (max_buf b1)[max_len b1 := 10], max_len := max_len b1 + 1\<rparr>) s1 = stream b s @ enc [10]"
          using n(3) by metis
        moreover have "handleFlags sink flags b s = ?flush (b1\<lparr>max_buf := (max_buf b1)[max_len b1 := 10], max_len := max_len b1 + 1\<rparr>) s1"
          using nl False f(1) True by (simp add: handleFlags_def)
        ultimately show ?thesis using add [OF n(1) n(2) [unfolded f(4)]] nl by simp
      next
        case failed: False
        then have "handleFlags sink flags b s = Some (False, b1, s1)" using nl False f(1) by (simp add: handleFlags_def)
        then show ?thesis using f(2,4) by blast
      qed
    qed
  qed
qed

text \<open>The contract of a log, for every sink.\<close>

lemma append_with_spec:
  assumes "buffer_ok b" "\<And>w k. w + k \<le> length data \<Longrightarrow> piece w k = take k (drop w data)"
  shows "\<exists>r b' s'. append_with sink piece (length data) flags b s = Some (r, b', s') \<and> buffer_ok b' \<and> max_cap b' = max_cap b \<and>
     (r \<longrightarrow> out s' @ enc (pending b') = out s @ enc (pending b @ data @ (if flags AND NEWLINE \<noteq> 0 then [10] else [])) \<and>
        (flags AND FLUSH \<noteq> 0 \<longrightarrow> pending b' = []))"
proof -
  have fuel: "length data - 0 + of_bool (max_len b = max_cap b) < length data + 2" by (simp add: of_bool_def)
  obtain r b1 s1 where l: "append_loop sink (length data + 2) piece (length data) 0 b s = Some (r, b1, s1)" "buffer_ok b1"
      "max_cap b1 = max_cap b" "r \<longrightarrow> stream b1 s1 = stream b s @ enc data"
    using append_loop_spec [OF assms(1) le0 fuel assms(2) refl, of s] unfolding drop_0 by blast
  show ?thesis
  proof (cases r)
    case True
    obtain r2 b2 s2 where "handleFlags sink flags b1 s1 = Some (r2, b2, s2)" "buffer_ok b2" "max_cap b2 = max_cap b1"
        "r2 \<longrightarrow> stream b2 s2 = stream b1 s1 @ (if flags AND NEWLINE \<noteq> 0 then enc [10] else []) \<and>
          (flags AND FLUSH \<noteq> 0 \<longrightarrow> pending b2 = [])"
      using handleFlags_spec [OF l(2)] by blast
    then show ?thesis using l True by (auto simp: append_with_def stream_def enc_append)
  next
    case False
    then have "append_with sink piece (length data) flags b s = Some (False, b1, s1)" unfolding append_with_def l(1) by simp
    then show ?thesis using l(2,3) by blast
  qed
qed

end

text \<open>A sink that cannot fail.\<close>

locale reliable_sink = log_sink sink out enc for sink :: "'o sink" and out :: "'o \<Rightarrow> 'c list" and enc +
  assumes sink_succeeds: "sink bs s = Some (r, s') \<Longrightarrow> r"
begin

lemma flush_with_succeeds: "flush_with sink b s \<noteq> Some (False, b', s')"
  using sink_succeeds by (auto simp: flush_with_def split: option.splits)

lemma append_loop_succeeds: "append_loop sink fuel piece n w b s \<noteq> Some (False, b', s')"
  by (induction fuel arbitrary: w b s) (auto simp: Let_def flush_with_succeeds split: if_splits option.splits)

lemma handleFlags_succeeds: "handleFlags sink flags b s \<noteq> Some (False, b', s')"
  by (auto simp: handleFlags_def flush_with_succeeds split: if_splits option.splits)

lemma append_with_succeeds: "append_with sink piece n flags b s \<noteq> Some (False, b', s')"
  by (auto simp: append_with_def append_loop_succeeds handleFlags_succeeds simp del: append_loop.simps
      split: if_splits option.splits)

end

section \<open>The three logs\<close>

lemma efi_flush_loop_eq: "efi_flush_loop bs con_out = con_out @ concat (map efi_char bs)"
  by (induction bs arbitrary: con_out) simp_all

interpretation efi_log: reliable_sink efi_sink id "\<lambda>bs. concat (map efi_char bs)"
  by unfold_locales (auto simp: efi_sink_def efi_flush_loop_eq)

lemma screen_reliable_sink:
  assumes "\<And>bs s. seen (flushToScreen bs s) = seen s @ bs"
  shows "reliable_sink (screen_sink flushToScreen) seen id"
  by unfold_locales (auto simp: screen_sink_def assms)

text \<open>
  What the system call \<^verbatim>\<open>write\<close> documents: it fails, or it takes at least one byte when there is one,
  and what it takes is appended to the file.
\<close>

definition write_law :: "(nat \<Rightarrow> bytes \<Rightarrow> 'w \<Rightarrow> int \<times> 'w) \<Rightarrow> (nat \<Rightarrow> 'w \<Rightarrow> bytes) \<Rightarrow> bool" where
  "write_law write file \<longleftrightarrow> (\<forall>fd bs w. bs \<noteq> [] \<longrightarrow>
     (case write fd bs w of (n, w') \<Rightarrow>
        n < 0 \<or> 0 < n \<and> nat n \<le> length bs \<and> file fd w' = file fd w @ take (nat n) bs))"

lemma flushBufferWithFileDescriptor_spec:
  assumes "write_law write file" "length bs - k < fuel" "k \<le> length bs"
  shows "\<exists>r w'. flushBufferWithFileDescriptor write fuel fd bs k w = Some (r, w') \<and>
     (r \<longrightarrow> file fd w' = file fd w @ drop k bs)"
  using assms(2,3)
proof (induction fuel arbitrary: k w)
  case (Suc fuel)
  show ?case
  proof (cases "k < length bs")
    case True
    obtain n w' where w': "write fd (drop k bs) w = (n, w')" by fastforce
    have law: "n < 0 \<or> 0 < n \<and> nat n \<le> length bs - k \<and> file fd w' = file fd w @ take (nat n) (drop k bs)"
      using assms(1) [unfolded write_law_def, rule_format, of "drop k bs" fd w] True w' by simp
    show ?thesis
    proof (cases "n < 0")
      case False
      then have n: "0 < nat n" "k + nat n \<le> length bs" "file fd w' = file fd w @ take (nat n) (drop k bs)" using law True by linarith+
      have "length bs - (k + nat n) < fuel" using n Suc.prems(1) True by linarith
      then obtain r w'' where "flushBufferWithFileDescriptor write fuel fd bs (k + nat n) w' = Some (r, w'')"
          "r \<longrightarrow> file fd w'' = file fd w' @ drop (k + nat n) bs"
        using Suc.IH n(2) by blast
      moreover have "take (nat n) (drop k bs) @ drop (k + nat n) bs = drop k bs"
        by (metis append_take_drop_id drop_drop add.commute)
      ultimately show ?thesis using w' False True n(3) by auto
    qed (use w' True in \<open>simp add: ex_bool_eq\<close>)
  qed (use Suc.prems in \<open>simp add: ex_bool_eq\<close>)
qed simp

lemma posix_log_sink:
  assumes "write_law write file"
  shows "log_sink (posix_sink write fd) (file fd) id"
proof
  show "\<exists>r o'. posix_sink write fd bs s = Some (r, o')" for bs s
    using flushBufferWithFileDescriptor_spec [OF assms, of bs 0 "length bs + 1" fd s] unfolding posix_sink_def by auto
  show "file fd o' = file fd s @ id bs" if "posix_sink write fd bs s = Some (True, o')" for bs s o'
    using flushBufferWithFileDescriptor_spec [OF assms, of bs 0 "length bs + 1" fd s] that by (auto simp: posix_sink_def)
qed simp

text \<open>
  The log of the boot loader: appending a message always returns, keeps the buffer well formed,
  and what the console was given followed by what is still in the buffer grows by exactly the message
  and its newline, in order, whatever the length of the message; with the flush flag the buffer is
  empty afterwards.
\<close>

theorem efi_appendToFlushBuffer_stream:
  assumes "buffer_ok b"
  shows "\<exists>b' con_out'. efi_appendToFlushBuffer data flags b con_out = Some (True, b', con_out') \<and> buffer_ok b' \<and>
     con_out' @ concat (map efi_char (pending b')) =
       con_out @ concat (map efi_char (pending b @ data @ (if flags AND NEWLINE \<noteq> 0 then [10] else []))) \<and>
     (flags AND FLUSH \<noteq> 0 \<longrightarrow> pending b' = [])"
proof -
  have piece: "\<And>w k. w + k \<le> length data \<Longrightarrow> (\<lambda>w k. take k (drop w data)) w k = take k (drop w data)" by simp
  obtain r b' s' where r: "efi_appendToFlushBuffer data flags b con_out = Some (r, b', s')" "buffer_ok b'"
      "r \<longrightarrow> s' @ concat (map efi_char (pending b')) =
       con_out @ concat (map efi_char (pending b @ data @ (if flags AND NEWLINE \<noteq> 0 then [10] else []))) \<and>
     (flags AND FLUSH \<noteq> 0 \<longrightarrow> pending b' = [])"
    using efi_log.append_with_spec [OF assms piece, of flags con_out] unfolding efi_appendToFlushBuffer_def id_apply by blast
  have t: "r = True" using r(1) efi_log.append_with_succeeds unfolding efi_appendToFlushBuffer_def by (cases r) auto
  show ?thesis using r unfolding t by blast
qed

theorem efi_appendToFlushBuffer_stream_witness:
  "\<exists>b' con_out'. efi_appendToFlushBuffer [104, 105] (NEWLINE OR FLUSH) efi_flushBuf [] = Some (True, b', con_out') \<and>
     con_out' = [104, 105, 13, 10]"
proof -
  have ok: "buffer_ok efi_flushBuf" by (simp add: buffer_ok_def efi_flushBuf_def)
  have fl: "(NEWLINE OR FLUSH) AND NEWLINE \<noteq> 0" "(NEWLINE OR FLUSH) AND FLUSH \<noteq> 0" by (simp_all add: NEWLINE_def FLUSH_def)
  have p: "pending efi_flushBuf = []" by (simp add: pending_def efi_flushBuf_def)
  have e: "concat (map efi_char ([] @ [104, 105] @ [10])) = [104, 105, 13, 10]" by (simp add: efi_char_def)
  obtain b' con_out' where "efi_appendToFlushBuffer [104, 105] (NEWLINE OR FLUSH) efi_flushBuf [] = Some (True, b', con_out')"
      "con_out' @ concat (map efi_char (pending b')) = [] @ concat (map efi_char ([] @ [104, 105] @ [10]))" "pending b' = []"
    using efi_appendToFlushBuffer_stream [OF ok, of "[104, 105]" "NEWLINE OR FLUSH" "[]"] fl unfolding p by auto
  then show ?thesis unfolding e by simp
qed

text \<open>
  Appending zeros to the freestanding log is appending that many zero bytes: for every screen that
  takes what it is given, the bytes it has taken followed by the bytes in the buffer grow by exactly
  those zeros and the newline, and the call always returns.
\<close>

theorem freestanding_append_stream:
  assumes "\<And>bs s. seen (flushToScreen bs s) = seen s @ bs" "buffer_ok b"
  shows "\<exists>b' s'. freestanding_appendZeroToFlushBuffer flushToScreen n flags b s = Some (True, b', s') \<and> buffer_ok b' \<and>
     seen s' @ pending b' = seen s @ pending b @ replicate n 0 @ (if flags AND NEWLINE \<noteq> 0 then [10] else []) \<and>
     (flags AND FLUSH \<noteq> 0 \<longrightarrow> pending b' = [])"
proof -
  note sink = screen_reliable_sink [of seen flushToScreen, OF assms(1)]
  have piece: "\<And>w k. w + k \<le> length (replicate n (0 :: u8)) \<Longrightarrow> (\<lambda>w k. replicate k 0) w k = take k (drop w (replicate n 0))" by (simp add: min_def)
  obtain r b' s' where r: "append_with (screen_sink flushToScreen) (\<lambda>w k. replicate k 0) n flags b s = Some (r, b', s')" "buffer_ok b'"
      "r \<longrightarrow> seen s' @ pending b' = seen s @ pending b @ replicate n 0 @ (if flags AND NEWLINE \<noteq> 0 then [10] else []) \<and>
       (flags AND FLUSH \<noteq> 0 \<longrightarrow> pending b' = [])"
    using log_sink.append_with_spec [OF reliable_sink.axioms(1) [OF sink] assms(2) piece, of flags s]
    unfolding id_apply length_replicate by blast
  have t: "r = True" using r(1) reliable_sink.append_with_succeeds [OF sink] by (cases r) auto
  show ?thesis using r unfolding t freestanding_appendZeroToFlushBuffer_def by blast
qed

theorem freestanding_append_stream_witness:
  "\<exists>b' s'. freestanding_appendZeroToFlushBuffer (\<lambda>bs s. s @ bs) 3 NEWLINE \<lparr>max_buf = [1, 2], max_len = 1, max_cap = 2\<rparr> [] = Some (True, b', s') \<and>
     s' @ pending b' = [1, 0, 0, 0, 10]"
  using freestanding_append_stream [of id "\<lambda>bs s. s @ bs" "\<lparr>max_buf = [1, 2], max_len = 1, max_cap = 2\<rparr>" 3 NEWLINE "[]"]
  by (auto simp: buffer_ok_def NEWLINE_def FLUSH_def pending_def numeral_3_eq_3)

text \<open>
  C40. The log of the build tools: when \<^verbatim>\<open>write\<close> takes at least one byte or fails, appending a message
  returns; if it reports success, the file followed by the buffer has grown by exactly the message and
  its newline, even though every \<^verbatim>\<open>write\<close> may have taken only a part; with the flush flag the buffer is
  empty.
\<close>

theorem posix_append_stream:
  assumes "write_law write file" "buffer_ok (wb_array wb)"
  shows "\<exists>r wb' w'. appendToFlushBufferWithWriter write data flags wb w = Some (r, wb', w') \<and> buffer_ok (wb_array wb') \<and>
     (r \<longrightarrow> file (fileDescriptor wb) w' @ pending (wb_array wb') =
        file (fileDescriptor wb) w @ pending (wb_array wb) @ data @ (if flags AND NEWLINE \<noteq> 0 then [10] else []) \<and>
        (flags AND FLUSH \<noteq> 0 \<longrightarrow> pending (wb_array wb') = []))"
proof -
  have piece: "\<And>w k. w + k \<le> length data \<Longrightarrow> (\<lambda>i k. take k (drop i data)) w k = take k (drop w data)" by simp
  obtain r b' w' where r: "append_with (posix_sink write (fileDescriptor wb)) (\<lambda>i k. take k (drop i data)) (length data) flags (wb_array wb) w =
      Some (r, b', w')" "buffer_ok b'"
      "r \<longrightarrow> file (fileDescriptor wb) w' @ pending b' =
        file (fileDescriptor wb) w @ pending (wb_array wb) @ data @ (if flags AND NEWLINE \<noteq> 0 then [10] else []) \<and>
        (flags AND FLUSH \<noteq> 0 \<longrightarrow> pending b' = [])"
    using log_sink.append_with_spec [OF posix_log_sink [OF assms(1), of "fileDescriptor wb"] assms(2) piece, of flags w]
    unfolding id_apply by blast
  have "appendToFlushBufferWithWriter write data flags wb w = Some (r, wb\<lparr>wb_array := b'\<rparr>, w')"
    unfolding appendToFlushBufferWithWriter_def r(1) on_array_def by simp
  then show ?thesis using r(2,3) by (intro exI [of _ r] exI [of _ "wb\<lparr>wb_array := b'\<rparr>"] exI [of _ w']) simp
qed

definition one_byte_write :: "nat \<Rightarrow> bytes \<Rightarrow> (nat \<Rightarrow> bytes) \<Rightarrow> int \<times> (nat \<Rightarrow> bytes)" where
  "one_byte_write fd bs w = (1, w(fd := w fd @ take 1 bs))"

theorem posix_append_stream_witness:
  "\<exists>r wb' w'. appendToFlushBufferWithWriter one_byte_write [104, 105] FLUSH
       \<lparr>wb_array = \<lparr>max_buf = [0], max_len = 0, max_cap = 1\<rparr>, fileDescriptor = STDOUT_FILENO\<rparr> (\<lambda>_. []) = Some (r, wb', w') \<and>
     (r \<longrightarrow> w' STDOUT_FILENO @ pending (wb_array wb') = [104, 105])"
proof -
  have "write_law one_byte_write (\<lambda>fd w. w fd)" by (auto simp: write_law_def one_byte_write_def Suc_le_eq)
  from posix_append_stream [OF this, of "\<lparr>wb_array = \<lparr>max_buf = [0], max_len = 0, max_cap = 1\<rparr>, fileDescriptor = STDOUT_FILENO\<rparr>"
      "[104, 105]" FLUSH "\<lambda>_. []"]
  show ?thesis by (simp add: buffer_ok_def NEWLINE_def FLUSH_def pending_def) blast
qed

end
