(* ===== verification/Status.thy ===== *)
theory Status
  imports Policy Cpu Log Text
begin

text \<open>
  What the kernel and the tests report through the log: the state of the memory management
  (\<^verbatim>\<open>x86/memory/*/status\<close>) and faults (\<^verbatim>\<open>x86/fault/print\<close>). A report is the sequence of its
  \<^verbatim>\<open>KLOG\<close> calls, each with the converted text and the flags; the log takes them one by one.
\<close>

section \<open>Reports\<close>

type_synonym report = "(bytes option \<times> u8) list"

definition KLOG :: "Convertible \<Rightarrow> u8 \<Rightarrow> report" where
  "KLOG data flags = [(CONVERT_TO_STRING data, flags)]"

abbreviation KLOG_STRING :: "string \<Rightarrow> report" where
  "KLOG_STRING s \<equiv> KLOG (CString (ascii s)) 0"

definition KLOG_LINE :: "string \<Rightarrow> report" where
  "KLOG_LINE s = KLOG (CString (ascii s @ [10])) 0"

definition stringWithMinSizeDefault :: "bytes \<Rightarrow> u8 \<Rightarrow> bytes option" where
  "stringWithMinSizeDefault data minSize = stringWithMinSize data minSize STRING_CONVERTER_BUF_LEN"

text \<open>The text of a report that converts without an error.\<close>

definition report_text :: "report \<Rightarrow> bytes" where
  "report_text r = concat (map (\<lambda>(d, flags). (case d of None \<Rightarrow> [] | Some s \<Rightarrow> s) @ (if flags AND NEWLINE \<noteq> 0 then [10] else [])) r)"

definition report_ok :: "report \<Rightarrow> bool" where
  "report_ok r \<longleftrightarrow> list_all (\<lambda>(d, flags). d \<noteq> None \<and> flags AND FLUSH = 0) r"

section \<open>Memory management\<close>

definition appendVirtualRegionStatus :: "VirtualRegion \<Rightarrow> report" where
  "appendVirtualRegionStatus region =
     KLOG_STRING ''Start: '' @ KLOG (CPtr (region_start region)) NEWLINE @
     KLOG_STRING ''End: '' @ KLOG (CPtr (region_end region)) NEWLINE"

definition patEncodingToString :: "string list" where
  "patEncodingToString =
    [''Uncachable (UC)'', ''Write Combining (WC)'', ''Reserved 1, don't use!'', ''Reserved 2, don't use!'',
     ''Write Through (WT)'', ''Write Protected (WP)'', ''Write Back (WB)'', ''Uncached (UC-)'']"

definition appendVirtualMemoryManagerStatus :: "KernelState \<Rightarrow> report" where
  "appendVirtualMemoryManagerStatus s =
     KLOG_STRING ''CR3/root page table address is: '' @ KLOG (CPtr (level4PageTable s)) NEWLINE @
     (let patValues = ks_msr s PAT_LOCATION in
      KLOG_LINE ''PAT MSR set to:'' @
      concat (map (\<lambda>i. KLOG_STRING ''PAT '' @ KLOG (CU8 (of_nat i)) 0 @ KLOG_STRING '': '' @
        KLOG (CString (ascii (patEncodingToString ! unat (get_pat patValues i)))) NEWLINE) [0..<8]))"

definition pageSizeToString :: "PageSize \<Rightarrow> string" where
  "pageSizeToString pageSize =
     (if pageSize = BASE_PAGE then ''Base page frame, 4KiB''
      else if pageSize = LARGE_PAGE then ''Large page, 2MiB''
      else ''Huge page, 1GiB'')"

primrec free_pages_status :: "PagedMemory list \<Rightarrow> u64 \<Rightarrow> report \<times> u64" where
  "free_pages_status [] totalPages = ([], totalPages)"
| "free_pages_status (e # es) totalPages =
     (case free_pages_status es (totalPages + numberOfPages e) of
        (r, totalPages) \<Rightarrow> (KLOG (CU64 (numberOfPages e)) 0 @ KLOG_STRING '' '' @ r, totalPages))"

definition appendPMMStatus :: "PhysicalMemoryManager \<Rightarrow> report" where
  "appendPMMStatus manager =
     KLOG_STRING ''Type: '' @ KLOG (CString (ascii (pageSizeToString (pmm_pageSize manager)))) NEWLINE @
     KLOG_STRING ''Used base page frames for internal structure: '' @ KLOG (CU32 (usedBasePages manager)) NEWLINE @
     KLOG (CString (ascii ''Free pages:'' @ [9])) 0 @
     (case free_pages_status (memory_entries manager) 0 of
        (r, totalPages) \<Rightarrow> r @ KLOG_STRING '' Total: '' @ KLOG (CU64 totalPages) NEWLINE) @
     KLOG (CString (ascii ''Total memory regions:'' @ [9])) 0 @ KLOG (CU64 (of_nat (length (memory_entries manager)))) NEWLINE"

definition appendPhysicalMemoryManagerStatus :: "PMMState \<Rightarrow> report" where
  "appendPhysicalMemoryManagerStatus s =
     KLOG_LINE ''Physical Memory status'' @ KLOG_LINE ''================'' @ appendPMMStatus (basePMM s) @
     KLOG_LINE ''================'' @ appendPMMStatus (largePMM s) @
     KLOG_LINE ''================'' @ appendPMMStatus (hugePMM s) @ KLOG_LINE ''================''"

definition appendMemoryManagementStatus :: "KernelState \<Rightarrow> report" where
  "appendMemoryManagementStatus s =
     KLOG_LINE ''Available Virtual Memory'' @
     KLOG_LINE ''Lower half (0x0000_000000000000):'' @ appendVirtualRegionStatus (lowerHalfRegion s) @
     KLOG_LINE ''Higher half(0xFFFF_000000000000):'' @ appendVirtualRegionStatus (higherHalfRegion s) @
     appendVirtualMemoryManagerStatus s @ appendPhysicalMemoryManagerStatus (ks_pmm s)"

section \<open>Faults\<close>

definition faultToString :: "string list" where
  "faultToString =
    [''FAULT_DIVIDE_ERROR'', ''FAULT_DEBUG'', ''FAULT_NMI'', ''FAULT_BREAKPOINT'', ''FAULT_OVERFLOW'', ''FAULT_BOUND_RANGE_EXCEED'',
     ''FAULT_INVALID_OPCODE'', ''FAULT_DEVICE_NOT_AVAILABLE'', ''FAULT_DOUBLE_FAULT'', ''FAULT_9_RESERVED'', ''FAULT_INVALID_TSS'',
     ''FAULT_SEGMENT_NOT_PRESENT'', ''FAULT_STACK_FAULT'', ''FAULT_GENERAL_PROTECTION'', ''FAULT_PAGE_FAULT'', ''FAULT_15_RESERVED'',
     ''FAULT_FPU_ERROR'', ''FAULT_ALIGNMENT_CHECK'', ''FAULT_MACHINE_CHECK'', ''FAULT_SIMD_FLOATING_POINT'', ''FAULT_VIRTUALIZATION'',
     ''FAULT_CONTROL_PROTECTION'', ''FAULT_22_RESERVED'', ''FAULT_23_RESERVED'', ''FAULT_24_RESERVED'', ''FAULT_25_RESERVED'',
     ''FAULT_26_RESERVED'', ''FAULT_27_RESERVED'', ''FAULT_28_RESERVED'', ''FAULT_29_RESERVED'', ''FAULT_30_RESERVED'', ''FAULT_31_RESERVED'',
     ''FAULT_USER'', ''FAULT_SYSCALL'', ''FAULT_NO_MORE_PHYSICAL_MEMORY'', ''FAULT_TOO_LARGE_ALLOCATION'']"

definition appendFault :: "u64 \<Rightarrow> report" where
  "appendFault fault =
     KLOG_STRING ''Fault #: '' @ KLOG (CU64 fault) 0 @ KLOG (CString ([9] @ ascii ''Msg: '')) 0 @
     [(stringWithMinSizeDefault (ascii (faultToString ! unat fault)) 30, 0)]"

definition appendExpectedInterrupt :: "Fault \<Rightarrow> report" where
  "appendExpectedInterrupt fault = KLOG_LINE ''Missing interrupt'' @ appendFault (fault_number fault) @ KLOG (CString [10]) 0"

definition appendInterrupts :: "bool list \<Rightarrow> bool list \<Rightarrow> report" where
  "appendInterrupts expectedFaults actualFaults =
     KLOG_LINE ''Interrupts Table'' @
     concat (map (\<lambda>i. appendFault (of_nat i) @
       KLOG (CString ([9] @ ascii ''Expected: '')) 0 @
       [(stringWithMinSizeDefault (if expectedFaults ! i then ascii ''ON'' else ascii ''OFF'') 3, 0)] @
       KLOG (CString ([9] @ ascii ''Actual: '')) 0 @
       [(stringWithMinSizeDefault (if actualFaults ! i then ascii ''ON'' else ascii ''OFF'') 3, 0)] @
       (if expectedFaults ! i \<noteq> actualFaults ! i then KLOG (CString ([9] @ ascii ''!!!'')) 0 else []) @
       KLOG (CString [10]) 0) [0..<CPU_FAULT_COUNT])"

section \<open>What a report says\<close>

lemma report_append [simp]:
  "report_text (r @ r') = report_text r @ report_text r'" "report_ok (r @ r') \<longleftrightarrow> report_ok r \<and> report_ok r'"
  "report_text [] = []" "report_ok []"
  by (simp_all add: report_text_def report_ok_def)

lemma newline_flag [simp]: "NEWLINE \<noteq> 0" "NEWLINE AND FLUSH = 0"
  by (simp_all add: NEWLINE_def FLUSH_def)

lemma KLOG_text [simp]:
  "report_text (KLOG (CString s) 0) = s" "report_text (KLOG (CString s) NEWLINE) = s @ [10]"
  "report_text (KLOG (CU64 n) 0) = decimal (unat n)" "report_text (KLOG (CU64 n) NEWLINE) = decimal (unat n) @ [10]"
  "report_text (KLOG (CPtr n) NEWLINE) = ptrToString n @ [10]"
  "report_text (KLOG (CU32 k) NEWLINE) = decimal (unat k) @ [10]" "report_text (KLOG (CU8 b) 0) = decimal (unat b)"
  "report_text (KLOG_LINE t) = ascii t @ [10]"
  by (simp_all add: report_text_def KLOG_def KLOG_LINE_def stringToString_def U64ToString_decimal STRING_CONVERTER_BUF_LEN_def
      unat_ucast_up)

lemma KLOG_ok [simp]:
  assumes "flags AND FLUSH = 0"
  shows "report_ok (KLOG (CString s) flags)" "report_ok (KLOG (CU64 n) flags)" "report_ok (KLOG (CPtr n) flags)"
    "report_ok (KLOG (CU32 k) flags)" "report_ok (KLOG (CU8 b) flags)"
  using assms by (simp_all add: report_ok_def KLOG_def U64ToString_decimal STRING_CONVERTER_BUF_LEN_def)

lemma KLOG_LINE_ok [simp]: "report_ok (KLOG_LINE t)"
  by (simp add: KLOG_LINE_def)

lemma report_concat:
  "report_text (concat rs) = concat (map report_text rs)" "report_ok (concat rs) \<longleftrightarrow> list_all report_ok rs"
  by (induction rs) simp_all

lemma free_pages_status_spec:
  "free_pages_status es t = (r, t') \<Longrightarrow>
     report_ok r \<and> report_text r = concat (map (\<lambda>e. decimal (unat (numberOfPages e)) @ [32]) es) \<and>
     t' = t + (\<Sum>e\<leftarrow>es. numberOfPages e)"
proof (induction es arbitrary: t r t')
  case (Cons e es)
  obtain r1 t1 where r1: "free_pages_status es (t + numberOfPages e) = (r1, t1)" by (cases "free_pages_status es (t + numberOfPages e)")
  show ?case using Cons.prems Cons.IH [OF r1] r1 by (auto simp: ascii_def)
qed simp

text \<open>If no byte is free twice, the pages of a manager number less than \<open>2 ^ 64\<close>, so their sum does not wrap.\<close>

lemma sum_covers:
  assumes "wf_entry p e" "2 ^ 64 \<le> N"
  shows "(\<Sum>x<N. of_bool (covers p e x)) = unat (numberOfPages e) * unat p"
proof -
  let ?I = "{unat (pageStart e)..<unat (pageStart e) + unat (numberOfPages e) * unat p}"
  have "{..<N} \<inter> Collect (covers p e) = ?I" using assms by (auto simp: covers_def wf_entry_def)
  then show ?thesis by (simp add: of_bool_def sum.If_cases)
qed

lemma sum_free_in:
  assumes "list_all (wf_entry p) es" "2 ^ 64 \<le> N"
  shows "(\<Sum>x<N. free_in p es x) = total_pages es * unat p"
  using assms(1)
  by (induction es) (simp_all add: free_in_def sum.distrib sum_covers [OF _ assms(2)] add_mult_distrib del: sum_of_bool_eq)

lemma total_pages_bound:
  assumes "list_all (wf_entry p) es" "\<And>x. free_in p es x \<le> 1" "4096 \<le> unat p"
  shows "total_pages es < 2 ^ 64"
proof -
  have "(\<Sum>x<(2 ^ 64 :: nat). free_in p es x) \<le> (\<Sum>x<(2 ^ 64 :: nat). 1)" by (rule sum_mono) (rule assms(2))
  then have "total_pages es * unat p \<le> 2 ^ 64" using sum_free_in [OF assms(1) order_refl] by simp
  moreover have "total_pages es * 4096 \<le> total_pages es * unat p" using assms(3) by (rule mult_le_mono2)
  ultimately have "total_pages es * 4096 \<le> 2 ^ 64" by linarith
  then show ?thesis by simp
qed

lemma unat_sum_list: "total_pages es < 2 ^ 64 \<Longrightarrow> unat (\<Sum>e\<leftarrow>es. numberOfPages e) = total_pages es"
  by (induction es) (simp_all add: unat_add_nowrap)

text \<open>
  C37. The report of a manager never fails and is true: if no byte is free twice, the total it prints is the
  number of pages that are free, without a wrap-around, after the sizes of all entries in order.
\<close>

theorem appendPMMStatus_true:
  assumes "wf_manager ref m" "\<And>x. free_in (ref_size ref) (memory_entries m) x \<le> 1" "length (memory_entries m) < 2 ^ 64"
  shows "report_ok (appendPMMStatus m) \<and>
    report_text (appendPMMStatus m) =
      ascii ''Type: '' @ ascii (pageSizeToString (ref_size ref)) @ [10] @
      ascii ''Used base page frames for internal structure: '' @ decimal (unat (usedBasePages m)) @ [10] @
      ascii ''Free pages:'' @ [9] @ concat (map (\<lambda>e. decimal (unat (numberOfPages e)) @ ascii '' '') (memory_entries m)) @
      ascii '' Total: '' @ decimal (total_pages (memory_entries m)) @ [10] @
      ascii ''Total memory regions:'' @ [9] @ decimal (length (memory_entries m)) @ [10]"
proof -
  have wf: "list_all (wf_entry (ref_size ref)) (memory_entries m)" "pmm_pageSize m = ref_size ref"
    using assms(1) by (simp_all add: wf_manager_def)
  have "4096 \<le> unat (ref_size ref)" by (cases ref) (simp_all add: page_size_values)
  then have total: "unat (\<Sum>e\<leftarrow>memory_entries m. numberOfPages e) = total_pages (memory_entries m)"
    using total_pages_bound [OF wf(1) assms(2)] by (intro unat_sum_list) simp
  obtain r t where r: "free_pages_status (memory_entries m) 0 = (r, t)" by (cases "free_pages_status (memory_entries m) 0")
  have sp: "ascii '' '' = [32]" by (simp add: ascii_def)
  show ?thesis
    using free_pages_status_spec [OF r] r total wf(2) assms(3)
    by (simp add: appendPMMStatus_def sp unat_of_nat_lt)
qed

theorem appendPMMStatus_true_witness:
  "report_ok (appendPMMStatus (basePMM sample_state)) \<and>
   report_text (appendPMMStatus (basePMM sample_state)) =
     ascii ''Type: Base page frame, 4KiB'' @ [10] @ ascii ''Used base page frames for internal structure: 1'' @ [10] @
     ascii ''Free pages:'' @ [9] @ ascii ''7  Total: 7'' @ [10] @ ascii ''Total memory regions:'' @ [9] @ ascii ''1'' @ [10]"
proof -
  have "wf_manager BasePMM (basePMM sample_state)" "length (memory_entries (basePMM sample_state)) < 2 ^ 64"
    by (simp_all add: sample_state_def empty_manager_def wf_manager_def wf_entry_def page_size_values)
  moreover have "free_in (ref_size BasePMM) (memory_entries (basePMM sample_state)) x \<le> 1" for x
    by (simp add: sample_state_def empty_manager_def free_in_def)
  ultimately show ?thesis
    using appendPMMStatus_true [of BasePMM "basePMM sample_state"]
    by (simp add: sample_state_def empty_manager_def pageSizeToString_def ascii_def decimal.simps)
qed

lemma length_decimal_u64: "length (decimal (unat (n :: u64))) \<le> 20"
  using unat_lt_u64 [of n] by (intro length_decimal) simp_all

lemma length_KLOG:
  "length (report_text (KLOG_STRING t)) = length t" "length (report_text (KLOG_LINE t)) = length t + 1"
  "length (report_text (KLOG (CPtr n) NEWLINE)) = 18" "length (report_text (KLOG (CU64 n) NEWLINE)) \<le> 21"
  "length (report_text (KLOG (CU32 k) NEWLINE)) \<le> 21" "length (report_text (KLOG (CU8 b) 0)) \<le> 20"
  using length_decimal_u64 [of n] length_decimal_u64 [of "ucast k"] length_decimal_u64 [of "ucast b"]
  by (simp_all add: ascii_def ptrToString_def unat_ucast_up)

lemma length_concat_map_le:
  assumes "\<And>x. length (f x) \<le> k"
  shows "length (concat (map f xs)) \<le> k * length xs"
  using assms by (induction xs) (simp_all add: add_le_mono)

lemma length_free_pages:
  "length (concat (map (\<lambda>e. decimal (unat (numberOfPages e)) @ [32]) es)) \<le> 21 * length es"
  using length_decimal_u64 by (intro length_concat_map_le) simp

lemma length_appendPMMStatus:
  "report_ok (appendPMMStatus m) \<and> length (report_text (appendPMMStatus m)) \<le> 256 + 21 * length (memory_entries m)"
proof -
  obtain r t where r: "free_pages_status (memory_entries m) 0 = (r, t)" by (cases "free_pages_status (memory_entries m) 0")
  have "length (pageSizeToString (pmm_pageSize m)) \<le> 21" by (simp add: pageSizeToString_def)
  moreover have "length (decimal (unat (usedBasePages m))) \<le> 20"
    using length_decimal_u64 [of "ucast (usedBasePages m)"] by (simp add: unat_ucast_up)
  ultimately show ?thesis
    using free_pages_status_spec [OF r] r length_free_pages [of "memory_entries m"] length_decimal_u64 [of t]
      length_decimal_u64 [of "of_nat (length (memory_entries m))"]
    by (simp add: appendPMMStatus_def ascii_def)
qed

lemma length_virtual_status:
  "report_ok (appendVirtualMemoryManagerStatus s) \<and> length (report_text (appendVirtualMemoryManagerStatus s)) \<le> 512"
proof -
  have pat: "length (patEncodingToString ! unat (get_pat v i)) \<le> 22" for v i
  proof -
    have "unat (get_pat v i) \<le> 7" unfolding get_pat_def using word_and_le1 [of "drop_bit (8 * i) v" 7]
      by (simp add: word_le_nat_alt)
    then have "unat (get_pat v i) < length patEncodingToString" by (simp add: patEncodingToString_def)
    moreover have "list_all (\<lambda>t. length t \<le> 22) patEncodingToString" by (simp add: patEncodingToString_def)
    ultimately show ?thesis by (simp add: list_all_length)
  qed
  have i: "length (decimal (unat (of_nat i :: u8))) \<le> 20" for i
    using length_decimal_u64 [of "ucast (of_nat i :: u8)"] by (simp add: unat_ucast_up)
  let ?f = "\<lambda>i. report_text (KLOG_STRING ''PAT '' @ KLOG (CU8 (of_nat i)) 0 @ KLOG_STRING '': '' @
        KLOG (CString (ascii (patEncodingToString ! unat (get_pat (ks_msr s PAT_LOCATION) i)))) NEWLINE)"
  have "length (?f i) \<le> 49" for i using add_mono [OF i pat] by (simp add: ascii_def)
  from length_concat_map_le [of ?f, OF this, of "[0..<8]"] show ?thesis
    by (simp add: appendVirtualMemoryManagerStatus_def Let_def report_concat ascii_def ptrToString_def comp_def list_all_length
        del: upt_rec_numeral)
qed

lemma appendMemoryManagementStatus_fits:
  "report_ok (appendMemoryManagementStatus s) \<and>
   length (report_text (appendMemoryManagementStatus s)) \<le> 2048 + 21 * n_entries (ks_pmm s)"
proof -
  have "length (ptrToString p) = 17" for p by (simp add: ptrToString_def ascii_def)
  then show ?thesis
    using length_virtual_status [of s] length_appendPMMStatus [of "basePMM (ks_pmm s)"]
      length_appendPMMStatus [of "largePMM (ks_pmm s)"] length_appendPMMStatus [of "hugePMM (ks_pmm s)"]
    by (simp add: appendMemoryManagementStatus_def appendVirtualRegionStatus_def appendPhysicalMemoryManagerStatus_def
        n_entries_def ascii_def)
qed

end
