(* ===== verification/Screen.thy ===== *)
theory Screen
  imports Maths Allocator
begin

text \<open>
  \<^verbatim>\<open>freestanding/peripheral/screen\<close>, the kernel's terminal: the ring of the last characters, the ring
  of the starts of the logical lines, the division of the text into screen lines, the window of screen
  lines that is shown, and the drawing of glyphs into the backing buffer. The static variables of
  \<^verbatim>\<open>screen.c\<close> are the fields of a record. The font is an argument; pixels are a list, on which a write
  outside has no effect (the program's writes stay inside for a buffer of the size of the screen).
\<close>

section \<open>State\<close>

definition MAX_SCROLLBACK_LINES :: u32 where "MAX_SCROLLBACK_LINES = 2 ^ 13"
definition FILE_BUF_LEN :: u64 where "FILE_BUF_LEN = 2 ^ 16"
definition TAB_SIZE_IN_GLYPHS :: u64 where "TAB_SIZE_IN_GLYPHS = 4"
definition BYTES_PER_PIXEL :: u32 where "BYTES_PER_PIXEL = 4"
definition PIXEL_MARGIN :: u32 where "PIXEL_MARGIN = 20"
definition HAXOR_GREEN :: u32 where "HAXOR_GREEN = 0x0000FF00"
definition HAXOR_WHITE :: u32 where "HAXOR_WHITE = 0x00FFFFFF"

record psf2 =
  font_bytesperglyph :: u32
  font_height :: u32
  font_width :: u32
  font_glyphs :: bytes

record ScreenDimension =
  dim_address :: u64
  dim_screen :: "u32 list"
  dim_backingBuffer :: "u32 list"
  dim_size :: u64
  dim_width :: u32
  dim_height :: u32
  dim_scanline :: u32

record screen =
  dim :: ScreenDimension
  glyphsPerLine :: u16
  glyphsPerColumn :: u16
  maxCharsToProcess :: u32
  bytesPerLine :: u32
  glyphStartOffset :: u32
  glyphStartVerticalOffset :: u32
  ringGlyphsPerColumn :: u16
  logicalLineLens :: "u64 list"
  logicalLines :: "u64 list"
  logicalLineToWrite :: u32
  logicalNewline :: bool
  screenLines :: "u64 list"
  oldestScreenLineIndex :: u16
  screenLinesCopy :: "u64 list"
  lastScreenlineOpen :: bool
  isTailing :: bool
  charCount :: u64
  nextCharInBuf :: u32
  text_buf :: bytes

text \<open>The character at a position of the text.\<close>

definition char_at :: "screen \<Rightarrow> u64 \<Rightarrow> u8" where
  "char_at s i = text_buf s ! unat (RING_RANGE_VALUE i FILE_BUF_LEN)"

section \<open>Drawing\<close>

definition with_pixels :: "(u32 list \<Rightarrow> u32 list) \<Rightarrow> screen \<Rightarrow> screen" where
  "with_pixels f s = s\<lparr>dim := (dim s)\<lparr>dim_backingBuffer := f (dim_backingBuffer (dim s))\<rparr>\<rparr>"

definition switchToScreenDisplay :: "screen \<Rightarrow> screen" where
  "switchToScreenDisplay s =
     (let d = dim s; n = unat (dim_scanline d * dim_height d) in
      s\<lparr>dim := d\<lparr>dim_screen := take n (dim_backingBuffer d) @ drop n (dim_screen d)\<rparr>\<rparr>)"

definition drawTerminalBox :: "screen \<Rightarrow> screen" where
  "drawTerminalBox s =
     (let w = dim_width (dim s); h = dim_height (dim s); scanline = dim_scanline (dim s);
          ys = map of_nat [0..<unat h]; xs = map of_nat [0..<unat scanline];
          put = (\<lambda>i v p. p[unat (i :: u32) := v]);
          black = fold (\<lambda>y. fold (\<lambda>x. put (y * scanline + x) 0) xs) ys;
          top = fold (\<lambda>x. put x HAXOR_GREEN) xs;
          left = fold (\<lambda>y. put (y * scanline) HAXOR_GREEN) ys;
          right = fold (\<lambda>y. put (y * scanline + (w - 1)) HAXOR_GREEN) ys;
          bottom = fold (\<lambda>x. put (scanline * (h - 1) + x) HAXOR_GREEN) xs in
      switchToScreenDisplay (with_pixels (bottom \<circ> right \<circ> left \<circ> top \<circ> black) s))"

text \<open>One row of a glyph: the bits of the byte from the highest used one down.\<close>

fun glyph_row :: "nat \<Rightarrow> u32 \<Rightarrow> u8 \<Rightarrow> nat \<Rightarrow> u32 list \<Rightarrow> u32 list" where
  "glyph_row 0 msk glyphLine line p = p"
| "glyph_row (Suc n) msk glyphLine line p =
     glyph_row n (drop_bit 1 msk) glyphLine (line + 1)
       (p[line := (if ucast glyphLine AND msk \<noteq> 0 then HAXOR_WHITE else 0)])"

fun glyph_rows :: "nat \<Rightarrow> psf2 \<Rightarrow> u32 \<Rightarrow> u32 \<Rightarrow> nat \<Rightarrow> nat \<Rightarrow> u32 list \<Rightarrow> u32 list" where
  "glyph_rows 0 font stride scanline glyphStart glyphOffset p = p"
| "glyph_rows (Suc n) font stride scanline glyphStart glyphOffset p =
     glyph_rows n font stride scanline (glyphStart + unat stride) (glyphOffset + unat scanline)
       (glyph_row (unat (font_width font)) (push_bit (unat (font_width font) - 1) 1) (font_glyphs font ! glyphStart) glyphOffset p)"

definition drawGlyph :: "psf2 \<Rightarrow> u8 \<Rightarrow> u64 \<Rightarrow> screen \<Rightarrow> screen" where
  "drawGlyph font ch topRightGlyphOffset s =
     with_pixels (glyph_rows (unat (font_height font)) font (bytesPerLine s) (dim_scanline (dim s))
       (unat (ucast ch * font_bytesperglyph font)) (unat topRightGlyphOffset)) s"

fun zero_rows :: "nat \<Rightarrow> u32 \<Rightarrow> u32 \<Rightarrow> nat \<Rightarrow> u32 list \<Rightarrow> u32 list" where
  "zero_rows 0 scanline offset k p = p"
| "zero_rows (Suc n) scanline offset k p =
     zero_rows n scanline (offset + scanline) k
       (map (\<lambda>j. if unat offset \<le> j \<and> j < unat offset + k then 0 else p ! j) [0..<length p])"

definition zeroOutGlyphs :: "psf2 \<Rightarrow> u32 \<Rightarrow> u16 \<Rightarrow> screen \<Rightarrow> screen" where
  "zeroOutGlyphs font topRightGlyphOffset numberOfGlyphs s =
     with_pixels (zero_rows (unat (font_height font)) (dim_scanline (dim s)) topRightGlyphOffset
       (unat (ucast numberOfGlyphs * font_width font))) s"

text \<open>The width of a tab that starts at a column: up to the next multiple of four.\<close>

definition tab_space :: "u64 \<Rightarrow> u8" where
  "tab_space len = ucast (((len + TAB_SIZE_IN_GLYPHS) AND (0xFF - (TAB_SIZE_IN_GLYPHS - 1))) - len)"

text \<open>The local variables of \<^verbatim>\<open>drawLines\<close>.\<close>

record draw_vars =
  dv_lines :: u16
  dv_offset :: u32
  dv_glyphLen :: u16
  dv_logicalLen :: u64
  dv_toNext :: bool

definition row_offset :: "psf2 \<Rightarrow> screen \<Rightarrow> u16 \<Rightarrow> u32" where
  "row_offset font s row = glyphStartOffset s + ucast row * (dim_scanline (dim s) * font_height font)"

text \<open>The switch over one character; leaving the switch early does not leave the loop.\<close>

definition draw_char :: "psf2 \<Rightarrow> u16 \<Rightarrow> u16 \<Rightarrow> u64 \<Rightarrow> screen \<times> draw_vars \<Rightarrow> screen \<times> draw_vars" where
  "draw_char font screenLinesToDraw rowNumber i sv =
     (case sv of (s, v) \<Rightarrow>
      let ch = char_at s i in
      if ch = 0 then (s, v)
      else if ch = 10 then (s, v\<lparr>dv_toNext := True, dv_logicalLen := 0\<rparr>)
      else if ch = 9 then
        (let additionalSpace = tab_space (dv_logicalLen v);
             v = v\<lparr>dv_logicalLen := dv_logicalLen v + ucast additionalSpace\<rparr>;
             finalSize = dv_glyphLen v + ucast additionalSpace in
         if finalSize \<le> glyphsPerLine s then
           (zeroOutGlyphs font (dv_offset v) (ucast additionalSpace) s,
            v\<lparr>dv_offset := dv_offset v + ucast additionalSpace * font_width font, dv_glyphLen := finalSize,
              dv_toNext := (finalSize \<ge> glyphsPerLine s \<and> char_at s (i + 1) \<noteq> 10)\<rparr>)
         else
           (let extraSpacePreviousLine = ucast (glyphsPerLine s - dv_glyphLen v) :: u8;
                s = zeroOutGlyphs font (dv_offset v) (ucast extraSpacePreviousLine) s;
                v = v\<lparr>dv_lines := dv_lines v + 1\<rparr> in
            if dv_lines v \<ge> screenLinesToDraw then (s, v)
            else
              (let offset = row_offset font s (rowNumber + dv_lines v);
                   len = ucast additionalSpace - ucast extraSpacePreviousLine :: u16 in
               (zeroOutGlyphs font offset len s,
                v\<lparr>dv_glyphLen := len, dv_offset := offset + ucast len * font_width font\<rparr>))))
      else
        (drawGlyph font ch (ucast (dv_offset v)) s,
         v\<lparr>dv_offset := dv_offset v + font_width font, dv_glyphLen := dv_glyphLen v + 1, dv_logicalLen := dv_logicalLen v + 1,
           dv_toNext := (if dv_glyphLen v + 1 \<ge> glyphsPerLine s \<and> char_at s (i + 1) \<noteq> 10 then True else dv_toNext v)\<rparr>))"

text \<open>The start of a round: a pending change to the next screen line; the flag says that the loop is left.\<close>

definition draw_next_line :: "psf2 \<Rightarrow> u16 \<Rightarrow> u16 \<Rightarrow> screen \<times> draw_vars \<Rightarrow> bool \<times> screen \<times> draw_vars" where
  "draw_next_line font screenLinesToDraw rowNumber sv =
     (case sv of (s, v) \<Rightarrow>
      if dv_toNext v then
        (let v = v\<lparr>dv_lines := dv_lines v + 1\<rparr> in
         if dv_lines v \<ge> screenLinesToDraw then (True, s, v)
         else (False, zeroOutGlyphs font (dv_offset v) (glyphsPerLine s - dv_glyphLen v) s,
                v\<lparr>dv_offset := row_offset font s (rowNumber + dv_lines v), dv_glyphLen := 0, dv_toNext := False\<rparr>))
      else (False, s, v))"

lemma unat_diff_Suc_less: "i < n \<Longrightarrow> unat n - unat (i + 1) < unat n - unat (i :: 'a :: len word)"
proof -
  assume "i < n"
  then have "unat i < unat n" by (simp add: word_less_nat_alt)
  moreover from this have "unat i + 1 < 2 ^ LENGTH('a)" using unat_lt_2p [of n] by linarith
  then have "unat (i + 1) = unat i + 1" using unat_add_nowrap [of i 1] by simp
  ultimately show ?thesis by simp
qed

function draw_loop :: "psf2 \<Rightarrow> u16 \<Rightarrow> u16 \<Rightarrow> u64 \<Rightarrow> u64 \<Rightarrow> screen \<times> draw_vars \<Rightarrow> screen \<times> draw_vars" where
  "draw_loop font screenLinesToDraw rowNumber n i sv =
     (if \<not> i < n then sv
      else case draw_next_line font screenLinesToDraw rowNumber sv of
        (stop, sv) \<Rightarrow>
          if stop then sv
          else draw_loop font screenLinesToDraw rowNumber n (i + 1) (draw_char font screenLinesToDraw rowNumber i sv))"
  by pat_completeness auto

termination
  by (relation "measure (\<lambda>(font, l, r, n, i, sv). unat n - unat i)") (auto simp: unat_diff_Suc_less)

definition drawLines :: "psf2 \<Rightarrow> u32 \<Rightarrow> u16 \<Rightarrow> u64 \<Rightarrow> u16 \<Rightarrow> screen \<Rightarrow> screen" where
  "drawLines font startIndex screenLinesToDraw currentLogicalLineLen rowNumber s =
     (case draw_loop font screenLinesToDraw rowNumber (charCount s) (screenLines s ! unat startIndex)
         (s, \<lparr>dv_lines = 0, dv_offset = row_offset font s rowNumber, dv_glyphLen = 0, dv_logicalLen = currentLogicalLineLen,
              dv_toNext = False\<rparr>) of
        (s, v) \<Rightarrow> zeroOutGlyphs font (dv_offset v) (glyphsPerLine s - dv_glyphLen v) s)"

section \<open>Screen lines\<close>

record FillResult =
  realScreenLinesWritten :: u16
  currentScreenLineIndex :: u16
  lastLineDone :: bool

text \<open>The local variables of \<^verbatim>\<open>fillScreenLines\<close> with the two arrays it fills.\<close>

record fill_vars =
  fv_index :: u16
  fv_window :: u16
  fv_glyphLen :: u16
  fv_logicalLen :: u64
  fv_toNext :: bool
  fv_copy :: "u64 list"
  fv_lens :: "u64 list"

definition new_screen_line :: "screen \<Rightarrow> u64 \<Rightarrow> u64 \<Rightarrow> u64 \<Rightarrow> fill_vars \<Rightarrow> fill_vars" where
  "new_screen_line s startIndex i len v =
     (let index = RING_INCREMENT (fv_index v) (ringGlyphsPerColumn s) in
      v\<lparr>fv_index := index, fv_copy := (fv_copy v)[unat index := i], fv_lens := (fv_lens v)[unat index := len],
        fv_window := fv_window v + of_bool (i \<ge> startIndex)\<rparr>)"

definition fill_char :: "screen \<Rightarrow> u64 \<Rightarrow> u16 \<Rightarrow> u64 \<Rightarrow> fill_vars \<Rightarrow> fill_vars" where
  "fill_char s startIndex maxNew i v =
     (let ch = char_at s i in
      if ch = 0 then v
      else if ch = 10 then v\<lparr>fv_toNext := True, fv_logicalLen := 0\<rparr>
      else if ch = 9 then
        (let additionalSpace = tab_space (fv_logicalLen v);
             finalSize = fv_glyphLen v + ucast additionalSpace in
         if finalSize \<le> glyphsPerLine s then
           v\<lparr>fv_glyphLen := finalSize, fv_toNext := (finalSize = glyphsPerLine s \<and> char_at s (i + 1) \<noteq> 10),
             fv_logicalLen := fv_logicalLen v + ucast additionalSpace\<rparr>
         else if maxNew \<noteq> 0 \<and> fv_window v \<ge> maxNew then v
         else
           (let extraSpacePreviousLine = ucast (glyphsPerLine s - fv_glyphLen v) :: u8;
                v = new_screen_line s startIndex i (fv_logicalLen v + ucast extraSpacePreviousLine) v in
            v\<lparr>fv_glyphLen := ucast additionalSpace - ucast extraSpacePreviousLine,
              fv_logicalLen := fv_logicalLen v + ucast additionalSpace\<rparr>))
      else
        v\<lparr>fv_glyphLen := fv_glyphLen v + 1, fv_logicalLen := fv_logicalLen v + 1,
          fv_toNext := (if fv_glyphLen v + 1 \<ge> glyphsPerLine s \<and> char_at s (i + 1) \<noteq> 10 then True else fv_toNext v)\<rparr>)"

function fill_loop :: "screen \<Rightarrow> u64 \<Rightarrow> u64 \<Rightarrow> u16 \<Rightarrow> u64 \<Rightarrow> fill_vars \<Rightarrow> u64 \<times> fill_vars" where
  "fill_loop s startIndex n maxNew i v =
     (if \<not> i < n then (i, v)
      else if fv_toNext v \<and> maxNew \<noteq> 0 \<and> fv_window v \<ge> maxNew then (i, v)
      else fill_loop s startIndex n maxNew (i + 1)
        (fill_char s startIndex maxNew i
          (if fv_toNext v then (new_screen_line s startIndex i (fv_logicalLen v) v)\<lparr>fv_glyphLen := 0, fv_toNext := False\<rparr> else v)))"
  by pat_completeness auto

termination
  by (relation "measure (\<lambda>(s, a, n, m, i, v). unat n - unat i)") (auto simp: unat_diff_Suc_less)

definition fillScreenLines :: "u64 \<Rightarrow> u64 \<Rightarrow> u64 \<Rightarrow> u16 \<Rightarrow> screen \<Rightarrow> FillResult \<times> screen" where
  "fillScreenLines dryStartIndex startIndex endIndexExclusive maxNew s =
     (let v0 = \<lparr>fv_index = 0, fv_window = of_bool (dryStartIndex \<ge> startIndex), fv_glyphLen = 0, fv_logicalLen = 0, fv_toNext = False,
                fv_copy = (screenLinesCopy s)[0 := dryStartIndex], fv_lens = (logicalLineLens s)[0 := 0]\<rparr>;
          (i, v) = fill_loop s startIndex endIndexExclusive maxNew dryStartIndex v0;
          index = RING_INCREMENT (fv_index v) (ringGlyphsPerColumn s) in
      (\<lparr>realScreenLinesWritten = min (fv_window v) (glyphsPerColumn s), currentScreenLineIndex = index, lastLineDone = fv_toNext v\<rparr>,
       s\<lparr>screenLinesCopy := (fv_copy v)[unat index := i], logicalLineLens := fv_lens v\<rparr>))"

section \<open>Logical lines\<close>

definition toScreenLines :: "screen \<Rightarrow> u64 \<Rightarrow> u64" where
  "toScreenLines s number =
     of_bool (number > 0) * ((number + (ucast (glyphsPerLine s) - 1)) div ucast (glyphsPerLine s)) + of_bool (number = 0)"

lemma ring_MINUS_unat: "unat (RING_MINUS a b MAX_SCROLLBACK_LINES) = unat (a - b) mod 2 ^ 13"
  unfolding RING_MINUS_def MAX_SCROLLBACK_LINES_def two_power_minus_one_mask by (rule unat_and_mask)

text \<open>The distance to the middle, from the left and to the right.\<close>

lemma and_mask_eq_self: "unat x < 2 ^ n \<Longrightarrow> x AND mask n = (x :: 'a :: len word)"
  by (intro word_eq_unatI) (simp add: unat_and_mask)

lemma ring_mid:
  assumes "k \<le> RING_MINUS right left MAX_SCROLLBACK_LINES"
  shows "RING_MINUS (RING_PLUS left k MAX_SCROLLBACK_LINES) left MAX_SCROLLBACK_LINES = k"
    and "RING_MINUS right (RING_PLUS left k MAX_SCROLLBACK_LINES) MAX_SCROLLBACK_LINES = RING_MINUS right left MAX_SCROLLBACK_LINES - k"
proof -
  let ?d = "(right - left) AND mask 13"
  have k: "k \<le> ?d" using assms unfolding RING_MINUS_def MAX_SCROLLBACK_LINES_def two_power_minus_one_mask .
  have d: "unat ?d < 2 ^ 13" unfolding unat_and_mask by simp
  have kd: "unat k \<le> unat ?d" using k by (simp add: word_le_nat_alt)
  have "RING_MINUS (RING_PLUS left k MAX_SCROLLBACK_LINES) left MAX_SCROLLBACK_LINES = (left + k - left) AND mask 13"
    unfolding RING_MINUS_def RING_PLUS_def MAX_SCROLLBACK_LINES_def two_power_minus_one_mask mask_eqs ..
  also have "\<dots> = k" using kd d by (simp add: and_mask_eq_self)
  finally show "RING_MINUS (RING_PLUS left k MAX_SCROLLBACK_LINES) left MAX_SCROLLBACK_LINES = k" .
  have "RING_MINUS right (RING_PLUS left k MAX_SCROLLBACK_LINES) MAX_SCROLLBACK_LINES = (right - (left + k)) AND mask 13"
    unfolding RING_MINUS_def RING_PLUS_def MAX_SCROLLBACK_LINES_def two_power_minus_one_mask mask_eqs ..
  also have "\<dots> = (?d - k) AND mask 13" unfolding mask_eqs by (simp add: diff_diff_eq)
  also have "\<dots> = ?d - k" using kd d by (intro and_mask_eq_self) (simp add: unat_sub_nowrap)
  finally show "RING_MINUS right (RING_PLUS left k MAX_SCROLLBACK_LINES) MAX_SCROLLBACK_LINES = RING_MINUS right left MAX_SCROLLBACK_LINES - k"
    unfolding RING_MINUS_def MAX_SCROLLBACK_LINES_def two_power_minus_one_mask .
qed

lemma search_half:
  assumes "1 < (d :: u32)"
  shows "d div 2 \<le> d" "d div 2 < d" "d - d div 2 < d" "0 < d div 2"
proof -
  have u: "unat (d div 2) = unat d div 2" by (simp add: unat_div)
  have "1 < unat d" using assms by (simp add: word_less_nat_alt)
  then show "d div 2 \<le> d" "d div 2 < d" "0 < d div 2" unfolding word_less_nat_alt word_le_nat_alt u by auto
  then show "d - d div 2 < d" using \<open>1 < unat d\<close> unfolding word_less_nat_alt word_le_nat_alt
    by (simp add: unat_sub_nowrap u)
qed

lemma ring_mid_half:
  assumes "1 < RING_MINUS right left MAX_SCROLLBACK_LINES"
  defines "mid \<equiv> RING_PLUS left (RING_MINUS right left MAX_SCROLLBACK_LINES div 2) MAX_SCROLLBACK_LINES"
  shows "RING_MINUS mid left MAX_SCROLLBACK_LINES = RING_MINUS right left MAX_SCROLLBACK_LINES div 2"
    and "RING_MINUS right mid MAX_SCROLLBACK_LINES =
      RING_MINUS right left MAX_SCROLLBACK_LINES - RING_MINUS right left MAX_SCROLLBACK_LINES div 2"
  unfolding mid_def by (rule ring_mid, rule search_half(1), rule assms)+

text \<open>The binary search in the ring of logical lines.\<close>

function search_loop :: "u64 list \<Rightarrow> u64 \<Rightarrow> u32 \<Rightarrow> u32 \<Rightarrow> u32" where
  "search_loop lines index left right =
     (if RING_MINUS right left MAX_SCROLLBACK_LINES > 1 then
        let mid = RING_PLUS left (RING_MINUS right left MAX_SCROLLBACK_LINES div 2) MAX_SCROLLBACK_LINES in
        if lines ! unat mid > index then search_loop lines index left mid
        else search_loop lines index mid right
      else left)"
  by pat_completeness auto

termination
  by (relation "measure (\<lambda>(lines, index, left, right). unat (RING_MINUS right left MAX_SCROLLBACK_LINES))")
    (auto simp: ring_mid_half search_half word_less_nat_alt [symmetric])

definition I8IndexToLogicalLine :: "u64 \<Rightarrow> screen \<Rightarrow> u32" where
  "I8IndexToLogicalLine I8Index s =
     (if I8Index \<ge> logicalLines s ! unat (logicalLineToWrite s) then logicalLineToWrite s
      else search_loop (logicalLines s) I8Index (RING_INCREMENT (logicalLineToWrite s) MAX_SCROLLBACK_LINES) (logicalLineToWrite s))"

primrec oldest_loop :: "nat \<Rightarrow> screen \<Rightarrow> u64 \<Rightarrow> u32 \<Rightarrow> u64 \<Rightarrow> u32 \<Rightarrow> u32 option" where
  "oldest_loop 0 s toProcess oldest processed index = None"
| "oldest_loop (Suc fuel) s toProcess oldest processed index =
     (if processed < toProcess \<and> index \<noteq> oldest then
        let previous = RING_DECREMENT index MAX_SCROLLBACK_LINES in
        oldest_loop fuel s toProcess oldest
          (processed + toScreenLines s (logicalLines s ! unat index - logicalLines s ! unat previous)) previous
      else Some index)"

definition oldestCharToParseGivenScreenLines :: "u64 \<Rightarrow> u16 \<Rightarrow> screen \<Rightarrow> u64 option" where
  "oldestCharToParseGivenScreenLines endCharExclusive screenLinesToProcess s =
     (let oldest = RING_INCREMENT (logicalLineToWrite s) MAX_SCROLLBACK_LINES;
          index = I8IndexToLogicalLine endCharExclusive s in
      if index = oldest \<and> logicalLines s ! unat index \<ge> endCharExclusive then Some endCharExclusive
      else
        let index = (if logicalLines s ! unat index = endCharExclusive then RING_DECREMENT index MAX_SCROLLBACK_LINES else index);
            processed = toScreenLines s (endCharExclusive - logicalLines s ! unat index) in
        case oldest_loop 8193 s (ucast screenLinesToProcess) oldest processed index of
          None \<Rightarrow> None
        | Some index \<Rightarrow>
            let oldestCharToProcess = logicalLines s ! unat index in
            Some (if endCharExclusive - oldestCharToProcess > ucast (maxCharsToProcess s)
                  then endCharExclusive - ucast (maxCharsToProcess s) else oldestCharToProcess))"

section \<open>The window\<close>

text \<open>Moving whole pixels inside the backing buffer.\<close>

definition move_pixels :: "u32 \<Rightarrow> u32 \<Rightarrow> nat \<Rightarrow> screen \<Rightarrow> screen" where
  "move_pixels dst src n s = with_pixels (\<lambda>p. map (\<lambda>i. if unat dst \<le> i \<and> i < unat dst + n \<and> unat src + (i - unat dst) < length p
     then p ! (unat src + (i - unat dst)) else p ! i) [0..<length p]) s"

definition row_pixels :: "psf2 \<Rightarrow> screen \<Rightarrow> u16 \<Rightarrow> nat" where
  "row_pixels font s rows = unat (ucast rows * (dim_scanline (dim s) * font_height font * 4)) div 4"

text \<open>Copying the first \<open>n\<close> new screen lines of the scratch ring, from \<open>from\<close> on, to the ring of the window.\<close>

fun copy_lines :: "nat \<Rightarrow> u16 \<Rightarrow> u16 \<Rightarrow> u16 \<Rightarrow> screen \<Rightarrow> screen" where
  "copy_lines 0 target from i s = s"
| "copy_lines (Suc n) target from i s =
     copy_lines n target from (i + 1)
       (s\<lparr>screenLines := (screenLines s)[unat (RING_PLUS target i (ringGlyphsPerColumn s)) :=
            screenLinesCopy s ! unat (RING_PLUS from i (ringGlyphsPerColumn s))]\<rparr>)"

primrec tail_entry_loop :: "nat \<Rightarrow> screen \<Rightarrow> u16 \<Rightarrow> u16 option" where
  "tail_entry_loop 0 s entry = None"
| "tail_entry_loop (Suc fuel) s entry =
     (if screenLines s ! unat entry \<le> screenLines s ! unat (oldestScreenLineIndex s) \<and> entry \<noteq> oldestScreenLineIndex s
      then tail_entry_loop fuel s (RING_DECREMENT entry (ringGlyphsPerColumn s))
      else Some entry)"

definition toTail :: "psf2 \<Rightarrow> screen \<Rightarrow> screen option" where
  "toTail font s =
     (let ring = ringGlyphsPerColumn s; opened = (of_bool (lastScreenlineOpen s) :: u16) in
      case tail_entry_loop 65537 s (RING_PLUS (oldestScreenLineIndex s) (glyphsPerColumn s - opened) ring) of
        None \<Rightarrow> None
      | Some finalScreenLineEntry \<Rightarrow>
        let firstCharOutsideWindow = screenLines s ! unat finalScreenLineEntry in
        case oldestCharToParseGivenScreenLines (charCount s) (glyphsPerColumn s) s of
          None \<Rightarrow> None
        | Some oldestChar \<Rightarrow>
          let oldestCharToProcess = max oldestChar (logicalLines s ! unat (I8IndexToLogicalLine firstCharOutsideWindow s));
              (r, s) = fillScreenLines oldestCharToProcess firstCharOutsideWindow (charCount s) 0 s;
              startIndex = RING_MINUS (currentScreenLineIndex r) (realScreenLinesWritten r) ring;
              oldScreenLines = glyphsPerColumn s - realScreenLinesWritten r;
              originalScreenLines = RING_MINUS finalScreenLineEntry (oldestScreenLineIndex s) ring;
              totalLines = realScreenLinesWritten r + originalScreenLines;
              s = (if totalLines > glyphsPerColumn s
                   then s\<lparr>oldestScreenLineIndex := RING_PLUS (oldestScreenLineIndex s) (totalLines - glyphsPerColumn s) ring\<rparr> else s);
              s = copy_lines (unat (realScreenLinesWritten r) + 1) (oldestScreenLineIndex s + oldScreenLines) startIndex 0 s;
              fromOffset = glyphStartVerticalOffset s +
                (ucast (realScreenLinesWritten r) - of_bool (lastScreenlineOpen s)) * (dim_scanline (dim s) * font_height font);
              s = (if realScreenLinesWritten r < glyphsPerColumn s
                   then move_pixels (glyphStartVerticalOffset s) fromOffset (row_pixels font s oldScreenLines) s else s);
              s = drawLines font (ucast (RING_PLUS (oldestScreenLineIndex s) oldScreenLines ring)) (realScreenLinesWritten r)
                    (logicalLineLens s ! unat startIndex) oldScreenLines s in
          Some (switchToScreenDisplay (s\<lparr>lastScreenlineOpen := \<not> lastLineDone r\<rparr>)))"

section \<open>Printing and scrolling\<close>

definition put_char :: "u8 \<Rightarrow> screen \<Rightarrow> screen" where
  "put_char ch s =
     (let s = s\<lparr>text_buf := (text_buf s)[unat (nextCharInBuf s) := ch]\<rparr>;
          s = (if logicalNewline s then
                 (let line = RING_INCREMENT (logicalLineToWrite s) MAX_SCROLLBACK_LINES in
                  s\<lparr>logicalLineToWrite := line, logicalLines := (logicalLines s)[unat line := charCount s], logicalNewline := False\<rparr>)
               else s);
          s = (if ch = 10 then s\<lparr>logicalNewline := True\<rparr> else s) in
      s\<lparr>nextCharInBuf := RING_INCREMENT (nextCharInBuf s) (ucast FILE_BUF_LEN), charCount := charCount s + 1\<rparr>)"

definition flushToScreen :: "psf2 \<Rightarrow> bytes \<Rightarrow> screen \<Rightarrow> screen option" where
  "flushToScreen font buffer s =
     (let startIndex = (if length buffer > unat FILE_BUF_LEN then length buffer - unat FILE_BUF_LEN else 0);
          s = fold put_char (drop startIndex buffer) s in
      if isTailing s then toTail font s else Some s)"

definition isWindowSmallerThanScreen :: "screen \<Rightarrow> bool" where
  "isWindowSmallerThanScreen s \<longleftrightarrow>
     screenLines s ! unat (oldestScreenLineIndex s) \<ge>
     screenLines s ! unat (RING_PLUS (oldestScreenLineIndex s) (glyphsPerColumn s) (ringGlyphsPerColumn s))"

definition rewind :: "psf2 \<Rightarrow> u16 \<Rightarrow> screen \<Rightarrow> screen option" where
  "rewind font numberOfScreenLines s =
     (if isWindowSmallerThanScreen s then Some s
      else
        let ring = ringGlyphsPerColumn s; currentOldest = screenLines s ! unat (oldestScreenLineIndex s) in
        case oldestCharToParseGivenScreenLines currentOldest numberOfScreenLines s of
          None \<Rightarrow> None
        | Some oldestCharToProcess \<Rightarrow>
          if oldestCharToProcess = currentOldest then Some s
          else
            let (r, s) = fillScreenLines oldestCharToProcess oldestCharToProcess currentOldest 0 s;
                newScreenLinesOnTop = min (realScreenLinesWritten r) numberOfScreenLines;
                startIndex = RING_MINUS (currentScreenLineIndex r) newScreenLinesOnTop ring;
                s = s\<lparr>oldestScreenLineIndex := RING_MINUS (oldestScreenLineIndex s) newScreenLinesOnTop ring\<rparr>;
                s = copy_lines (unat newScreenLinesOnTop) (oldestScreenLineIndex s) startIndex 0 s;
                fromOffset = glyphStartVerticalOffset s + ucast newScreenLinesOnTop * (dim_scanline (dim s) * font_height font);
                s = move_pixels fromOffset (glyphStartVerticalOffset s) (row_pixels font s (glyphsPerColumn s - newScreenLinesOnTop)) s;
                s = drawLines font (ucast (oldestScreenLineIndex s)) newScreenLinesOnTop (logicalLineLens s ! unat startIndex) 0 s in
            Some (switchToScreenDisplay (s\<lparr>isTailing := False, lastScreenlineOpen := False\<rparr>)))"

definition prowind :: "psf2 \<Rightarrow> u16 \<Rightarrow> screen \<Rightarrow> screen option" where
  "prowind font numberOfScreenLines s =
     (if isWindowSmallerThanScreen s then Some s
      else
        let ring = ringGlyphsPerColumn s;
            firstCharOutsideWindow = screenLines s ! unat (RING_PLUS (oldestScreenLineIndex s) (glyphsPerColumn s) ring) in
        if charCount s = firstCharOutsideWindow then Some s
        else case oldestCharToParseGivenScreenLines firstCharOutsideWindow 0 s of
          None \<Rightarrow> None
        | Some oldestCharToProcess \<Rightarrow>
            let (r, s) = fillScreenLines oldestCharToProcess firstCharOutsideWindow (charCount s) numberOfScreenLines s;
                oldScreenLines = glyphsPerColumn s - realScreenLinesWritten r;
                startIndex = RING_MINUS (currentScreenLineIndex r) (realScreenLinesWritten r) ring;
                s = s\<lparr>oldestScreenLineIndex := RING_PLUS (oldestScreenLineIndex s) (realScreenLinesWritten r) ring\<rparr>;
                s = copy_lines (unat (realScreenLinesWritten r) + 1) (oldestScreenLineIndex s + oldScreenLines) startIndex 0 s;
                fromOffset = glyphStartVerticalOffset s + ucast (realScreenLinesWritten r) * (dim_scanline (dim s) * font_height font);
                s = move_pixels (glyphStartVerticalOffset s) fromOffset (row_pixels font s oldScreenLines) s;
                s = drawLines font (ucast (RING_PLUS (oldestScreenLineIndex s) oldScreenLines ring)) (realScreenLinesWritten r)
                      (logicalLineLens s ! unat startIndex) oldScreenLines s in
            Some (switchToScreenDisplay
              (s\<lparr>isTailing := (screenLines s ! unat (RING_PLUS (oldestScreenLineIndex s) (glyphsPerColumn s) ring) = charCount s),
                 lastScreenlineOpen := \<not> lastLineDone r\<rparr>)))"

section \<open>Well-formed screens\<close>

text \<open>
  The arrays have the sizes the indices are reduced to, and every stored index lies in its ring: every
  access of the terminal to its arrays is inside their bounds.
\<close>

definition ring_ok :: "u16 \<Rightarrow> bool" where
  "ring_ok r \<longleftrightarrow> (\<exists>k < 16. r = 2 ^ k)"

definition screen_wf :: "screen \<Rightarrow> bool" where
  "screen_wf s \<longleftrightarrow> length (text_buf s) = 65536 \<and> length (logicalLines s) = 8192 \<and> ring_ok (ringGlyphsPerColumn s) \<and>
     length (screenLines s) = unat (ringGlyphsPerColumn s) \<and> length (screenLinesCopy s) = unat (ringGlyphsPerColumn s) \<and>
     length (logicalLineLens s) = unat (ringGlyphsPerColumn s) \<and> oldestScreenLineIndex s < ringGlyphsPerColumn s \<and>
     unat (logicalLineToWrite s) < 8192 \<and> unat (nextCharInBuf s) < 65536"

lemma ring_less:
  assumes "ring_ok r"
  shows "RING_PLUS a b r < r" "RING_MINUS a b r < r" "RING_INCREMENT a r < r" "RING_DECREMENT a r < r"
proof -
  obtain k where k: "k < 16" "r = 2 ^ k" using assms by (auto simp: ring_ok_def)
  have u: "unat r = 2 ^ k" using k by simp
  have m: "x AND mask k < r" for x :: u16 unfolding word_less_nat_alt u unat_and_mask by simp
  show "RING_PLUS a b r < r" "RING_MINUS a b r < r" "RING_INCREMENT a r < r" "RING_DECREMENT a r < r"
    unfolding RING_PLUS_def RING_MINUS_def RING_INCREMENT_def RING_DECREMENT_def k(2) two_power_minus_one_mask
    using m unfolding k(2) by blast+
qed

lemma scrollback_less:
  "unat (RING_INCREMENT a MAX_SCROLLBACK_LINES) < 8192" "unat (RING_DECREMENT a MAX_SCROLLBACK_LINES) < 8192"
  "unat (RING_PLUS a b MAX_SCROLLBACK_LINES) < 8192" "unat (RING_MINUS a b MAX_SCROLLBACK_LINES) < 8192"
  unfolding RING_INCREMENT_def RING_DECREMENT_def RING_PLUS_def RING_MINUS_def MAX_SCROLLBACK_LINES_def
    two_power_minus_one_mask unat_and_mask
  by simp_all

lemma put_char_wf:
  assumes "screen_wf s"
  shows "screen_wf (put_char ch s)"
proof -
  have "ucast FILE_BUF_LEN = (2 ^ 16 :: u32)" by (simp add: FILE_BUF_LEN_def)
  then have "unat (RING_INCREMENT (nextCharInBuf s) (ucast FILE_BUF_LEN)) < 65536"
    unfolding RING_INCREMENT_def by (simp only: two_power_minus_one_mask unat_and_mask) simp
  then show ?thesis using assms scrollback_less(1) by (simp add: put_char_def screen_wf_def Let_def)
qed

text \<open>Drawing changes nothing but the pixels.\<close>

lemma draw_frames:
  "\<exists>d. with_pixels f s = s\<lparr>dim := d\<rparr>" "\<exists>d. zeroOutGlyphs font a k s = s\<lparr>dim := d\<rparr>"
  "\<exists>d. drawGlyph font ch b s = s\<lparr>dim := d\<rparr>" "\<exists>d. switchToScreenDisplay s = s\<lparr>dim := d\<rparr>" "\<exists>d. move_pixels x y n s = s\<lparr>dim := d\<rparr>"
  by (auto simp: with_pixels_def zeroOutGlyphs_def drawGlyph_def switchToScreenDisplay_def move_pixels_def Let_def)

lemma draw_char_frame: "\<exists>d. fst (draw_char font n r i (s, v)) = s\<lparr>dim := d\<rparr>"
proof -
  have z: "\<exists>d'. zeroOutGlyphs font a k (s\<lparr>dim := d\<rparr>) = s\<lparr>dim := d'\<rparr>" for a k d
    using draw_frames(2) [of font a k "s\<lparr>dim := d\<rparr>"] by auto
  have zz: "\<exists>d'. zeroOutGlyphs font a k (zeroOutGlyphs font b l s) = s\<lparr>dim := d'\<rparr>" for a k b l
    using draw_frames(2) [of font b l s] z by metis
  have id: "\<exists>d. s = s\<lparr>dim := d\<rparr>" by (rule exI [of _ "dim s"]) simp
  show ?thesis using draw_frames(2,3) [of font _ _ s] zz id
    by (auto simp: draw_char_def Let_def split: if_splits)
qed

lemma draw_next_line_frame: "\<exists>d. fst (snd (draw_next_line font n r (s, v))) = s\<lparr>dim := d\<rparr>"
proof -
  have id: "\<exists>d. s = s\<lparr>dim := d\<rparr>" by (rule exI [of _ "dim s"]) simp
  show ?thesis using draw_frames(2) [of font _ _ s] id by (auto simp: draw_next_line_def Let_def split: if_splits)
qed

lemma draw_loop_frame: "\<exists>d. fst (draw_loop font l r n i sv) = (fst sv)\<lparr>dim := d\<rparr>"
proof (induction font l r n i sv rule: draw_loop.induct)
  case (1 font l r n i sv)
  obtain stop s' v' where nx: "draw_next_line font l r sv = (stop, s', v')" by (cases "draw_next_line font l r sv") auto
  obtain d where d: "s' = (fst sv)\<lparr>dim := d\<rparr>" using draw_next_line_frame [of font l r "fst sv" "snd sv"] nx by auto
  obtain d' where d': "fst (draw_char font l r i (s', v')) = s'\<lparr>dim := d'\<rparr>" using draw_char_frame by blast
  have id: "\<exists>d. fst sv = (fst sv)\<lparr>dim := d\<rparr>" by (rule exI [of _ "dim (fst sv)"]) simp
  show ?case
  proof (cases "i < n \<and> \<not> stop")
    case True
    then have "\<exists>e. fst (draw_loop font l r n (i + 1) (draw_char font l r i (s', v'))) = (fst (draw_char font l r i (s', v')))\<lparr>dim := e\<rparr>"
      using "1.IH" nx by auto
    then show ?thesis using True nx d d' by (subst draw_loop.simps) auto
  next
    case False
    then show ?thesis using nx d id by (subst draw_loop.simps) auto
  qed
qed

lemma drawLines_frame: "\<exists>d. drawLines font a b c r s = s\<lparr>dim := d\<rparr>"
proof -
  let ?sv = "draw_loop font b r (charCount s) (screenLines s ! unat a)
         (s, \<lparr>dv_lines = 0, dv_offset = row_offset font s r, dv_glyphLen = 0, dv_logicalLen = c, dv_toNext = False\<rparr>)"
  obtain d where "fst ?sv = s\<lparr>dim := d\<rparr>" using draw_loop_frame [of font b r "charCount s" "screenLines s ! unat a"
      "(s, \<lparr>dv_lines = 0, dv_offset = row_offset font s r, dv_glyphLen = 0, dv_logicalLen = c, dv_toNext = False\<rparr>)"] by auto
  moreover have "\<exists>d'. zeroOutGlyphs font x k (s\<lparr>dim := d\<rparr>) = s\<lparr>dim := d'\<rparr>" for x k
    using draw_frames(2) [of font x k "s\<lparr>dim := d\<rparr>"] by auto
  ultimately show ?thesis by (cases ?sv) (simp add: drawLines_def)
qed

lemma screen_wf_dim [simp]: "screen_wf (s\<lparr>dim := d\<rparr>) = screen_wf s"
  by (simp add: screen_wf_def)

lemma ring_decrement_closer:
  fixes a b :: "'a :: len word"
  assumes "unat a < 2 ^ k" "unat b < 2 ^ k" "a \<noteq> b"
  shows "unat (RING_MINUS (RING_DECREMENT a (2 ^ k)) b (2 ^ k)) + 1 = unat (RING_MINUS a b (2 ^ k))"
proof -
  let ?d = "(a - b) AND mask k"
  have d: "unat ?d < 2 ^ k" unfolding unat_and_mask by simp
  have "?d \<noteq> 0"
  proof
    assume "?d = 0"
    have "a AND mask k = ((a - b) + b) AND mask k" by simp
    also have "\<dots> = (?d + b) AND mask k" unfolding mask_eqs ..
    also have "\<dots> = b AND mask k" using \<open>?d = 0\<close> by simp
    finally show False using assms by (simp add: and_mask_eq_self)
  qed
  then have pos: "0 < unat ?d" by (simp add: unat_gt_0)
  have "RING_MINUS (RING_DECREMENT a (2 ^ k)) b (2 ^ k) = (a - 1 - b) AND mask k"
    unfolding RING_MINUS_def RING_DECREMENT_def two_power_minus_one_mask mask_eqs ..
  also have "\<dots> = (?d - 1) AND mask k" unfolding mask_eqs by (simp add: algebra_simps)
  also have "\<dots> = ?d - 1"
    using pos d by (intro and_mask_eq_self) (simp add: unat_sub_nowrap)
  finally show ?thesis
    using pos unfolding RING_MINUS_def two_power_minus_one_mask by (simp add: unat_sub_nowrap)
qed

lemma tail_entry_loop_returns:
  assumes "screen_wf s" "entry < ringGlyphsPerColumn s" "unat (RING_MINUS entry (oldestScreenLineIndex s) (ringGlyphsPerColumn s)) < fuel"
  shows "\<exists>e. tail_entry_loop fuel s entry = Some e \<and> e < ringGlyphsPerColumn s"
  using assms(2,3)
proof (induction fuel arbitrary: entry)
  case (Suc fuel)
  obtain k where k: "k < 16" "ringGlyphsPerColumn s = 2 ^ k" using assms(1) by (auto simp: screen_wf_def ring_ok_def)
  have r: "ring_ok (ringGlyphsPerColumn s)" "oldestScreenLineIndex s < ringGlyphsPerColumn s" using assms(1) by (auto simp: screen_wf_def)
  show ?case
  proof (cases "entry = oldestScreenLineIndex s")
    case False
    have "unat (RING_MINUS (RING_DECREMENT entry (2 ^ k)) (oldestScreenLineIndex s) (2 ^ k)) + 1 =
        unat (RING_MINUS entry (oldestScreenLineIndex s) (2 ^ k))"
      using Suc.prems(1) r(2) False k by (intro ring_decrement_closer) (simp_all add: word_less_nat_alt)
    then have "unat (RING_MINUS (RING_DECREMENT entry (ringGlyphsPerColumn s)) (oldestScreenLineIndex s) (ringGlyphsPerColumn s)) < fuel"
      using Suc.prems(2) unfolding k(2) by linarith
    then show ?thesis using Suc.IH ring_less(4) [OF r(1)] Suc.prems(1) by auto
  qed (use Suc.prems in auto)
qed simp

lemma tail_entry_loop_total:
  assumes "screen_wf s" "entry < ringGlyphsPerColumn s"
  obtains e where "tail_entry_loop 65537 s entry = Some e" "e < ringGlyphsPerColumn s"
proof -
  have "unat (RING_MINUS entry (oldestScreenLineIndex s) (ringGlyphsPerColumn s)) < 65537"
    using unat_lt_u16 [of "RING_MINUS entry (oldestScreenLineIndex s) (ringGlyphsPerColumn s)"] by linarith
  then show ?thesis using tail_entry_loop_returns [OF assms] that by blast
qed

lemma oldest_loop_returns:
  assumes "unat index < 2 ^ 13" "unat oldest < 2 ^ 13" "unat (RING_MINUS index oldest MAX_SCROLLBACK_LINES) < fuel"
  shows "\<exists>i. oldest_loop fuel s n oldest p index = Some i \<and> unat i < 2 ^ 13"
  using assms(1,3)
proof (induction fuel arbitrary: index p)
  case (Suc fuel)
  show ?case
  proof (cases "index = oldest")
    case False
    have "unat (RING_MINUS (RING_DECREMENT index MAX_SCROLLBACK_LINES) oldest MAX_SCROLLBACK_LINES) + 1 =
        unat (RING_MINUS index oldest MAX_SCROLLBACK_LINES)"
      unfolding MAX_SCROLLBACK_LINES_def using Suc.prems(1) assms(2) False by (intro ring_decrement_closer)
    then have "unat (RING_MINUS (RING_DECREMENT index MAX_SCROLLBACK_LINES) oldest MAX_SCROLLBACK_LINES) < fuel"
      using Suc.prems(2) by linarith
    then show ?thesis using Suc.IH scrollback_less(2) [of index] Suc.prems(1) by (auto simp: Let_def)
  qed (use Suc.prems in auto)
qed simp

lemma search_loop_less:
  assumes "unat left < 8192"
  shows "unat (search_loop lines index left right) < 8192"
  using assms
proof (induction lines index left right rule: search_loop.induct)
  case (1 lines index left right)
  then show ?case using scrollback_less(3) by (subst search_loop.simps) (auto simp: Let_def)
qed

lemma I8IndexToLogicalLine_less: "screen_wf s \<Longrightarrow> unat (I8IndexToLogicalLine i s) < 8192"
  using search_loop_less scrollback_less(1) by (auto simp: I8IndexToLogicalLine_def screen_wf_def)

lemma oldestChar_total:
  assumes "screen_wf s"
  shows "\<exists>c. oldestCharToParseGivenScreenLines e n s = Some c"
proof -
  let ?o = "RING_INCREMENT (logicalLineToWrite s) MAX_SCROLLBACK_LINES"
  have "\<exists>i'. oldest_loop 8193 s n' ?o p i = Some i'" if "unat i < 8192" for n' p i
    using oldest_loop_returns [of i ?o 8193 s n' p] that scrollback_less(1) scrollback_less(4) [of i ?o] by fastforce
  then show ?thesis using I8IndexToLogicalLine_less [OF assms, of e] scrollback_less(2)
    by (auto simp: oldestCharToParseGivenScreenLines_def Let_def simp del: oldest_loop.simps split: option.splits)
       (metis option.distinct(1))+
qed

section \<open>Every operation returns and keeps the screen well formed\<close>

definition fill_ok :: "screen \<Rightarrow> fill_vars \<Rightarrow> bool" where
  "fill_ok s v \<longleftrightarrow> fv_index v < ringGlyphsPerColumn s \<and> length (fv_copy v) = unat (ringGlyphsPerColumn s) \<and>
     length (fv_lens v) = unat (ringGlyphsPerColumn s)"

lemma new_screen_line_ok:
  "ring_ok (ringGlyphsPerColumn s) \<Longrightarrow> fill_ok s v \<Longrightarrow> fill_ok s (new_screen_line s a i len v)"
  using ring_less(3) by (auto simp: fill_ok_def new_screen_line_def Let_def)

lemma fill_ok_update [simp]:
  "fill_ok s (v\<lparr>fv_glyphLen := a\<rparr>) = fill_ok s v" "fill_ok s (v\<lparr>fv_logicalLen := b\<rparr>) = fill_ok s v"
  "fill_ok s (v\<lparr>fv_toNext := c\<rparr>) = fill_ok s v" "fill_ok s (v\<lparr>fv_glyphLen := a, fv_logicalLen := b\<rparr>) = fill_ok s v"
  "fill_ok s (v\<lparr>fv_glyphLen := a, fv_logicalLen := b, fv_toNext := c\<rparr>) = fill_ok s v"
  "fill_ok s (v\<lparr>fv_glyphLen := a, fv_toNext := c\<rparr>) = fill_ok s v"
  by (simp_all add: fill_ok_def)

lemma fill_char_ok: "ring_ok (ringGlyphsPerColumn s) \<Longrightarrow> fill_ok s v \<Longrightarrow> fill_ok s (fill_char s a m i v)"
  using new_screen_line_ok by (auto simp: fill_char_def Let_def fill_ok_def)

lemma fill_loop_ok:
  assumes "ring_ok (ringGlyphsPerColumn s)" "fill_ok s v"
  shows "fill_ok s (snd (fill_loop s a n m i v))"
  using assms
proof (induction s a n m i v rule: fill_loop.induct)
  case (1 s a n m i v)
  have ok: "fill_ok s (fill_char s a m i
      (if fv_toNext v then (new_screen_line s a i (fv_logicalLen v) v)\<lparr>fv_glyphLen := 0, fv_toNext := False\<rparr> else v))"
    using "1.prems" by (intro fill_char_ok) (auto simp: new_screen_line_ok)
  show ?case
  proof (cases "i < n \<and> \<not> (fv_toNext v \<and> m \<noteq> 0 \<and> fv_window v \<ge> m)")
    case True
    then show ?thesis using "1.IH" [OF _ _ "1.prems"(1) ok] by (subst fill_loop.simps) auto
  next
    case False
    then show ?thesis using "1.prems"(2) by (subst fill_loop.simps) auto
  qed
qed

lemma fillScreenLines_wf:
  assumes "screen_wf s" "fillScreenLines a b c m s = (r, s')"
  shows "\<exists>x y. s' = s\<lparr>screenLinesCopy := x, logicalLineLens := y\<rparr> \<and> length x = unat (ringGlyphsPerColumn s) \<and>
     length y = unat (ringGlyphsPerColumn s) \<and> currentScreenLineIndex r < ringGlyphsPerColumn s \<and>
     realScreenLinesWritten r \<le> glyphsPerColumn s"
proof -
  have r: "ring_ok (ringGlyphsPerColumn s)" using assms(1) by (simp add: screen_wf_def)
  then have "0 < ringGlyphsPerColumn s" using assms(1) by (auto simp: screen_wf_def word_gt_0)
  let ?v0 = "\<lparr>fv_index = 0, fv_window = of_bool (a \<ge> b), fv_glyphLen = 0, fv_logicalLen = 0, fv_toNext = False,
                fv_copy = (screenLinesCopy s)[0 := a], fv_lens = (logicalLineLens s)[0 := 0]\<rparr>"
  have "fill_ok s ?v0" using assms(1) \<open>0 < ringGlyphsPerColumn s\<close> by (simp add: fill_ok_def screen_wf_def)
  then have "fill_ok s (snd (fill_loop s b c m a ?v0))" by (rule fill_loop_ok [OF r])
  moreover obtain i v where iv: "fill_loop s b c m a ?v0 = (i, v)" by fastforce
  ultimately have ok: "fill_ok s v" by simp
  show ?thesis
    using assms(2) ring_less(3) [OF r] ok unfolding fillScreenLines_def Let_def iv fill_ok_def
    by (intro exI [of _ "(fv_copy v)[unat (RING_INCREMENT (fv_index v) (ringGlyphsPerColumn s)) := i]"] exI [of _ "fv_lens v"]) auto
qed

lemma copy_lines_frame:
  "\<exists>x. copy_lines n t f i s = s\<lparr>screenLines := x\<rparr> \<and> length x = length (screenLines s)"
proof (induction n arbitrary: i s)
  case 0
  show ?case by (rule exI [of _ "screenLines s"]) simp
next
  case (Suc n)
  let ?s = "s\<lparr>screenLines := (screenLines s)[unat (RING_PLUS t i (ringGlyphsPerColumn s)) :=
            screenLinesCopy s ! unat (RING_PLUS f i (ringGlyphsPerColumn s))]\<rparr>"
  show ?case using Suc.IH [of "i + 1" ?s] by auto
qed

text \<open>What the window operations may change: everything but the text and its logical lines.\<close>

definition same_text :: "screen \<Rightarrow> screen \<Rightarrow> bool" where
  "same_text s s' \<longleftrightarrow> text_buf s' = text_buf s \<and> logicalLines s' = logicalLines s \<and> logicalLineToWrite s' = logicalLineToWrite s \<and>
     logicalNewline s' = logicalNewline s \<and> charCount s' = charCount s \<and> nextCharInBuf s' = nextCharInBuf s \<and>
     ringGlyphsPerColumn s' = ringGlyphsPerColumn s \<and> glyphsPerLine s' = glyphsPerLine s \<and> glyphsPerColumn s' = glyphsPerColumn s"

definition kept :: "screen \<Rightarrow> screen \<Rightarrow> bool" where
  "kept s s' \<longleftrightarrow> screen_wf s' \<and> same_text s s'"

lemma kept_refl: "screen_wf s \<Longrightarrow> kept s s"
  by (simp add: kept_def same_text_def)

lemma kept_trans: "kept s s' \<Longrightarrow> kept s' s'' \<Longrightarrow> kept s s''"
  by (simp add: kept_def same_text_def)

lemma kept_wf: "kept s s' \<Longrightarrow> screen_wf s'"
  by (simp add: kept_def)

lemma kept_ring: "kept s s' \<Longrightarrow> ringGlyphsPerColumn s' = ringGlyphsPerColumn s \<and> glyphsPerColumn s' = glyphsPerColumn s"
  by (simp add: kept_def same_text_def)

lemma kept_dim: "screen_wf s \<Longrightarrow> s' = s\<lparr>dim := d\<rparr> \<Longrightarrow> kept s s'"
  by (simp add: kept_def same_text_def)

lemma kept_drawing:
  assumes "screen_wf s"
  shows "kept s (drawLines font a b c r s)" "kept s (switchToScreenDisplay s)" "kept s (move_pixels x y n s)"
  using drawLines_frame [of font a b c r s] draw_frames(4) [of s] draw_frames(5) [of x y n s] kept_dim [OF assms] by metis+

lemma kept_fill: "screen_wf s \<Longrightarrow> fillScreenLines a b c m s = (r, s') \<Longrightarrow> kept s s'"
  using fillScreenLines_wf [of s a b c m r s'] by (auto simp: kept_def same_text_def screen_wf_def)

lemma kept_copy: "screen_wf s \<Longrightarrow> kept s (copy_lines n t f i s)"
  using copy_lines_frame [of n t f i s] by (auto simp: kept_def same_text_def screen_wf_def)

lemma kept_oldest: "screen_wf s \<Longrightarrow> i < ringGlyphsPerColumn s \<Longrightarrow> kept s (s\<lparr>oldestScreenLineIndex := i\<rparr>)"
  by (simp add: kept_def same_text_def screen_wf_def)

lemma kept_flags: "screen_wf s \<Longrightarrow> kept s (s\<lparr>lastScreenlineOpen := a\<rparr>)" "screen_wf s \<Longrightarrow> kept s (s\<lparr>isTailing := b, lastScreenlineOpen := a\<rparr>)"
  by (simp_all add: kept_def same_text_def screen_wf_def)

lemma fill_kept:
  assumes "kept s0 s" obtains r s' where "fillScreenLines a b c m s = (r, s')" "kept s0 s'"
  using kept_fill [OF kept_wf [OF assms]] kept_trans [OF assms] by (cases "fillScreenLines a b c m s") blast

text \<open>A chain of steps from a screen \<open>s0\<close>.\<close>

lemma kept_step:
  assumes "kept s0 s"
  shows "kept s0 (drawLines font a b c r s)" "kept s0 (switchToScreenDisplay s)" "kept s0 (copy_lines n t f i s)"
    "kept s0 (move_pixels x y k s)" "kept s0 (s\<lparr>lastScreenlineOpen := p\<rparr>)" "kept s0 (s\<lparr>isTailing := q, lastScreenlineOpen := p\<rparr>)"
    "j < ringGlyphsPerColumn s0 \<Longrightarrow> kept s0 (s\<lparr>oldestScreenLineIndex := j\<rparr>)"
  using kept_oldest [OF kept_wf [OF assms], of j] kept_ring [OF assms] kept_trans [OF assms]
    kept_drawing [OF kept_wf [OF assms]] kept_copy [OF kept_wf [OF assms]] kept_flags [OF kept_wf [OF assms]]
  by metis+

lemma kept_if: "kept s0 s \<Longrightarrow> kept s0 s' \<Longrightarrow> kept s0 (if b then s else s')"
  by simp

lemma toTail_kept:
  assumes "screen_wf s"
  shows "\<exists>s'. toTail font s = Some s' \<and> kept s s'"
proof -
  have r: "ring_ok (ringGlyphsPerColumn s)" using assms by (simp add: screen_wf_def)
  obtain e where e: "tail_entry_loop 65537 s (RING_PLUS (oldestScreenLineIndex s) (glyphsPerColumn s - of_bool (lastScreenlineOpen s))
      (ringGlyphsPerColumn s)) = Some e" using tail_entry_loop_total [OF assms ring_less(1) [OF r]] .
  obtain c where c: "oldestCharToParseGivenScreenLines (charCount s) (glyphsPerColumn s) s = Some c"
    using oldestChar_total [OF assms] by blast
  obtain f s1 where f: "fillScreenLines (max c (logicalLines s ! unat (I8IndexToLogicalLine (screenLines s ! unat e) s)))
      (screenLines s ! unat e) (charCount s) 0 s = (f, s1)" and k1: "kept s s1"
    using fill_kept [OF kept_refl [OF assms]] .
  show ?thesis
    unfolding toTail_def Let_def e c option.case f prod.case
    by (rule exI, rule conjI, rule refl) (intro kept_step kept_if k1 ring_less(1) r)
qed

lemma rewind_kept:
  assumes "screen_wf s"
  shows "\<exists>s'. rewind font n s = Some s' \<and> kept s s'"
proof (cases "isWindowSmallerThanScreen s")
  case False
  have r: "ring_ok (ringGlyphsPerColumn s)" using assms by (simp add: screen_wf_def)
  let ?o = "screenLines s ! unat (oldestScreenLineIndex s)"
  obtain c where c: "oldestCharToParseGivenScreenLines ?o n s = Some c" using oldestChar_total [OF assms] by blast
  obtain f s1 where f: "fillScreenLines c c ?o 0 s = (f, s1)" and k1: "kept s s1" using fill_kept [OF kept_refl [OF assms]] .
  show ?thesis
  proof (cases "c = ?o")
    case ne: False
    show ?thesis
      unfolding rewind_def Let_def c option.case f prod.case if_not_P [OF False] if_not_P [OF ne]
      by (rule exI, rule conjI, rule refl) (intro kept_step k1 ring_less(2) r)
  qed (use c False kept_refl [OF assms] in \<open>simp add: rewind_def\<close>)
qed (simp add: rewind_def kept_refl [OF assms])

lemma prowind_kept:
  assumes "screen_wf s"
  shows "\<exists>s'. prowind font n s = Some s' \<and> kept s s'"
proof (cases "isWindowSmallerThanScreen s")
  case False
  have r: "ring_ok (ringGlyphsPerColumn s)" using assms by (simp add: screen_wf_def)
  let ?o = "screenLines s ! unat (RING_PLUS (oldestScreenLineIndex s) (glyphsPerColumn s) (ringGlyphsPerColumn s))"
  obtain c where c: "oldestCharToParseGivenScreenLines ?o 0 s = Some c" using oldestChar_total [OF assms] by blast
  obtain f s1 where f: "fillScreenLines c ?o (charCount s) n s = (f, s1)" and k1: "kept s s1" using fill_kept [OF kept_refl [OF assms]] .
  show ?thesis
  proof (cases "charCount s = ?o")
    case ne: False
    show ?thesis
      unfolding prowind_def Let_def if_not_P [OF False] if_not_P [OF ne] c option.case f prod.case
      by (rule exI, rule conjI, rule refl) (intro kept_step k1 ring_less(1) r)
  qed (use False kept_refl [OF assms] in \<open>simp add: prowind_def\<close>)
qed (simp add: prowind_def kept_refl [OF assms])

lemma put_chars_wf: "screen_wf s \<Longrightarrow> screen_wf (fold put_char cs s)"
  by (induction cs arbitrary: s) (simp_all add: put_char_wf)

lemma flushToScreen_kept:
  assumes "screen_wf s"
  shows "\<exists>s'. flushToScreen font b s = Some s' \<and> kept (fold put_char (drop (length b - 65536) b) s) s'"
proof -
  have d: "(if length b > unat FILE_BUF_LEN then length b - unat FILE_BUF_LEN else 0) = length b - 65536"
    by (simp add: FILE_BUF_LEN_def)
  have "screen_wf (fold put_char (drop (length b - 65536) b) s)" by (rule put_chars_wf [OF assms])
  then show ?thesis unfolding flushToScreen_def d Let_def using toTail_kept kept_refl by auto
qed

section \<open>The text the rings hold\<close>

text \<open>The last entries of a growing list, kept in a ring of \<open>n\<close> places; \<open>f\<close> reads an entry.\<close>

definition ring_holds :: "nat \<Rightarrow> ('a \<Rightarrow> 'b) \<Rightarrow> 'b list \<Rightarrow> 'a list \<Rightarrow> bool" where
  "ring_holds n f xs ring \<longleftrightarrow> length ring = n \<and> (\<forall>i<length xs. length xs \<le> i + n \<longrightarrow> f (ring ! (i mod n)) = xs ! i)"

lemma mod_neq_near: "i < m \<Longrightarrow> m < i + n \<Longrightarrow> i mod n \<noteq> m mod (n :: nat)"
proof
  assume "i < m" "m < i + n" "i mod n = m mod n"
  then have "n dvd m - i" using mod_eq_dvd_iff_nat [of i m n] by (simp add: eq_commute)
  then show False using \<open>i < m\<close> \<open>m < i + n\<close> by (auto dest!: dvd_imp_le)
qed

lemma ring_holds_snoc:
  assumes "ring_holds n f xs ring" "0 < n" "f y = x"
  shows "ring_holds n f (xs @ [x]) (ring[length xs mod n := y])"
proof -
  have "f (ring[length xs mod n := y] ! (i mod n)) = (xs @ [x]) ! i" if "i < length xs + 1" "length xs + 1 \<le> i + n" for i
  proof (cases "i = length xs")
    case True
    then show ?thesis using assms by (simp add: ring_holds_def)
  next
    case False
    then have "i < length xs" using that(1) by simp
    moreover from this have "i mod n \<noteq> length xs mod n" using that(2) by (intro mod_neq_near) simp_all
    ultimately show ?thesis using assms(1) that by (simp add: ring_holds_def nth_append)
  qed
  then show ?thesis using assms(1) by (simp add: ring_holds_def)
qed

text \<open>The positions at which the lines of a text start, and the start of the line a position lies in.\<close>

definition line_starts :: "bytes \<Rightarrow> nat list" where
  "line_starts h = 0 # map Suc (filter (\<lambda>i. h ! i = 10) [0..<length h - 1])"

primrec line_start :: "bytes \<Rightarrow> nat \<Rightarrow> nat" where
  "line_start h 0 = 0"
| "line_start h (Suc i) = (if h ! i = 10 then Suc i else line_start h i)"

lemma line_starts_Nil [simp]: "line_starts [] = [0]"
  by (simp add: line_starts_def)

lemma line_starts_snoc: "line_starts (h @ [c]) = line_starts h @ (if h \<noteq> [] \<and> last h = 10 then [length h] else [])"
proof (cases "h = []")
  case False
  then obtain k where k: "length h = Suc k" by (cases "length h") auto
  then have "last h = h ! k" using False by (simp add: last_conv_nth)
  moreover have "filter (\<lambda>i. (h @ [c]) ! i = 10) [0..<k] = filter (\<lambda>i. h ! i = 10) [0..<k]"
    using k by (intro filter_cong) (auto simp: nth_append)
  ultimately show ?thesis using False k by (simp add: line_starts_def nth_append)
qed (simp add: line_starts_def)

lemma length_line_starts_pos: "0 < length (line_starts h)"
  by (simp add: line_starts_def)

text \<open>
  The state after the text \<open>h\<close>: the last 65536 characters are in the ring of characters, the last 8192
  line starts in the ring of lines, whose unused places are still zero.
\<close>

definition text_ok :: "bytes \<Rightarrow> screen \<Rightarrow> bool" where
  "text_ok h s \<longleftrightarrow> ring_holds 65536 id h (text_buf s) \<and> ring_holds 8192 unat (line_starts h) (logicalLines s) \<and>
     (\<forall>j<8192. length (line_starts h) \<le> j \<longrightarrow> logicalLines s ! j = 0) \<and>
     unat (charCount s) = length h \<and> unat (nextCharInBuf s) = length h mod 65536 \<and>
     unat (logicalLineToWrite s) = (length (line_starts h) - 1) mod 8192 \<and> (logicalNewline s \<longleftrightarrow> h \<noteq> [] \<and> last h = 10)"

lemma text_ok_same: "text_ok h s \<Longrightarrow> same_text s s' \<Longrightarrow> text_ok h s'"
  by (simp add: text_ok_def same_text_def)

lemma unat_RING_INCREMENT:
  "k < LENGTH('a) \<Longrightarrow> unat (RING_INCREMENT (v :: 'a :: len word) (2 ^ k)) = (unat v + 1) mod 2 ^ k"
  unfolding RING_INCREMENT_def two_power_minus_one_mask unat_and_mask
  by (simp add: unat_word_ariths mod_mod_cancel le_imp_power_dvd)

lemma scrollback_increment: "unat (RING_INCREMENT v MAX_SCROLLBACK_LINES) = (unat v + 1) mod 8192"
  using unat_RING_INCREMENT [of 13 v] by (simp add: MAX_SCROLLBACK_LINES_def)

lemma put_char_text:
  assumes "text_ok h s" "Suc (length h) < 2 ^ 64"
  shows "text_ok (h @ [c]) (put_char c s)"
proof -
  note ok = assms(1) [unfolded text_ok_def]
  let ?m = "length (line_starts h)"
  have lines: "unat (RING_INCREMENT (logicalLineToWrite s) MAX_SCROLLBACK_LINES) = ?m mod 8192"
    using ok length_line_starts_pos [of h] by (simp add: scrollback_increment mod_Suc_eq)
  have next_: "unat (RING_INCREMENT (nextCharInBuf s) (ucast FILE_BUF_LEN)) = Suc (length h) mod 65536"
  proof -
    have "ucast FILE_BUF_LEN = (2 ^ 16 :: u32)" by (simp add: FILE_BUF_LEN_def)
    moreover have "unat (nextCharInBuf s) = length h mod 65536" using ok by simp
    ultimately show ?thesis using unat_RING_INCREMENT [of 16 "nextCharInBuf s"] by (simp add: mod_Suc_eq)
  qed
  have count: "unat (charCount s + 1) = Suc (length h)" using ok assms(2) unat_add_nowrap [of "charCount s" 1] by simp
  have chars: "ring_holds 65536 id (h @ [c]) ((text_buf s)[length h mod 65536 := c])"
    using ok by (intro ring_holds_snoc) simp_all
  show ?thesis
  proof (cases "logicalNewline s")
    case True
    then have st: "line_starts (h @ [c]) = line_starts h @ [length h]" using ok by (simp add: line_starts_snoc)
    have "ring_holds 8192 unat (line_starts h @ [length h]) ((logicalLines s)[?m mod 8192 := charCount s])"
      using ok by (intro ring_holds_snoc) simp_all
    then show ?thesis
      using True ok chars lines next_ count by (auto simp: text_ok_def put_char_def Let_def st)
  next
    case False
    then have st: "line_starts (h @ [c]) = line_starts h" using ok by (simp add: line_starts_snoc)
    then show ?thesis using False ok chars next_ count by (auto simp: text_ok_def put_char_def Let_def)
  qed
qed

lemma put_chars_text:
  assumes "text_ok h s" "length h + length cs < 2 ^ 64"
  shows "text_ok (h @ cs) (fold put_char cs s)"
  using assms
proof (induction cs arbitrary: h s)
  case (Cons c cs)
  have "text_ok (h @ [c]) (put_char c s)" using Cons.prems by (intro put_char_text) simp_all
  then show ?case using Cons.IH [of "h @ [c]"] Cons.prems(2) by simp
qed simp

section \<open>Finding the line of a character\<close>

declare search_loop.simps [simp del]

lemma search_loop_spec:
  assumes "unat left < 8192" "unat right < 8192" "lines ! unat left \<le> index" "index < lines ! unat right"
  shows "lines ! unat (search_loop lines index left right) \<le> index \<and>
    index < lines ! unat (RING_INCREMENT (search_loop lines index left right) MAX_SCROLLBACK_LINES)"
  using assms
proof (induction lines index left right rule: search_loop.induct)
  case (1 lines index left right)
  let ?d = "RING_MINUS right left MAX_SCROLLBACK_LINES"
  show ?case
  proof (cases "1 < ?d")
    case True
    let ?mid = "RING_PLUS left (?d div 2) MAX_SCROLLBACK_LINES"
    have mid: "unat ?mid < 8192" by (rule scrollback_less)
    show ?thesis
    proof (cases "lines ! unat ?mid > index")
      case less: True
      then have "search_loop lines index left right = search_loop lines index left ?mid"
        using True by (subst search_loop.simps) (simp add: Let_def)
      then show ?thesis using "1.IH"(1) [OF True refl less "1.prems"(1) mid "1.prems"(3) less] by simp
    next
      case ge: False
      then have "search_loop lines index left right = search_loop lines index ?mid right"
        using True by (subst search_loop.simps) (simp add: Let_def)
      then show ?thesis using "1.IH"(2) [OF True refl ge mid "1.prems"(2) _ "1.prems"(4)] ge by (simp add: not_less)
    qed
  next
    case False
    have "left \<noteq> right" using "1.prems"(3,4) by auto
    have b: "unat left < 2 ^ 13" "unat right < 2 ^ 13" using "1.prems" by simp_all
    have "?d \<noteq> 0"
      using ring_decrement_closer [OF b(2,1)] \<open>left \<noteq> right\<close> unfolding MAX_SCROLLBACK_LINES_def by auto
    then have d1: "?d = 1" using False by (simp add: word_less_nat_alt word_eq_unatI unat_gt_0 [symmetric] le_less_Suc_eq)
    have "RING_INCREMENT left MAX_SCROLLBACK_LINES = (left + 1) AND mask 13"
      unfolding RING_INCREMENT_def MAX_SCROLLBACK_LINES_def two_power_minus_one_mask ..
    also have "\<dots> = (left + ?d) AND mask 13" by (simp only: d1)
    also have "\<dots> = right AND mask 13"
      unfolding RING_MINUS_def MAX_SCROLLBACK_LINES_def two_power_minus_one_mask mask_eqs by simp
    also have "\<dots> = right" using b(2) by (rule and_mask_eq_self)
    finally show ?thesis using False "1.prems"(3,4) by (subst search_loop.simps, subst search_loop.simps) simp
  qed
qed

lemma set_line_starts: "set (line_starts h) = insert 0 (Suc ` {k. k < length h - 1 \<and> h ! k = 10})"
  by (auto simp: line_starts_def)

lemma sorted_line_starts: "sorted (line_starts h)"
  by (simp add: line_starts_def sorted_map sorted_wrt_filter)

lemma line_start_greatest:
  assumes "i < length h"
  shows "line_start h i \<in> set (line_starts h) \<and> line_start h i \<le> i \<and> (\<forall>p\<in>set (line_starts h). p \<le> i \<longrightarrow> p \<le> line_start h i)"
  using assms
proof (induction i)
  case (Suc i)
  then show ?case by (auto simp: set_line_starts le_Suc_eq)
qed (simp add: set_line_starts)

lemma line_start_between:
  assumes "i < length h" "j < length (line_starts h)" "line_starts h ! j \<le> i"
    "Suc j < length (line_starts h) \<Longrightarrow> i < line_starts h ! Suc j"
  shows "line_starts h ! j = line_start h i"
proof (rule antisym)
  note g = line_start_greatest [OF assms(1)]
  show "line_starts h ! j \<le> line_start h i" using g assms(2,3) by simp
  obtain k where k: "k < length (line_starts h)" "line_starts h ! k = line_start h i" using g by (auto simp: in_set_conv_nth)
  have "k \<le> j"
  proof (rule ccontr)
    assume "\<not> k \<le> j"
    then have "line_starts h ! Suc j \<le> line_start h i" "Suc j < length (line_starts h)"
      using sorted_nth_mono [OF sorted_line_starts, of "Suc j" k h] k by auto
    then show False using assms(4) g by linarith
  qed
  then show "line_start h i \<le> line_starts h ! j" using sorted_nth_mono [OF sorted_line_starts, of k j h] k assms(2) by simp
qed

text \<open>A nonzero place of the ring of lines holds a line start, of a line that is not the first.\<close>

lemma line_ring_nonzero:
  assumes "text_ok h s" "p < 8192" "logicalLines s ! p \<noteq> 0"
  obtains j where "j < length (line_starts h)" "length (line_starts h) \<le> j + 8192" "0 < j" "j mod 8192 = p"
    "unat (logicalLines s ! p) = line_starts h ! j"
proof -
  let ?m = "length (line_starts h)"
  note ok = assms(1) [unfolded text_ok_def ring_holds_def]
  have pm: "p < ?m" using ok assms(2,3) by (meson not_le)
  define j where "j = ?m - 1 - (?m - 1 - p) mod 8192"
  have j: "j < ?m" "?m \<le> j + 8192" using pm by (auto simp: j_def intro: Suc_leI)
  have "8192 dvd ?m - 1 - p - (?m - 1 - p) mod 8192" by (rule dvd_minus_mod)
  moreover have "?m - 1 - p - (?m - 1 - p) mod 8192 = j - p" by (simp add: j_def)
  moreover have "p \<le> j" using mod_less_eq_dividend [of "?m - 1 - p" 8192] pm by (auto simp: j_def)
  ultimately have "j mod 8192 = p" using mod_eq_dvd_iff_nat [of p j 8192] assms(2) by simp
  moreover from this have v: "unat (logicalLines s ! p) = line_starts h ! j" using ok j by auto
  moreover have "0 < j"
  proof (rule ccontr)
    assume "\<not> 0 < j"
    then show False using v assms(3) by (simp add: line_starts_def unat_eq_0)
  qed
  ultimately show ?thesis using that j by blast
qed

lemma oldest_line_le:
  assumes "text_ok h s" "line_starts h ! (length (line_starts h) - 8192) \<le> unat i"
  shows "logicalLines s ! unat (RING_INCREMENT (logicalLineToWrite s) MAX_SCROLLBACK_LINES) \<le> i"
proof -
  let ?m = "length (line_starts h)"
  let ?o = "unat (RING_INCREMENT (logicalLineToWrite s) MAX_SCROLLBACK_LINES)"
  have o: "?o < 8192" by (rule scrollback_less)
  note ok = assms(1) [unfolded text_ok_def ring_holds_def]
  have om: "?o = ?m mod 8192"
    using ok length_line_starts_pos [of h] by (simp add: scrollback_increment mod_Suc_eq)
  show ?thesis
  proof (cases "?m < 8192")
    case True
    then show ?thesis using ok om by simp
  next
    case False
    then have "(?m - 8192) mod 8192 = ?o" using om by (simp add: le_mod_geq)
    then have "unat (logicalLines s ! ?o) = line_starts h ! (?m - 8192)"
      using ok False length_line_starts_pos [of h] by (metis add.commute diff_less le_add_diff_inverse not_less order_refl zero_less_numeral)
    then show ?thesis using assms(2) by (simp add: word_le_nat_alt)
  qed
qed

lemma I8IndexToLogicalLine_text:
  assumes ok: "text_ok h s" and i: "unat i < length h" and old: "line_starts h ! (length (line_starts h) - 8192) \<le> unat i"
  shows "unat (logicalLines s ! unat (I8IndexToLogicalLine i s)) = line_start h (unat i)"
proof -
  let ?m = "length (line_starts h)"
  let ?w = "logicalLineToWrite s"
  note k = ok [unfolded text_ok_def ring_holds_def]
  have w: "unat ?w < 8192" "unat ?w = (?m - 1) mod 8192" using k by simp_all
  have newest: "unat (logicalLines s ! unat ?w) = line_starts h ! (?m - 1)"
    using k w(2) length_line_starts_pos [of h] by simp
  show ?thesis
  proof (cases "i \<ge> logicalLines s ! unat ?w")
    case True
    then have "line_starts h ! (?m - 1) = line_start h (unat i)"
      using newest length_line_starts_pos [of h] by (intro line_start_between [OF i]) (auto simp: word_le_nat_alt)
    then show ?thesis using True newest by (simp add: I8IndexToLogicalLine_def)
  next
    case False
    let ?l = "search_loop (logicalLines s) i (RING_INCREMENT ?w MAX_SCROLLBACK_LINES) ?w"
    let ?n = "RING_INCREMENT ?l MAX_SCROLLBACK_LINES"
    have sp: "logicalLines s ! unat ?l \<le> i" "i < logicalLines s ! unat ?n"
      using search_loop_spec [OF scrollback_less(1) w(1) oldest_line_le [OF ok old]] False by auto
    have l: "unat ?l < 8192" by (rule search_loop_less) (rule scrollback_less)
    have "logicalLines s ! unat ?n \<noteq> 0" using sp(2) by auto
    then obtain j where j: "j < ?m" "?m \<le> j + 8192" "0 < j" "j mod 8192 = unat ?n" "unat (logicalLines s ! unat ?n) = line_starts h ! j"
      using line_ring_nonzero [OF ok scrollback_less(1)] by metis
    have lj: "unat ?l = (j - 1) mod 8192"
    proof -
      have "j mod 8192 = (unat ?l + 1) mod 8192"
        unfolding j(4) by (rule scrollback_increment)
      then have "(j - 1) mod 8192 = unat ?l mod 8192" using j(3) by (cases j) (auto simp: mod_Suc split: if_splits)
      then show ?thesis using l by simp
    qed
    have "?m \<le> j - 1 + 8192"
    proof (rule ccontr)
      assume "\<not> ?m \<le> j - 1 + 8192"
      then have "?m - 1 = j - 1 + 8192" using j(2,3) by linarith
      then have "?l = ?w" using lj w(2) by (intro word_eq_unatI) simp
      then show False using sp(1) False by simp
    qed
    then have v: "unat (logicalLines s ! unat ?l) = line_starts h ! (j - 1)" using k lj j(1,3) by simp
    have "line_starts h ! (j - 1) = line_start h (unat i)"
      using sp v j by (intro line_start_between [OF i]) (auto simp: word_le_nat_alt word_less_nat_alt)
    then show ?thesis using False v by (simp add: I8IndexToLogicalLine_def)
  qed
qed

section \<open>Initialisation\<close>

fun control_bind :: "'a control \<Rightarrow> ('a \<Rightarrow> 'b control) \<Rightarrow> 'b control" where
  "control_bind (Ret x) f = f x"
| "control_bind Jump f = Jump"
| "control_bind Stuck f = Stuck"

definition of_option :: "'a option \<Rightarrow> 'a control" where
  "of_option x = (case x of None \<Rightarrow> Stuck | Some y \<Rightarrow> Ret y)"

text \<open>An array of little-endian words of \<open>k\<close> bytes in memory.\<close>

definition load_words :: "memory \<Rightarrow> addr \<Rightarrow> nat \<Rightarrow> nat \<Rightarrow> 'a :: len word list" where
  "load_words m p k n = map (\<lambda>i. foldr (\<lambda>b w. ucast b OR push_bit 8 w) (load_bytes m (p + of_nat (k * i)) k) 0) [0..<n]"

text \<open>The glyphs of a screen of \<open>n\<close> pixels in this direction, a font having \<open>f\<close> pixels.\<close>

definition glyph_count :: "u32 \<Rightarrow> u32 \<Rightarrow> u16" where
  "glyph_count n f = ucast (ucast (ucast (n - PIXEL_MARGIN * 2) :: u16) div f)"

text \<open>
  \<^verbatim>\<open>initScreen\<close> on the statically zeroed variables. \<open>font\<close> is the embedded font, \<open>map_screen\<close> the platform's
  \<^verbatim>\<open>initScreenMemory\<close>, acting on its own state; a font without width or height divides by zero.
\<close>

definition initScreen :: "psf2 \<Rightarrow> (u64 \<Rightarrow> u64 \<Rightarrow> 'w \<Rightarrow> 'w control) \<Rightarrow> ScreenDimension \<Rightarrow> memory \<Rightarrow> Arena \<Rightarrow> 'w \<Rightarrow>
    (screen \<times> memory \<times> Arena \<times> 'w) control" where
  "initScreen font map_screen dimension m perm w =
     control_bind (alloc m perm 1 1 FILE_BUF_LEN 0) (\<lambda>(b, m, perm).
     control_bind (alloc m perm 4 4 (CEILING_DIV_VALUE (dim_size dimension) (ucast BYTES_PER_PIXEL)) 0) (\<lambda>(doubleBuffer, m, perm).
     control_bind (map_screen (dim_address dimension) (dim_size dimension) w) (\<lambda>w.
     if font_width font = 0 \<or> font_height font = 0 then Stuck
     else
     let perLine = glyph_count (dim_width dimension) (font_width font);
         perColumn = glyph_count (dim_height dimension) (font_height font) in
     control_bind (of_option (next_pow2 (ucast perLine))) (\<lambda>_.
     control_bind (of_option (next_pow2 (ucast perColumn + 1))) (\<lambda>ring.
     let ring = ucast ring :: u16;
         ring = (if perColumn = ring then push_bit 1 ring else ring) in
     control_bind (alloc m perm 8 8 (ucast ring) ZERO_MEMORY) (\<lambda>(lines, m, perm).
     control_bind (alloc m perm 8 8 (ucast ring) ZERO_MEMORY) (\<lambda>(lens, m, perm).
     control_bind (alloc m perm 8 8 (ucast ring) ZERO_MEMORY) (\<lambda>(copy, m, perm).
     let vertical = dim_scanline dimension * PIXEL_MARGIN in
     Ret (drawTerminalBox
       \<lparr>dim = dimension\<lparr>dim_backingBuffer :=
          load_words m doubleBuffer 4 (unat (CEILING_DIV_VALUE (dim_size dimension) (ucast BYTES_PER_PIXEL)))\<rparr>,
        glyphsPerLine = perLine, glyphsPerColumn = perColumn, maxCharsToProcess = 2 * (ucast perLine * ucast perColumn),
        bytesPerLine = CEILING_DIV_VALUE (font_width font) 8, glyphStartOffset = vertical + PIXEL_MARGIN,
        glyphStartVerticalOffset = vertical, ringGlyphsPerColumn = ring,
        logicalLineLens = load_words m lens 8 (unat ring), logicalLines = replicate 8192 0, logicalLineToWrite = 0,
        logicalNewline = False, screenLines = load_words m lines 8 (unat ring), oldestScreenLineIndex = 0,
        screenLinesCopy = load_words m copy 8 (unat ring), lastScreenlineOpen = False, isTailing = True, charCount = 0,
        nextCharInBuf = 0, text_buf = load_bytes m b (unat FILE_BUF_LEN)\<rparr>,
        m, perm, w)))))))))"

text \<open>An allocation of a block that fits with the worst padding.\<close>

definition free_bytes :: "Arena \<Rightarrow> nat" where
  "free_bytes a = unat (arena_end a) - unat (curFree a)"

lemma padding_le_7: "padding a (2 ^ k) \<le> 7" if "k \<le> 3"
proof -
  have "(2 :: nat) ^ k \<le> 2 ^ 3" using that by (intro power_increasing) simp_all
  then show ?thesis unfolding padding_mod using mod_less_divisor [of "2 ^ k" "unat (- curFree a)"] by (simp del: mod_less_divisor)
qed

lemma alloc_fits:
  assumes "arena_ok a" "k \<le> 3" "0 < sz" "unat sz * unat count + 7 \<le> free_bytes a"
  shows "\<exists>p m' a'. alloc m a sz (2 ^ k) count flags = Ret (p, m', a') \<and> arena_ok a' \<and>
    free_bytes a \<le> free_bytes a' + unat sz * unat count + 7 \<and> curFree a \<le> curFree a' \<and> arena_end a' = arena_end a \<and>
    arena_beg a' = arena_beg a \<and> (flags AND ZERO_MEMORY \<noteq> 0 \<longrightarrow> m' = filled m p 0 (unat sz * unat count))"
proof -
  have pad: "padding a (2 ^ k) \<le> 7" by (rule padding_le_7 [OF assms(2)])
  have le: "unat (curFree a) \<le> unat (arena_end a)" using assms(1) by (simp add: arena_ok_def word_le_nat_alt)
  have fit: "unat (curFree a) + padding a (2 ^ k) \<le> unat (arena_end a)" "unat sz * unat count \<le> room a (2 ^ k)"
    using pad le assms(4) unfolding free_bytes_def room_def by linarith+
  obtain p m' where p: "alloc m a sz (2 ^ k) count flags = Ret (p, m', a\<lparr>curFree := p + sz * count\<rparr>)"
      "unat p = unat (curFree a) + padding a (2 ^ k)" "unat (p + sz * count) = unat p + unat sz * unat count"
      "unat (p + sz * count) \<le> unat (arena_end a)" "m' = (if flags AND ZERO_MEMORY \<noteq> 0 then filled m p 0 (unat sz * unat count) else m)"
    using alloc_spec(2) [OF assms(1) fit(1) assms(3) fit(2)] by blast
  have "arena_ok (a\<lparr>curFree := p + sz * count\<rparr>)" using assms(1) p(4) by (simp add: arena_ok_def word_le_nat_alt)
  moreover have "free_bytes a \<le> free_bytes (a\<lparr>curFree := p + sz * count\<rparr>) + unat sz * unat count + 7"
    using p(2,3,4) pad by (simp add: free_bytes_def)
  ultimately show ?thesis using p by (auto simp: word_le_nat_alt)
qed

lemma alloc_zeroed_fits:
  assumes "arena_ok a" "8 * unat count + 7 \<le> free_bytes a"
  shows "\<exists>p a'. alloc m a 8 8 count ZERO_MEMORY = Ret (p, filled m p 0 (8 * unat count), a') \<and> arena_ok a' \<and>
    free_bytes a \<le> free_bytes a' + 8 * unat count + 7 \<and> curFree a \<le> curFree a' \<and> arena_end a' = arena_end a"
proof -
  have "ZERO_MEMORY AND ZERO_MEMORY \<noteq> (0 :: u8)" by (simp add: ZERO_MEMORY_def)
  then show ?thesis using alloc_fits [OF assms(1), of 3 8 count m ZERO_MEMORY] assms(2) by auto
qed

lemma load_words_zero:
  assumes "\<And>j. j < k * n \<Longrightarrow> m (p + of_nat j) = 0"
  shows "load_words m p k n = (replicate n 0 :: 'a :: len word list)"
proof -
  have "load_bytes m (p + of_nat (k * i)) k = replicate k 0" if "i < n" for i
  proof (rule nth_equalityI)
    fix j assume "j < length (load_bytes m (p + of_nat (k * i)) k)"
    then have j: "j < k" by (simp add: load_bytes_def)
    have "k * i + j < k * n"
    proof -
      have "k * i + j < k * Suc i" using j by simp
      also have "\<dots> \<le> k * n" using that by (intro mult_le_mono2) simp
      finally show ?thesis .
    qed
    then show "load_bytes m (p + of_nat (k * i)) k ! j = replicate k 0 ! j"
      using assms [of "k * i + j"] j by (simp add: load_bytes_def add.assoc)
  qed (simp add: load_bytes_def)
  moreover have "foldr (\<lambda>b w. ucast (b :: u8) OR push_bit 8 w) (replicate k 0) (0 :: 'a word) = 0" by (induction k) simp_all
  ultimately show ?thesis by (intro nth_equalityI) (simp_all add: load_words_def)
qed

lemma filled_zero_keeps: "m x = 0 \<Longrightarrow> filled m p 0 n x = 0"
  by (simp add: filled_def)

lemma filled_inside: "j < n \<Longrightarrow> n < 2 ^ 64 \<Longrightarrow> filled m p b n (p + of_nat j) = b"
  by (simp add: filled_def unat_of_nat_lt)


lemma drawTerminalBox_frame: "\<exists>d. drawTerminalBox s = s\<lparr>dim := d\<rparr>"
  by (simp add: drawTerminalBox_def switchToScreenDisplay_def with_pixels_def Let_def) blast

text \<open>The terminal before the first character.\<close>

definition fresh_screen :: "screen \<Rightarrow> bool" where
  "fresh_screen s \<longleftrightarrow> screen_wf s \<and> text_ok [] s \<and> isTailing s \<and> glyphsPerColumn s < ringGlyphsPerColumn s \<and>
     0 < glyphsPerLine s \<and> screenLines s = replicate (unat (ringGlyphsPerColumn s)) 0"

lemma fresh_screen_drawTerminalBox [simp]: "fresh_screen (drawTerminalBox s) = fresh_screen s"
proof -
  obtain d where "drawTerminalBox s = s\<lparr>dim := d\<rparr>" using drawTerminalBox_frame by blast
  then show ?thesis by (simp add: fresh_screen_def text_ok_def)
qed

lemma length_load_words [simp]: "length (load_words m p k n) = n"
  by (simp add: load_words_def)

lemma screen_ring:
  assumes "unat gc < 32768"
  shows "\<exists>r k. next_pow2 (ucast (gc :: u16) + 1) = Some r \<and> k < 16 \<and> ucast r = (2 ^ k :: u16) \<and> unat gc < 2 ^ k"
proof (cases "gc = 0")
  case True
  then show ?thesis by (intro exI [of _ 1] exI [of _ 0]) (simp add: next_pow2_def)
next
  case False
  let ?x = "ucast gc + 1 :: u64"
  have x: "unat ?x = unat gc + 1" using assms unat_add_nowrap [of "ucast gc :: u64" 1] by (simp add: unat_ucast_up)
  have "0 < unat gc" using False by (simp add: unat_gt_0)
  then obtain n where n: "next_pow2 ?x = Some (2 ^ n)" "2 ^ n < 2 * unat ?x" "unat ?x \<le> 2 ^ n"
    using next_pow2_Some [of ?x] x assms by auto
  have "(2 :: nat) ^ n < 2 ^ 16" using n(2) x assms by simp
  have n16: "n < 16" using \<open>2 ^ n < 2 ^ 16\<close> by (rule power_less_imp_less_exp [rotated]) simp
  then have "ucast (2 ^ n :: u64) = (2 ^ n :: u16)"
    using \<open>2 ^ n < 2 ^ 16\<close> by (intro word_eq_unatI) (simp add: unat_ucast_mod)
  then show ?thesis using n n16 x by (intro exI [of _ "2 ^ n"] exI [of _ n]) simp
qed

lemma next_pow2_u16:
  assumes "0 < unat (g :: u16)"
  shows "\<exists>q. next_pow2 (ucast g) = Some q"
proof (cases "unat g = 1")
  case True
  then have "g = 1" by (intro word_eq_unatI) simp
  then show ?thesis by (simp add: next_pow2_def)
next
  case False
  then have "2 \<le> unat (ucast g :: u64)" "unat (ucast g :: u64) \<le> 2 ^ 30"
    using assms unat_lt_u16 [of g] by (simp_all add: unat_ucast_up)
  then show ?thesis using next_pow2_Some by metis
qed

lemma unat_glyph_count:
  assumes "40 \<le> unat n" "unat n < 65576"
  shows "unat (glyph_count n f) = (unat n - 40) div unat f"
proof -
  have "unat (n - PIXEL_MARGIN * 2) = unat n - 40" using assms(1) by (simp add: PIXEL_MARGIN_def unat_sub_nowrap)
  then have "unat (ucast (ucast (n - PIXEL_MARGIN * 2) :: u16) :: u32) = unat n - 40"
    using assms by (simp add: unat_ucast_mod)
  moreover have "(unat n - 40) div unat f < 65536" using assms div_le_dividend [of "unat n - 40" "unat f"] by linarith
  ultimately show ?thesis by (simp add: glyph_count_def unat_ucast_mod unat_div)
qed


lemma initScreen_returns:
  assumes ok: "arena_ok perm" and room: "unat (dim_size d) + 852007 \<le> free_bytes perm"
    and width: "40 + unat (font_width font) \<le> unat (dim_width d)" "unat (dim_width d) < 65576" "0 < font_width font"
    and height: "40 \<le> unat (dim_height d)" "unat (dim_height d) < 65576" "2 \<le> unat (font_height font)"
    and w: "map_screen (dim_address d) (dim_size d) w = Ret w'"
  shows "\<exists>s m' perm'. initScreen font map_screen d m perm w = Ret (s, m', perm', w') \<and> arena_ok perm' \<and>
    curFree perm \<le> curFree perm' \<and> arena_end perm' = arena_end perm \<and> fresh_screen s"
proof -
  let ?gl = "glyph_count (dim_width d) (font_width font)" and ?gc = "glyph_count (dim_height d) (font_height font)"
  let ?n = "CEILING_DIV_VALUE (dim_size d) (ucast BYTES_PER_PIXEL)"
  have end_: "unat (arena_end perm) + 160 < 2 ^ 64" "free_bytes perm \<le> unat (arena_end perm)"
    using ok by (simp_all add: arena_ok_def free_bytes_def)
  have e4: "ucast BYTES_PER_PIXEL = (2 ^ 2 :: u64)" by (simp add: BYTES_PER_PIXEL_def)
  have n: "unat ?n = (unat (dim_size d) + 3) div 4"
    using unat_CEILING_DIV_VALUE [of 2 "dim_size d"] end_ room unfolding e4 by simp
  then have n4: "4 * unat ?n \<le> unat (dim_size d) + 3" by simp
  have gl: "0 < unat ?gl"
    using unat_glyph_count [of "dim_width d" "font_width font"] width by (simp add: div_greater_zero_iff word_less_nat_alt)
  then obtain q where q: "next_pow2 (ucast ?gl) = Some q" using next_pow2_u16 by blast
  have "unat ?gc = (unat (dim_height d) - 40) div unat (font_height font)" using unat_glyph_count height by simp
  also have "\<dots> \<le> (unat (dim_height d) - 40) div 2" using height(3) by (intro div_le_mono2) simp_all
  finally have "unat ?gc < 32768" using height(2) by linarith
  then obtain r k where r: "next_pow2 (ucast ?gc + 1) = Some r" "k < 16" "ucast r = (2 ^ k :: u16)" "unat ?gc < 2 ^ k"
    using screen_ring by blast
  have rk: "unat (ucast (2 ^ k :: u16) :: u64) = 2 ^ k" using r(2) by (simp add: unat_ucast_up)
  have k15: "(2 :: nat) ^ k \<le> 2 ^ 15" using r(2) by (intro power_increasing) simp_all
  have ne: "?gc \<noteq> 2 ^ k" using r(2,4) by (auto simp: word_unat_eq_iff)
  obtain b m1 a1 where a1: "alloc m perm 1 1 FILE_BUF_LEN 0 = Ret (b, m1, a1)" "arena_ok a1"
      "free_bytes perm \<le> free_bytes a1 + 65543" "curFree perm \<le> curFree a1" "arena_end a1 = arena_end perm"
    using alloc_fits [OF ok, of 0 1 FILE_BUF_LEN m 0] room by (auto simp: FILE_BUF_LEN_def)
  obtain db m2 a2 where a2: "alloc m1 a1 4 4 ?n 0 = Ret (db, m2, a2)" "arena_ok a2"
      "free_bytes a1 \<le> free_bytes a2 + 4 * unat ?n + 7" "curFree a1 \<le> curFree a2" "arena_end a2 = arena_end perm"
    using alloc_fits [OF a1(2), of 2 4 ?n m1 0] room a1(3,5) n4 by auto
  let ?z = "\<lambda>m p. filled m p 0 (8 * 2 ^ k)"
  have f2: "8 * 2 ^ k + 7 + (8 * 2 ^ k + 7) + (8 * 2 ^ k + 7) \<le> free_bytes a2" using room a1(3) a2(3) n4 k15 by simp
  obtain l a3 where a3: "alloc m2 a2 8 8 (ucast (2 ^ k :: u16)) ZERO_MEMORY = Ret (l, ?z m2 l, a3)" "arena_ok a3"
      "free_bytes a2 \<le> free_bytes a3 + 8 * 2 ^ k + 7" "curFree a2 \<le> curFree a3" "arena_end a3 = arena_end a2"
    using alloc_zeroed_fits [OF a2(2), of "ucast (2 ^ k :: u16)" m2, unfolded rk] f2 by auto
  obtain c a4 where a4: "alloc (?z m2 l) a3 8 8 (ucast (2 ^ k :: u16)) ZERO_MEMORY = Ret (c, ?z (?z m2 l) c, a4)" "arena_ok a4"
      "free_bytes a3 \<le> free_bytes a4 + 8 * 2 ^ k + 7" "curFree a3 \<le> curFree a4" "arena_end a4 = arena_end a3"
    using alloc_zeroed_fits [OF a3(2), of "ucast (2 ^ k :: u16)" "?z m2 l", unfolded rk] f2 a3(3) by auto
  obtain t a5 where a5: "alloc (?z (?z m2 l) c) a4 8 8 (ucast (2 ^ k :: u16)) ZERO_MEMORY = Ret (t, ?z (?z (?z m2 l) c) t, a5)" "arena_ok a5"
      "curFree a4 \<le> curFree a5" "arena_end a5 = arena_end a4"
    using alloc_zeroed_fits [OF a4(2), of "ucast (2 ^ k :: u16)" "?z (?z m2 l) c", unfolded rk] f2 a3(3) a4(3) by auto
  let ?m = "?z (?z (?z m2 l) c) t"
  have sz: "8 * 2 ^ k < (2 :: nat) ^ 64" using k15 by simp
  have lz: "load_words ?m l 8 (2 ^ k) = (replicate (2 ^ k) 0 :: u64 list)"
    using sz by (intro load_words_zero filled_zero_keeps filled_inside)
  have ring: "ring_ok (2 ^ k)" using r(2) by (auto simp: ring_ok_def)
  have wh: "font_width font \<noteq> 0" "font_height font \<noteq> 0" using width(3) height(3) by auto
  have u: "unat (2 ^ k :: u16) = 2 ^ k" using r(2) by simp
  have free: "curFree perm \<le> curFree a5" using a1(4) a2(4) a3(4) a4(4) a5(3) by order
  have init: "fresh_screen s" if "glyphsPerLine s = ?gl" "glyphsPerColumn s = ?gc" "ringGlyphsPerColumn s = 2 ^ k"
      "screenLines s = replicate (2 ^ k) 0" "length (screenLinesCopy s) = 2 ^ k" "length (logicalLineLens s) = 2 ^ k"
      "logicalLines s = replicate 8192 0" "logicalLineToWrite s = 0" "\<not> logicalNewline s" "oldestScreenLineIndex s = 0" "isTailing s"
      "charCount s = 0" "nextCharInBuf s = 0" "length (text_buf s) = 65536" for s
    using that ring r(2,4) gl u
    by (simp add: fresh_screen_def screen_wf_def text_ok_def ring_holds_def word_less_nat_alt)
  show ?thesis
    unfolding initScreen_def Let_def of_option_def a1(1) a2(1) w q r(1,3) control_bind.simps prod.case option.case if_not_P [OF ne] a3(1) a4(1) a5(1)
    using free a5(2,4) a4(5) a3(5) a2(5) wh lz u by (auto intro!: init simp: FILE_BUF_LEN_def load_bytes_def)
qed

section \<open>Sessions\<close>

text \<open>A sequence of calls of the terminal's interface, and the text printed by it.\<close>

datatype screen_op = Flush bytes | Rewind u16 | Prowind u16

fun screen_step :: "psf2 \<Rightarrow> screen_op \<Rightarrow> screen \<Rightarrow> screen option" where
  "screen_step font (Flush b) s = flushToScreen font b s"
| "screen_step font (Rewind n) s = rewind font n s"
| "screen_step font (Prowind n) s = prowind font n s"

primrec screen_run :: "psf2 \<Rightarrow> screen_op list \<Rightarrow> screen \<Rightarrow> screen option" where
  "screen_run font [] s = Some s"
| "screen_run font (p # ps) s = (case screen_step font p s of None \<Rightarrow> None | Some s' \<Rightarrow> screen_run font ps s')"

text \<open>Of a call with more than a ring of characters, only the last ones are printed.\<close>

fun op_text :: "screen_op \<Rightarrow> bytes" where
  "op_text (Flush b) = drop (length b - 65536) b"
| "op_text (Rewind n) = []"
| "op_text (Prowind n) = []"

definition printed :: "screen_op list \<Rightarrow> bytes" where
  "printed ps = concat (map op_text ps)"

lemma screen_step_text:
  assumes "screen_wf s" "text_ok h s" "length h + length (op_text p) < 2 ^ 64"
  shows "\<exists>s'. screen_step font p s = Some s' \<and> screen_wf s' \<and> text_ok (h @ op_text p) s'"
proof (cases p)
  case (Flush b)
  then show ?thesis using flushToScreen_kept [OF assms(1), of font b] put_chars_text [OF assms(2), of "op_text p"] assms(3)
    by (auto simp: kept_def intro: text_ok_same)
next
  case (Rewind n)
  then show ?thesis using rewind_kept [OF assms(1), of font n] assms(2) by (auto simp: kept_def intro: text_ok_same)
next
  case (Prowind n)
  then show ?thesis using prowind_kept [OF assms(1), of font n] assms(2) by (auto simp: kept_def intro: text_ok_same)
qed

lemma screen_run_text:
  assumes "screen_wf s" "text_ok h s" "length h + length (printed ps) < 2 ^ 64"
  shows "\<exists>s'. screen_run font ps s = Some s' \<and> screen_wf s' \<and> text_ok (h @ printed ps) s'"
  using assms
proof (induction ps arbitrary: s h)
  case (Cons p ps)
  have l: "length h + length (op_text p) < 2 ^ 64" "length (h @ op_text p) + length (printed ps) < 2 ^ 64"
    using Cons.prems(3) by (simp_all add: printed_def)
  obtain s1 where s1: "screen_step font p s = Some s1" "screen_wf s1" "text_ok (h @ op_text p) s1"
    using screen_step_text [OF Cons.prems(1,2) l(1)] by blast
  then show ?case using Cons.IH [OF s1(2,3) l(2)] by (simp add: printed_def)
qed (simp add: printed_def)

lemma char_at_text:
  assumes "text_ok h s" "i < length h" "length h \<le> i + 65536"
  shows "char_at s (of_nat i) = h ! i"
proof -
  have "unat (charCount s) = length h" using assms(1) by (simp add: text_ok_def)
  then have "length h < 2 ^ 64" using unat_lt_2p [of "charCount s"] by simp
  then have "unat (of_nat i :: u64) = i" using assms(2) by (simp add: unat_of_nat_lt)
  then have "unat (RING_RANGE_VALUE (of_nat i) FILE_BUF_LEN) = i mod 65536"
    using unat_RING_RANGE_VALUE [of "of_nat i :: u64" 16] unfolding FILE_BUF_LEN_def by simp
  then show ?thesis using assms by (simp add: char_at_def text_ok_def ring_holds_def)
qed

section \<open>Properties\<close>

text \<open>An initial screen of twenty columns and three rows on eighty by sixty-four pixels.\<close>

definition demo_font :: psf2 where
  "demo_font = \<lparr>font_bytesperglyph = 8, font_height = 8, font_width = 2, font_glyphs = replicate 2048 0\<rparr>"

definition demo_screen :: screen where
  "demo_screen = \<lparr>dim = \<lparr>dim_address = 0, dim_screen = [], dim_backingBuffer = [], dim_size = 0, dim_width = 80, dim_height = 64, dim_scanline = 80\<rparr>,
     glyphsPerLine = 20, glyphsPerColumn = 3, maxCharsToProcess = 120, bytesPerLine = 1, glyphStartOffset = 1620,
     glyphStartVerticalOffset = 1600, ringGlyphsPerColumn = 4, logicalLineLens = replicate 4 0, logicalLines = replicate 8192 0,
     logicalLineToWrite = 0, logicalNewline = False, screenLines = replicate 4 0, oldestScreenLineIndex = 0,
     screenLinesCopy = replicate 4 0, lastScreenlineOpen = False, isTailing = True, charCount = 0, nextCharInBuf = 0,
     text_buf = replicate 65536 0\<rparr>"

lemma demo_screen_fresh: "fresh_screen demo_screen"
proof -
  have "ring_ok 4" unfolding ring_ok_def by (rule exI [of _ 2]) simp
  then show ?thesis by (simp add: fresh_screen_def screen_wf_def text_ok_def ring_holds_def demo_screen_def)
qed



text \<open>
  C5. Whatever sequence of prints and scrolls a terminal has executed since its start, the last 65536 characters printed
  can be read back from its ring in order: the ring refines the unbounded text.
\<close>

theorem screen_keeps_text:
  assumes "fresh_screen s" "length (printed ps) < 2 ^ 64"
  shows "\<exists>s'. screen_run font ps s = Some s' \<and> charCount s' = of_nat (length (printed ps)) \<and>
    (\<forall>i<length (printed ps). length (printed ps) \<le> i + 65536 \<longrightarrow> char_at s' (of_nat i) = printed ps ! i)"
proof -
  have "screen_wf s" "text_ok [] s" using assms(1) by (simp_all add: fresh_screen_def)
  then obtain s' where "screen_run font ps s = Some s'" "text_ok (printed ps) s'"
    using screen_run_text [of s "[]" ps font] assms(2) by auto
  moreover from this have "charCount s' = of_nat (length (printed ps))"
    by (intro word_eq_unatI) (use assms(2) in \<open>simp add: text_ok_def unat_of_nat_lt\<close>)
  ultimately show ?thesis using char_at_text by blast
qed

theorem screen_keeps_text_witness:
  "\<exists>s'. screen_run demo_font [Flush [72, 105, 10], Rewind 1, Flush [33]] demo_screen = Some s' \<and> charCount s' = 4 \<and>
     char_at s' 3 = 33"
  using screen_keeps_text [OF demo_screen_fresh, of "[Flush [72, 105, 10], Rewind 1, Flush [33]]" demo_font]
  by (auto simp: printed_def dest: spec [of _ 3] simp del: screen_run.simps)

text \<open>
  C20. The binary search in the ring of line starts finds the line of every character whose line is among the last 8192
  lines printed: the start recorded at the index it returns is the position behind the last newline before the character.
\<close>

theorem I8IndexToLogicalLine_correct:
  assumes "fresh_screen s" "length (printed ps) < 2 ^ 64" "i < length (printed ps)"
    "line_starts (printed ps) ! (length (line_starts (printed ps)) - 8192) \<le> i"
  shows "\<exists>s'. screen_run font ps s = Some s' \<and>
    logicalLines s' ! unat (I8IndexToLogicalLine (of_nat i) s') = of_nat (line_start (printed ps) i)"
proof -
  have "screen_wf s" "text_ok [] s" using assms(1) by (simp_all add: fresh_screen_def)
  then obtain s' where s': "screen_run font ps s = Some s'" "text_ok (printed ps) s'"
    using screen_run_text [of s "[]" ps font] assms(2) by auto
  have i: "unat (of_nat i :: u64) = i" using assms(2,3) by (simp add: unat_of_nat_lt)
  have "unat (logicalLines s' ! unat (I8IndexToLogicalLine (of_nat i) s')) = line_start (printed ps) i"
    using I8IndexToLogicalLine_text [OF s'(2), of "of_nat i"] assms(3,4) by (simp add: i)
  from this [symmetric] have "logicalLines s' ! unat (I8IndexToLogicalLine (of_nat i) s') = of_nat (line_start (printed ps) i)"
    by simp
  then show ?thesis using s'(1) by blast
qed

theorem I8IndexToLogicalLine_correct_witness:
  "\<exists>s'. screen_run demo_font [Flush [72, 10, 72, 105, 10, 33]] demo_screen = Some s' \<and>
     logicalLines s' ! unat (I8IndexToLogicalLine 3 s') = 2"
proof -
  let ?ps = "[Flush [72, 10, 72, 105, 10, 33]]"
  have "printed ?ps = [72, 10, 72, 105, 10, 33]" by (simp add: printed_def)
  moreover have "line_starts [72, 10, 72, 105, 10, 33] ! (length (line_starts [72, 10, 72, 105, 10, 33]) - 8192) \<le> 3"
    by (simp add: line_starts_def upt_rec)
  moreover have "line_start [72, 10, 72, 105, 10, 33] 3 = 2" by (simp add: numeral_3_eq_3)
  ultimately show ?thesis using I8IndexToLogicalLine_correct [OF demo_screen_fresh, of ?ps 3 demo_font] by (simp del: screen_run.simps)
qed

section \<open>Lines are never overfull\<close>

lemma ucast_add_u8: "(ucast (a + b) :: u8) = ucast (a :: u64) + ucast b"
  by (simp add: word_unat_eq_iff unat_ucast_mod unat_word_ariths mod_simps mod_mod_cancel) 

lemma ucast_diff_u8: "(ucast (a - b) :: u8) = ucast (a :: u64) - ucast b"
  using ucast_add_u8 [of "a - b" b] by (simp add: eq_diff_eq)

lemma tab_space_eq: "unat (tab_space len) = 4 - unat len mod 4"
proof -
  let ?b = "ucast len :: u8"
  have "ucast ((len + 4) AND 0xFC) = ucast (len + 4) AND (0xFC :: u8)"
    by (rule bit_word_eqI) (simp add: bit_and_iff bit_ucast_iff)
  then have "tab_space len = ((?b + 4) AND 0xFC) - ?b"
    by (simp add: tab_space_def TAB_SIZE_IN_GLYPHS_def ucast_diff_u8 ucast_add_u8)
  also have "(0xFC :: u8) = NOT (mask 2)" by (simp add: mask_eq_exp_minus_1)
  also have "((?b + 4) AND NOT (mask 2)) - ?b = 4 - ((?b + 4) AND mask 2)" by (simp add: and_not_mask_eq_diff)
  finally have e: "tab_space len = 4 - ((?b + 4) AND mask 2)" .
  have "unat (?b + 4) mod 4 = unat ?b mod 4" by (simp add: unat_word_ariths mod_mod_cancel)
  also have "\<dots> = unat len mod 4" by (simp add: unat_ucast_mod mod_mod_cancel)
  finally have m: "unat ((?b + 4) AND mask 2) = unat len mod 4" by (simp add: unat_and_mask)
  then have "unat ((?b + 4) AND mask 2) \<le> unat (4 :: u8)" by simp
  then show ?thesis using m unfolding e by (simp add: unat_sub_nowrap)
qed

lemma tab_space_bounds: "1 \<le> unat (tab_space len)" "unat (tab_space len) \<le> 4"
  unfolding tab_space_eq using mod_less_divisor [of 4 "unat len"] by simp_all

text \<open>A tab that does not fit: the part on the old line and the part on the new one.\<close>

lemma tab_split:
  fixes len :: u16
  assumes "unat len < unat gpl" "4 \<le> unat gpl" "unat gpl < 65532" "\<not> len + ucast (tab_space l) \<le> gpl"
  shows "unat (ucast (tab_space l) - ucast (ucast (gpl - len) :: u8) :: u16) < unat gpl"
    and "unat (ucast (gpl - len) :: u8) = unat gpl - unat len"
proof -
  have t: "unat (ucast (tab_space l) :: u16) = unat (tab_space l)" by (simp add: unat_ucast_up)
  have d: "unat (gpl - len) = unat gpl - unat len" using assms(1) by (simp add: unat_sub_nowrap)
  have "unat (len + ucast (tab_space l)) = unat len + unat (tab_space l)"
    using assms(1,3) tab_space_bounds(2) [of l] unat_add_nowrap [of len "ucast (tab_space l)"] t by simp
  then have over: "unat gpl - unat len < unat (tab_space l)" using assms(1,4) by (simp add: word_le_nat_alt)
  then have e: "unat gpl - unat len < 256" using tab_space_bounds(2) [of l] by linarith
  then show u: "unat (ucast (gpl - len) :: u8) = unat gpl - unat len" by (simp add: unat_ucast_mod d)
  have "unat (ucast (ucast (gpl - len) :: u8) :: u16) = unat gpl - unat len" using u by (simp add: unat_ucast_up)
  then have "unat (ucast (tab_space l) - ucast (ucast (gpl - len) :: u8) :: u16) = unat (tab_space l) - (unat gpl - unat len)"
    using over t by (simp add: unat_sub_nowrap)
  then show "unat (ucast (tab_space l) - ucast (ucast (gpl - len) :: u8) :: u16) < unat gpl"
    using assms(1,2) tab_space_bounds(2) [of l] by linarith
qed

definition fill_width :: "screen \<Rightarrow> u64 \<Rightarrow> fill_vars \<Rightarrow> bool" where
  "fill_width s i v \<longleftrightarrow> fv_glyphLen v \<le> glyphsPerLine s \<and> (fv_glyphLen v = glyphsPerLine s \<longrightarrow> fv_toNext v \<or> char_at s i = 10)"

lemma fill_char_width:
  assumes "fv_glyphLen v \<le> glyphsPerLine s" "fv_glyphLen v = glyphsPerLine s \<longrightarrow> char_at s i = 10" "\<not> fv_toNext v"
    "4 \<le> unat (glyphsPerLine s)" "unat (glyphsPerLine s) < 65532"
  shows "fill_width s (i + 1) (fill_char s a m i v)"
proof (cases "fv_glyphLen v = glyphsPerLine s")
  case True
  then show ?thesis using assms(2) by (simp add: fill_char_def fill_width_def)
next
  case False
  then have less: "unat (fv_glyphLen v) < unat (glyphsPerLine s)"
    using assms(1) by (simp add: word_le_nat_alt word_unat_eq_iff)
  have "unat (fv_glyphLen v + 1) = unat (fv_glyphLen v) + 1"
    using less assms(5) unat_add_nowrap [of "fv_glyphLen v" 1] by simp
  then have "fv_glyphLen v + 1 \<le> glyphsPerLine s" using less by (simp add: word_le_nat_alt)
  moreover note tab_split(1) [OF less assms(4,5), of "fv_logicalLen v"]
  ultimately show ?thesis
    using False assms(1) by (auto simp: fill_char_def fill_width_def Let_def new_screen_line_def word_less_nat_alt word_le_nat_alt word_unat_eq_iff)
qed

lemma fill_loop_width:
  assumes "fill_width s i v" "4 \<le> unat (glyphsPerLine s)" "unat (glyphsPerLine s) < 65532"
  shows "fv_glyphLen (snd (fill_loop s a n m i v)) \<le> glyphsPerLine s"
  using assms
proof (induction s a n m i v rule: fill_loop.induct)
  case (1 s a n m i v)
  let ?v = "if fv_toNext v then (new_screen_line s a i (fv_logicalLen v) v)\<lparr>fv_glyphLen := 0, fv_toNext := False\<rparr> else v"
  have "fill_width s (i + 1) (fill_char s a m i ?v)"
    using "1.prems" by (intro fill_char_width) (auto simp: fill_width_def)
  then show ?case using "1.IH" "1.prems" by (subst fill_loop.simps) (auto simp: fill_width_def)
qed

declare draw_loop.simps [simp del] fill_loop.simps [simp del]

text \<open>
  Where \<^verbatim>\<open>drawLines\<close> is: at a column of a row of the part it draws, the column full only if the next
  step leaves the row.
\<close>

definition draw_place :: "psf2 \<Rightarrow> u16 \<Rightarrow> u16 \<Rightarrow> screen \<Rightarrow> draw_vars \<Rightarrow> bool" where
  "draw_place font n row s v \<longleftrightarrow> (\<exists>r. row \<le> r \<and> (r = row \<or> unat r < unat row + unat n) \<and>
     dv_offset v = row_offset font s r + ucast (dv_glyphLen v) * font_width font) \<and> dv_glyphLen v \<le> glyphsPerLine s"

definition draw_full :: "screen \<Rightarrow> u64 \<Rightarrow> draw_vars \<Rightarrow> bool" where
  "draw_full s i v \<longleftrightarrow> (dv_glyphLen v = glyphsPerLine s \<longrightarrow> dv_toNext v \<or> char_at s i = 10)"

lemma pixels_frame [simp]:
  "char_at (with_pixels f s) i = char_at s i" "glyphsPerLine (with_pixels f s) = glyphsPerLine s"
  "row_offset font (with_pixels f s) r = row_offset font s r"
  by (simp_all add: with_pixels_def char_at_def row_offset_def)

lemma draw_place_pixels [simp]:
  "draw_place font n row (with_pixels f s) v = draw_place font n row s v" "draw_full (with_pixels f s) i v = draw_full s i v"
  by (simp_all add: draw_place_def draw_full_def)

lemma draw_place_row:
  assumes "unat row + unat n < 65536" "lines < n" "len \<le> glyphsPerLine s"
  shows "draw_place font n row s (v\<lparr>dv_lines := lines, dv_glyphLen := len, dv_offset := row_offset font s (row + lines) + ucast len * font_width font\<rparr>)"
proof -
  have l: "unat lines < unat n" using assms(2) by (simp add: word_less_nat_alt)
  then have u: "unat (row + lines) = unat row + unat lines" using assms(1) by (intro unat_add_nowrap) simp
  then show ?thesis using l assms(3) unfolding draw_place_def
    by (intro conjI exI [of _ "row + lines"]) (simp_all add: word_le_nat_alt)
qed

lemma draw_place_advance:
  assumes "draw_place font n row s v" "unat (dv_glyphLen v) + unat k < 65536" "dv_glyphLen v + k \<le> glyphsPerLine s"
  shows "draw_place font n row s (v\<lparr>dv_glyphLen := dv_glyphLen v + k, dv_offset := dv_offset v + ucast k * font_width font\<rparr>)"
proof -
  have "(ucast (dv_glyphLen v + k) :: u32) = ucast (dv_glyphLen v) + ucast k"
  proof (rule word_eq_unatI)
    have "unat (ucast (dv_glyphLen v) + ucast k :: u32) = unat (dv_glyphLen v) + unat k"
      using assms(2) unat_add_nowrap [of "ucast (dv_glyphLen v) :: u32" "ucast k"] by (simp add: unat_ucast_up)
    then show "unat (ucast (dv_glyphLen v + k) :: u32) = unat (ucast (dv_glyphLen v) + ucast k :: u32)"
      using assms(2) by (simp add: unat_ucast_up unat_add_nowrap)
  qed
  then show ?thesis using assms(1,3) by (auto simp: draw_place_def algebra_simps)
qed

lemma draw_place_vars [simp]:
  "draw_place font n row s (v\<lparr>dv_toNext := b\<rparr>) = draw_place font n row s v"
  "draw_place font n row s (v\<lparr>dv_logicalLen := l\<rparr>) = draw_place font n row s v"
  "draw_place font n row s (v\<lparr>dv_lines := k\<rparr>) = draw_place font n row s v"
  by (simp_all add: draw_place_def)

lemma draw_next_line_place:
  assumes "draw_place font n row s v" "draw_full s i v" "unat row + unat n < 65536" "0 < unat (glyphsPerLine s)"
    "draw_next_line font n row (s, v) = (stop, s', v')"
  shows "draw_place font n row s' v' \<and> (\<not> stop \<longrightarrow> \<not> dv_toNext v' \<and> draw_full s' i v')"
  using assms(1,2,4,5) draw_place_row [OF assms(3), of "dv_lines v + 1" 0 s font v]
  by (auto simp: draw_next_line_def Let_def zeroOutGlyphs_def draw_full_def draw_place_def row_offset_def with_pixels_def char_at_def
      split: if_splits)


lemma draw_tab_place:
  assumes pl: "draw_place font n row s v" and less: "unat (dv_glyphLen v) < unat (glyphsPerLine s)"
    and g: "4 \<le> unat (glyphsPerLine s)" "unat (glyphsPerLine s) < 65532" and row: "unat row + unat n < 65536"
    and ch: "char_at s i = 9" and r: "draw_char font n row i (s, v) = (s', v')"
  shows "draw_place font n row s' v' \<and> draw_full s' (i + 1) v'"
proof -
  let ?t = "tab_space (dv_logicalLen v)"
  have t: "unat (ucast ?t :: u16) \<le> 4" using tab_space_bounds(2) by (simp add: unat_ucast_up)
  have uu: "(ucast (ucast ?t :: u16) :: u32) = ucast ?t" by (intro word_eq_unatI) (simp add: unat_ucast_up)
  show ?thesis
  proof (cases "dv_glyphLen v + ucast ?t \<le> glyphsPerLine s")
    case True
    have "draw_place font n row s (v\<lparr>dv_glyphLen := dv_glyphLen v + ucast ?t, dv_offset := dv_offset v + ucast ?t * font_width font\<rparr>)"
      using draw_place_advance [OF pl _ True] less g(2) t unfolding uu by simp
    then show ?thesis using r ch True
      by (auto simp: draw_char_def Let_def zeroOutGlyphs_def draw_full_def draw_place_def row_offset_def with_pixels_def char_at_def)
  next
    case False
    note sp = tab_split(1) [OF less g, of "dv_logicalLen v"]
    let ?len = "ucast ?t - ucast (ucast (glyphsPerLine s - dv_glyphLen v) :: u8) :: u16"
    have len: "?len < glyphsPerLine s" using sp False by (simp add: word_less_nat_alt)
    show ?thesis
    proof (cases "dv_lines v + 1 \<ge> n")
      case True
      then show ?thesis using r ch False pl less
        by (auto simp: draw_char_def Let_def zeroOutGlyphs_def draw_full_def draw_place_def row_offset_def with_pixels_def char_at_def)
    next
      case ok: False
      have "draw_place font n row s (v\<lparr>dv_lines := dv_lines v + 1, dv_glyphLen := ?len,
          dv_offset := row_offset font s (row + (dv_lines v + 1)) + ucast ?len * font_width font\<rparr>)"
        using ok len by (intro draw_place_row [OF row]) simp_all
      then show ?thesis using r ch False ok len
        by (auto simp: draw_char_def Let_def zeroOutGlyphs_def draw_full_def draw_place_def row_offset_def with_pixels_def char_at_def)
    qed
  qed
qed

lemma draw_char_place:
  assumes pl: "draw_place font n row s v" and full: "draw_full s i v" and nx: "\<not> dv_toNext v"
    and g: "4 \<le> unat (glyphsPerLine s)" "unat (glyphsPerLine s) < 65532" and row: "unat row + unat n < 65536"
    and r: "draw_char font n row i (s, v) = (s', v')"
  shows "draw_place font n row s' v' \<and> draw_full s' (i + 1) v'"
proof (cases "char_at s i = 10")
  case True
  then show ?thesis using pl r by (auto simp: draw_char_def draw_full_def)
next
  case False
  then have less: "unat (dv_glyphLen v) < unat (glyphsPerLine s)"
    using full nx pl by (auto simp: draw_full_def draw_place_def word_le_nat_alt word_unat_eq_iff le_less)
  then have step: "draw_place font n row s (v\<lparr>dv_glyphLen := dv_glyphLen v + 1, dv_offset := dv_offset v + font_width font\<rparr>)"
    using draw_place_advance [OF pl, of 1] g(2) by (simp add: word_le_nat_alt unat_add_nowrap)
  consider "char_at s i = 0" | "char_at s i = 9" | "char_at s i \<notin> {0, 9, 10}" using False by auto
  then show ?thesis
  proof cases
    case 1
    then show ?thesis using r pl less by (auto simp: draw_char_def draw_full_def)
  next
    case 2
    then show ?thesis using draw_tab_place [OF pl less g row _ r] by blast
  next
    case 3
    then show ?thesis using r step
      by (auto simp: draw_char_def Let_def drawGlyph_def draw_full_def draw_place_def row_offset_def with_pixels_def char_at_def)
  qed
qed


lemma draw_loop_place:
  assumes "draw_place font n row (fst sv) (snd sv)" "draw_full (fst sv) i (snd sv)"
    "4 \<le> unat (glyphsPerLine (fst sv))" "unat (glyphsPerLine (fst sv)) < 65532" "unat row + unat n < 65536"
  shows "draw_place font n row (fst (draw_loop font n row c i sv)) (snd (draw_loop font n row c i sv))"
  using assms
proof (induction font n row c i sv rule: draw_loop.induct)
  case (1 font n row c i sv)
  obtain stop s1 v1 where nx: "draw_next_line font n row sv = (stop, s1, v1)" by (cases "draw_next_line font n row sv") auto
  have p1: "draw_place font n row s1 v1" "\<not> stop \<Longrightarrow> \<not> dv_toNext v1 \<and> draw_full s1 i v1"
    using draw_next_line_place [of font n row "fst sv" "snd sv" i stop s1 v1] "1.prems" nx by simp_all
  obtain s2 v2 where ch: "draw_char font n row i (s1, v1) = (s2, v2)" by fastforce
  obtain d d' where d: "s1 = (fst sv)\<lparr>dim := d\<rparr>" "s2 = s1\<lparr>dim := d'\<rparr>"
    using draw_next_line_frame [of font n row "fst sv" "snd sv"] draw_char_frame [of font n row i s1 v1] nx ch by auto
  show ?case
  proof (cases "i < c \<and> \<not> stop")
    case True
    then have "draw_place font n row s2 v2 \<and> draw_full s2 (i + 1) v2"
      using draw_char_place [OF p1(1) _ _ _ _ "1.prems"(5) ch] p1(2) "1.prems"(3,4) d by simp
    then show ?thesis using "1.IH" [of stop "(s1, v1)"] True nx ch d "1.prems" by (subst (1 2) draw_loop.simps) simp
  next
    case False
    then show ?thesis using nx p1(1) "1.prems"(1) by (subst (1 2) draw_loop.simps) auto
  qed
qed

text \<open>
  C24. At every moment of drawing \<open>n\<close> screen lines from row \<open>row\<close> on, the pixel offset is that of a column of at most
  \<^verbatim>\<open>glyphsPerLine\<close> in one of these rows; the widths subtracted from \<^verbatim>\<open>glyphsPerLine\<close> never wrap.
\<close>

theorem drawLines_stays_in_rows:
  assumes "4 \<le> unat (glyphsPerLine s)" "unat (glyphsPerLine s) < 65532" "unat row + unat n < 65536"
    "draw_loop font n row c i (s, \<lparr>dv_lines = 0, dv_offset = row_offset font s row, dv_glyphLen = 0, dv_logicalLen = l, dv_toNext = False\<rparr>) = (s', v)"
  shows "\<exists>r. row \<le> r \<and> (r = row \<or> unat r < unat row + unat n) \<and>
    dv_offset v = row_offset font s' r + ucast (dv_glyphLen v) * font_width font \<and> dv_glyphLen v \<le> glyphsPerLine s'"
proof -
  let ?v = "\<lparr>dv_lines = 0, dv_offset = row_offset font s row, dv_glyphLen = 0, dv_logicalLen = l, dv_toNext = False\<rparr>"
  have "draw_place font n row s ?v" "draw_full s i ?v" using assms(1) by (auto simp: draw_place_def draw_full_def)
  then have "draw_place font n row s' v" using draw_loop_place [of font n row "(s, ?v)" i c] assms by simp
  then show ?thesis by (auto simp: draw_place_def)
qed

theorem drawLines_stays_in_rows_witness:
  "\<exists>s' v r. draw_loop demo_font 2 1 6 0 (demo_screen, \<lparr>dv_lines = 0, dv_offset = row_offset demo_font demo_screen 1, dv_glyphLen = 0,
      dv_logicalLen = 0, dv_toNext = False\<rparr>) = (s', v) \<and> (r = 1 \<or> unat r < 3) \<and>
    dv_offset v = row_offset demo_font s' r + ucast (dv_glyphLen v) * font_width demo_font"
proof -
  let ?v = "\<lparr>dv_lines = 0, dv_offset = row_offset demo_font demo_screen 1, dv_glyphLen = 0, dv_logicalLen = 0, dv_toNext = False\<rparr>"
  obtain s' v where r: "draw_loop demo_font 2 1 6 0 (demo_screen, ?v) = (s', v)" by fastforce
  have "4 \<le> unat (glyphsPerLine demo_screen)" "unat (glyphsPerLine demo_screen) < 65532" "unat (1 :: u16) + unat (2 :: u16) < 65536"
    by (simp_all add: demo_screen_def)
  from drawLines_stays_in_rows [OF this r] obtain q where
    "q = 1 \<or> unat q < 3" "dv_offset v = row_offset demo_font s' q + ucast (dv_glyphLen v) * font_width demo_font" by (auto simp: numeral_3_eq_3)
  then show ?thesis using r by blast
qed



end
