(* ===== verification/Kernel.thy ===== *)
theory Kernel
  imports Status Screen
begin

text \<open>
  \<^verbatim>\<open>kernel/src/main.c\<close>: the start of the kernel, from the interrupt table to the greeting and the status on the terminal. The
  kernel reaches the memory manager and the interrupt table through the interfaces of \<^verbatim>\<open>abstraction\<close>; they are the
  fields of a record, whose x86 instance is built from the theories of the memory policy and of the
  processor. \<open>Ret\<close> is the idle loop at the end, \<open>Jump\<close> the loop behind \<^verbatim>\<open>__builtin_setjmp\<close>, \<open>Stuck\<close> a platform
  operation that does not return. What \<^verbatim>\<open>appendMemoryManagementStatus\<close> logs is a report of the platform.
\<close>

section \<open>The platform\<close>

record 'w platform =
  pf_initIDT :: "'w \<Rightarrow> 'w control"
  pf_initMemoryManager :: "KernelMemory \<Rightarrow> 'w \<Rightarrow> 'w control"
  pf_allocAndMap :: "u64 \<Rightarrow> 'w \<Rightarrow> (u64 \<times> 'w) control"
  pf_initScreenMemory :: "u64 \<Rightarrow> u64 \<Rightarrow> 'w \<Rightarrow> 'w control"
  pf_freeMapped :: "u64 \<Rightarrow> u64 \<Rightarrow> 'w \<Rightarrow> 'w control"
  pf_status :: "'w \<Rightarrow> report"

definition or_stuck :: "'e + 'a \<Rightarrow> 'a control" where
  "or_stuck r = (case r of Inl _ \<Rightarrow> Stuck | Inr x \<Rightarrow> Ret x)"

record x86_world =
  x86_memory :: KernelState
  x86_idt :: "InterruptDescriptor list"
  x86_idtr :: "DescriptorTableRegister option"

definition x86_platform :: "nat \<Rightarrow> (nat \<Rightarrow> u64) \<Rightarrow> u64 \<Rightarrow> u64 \<Rightarrow> x86_world platform" where
  "x86_platform fuel isr idt_address root =
     (let with_memory = (\<lambda>w r. control_bind (or_stuck r) (\<lambda>s. Ret (w\<lparr>x86_memory := s\<rparr>))) in
      \<lparr>pf_initIDT = (\<lambda>w. case initIDT isr idt_address (x86_idt w) of (idt, r) \<Rightarrow> Ret (w\<lparr>x86_idt := idt, x86_idtr := Some r\<rparr>)),
       pf_initMemoryManager = (\<lambda>km w. with_memory w (initMemoryManager fuel root km (x86_memory w))),
       pf_allocAndMap = (\<lambda>n w. control_bind (or_stuck (allocAndMap fuel n (x86_memory w))) (\<lambda>(a, s). Ret (a, w\<lparr>x86_memory := s\<rparr>))),
       pf_initScreenMemory = (\<lambda>a n w. with_memory w (initScreenMemory fuel a n (x86_memory w))),
       pf_freeMapped = (\<lambda>a n w. control_bind (or_stuck (freeMapped fuel a n (x86_memory w))) (\<lambda>s. Ret (w\<lparr>x86_memory := s\<rparr>))),
       pf_status = (\<lambda>w. appendMemoryManagementStatus (x86_memory w))\<rparr>)"

section \<open>The start\<close>

record FrameBuffer =
  fb_ptr :: u64
  fb_size :: u64
  fb_columns :: u32
  fb_rows :: u32
  fb_scanline :: u32

record KernelParameters =
  kp_fb :: FrameBuffer
  kp_memory :: KernelMemory

definition INIT_MEMORY :: u64 where "INIT_MEMORY = 64 * 0x100000"

definition greeting :: bytes where
  "greeting = [72, 69, 76, 76] @ replicate 30 79 @ [10]"

text \<open>\<^verbatim>\<open>flushToScreen\<close> as the log calls it.\<close>

definition terminal_flush :: "psf2 \<Rightarrow> bytes \<Rightarrow> screen \<Rightarrow> screen" where
  "terminal_flush font bs s = (case flushToScreen font bs s of None \<Rightarrow> s | Some s' \<Rightarrow> s')"

text \<open>The calls of a report, one after the other, and \<^verbatim>\<open>KFLUSH_AFTER\<close> around them.\<close>

primrec klog_report :: "psf2 \<Rightarrow> report \<Rightarrow> U8_max_a \<Rightarrow> screen \<Rightarrow> (U8_max_a \<times> screen) control" where
  "klog_report font [] b s = Ret (b, s)"
| "klog_report font (e # es) b s =
     control_bind (of_option (fst e)) (\<lambda>data.
     control_bind (of_option (freestanding_appendToFlushBuffer (terminal_flush font) data (snd e) b s)) (\<lambda>(_, b, s).
     klog_report font es b s))"

definition KFLUSH_AFTER :: "psf2 \<Rightarrow> report \<Rightarrow> U8_max_a \<Rightarrow> screen \<Rightarrow> (U8_max_a \<times> screen) control" where
  "KFLUSH_AFTER font r b s =
     control_bind (klog_report font r b s) (\<lambda>(b, s).
     control_bind (of_option (freestanding_flushStandardBuffer (terminal_flush font) b s)) (\<lambda>(_, b, s). Ret (b, s)))"

definition kernelmain :: "'w platform \<Rightarrow> psf2 \<Rightarrow> KernelParameters \<Rightarrow> u32 list \<Rightarrow> memory \<Rightarrow> 'w \<Rightarrow> (screen \<times> U8_max_a \<times> 'w) control" where
  "kernelmain pf font params shown m w =
     control_bind (pf_initIDT pf w) (\<lambda>w.
     control_bind (pf_initMemoryManager pf (kp_memory params) w) (\<lambda>w.
     control_bind (pf_allocAndMap pf INIT_MEMORY w) (\<lambda>(initMemory, w).
     let arena = \<lparr>curFree = initMemory, arena_beg = initMemory, arena_end = initMemory + INIT_MEMORY\<rparr> in
     control_bind (initLogger m arena) (\<lambda>(_, log, m, arena).
     control_bind (initScreen font (pf_initScreenMemory pf)
        \<lparr>dim_address = fb_ptr (kp_fb params), dim_screen = shown, dim_backingBuffer = [], dim_size = fb_size (kp_fb params),
         dim_width = fb_columns (kp_fb params), dim_height = fb_rows (kp_fb params), dim_scanline = fb_scanline (kp_fb params)\<rparr>
        m arena w) (\<lambda>(s, m, arena, w).
     control_bind (pf_freeMapped pf (curFree arena) (arena_end arena - curFree arena) w) (\<lambda>w.
     control_bind (KFLUSH_AFTER font (KLOG (CString greeting) 0) log s) (\<lambda>(log, s).
     control_bind (KFLUSH_AFTER font (pf_status pf w) log s) (\<lambda>(log, s).
     Ret (s, log, w)))))))))"

section \<open>The greeting\<close>

lemma append_loop_small:
  assumes "buffer_ok b" "max_len b + length data < max_cap b"
  shows "\<exists>b'. append_loop (screen_sink f) (length data + 2) (\<lambda>w k. take k (drop w data)) (length data) 0 b s = Some (True, b', s) \<and>
    buffer_ok b' \<and> max_cap b' = max_cap b \<and> max_len b' = max_len b + length data \<and> pending b' = pending b @ data"
proof (cases "data = []")
  case False
  let ?b = "b\<lparr>max_buf := take (max_len b) (max_buf b) @ data @ drop (max_len b + length data) (max_buf b),
    max_len := max_len b + length data\<rparr>"
  have m: "min (max_cap b - max_len b) (length data - 0) = length data" using assms(2) by simp
  have "append_loop (screen_sink f) (Suc (Suc (length data))) (\<lambda>w k. take k (drop w data)) (length data) 0 b s =
      append_loop (screen_sink f) (Suc (length data)) (\<lambda>w k. take k (drop w data)) (length data) (length data) ?b s"
    unfolding append_loop.simps(2) [of _ "Suc (length data)"] Let_def m using assms(2) False by (simp del: append_loop.simps)
  then have "append_loop (screen_sink f) (length data + 2) (\<lambda>w k. take k (drop w data)) (length data) 0 b s = Some (True, ?b, s)"
    by simp
  moreover have "buffer_ok ?b" "pending ?b = pending b @ data" using assms by (simp_all add: buffer_ok_def pending_def)
  ultimately show ?thesis by (intro exI [of _ ?b]) simp
qed (use assms in simp)

lemma handleFlags_small:
  assumes "buffer_ok b" "max_len b < max_cap b" "flags AND FLUSH = 0"
  shows "\<exists>b'. handleFlags sink flags b s = Some (True, b', s) \<and> buffer_ok b' \<and> max_cap b' = max_cap b \<and>
    pending b' = pending b @ (if flags AND NEWLINE \<noteq> 0 then [10] else [])"
proof (cases "flags AND NEWLINE = 0")
  case False
  let ?b = "b\<lparr>max_buf := (max_buf b)[max_len b := 10], max_len := max_len b + 1\<rparr>"
  have "handleFlags sink flags b s = Some (True, ?b, s)" using False assms(2,3) by (simp add: handleFlags_def)
  moreover have "buffer_ok ?b" "pending ?b = pending b @ [10]"
    using assms(1,2) by (simp_all add: buffer_ok_def pending_def take_Suc_conv_app_nth)
  ultimately show ?thesis using False by (intro exI [of _ ?b]) simp
qed (use assms in \<open>simp add: handleFlags_def\<close>)

lemma length_pending: "buffer_ok b \<Longrightarrow> length (pending b) = max_len b"
  by (simp add: buffer_ok_def pending_def)

lemma append_small:
  assumes "buffer_ok b" "max_len b + length data < max_cap b" "flags AND FLUSH = 0"
  shows "\<exists>b'. freestanding_appendToFlushBuffer f data flags b s = Some (True, b', s) \<and> buffer_ok b' \<and> max_cap b' = max_cap b \<and>
    pending b' = pending b @ data @ (if flags AND NEWLINE \<noteq> 0 then [10] else [])"
proof -
  obtain b1 where b1: "append_loop (screen_sink f) (length data + 2) (\<lambda>w k. take k (drop w data)) (length data) 0 b s = Some (True, b1, s)"
      "buffer_ok b1" "max_cap b1 = max_cap b" "max_len b1 = max_len b + length data" "pending b1 = pending b @ data"
    using append_loop_small [OF assms(1,2), of f s] by blast
  have "max_len b1 < max_cap b1" using b1(3,4) assms(2) by simp
  then obtain b2 where "handleFlags (screen_sink f) flags b1 s = Some (True, b2, s)" "buffer_ok b2" "max_cap b2 = max_cap b1"
      "pending b2 = pending b1 @ (if flags AND NEWLINE \<noteq> 0 then [10] else [])"
    using handleFlags_small [OF b1(2) _ assms(3), of "screen_sink f" s] by blast
  then show ?thesis using b1 by (simp add: freestanding_appendToFlushBuffer_def append_with_def)
qed

lemma klog_report_small:
  assumes "buffer_ok b" "max_len b + length (report_text r) < max_cap b" "report_ok r"
  shows "\<exists>b'. klog_report font r b s = Ret (b', s) \<and> buffer_ok b' \<and> max_cap b' = max_cap b \<and> pending b' = pending b @ report_text r"
  using assms
proof (induction r arbitrary: b)
  case (Cons e es)
  obtain data flags where e: "e = (Some data, flags)" "flags AND FLUSH = 0" using Cons.prems(3) by (cases e) (auto simp: report_ok_def)
  let ?nl = "if flags AND NEWLINE \<noteq> 0 then [10] else [] :: bytes"
  have t: "report_text (e # es) = data @ ?nl @ report_text es" using e by (simp add: report_text_def)
  have "max_len b + length data < max_cap b" using Cons.prems(2) unfolding t by simp
  then obtain b1 where b1: "freestanding_appendToFlushBuffer (terminal_flush font) data flags b s = Some (True, b1, s)" "buffer_ok b1"
      "max_cap b1 = max_cap b" "pending b1 = pending b @ data @ ?nl"
    using append_small [OF Cons.prems(1) _ e(2), of data "terminal_flush font" s] by blast
  have len: "max_len b1 = max_len b + length data + length ?nl"
    using arg_cong [OF b1(4), of length] length_pending [OF b1(2)] length_pending [OF Cons.prems(1)] by simp
  have "max_len b1 + length (report_text es) < max_cap b1" using Cons.prems(2) unfolding t len b1(3) by simp
  moreover have "report_ok es" using Cons.prems(3) by (simp add: report_ok_def)
  ultimately obtain b2 where "klog_report font es b1 s = Ret (b2, s)" "buffer_ok b2" "max_cap b2 = max_cap b1"
      "pending b2 = pending b1 @ report_text es"
    using Cons.IH [OF b1(2)] by blast
  then show ?case using b1 e t by (simp add: of_option_def)
qed simp

lemma KFLUSH_AFTER_small:
  assumes "buffer_ok b" "max_len b = 0" "length (report_text r) < max_cap b" "report_ok r"
  shows "\<exists>b'. KFLUSH_AFTER font r b s = Ret (b', terminal_flush font (report_text r) s) \<and> buffer_ok b' \<and> max_len b' = 0 \<and> max_cap b' = max_cap b"
proof -
  obtain b' where b': "klog_report font r b s = Ret (b', s)" "buffer_ok b'" "max_cap b' = max_cap b" "pending b' = report_text r"
    using klog_report_small [OF assms(1) _ assms(4), of font s] assms(2,3) by (auto simp: pending_def)
  have "freestanding_flushStandardBuffer (terminal_flush font) b' s = Some (True, b'\<lparr>max_len := 0\<rparr>, terminal_flush font (report_text r) s)"
    unfolding b'(4) [symmetric] freestanding_flushStandardBuffer_def flush_with_def screen_sink_def pending_def by simp
  then show ?thesis using b' by (simp add: KFLUSH_AFTER_def of_option_def buffer_ok_def)
qed

lemma initLogger_returns:
  assumes "arena_ok a" "2 * 0x100000 + 7 \<le> free_bytes a"
  shows "\<exists>p log m' a'. initLogger m a = Ret (p, log, m', a') \<and> arena_ok a' \<and> free_bytes a \<le> free_bytes a' + 2 * 0x100000 + 7 \<and>
    curFree a \<le> curFree a' \<and> arena_end a' = arena_end a \<and> buffer_ok log \<and> max_len log = 0 \<and> max_cap log = 2 * 0x100000"
proof -
  have n: "unat FLUSH_BUFFER_SIZE = 2 * 0x100000" by (simp add: FLUSH_BUFFER_SIZE_def)
  obtain p m' a' where "alloc m a 1 1 FLUSH_BUFFER_SIZE 0 = Ret (p, m', a')" "arena_ok a'"
      "free_bytes a \<le> free_bytes a' + 2 * 0x100000 + 7" "curFree a \<le> curFree a'" "arena_end a' = arena_end a"
    using alloc_fits [OF assms(1), of 0 1 FLUSH_BUFFER_SIZE m 0] assms(2) n by auto
  then show ?thesis by (simp add: initLogger_def n buffer_ok_def load_bytes_def)
qed

lemma terminal_flush_text:
  assumes "screen_wf s" "text_ok h s" "length data \<le> 65536" "length h + length data < 2 ^ 64"
  shows "screen_wf (terminal_flush font data s) \<and> text_ok (h @ data) (terminal_flush font data s)"
proof -
  obtain s' where s': "flushToScreen font data s = Some s'" "kept (fold put_char data s) s'"
    using flushToScreen_kept [OF assms(1), of font data] assms(3) by auto
  have "text_ok (h @ data) (fold put_char data s)" using put_chars_text [OF assms(2,4)] .
  then have "text_ok (h @ data) s'" using s'(2) by (auto simp: kept_def intro: text_ok_same)
  then show ?thesis using s' by (simp add: terminal_flush_def kept_def)
qed

text \<open>A screen the font and the 64 MiB of the start suffice for.\<close>

definition usable_screen :: "psf2 \<Rightarrow> FrameBuffer \<Rightarrow> bool" where
  "usable_screen font f \<longleftrightarrow> 0 < font_width font \<and> 2 \<le> unat (font_height font) \<and>
     40 + unat (font_width font) \<le> unat (fb_columns f) \<and> unat (fb_columns f) < 65576 \<and>
     40 \<le> unat (fb_rows f) \<and> unat (fb_rows f) < 65576 \<and> unat (fb_size f) \<le> 61 * 0x100000"

lemma unat_INIT_MEMORY: "unat INIT_MEMORY = 64 * 0x100000"
  by (simp add: INIT_MEMORY_def)

lemma init_arena:
  assumes "unat a + 64 * 0x100000 + 160 < 2 ^ 64"
  shows "arena_ok \<lparr>curFree = a, arena_beg = a, arena_end = a + INIT_MEMORY\<rparr>"
    and "free_bytes \<lparr>curFree = a, arena_beg = a, arena_end = a + INIT_MEMORY\<rparr> = 64 * 0x100000"
proof -
  have "unat (a + INIT_MEMORY) = unat a + 64 * 0x100000"
    using assms unat_add_nowrap [of a INIT_MEMORY] by (simp add: unat_INIT_MEMORY)
  then show "arena_ok \<lparr>curFree = a, arena_beg = a, arena_end = a + INIT_MEMORY\<rparr>"
    and "free_bytes \<lparr>curFree = a, arena_beg = a, arena_end = a + INIT_MEMORY\<rparr> = 64 * 0x100000"
    using assms by (simp_all add: arena_ok_def free_bytes_def word_le_nat_alt)
qed

text \<open>The greeting and the report, from a terminal that was just set up.\<close>

lemma greeting_and_status:
  assumes "fresh_screen s" "buffer_ok log" "max_len log = 0" "max_cap log = 2 * 0x100000"
    and "report_ok r" "length (report_text r) \<le> 65536"
  shows "\<exists>log1 s1 log2 s2. KFLUSH_AFTER font (KLOG (CString greeting) 0) log s = Ret (log1, s1) \<and>
    KFLUSH_AFTER font r log1 s1 = Ret (log2, s2) \<and> screen_wf s2 \<and> text_ok (greeting @ report_text r) s2 \<and> pending log2 = []"
proof -
  have g: "length greeting = 35" by (simp add: greeting_def)
  obtain log1 where k1: "KFLUSH_AFTER font (KLOG (CString greeting) 0) log s = Ret (log1, terminal_flush font greeting s)"
      "buffer_ok log1" "max_len log1 = 0" "max_cap log1 = 2 * 0x100000"
    using KFLUSH_AFTER_small [OF assms(2,3), of "KLOG (CString greeting) 0" font s] assms(4) g by auto
  let ?s1 = "terminal_flush font greeting s"
  have s1: "screen_wf ?s1" "text_ok greeting ?s1"
    using terminal_flush_text [of s "[]" greeting font] assms(1) g by (simp_all add: fresh_screen_def)
  have "length (report_text r) < max_cap log1" using k1(4) assms(6) by simp
  then obtain log2 where k2: "KFLUSH_AFTER font r log1 ?s1 = Ret (log2, terminal_flush font (report_text r) ?s1)" "max_len log2 = 0"
    using KFLUSH_AFTER_small [OF k1(2,3) _ assms(5), of font ?s1] by blast
  have "length greeting + length (report_text r) < 2 ^ 64" using g assms(6) by simp
  then show ?thesis
    using terminal_flush_text [OF s1 assms(6), of font] k1(1) k2 by (simp add: pending_def)
qed


definition demo_platform :: "unit platform" where
  "demo_platform = \<lparr>pf_initIDT = Ret, pf_initMemoryManager = (\<lambda>_. Ret), pf_allocAndMap = (\<lambda>_ w. Ret (0x100000, w)),
     pf_initScreenMemory = (\<lambda>_ _. Ret), pf_freeMapped = (\<lambda>_ _. Ret),
     pf_status = (\<lambda>_. KLOG_LINE ''Available Virtual Memory'')\<rparr>"

definition demo_parameters :: "u64 \<Rightarrow> KernelParameters" where
  "demo_parameters n = \<lparr>kp_fb = \<lparr>fb_ptr = 0x80000000, fb_size = n, fb_columns = 80, fb_rows = 64, fb_scanline = 80\<rparr>,
     kp_memory = \<lparr>km_descriptors = []\<rparr>\<rparr>"


text \<open>With few enough entries in its physical memory managers the x86 kernel keeps to the bound.\<close>

lemma x86_status_fits:
  assumes "n_entries (ks_pmm (x86_memory w)) \<le> 3000"
  shows "report_ok (pf_status (x86_platform fuel isr idt_address root) w) \<and>
    length (report_text (pf_status (x86_platform fuel isr idt_address root) w)) \<le> 65536"
  using appendMemoryManagementStatus_fits [of "x86_memory w"] assms by (simp add: x86_platform_def Let_def)

lemma alloc_jumps:
  assumes "arena_ok a" "k \<le> 3" "0 < sz" "7 \<le> free_bytes a" "free_bytes a < unat sz * unat count"
  shows "alloc m a sz (2 ^ k) count 0 = Jump"
proof -
  have pad: "padding a (2 ^ k) \<le> 7" using padding_le_7 [OF assms(2)] .
  have "unat (curFree a) \<le> unat (arena_end a)" using assms(1) by (simp add: arena_ok_def word_le_nat_alt)
  then have "unat (curFree a) + padding a (2 ^ k) \<le> unat (arena_end a)" "room a (2 ^ k) < unat sz * unat count"
    using pad assms(4,5) unfolding free_bytes_def room_def by linarith+
  then show ?thesis using alloc_spec(1) [OF assms(1) _ assms(3)] by simp
qed

text \<open>
  C26. A frame buffer of more than 64 MiB ends the start: the copy of the screen does not fit into the initial memory and control goes to
  the handler, before the terminal it prints to exists.
\<close>

theorem kernelmain_large_screen_jumps:
  assumes "pf_initIDT pf w = Ret w1" "pf_initMemoryManager pf (kp_memory params) w1 = Ret w2"
    and "pf_allocAndMap pf INIT_MEMORY w2 = Ret (a, w3)" "unat a + 64 * 0x100000 + 160 < 2 ^ 64"
    and "64 * 0x100000 < unat (fb_size (kp_fb params))" "unat (fb_size (kp_fb params)) + 4 < 2 ^ 64"
  shows "kernelmain pf font params shown m w = Jump"
proof -
  let ?a = "\<lparr>curFree = a, arena_beg = a, arena_end = a + INIT_MEMORY\<rparr>"
  note arena = init_arena [OF assms(4)]
  obtain p log m1 a1 where l: "initLogger m ?a = Ret (p, log, m1, a1)" "arena_ok a1" "64 * 0x100000 \<le> free_bytes a1 + 2 * 0x100000 + 7"
      "curFree ?a \<le> curFree a1" "arena_end a1 = arena_end ?a"
    using initLogger_returns [OF arena(1), of m] unfolding arena(2) by auto
  obtain b m2 a2 where t: "alloc m1 a1 1 1 FILE_BUF_LEN 0 = Ret (b, m2, a2)" "arena_ok a2" "free_bytes a1 \<le> free_bytes a2 + 65543"
      "curFree a1 \<le> curFree a2" "arena_end a2 = arena_end a1"
    using alloc_fits [OF l(2), of 0 1 FILE_BUF_LEN m1 0] l(3) by (auto simp: FILE_BUF_LEN_def)
  let ?n = "CEILING_DIV_VALUE (fb_size (kp_fb params)) (ucast BYTES_PER_PIXEL)"
  have "ucast BYTES_PER_PIXEL = (2 ^ 2 :: u64)" by (simp add: BYTES_PER_PIXEL_def)
  then have "unat ?n = (unat (fb_size (kp_fb params)) + 3) div 4"
    using unat_CEILING_DIV_VALUE [of 2 "fb_size (kp_fb params)"] assms(6) by simp
  then have n: "unat (fb_size (kp_fb params)) \<le> 4 * unat ?n" by simp
  have "free_bytes a2 \<le> free_bytes ?a"
    using l(4,5) t(4,5) by (simp add: free_bytes_def word_le_nat_alt)
  then have "alloc m2 a2 4 (2 ^ 2) ?n 0 = Jump"
    using n assms(5) l(3) t(3) arena(2) by (intro alloc_jumps [OF t(2)]) simp_all
  then show ?thesis using assms(1,2,3) l(1) t(1) by (simp add: kernelmain_def initScreen_def)
qed

theorem kernelmain_large_screen_jumps_witness:
  "kernelmain demo_platform demo_font (demo_parameters 0x8000000) [] (\<lambda>_. 0) () = Jump"
  by (rule kernelmain_large_screen_jumps [where a = "0x100000"]) (simp_all add: demo_platform_def demo_parameters_def)

end
