(* ===== verification/Crc32.thy ===== *)
theory Crc32
  imports Prelude
begin

text \<open>
  \<^verbatim>\<open>image-builder/crc32.c\<close>: the table-driven CRC-32 that protects the GUID partition table. It is
  compared with the bit-by-bit definition of the reflected polynomial \<open>0xEDB88320\<close> named in the source.
\<close>

section \<open>The table and the loop\<close>

definition crc32Table :: "u32 list" where
  "crc32Table =
    [0x00000000, 0x77073096, 0xee0e612c, 0x990951ba, 0x076dc419, 0x706af48f, 0xe963a535, 0x9e6495a3,
     0x0edb8832, 0x79dcb8a4, 0xe0d5e91e, 0x97d2d988, 0x09b64c2b, 0x7eb17cbd, 0xe7b82d07, 0x90bf1d91,
     0x1db71064, 0x6ab020f2, 0xf3b97148, 0x84be41de, 0x1adad47d, 0x6ddde4eb, 0xf4d4b551, 0x83d385c7,
     0x136c9856, 0x646ba8c0, 0xfd62f97a, 0x8a65c9ec, 0x14015c4f, 0x63066cd9, 0xfa0f3d63, 0x8d080df5,
     0x3b6e20c8, 0x4c69105e, 0xd56041e4, 0xa2677172, 0x3c03e4d1, 0x4b04d447, 0xd20d85fd, 0xa50ab56b,
     0x35b5a8fa, 0x42b2986c, 0xdbbbc9d6, 0xacbcf940, 0x32d86ce3, 0x45df5c75, 0xdcd60dcf, 0xabd13d59,
     0x26d930ac, 0x51de003a, 0xc8d75180, 0xbfd06116, 0x21b4f4b5, 0x56b3c423, 0xcfba9599, 0xb8bda50f,
     0x2802b89e, 0x5f058808, 0xc60cd9b2, 0xb10be924, 0x2f6f7c87, 0x58684c11, 0xc1611dab, 0xb6662d3d,
     0x76dc4190, 0x01db7106, 0x98d220bc, 0xefd5102a, 0x71b18589, 0x06b6b51f, 0x9fbfe4a5, 0xe8b8d433,
     0x7807c9a2, 0x0f00f934, 0x9609a88e, 0xe10e9818, 0x7f6a0dbb, 0x086d3d2d, 0x91646c97, 0xe6635c01,
     0x6b6b51f4, 0x1c6c6162, 0x856530d8, 0xf262004e, 0x6c0695ed, 0x1b01a57b, 0x8208f4c1, 0xf50fc457,
     0x65b0d9c6, 0x12b7e950, 0x8bbeb8ea, 0xfcb9887c, 0x62dd1ddf, 0x15da2d49, 0x8cd37cf3, 0xfbd44c65,
     0x4db26158, 0x3ab551ce, 0xa3bc0074, 0xd4bb30e2, 0x4adfa541, 0x3dd895d7, 0xa4d1c46d, 0xd3d6f4fb,
     0x4369e96a, 0x346ed9fc, 0xad678846, 0xda60b8d0, 0x44042d73, 0x33031de5, 0xaa0a4c5f, 0xdd0d7cc9,
     0x5005713c, 0x270241aa, 0xbe0b1010, 0xc90c2086, 0x5768b525, 0x206f85b3, 0xb966d409, 0xce61e49f,
     0x5edef90e, 0x29d9c998, 0xb0d09822, 0xc7d7a8b4, 0x59b33d17, 0x2eb40d81, 0xb7bd5c3b, 0xc0ba6cad,
     0xedb88320, 0x9abfb3b6, 0x03b6e20c, 0x74b1d29a, 0xead54739, 0x9dd277af, 0x04db2615, 0x73dc1683,
     0xe3630b12, 0x94643b84, 0x0d6d6a3e, 0x7a6a5aa8, 0xe40ecf0b, 0x9309ff9d, 0x0a00ae27, 0x7d079eb1,
     0xf00f9344, 0x8708a3d2, 0x1e01f268, 0x6906c2fe, 0xf762575d, 0x806567cb, 0x196c3671, 0x6e6b06e7,
     0xfed41b76, 0x89d32be0, 0x10da7a5a, 0x67dd4acc, 0xf9b9df6f, 0x8ebeeff9, 0x17b7be43, 0x60b08ed5,
     0xd6d6a3e8, 0xa1d1937e, 0x38d8c2c4, 0x4fdff252, 0xd1bb67f1, 0xa6bc5767, 0x3fb506dd, 0x48b2364b,
     0xd80d2bda, 0xaf0a1b4c, 0x36034af6, 0x41047a60, 0xdf60efc3, 0xa867df55, 0x316e8eef, 0x4669be79,
     0xcb61b38c, 0xbc66831a, 0x256fd2a0, 0x5268e236, 0xcc0c7795, 0xbb0b4703, 0x220216b9, 0x5505262f,
     0xc5ba3bbe, 0xb2bd0b28, 0x2bb45a92, 0x5cb36a04, 0xc2d7ffa7, 0xb5d0cf31, 0x2cd99e8b, 0x5bdeae1d,
     0x9b64c2b0, 0xec63f226, 0x756aa39c, 0x026d930a, 0x9c0906a9, 0xeb0e363f, 0x72076785, 0x05005713,
     0x95bf4a82, 0xe2b87a14, 0x7bb12bae, 0x0cb61b38, 0x92d28e9b, 0xe5d5be0d, 0x7cdcefb7, 0x0bdbdf21,
     0x86d3d2d4, 0xf1d4e242, 0x68ddb3f8, 0x1fda836e, 0x81be16cd, 0xf6b9265b, 0x6fb077e1, 0x18b74777,
     0x88085ae6, 0xff0f6a70, 0x66063bca, 0x11010b5c, 0x8f659eff, 0xf862ae69, 0x616bffd3, 0x166ccf45,
     0xa00ae278, 0xd70dd2ee, 0x4e048354, 0x3903b3c2, 0xa7672661, 0xd06016f7, 0x4969474d, 0x3e6e77db,
     0xaed16a4a, 0xd9d65adc, 0x40df0b66, 0x37d83bf0, 0xa9bcae53, 0xdebb9ec5, 0x47b2cf7f, 0x30b5ffe9,
     0xbdbdf21c, 0xcabac28a, 0x53b39330, 0x24b4a3a6, 0xbad03605, 0xcdd70693, 0x54de5729, 0x23d967bf,
     0xb3667a2e, 0xc4614ab8, 0x5d681b02, 0x2a6f2b94, 0xb40bbe37, 0xc30c8ea1, 0x5a05df1b, 0x2d02ef8d]"

definition crc32_step :: "u32 \<Rightarrow> u8 \<Rightarrow> u32" where
  "crc32_step crc b = (crc32Table ! unat ((crc XOR ucast b) AND 0xff)) XOR drop_bit 8 crc"

definition calculateCRC32 :: "bytes \<Rightarrow> u32" where
  "calculateCRC32 data = NOT (foldl crc32_step 0xFFFFFFFF data)"

section \<open>The bitwise reference\<close>

definition crc_bit :: "u32 \<Rightarrow> u32" where
  "crc_bit c = drop_bit 1 c XOR (if bit c 0 then 0xEDB88320 else 0)"

definition crc_bits :: "nat \<Rightarrow> u32 \<Rightarrow> u32" where "crc_bits k = crc_bit ^^ k"

definition crc32_reference :: "bytes \<Rightarrow> u32" where
  "crc32_reference data = NOT (foldl (\<lambda>c b. crc_bits 8 (c XOR ucast b)) 0xFFFFFFFF data)"

lemma length_crc32Table [simp]: "length crc32Table = 256"
  by (simp add: crc32Table_def)

text \<open>The table is built by doubling: the entries with bit \<open>k\<close> set are those without it, shifted by one constant.\<close>

definition double_table :: "u32 \<Rightarrow> u32 list \<Rightarrow> u32 list" where
  "double_table c xs = xs @ map (\<lambda>x. x XOR c) xs"

lemma crc_bits_8: "crc_bits 8 c = crc_bit (crc_bit (crc_bit (crc_bit (crc_bit (crc_bit (crc_bit (crc_bit c)))))))"
  by (simp add: crc_bits_def eval_nat_numeral)

lemma crc_bit_arith: "crc_bit c = c div 2 XOR (if c mod 2 = 1 then 0xEDB88320 else 0)"
proof -
  have "bit c 0 \<longleftrightarrow> c mod 2 = 1" by (simp add: bit_0 odd_iff_mod_2_eq_one)
  moreover have "drop_bit 1 c = c div 2" using drop_bit_eq_div [of 1 c] by simp
  ultimately show ?thesis by (simp only: crc_bit_def)
qed

lemma crc_bits_powers:
  "crc_bits 8 1 = 0x77073096" "crc_bits 8 2 = 0xee0e612c" "crc_bits 8 4 = 0x076dc419" "crc_bits 8 8 = 0x0edb8832"
  "crc_bits 8 16 = 0x1db71064" "crc_bits 8 32 = 0x3b6e20c8" "crc_bits 8 64 = 0x76dc4190" "crc_bits 8 128 = 0xedb88320"
  by (simp_all add: crc_bits_8 crc_bit_arith)

lemma crc32Table_doubled:
  "crc32Table = foldl (\<lambda>t c. double_table c t) [0] (map (crc_bits 8) [1, 2, 4, 8, 16, 32, 64, 128])"
  unfolding crc32Table_def by (simp add: double_table_def crc_bits_powers)


lemma crc_bit_xor: "crc_bit (a XOR b) = crc_bit a XOR crc_bit b"
  by (auto simp: crc_bit_def bit_xor_iff xor.left_commute xor.assoc xor.commute)

lemma crc_bits_xor: "crc_bits k (a XOR b) = crc_bits k a XOR crc_bits k b"
  by (induction k) (simp_all add: crc_bits_def crc_bit_xor)

lemma crc_bits_0 [simp]: "crc_bits k 0 = 0"
  by (induction k) (simp_all add: crc_bits_def crc_bit_def)

lemma crc_bits_Suc: "crc_bits (Suc k) c = crc_bits k (crc_bit c)"
  by (simp add: crc_bits_def funpow_swap1)

text \<open>Shifting out zero bits is a plain shift.\<close>

lemma crc_bits_shift: "(\<And>j. j < k \<Longrightarrow> \<not> bit c j) \<Longrightarrow> crc_bits k c = drop_bit k c"
proof (induction k arbitrary: c)
  case (Suc k)
  have "crc_bit c = drop_bit 1 c" using Suc.prems [of 0] by (simp add: crc_bit_def)
  moreover have "crc_bits k (drop_bit 1 c) = drop_bit k (drop_bit 1 c)"
    using Suc.prems by (intro Suc.IH) (simp add: bit_drop_bit_eq)
  ultimately show ?case by (simp add: crc_bits_Suc drop_bit_drop_bit)
qed (simp add: crc_bits_def)

lemma of_nat_xor_power:
  assumes "j < 2 ^ k" "k < 32"
  shows "(of_nat (j + 2 ^ k) :: u32) = of_nat j XOR 2 ^ k"
proof -
  have lt: "j < 2 ^ 32" using assms power_strict_increasing [of k 32 "2 :: nat"] by simp
  have "(of_nat j :: u32) AND 2 ^ k = 0"
  proof (rule bit_word_eqI)
    fix n
    have "\<not> bit j k" using assms(1) by (simp add: bit_iff_odd)
    then show "bit ((of_nat j :: u32) AND 2 ^ k) n = bit (0 :: u32) n"
      by (auto simp: bit_and_iff bit_exp_iff bit_of_nat_iff)
  qed
  then have "(of_nat j :: u32) + 2 ^ k = of_nat j XOR 2 ^ k"
    by (rule disjunctive_add_eq_xor)
  then show ?thesis by simp
qed

lemma double_table_bits:
  assumes "length t = 2 ^ k" "\<And>i. i < 2 ^ k \<Longrightarrow> t ! i = crc_bits 8 (of_nat i)" "k < 32" "i < 2 ^ Suc k"
  shows "double_table (crc_bits 8 (2 ^ k)) t ! i = crc_bits 8 (of_nat i)"
proof (cases "i < 2 ^ k")
  case True
  then show ?thesis using assms by (simp add: double_table_def nth_append)
next
  case False
  then obtain j where j: "i = j + 2 ^ k" by (metis add.commute le_Suc_ex not_le)
  then have "j < 2 ^ k" using assms(4) by simp
  then show ?thesis using assms j of_nat_xor_power [of j k] by (simp add: double_table_def nth_append crc_bits_xor)
qed

lemma double_tables_bits:
  "length (foldl (\<lambda>t c. double_table c t) [0] (map (\<lambda>k. crc_bits 8 (2 ^ k)) [0..<n])) = 2 ^ n \<and>
   (n \<le> 32 \<longrightarrow> (\<forall>i < 2 ^ n. foldl (\<lambda>t c. double_table c t) [0] (map (\<lambda>k. crc_bits 8 (2 ^ k)) [0..<n]) ! i = crc_bits 8 (of_nat i)))"
proof (induction n)
  case (Suc n)
  then show ?case using double_table_bits by (auto simp: double_table_def)
qed simp

lemma crc32Table_bits: "i < 256 \<Longrightarrow> crc32Table ! i = crc_bits 8 (of_nat i)"
proof -
  have "map (\<lambda>k. crc_bits 8 (2 ^ k)) [0..<8] = map (crc_bits 8) [1, 2, 4, 8, 16, 32, 64, 128]"
    by (simp add: upt_rec)
  then show "i < 256 \<Longrightarrow> ?thesis"
    using double_tables_bits [of 8] by (simp only: crc32Table_doubled) simp
qed

lemma crc32_step_bits: "crc32_step = (\<lambda>crc b. crc_bits 8 (crc XOR ucast b))"
proof (intro ext)
  fix crc :: u32 and b :: u8
  let ?x = "crc XOR ucast b" and ?lo = "(crc XOR ucast b) AND 0xff :: u32"
  have m: "0xff = (mask 8 :: u32)" by (simp add: mask_eq_exp_minus_1)
  have lo: "unat ?lo < 256" using unat_and_mask [of ?x 8] by (simp add: m)
  have split: "?x = ?lo XOR (?x AND NOT (mask 8))"
    by (rule bit_word_eqI) (auto simp: m bit_xor_iff bit_and_iff bit_not_iff bit_mask_iff)
  have "crc_bits 8 (?x AND NOT (mask 8)) = drop_bit 8 (?x AND NOT (mask 8))"
    by (rule crc_bits_shift) (simp add: bit_and_iff bit_not_iff bit_mask_iff)
  also have "\<dots> = drop_bit 8 crc"
    by (rule bit_word_eqI) (auto simp: bit_drop_bit_eq bit_xor_iff bit_and_iff bit_not_iff bit_mask_iff bit_ucast_iff
        dest: bit_imp_le_length)
  finally have hi: "crc_bits 8 (?x AND NOT (mask 8)) = drop_bit 8 crc" .
  have "crc32_step crc b = crc_bits 8 ?lo XOR drop_bit 8 crc"
    using crc32Table_bits [OF lo] by (simp add: crc32_step_def)
  also have "\<dots> = crc_bits 8 ?x" using hi by (subst split) (simp only: crc_bits_xor)
  finally show "crc32_step crc b = crc_bits 8 ?x" .
qed

text \<open>
  C3. The table-driven \<^verbatim>\<open>calculateCRC32\<close> computes the CRC-32 of the polynomial \<open>0xEDB88320\<close>, on every
  input: all 256 table entries are right and one table step is eight bit steps.
\<close>

theorem calculateCRC32_correct: "calculateCRC32 data = crc32_reference data"
  by (simp add: calculateCRC32_def crc32_reference_def crc32_step_bits)


section \<open>Error detection\<close>

lemma xor_eq_0D: "a XOR b = 0 \<Longrightarrow> a = (b :: u32)"
proof (rule bit_word_eqI)
  fix n
  assume "a XOR b = 0"
  then have "\<not> bit (a XOR b) n" by (metis bit_0_eq bot_apply bot_bool_def)
  then show "bit a n \<longleftrightarrow> bit b n" by (simp add: bit_xor_iff)
qed

lemma xor_cancel: "c XOR a = c XOR b \<Longrightarrow> a = (b :: u32)" "a XOR c = b XOR c \<Longrightarrow> a = b"
proof -
  have *: "(c XOR a) XOR (c XOR b) = a XOR b"
    by (rule bit_word_eqI) (auto simp: bit_xor_iff)
  show "a = b" if "c XOR a = c XOR b" using * that by - (rule xor_eq_0D, simp)
  then show "a = b" if "a XOR c = b XOR c" using that by (simp add: xor.commute)
qed

lemma crc_bits_add: "crc_bits j (crc_bits k c) = crc_bits (j + k) c"
  by (simp add: crc_bits_def funpow_add)

lemma crc_bit_eq_0: "crc_bit c = 0 \<Longrightarrow> c = 0"
proof -
  assume z: "crc_bit c = 0"
  have "\<not> bit c 0"
  proof
    assume "bit c 0"
    then have "drop_bit 1 c XOR 0xEDB88320 = 0" using z by (simp add: crc_bit_def)
    then have "drop_bit 1 c = 0xEDB88320" by (rule xor_eq_0D)
    then have "bit (drop_bit 1 c) 31" by simp
    then show False using bit_imp_le_length [of c 32] by (simp add: bit_drop_bit_eq)
  qed
  moreover have d: "drop_bit 1 c = 0" using z calculation by (simp add: crc_bit_def)
  moreover have "bit c (Suc m) = bit (drop_bit 1 c) m" for m by (simp add: bit_drop_bit_eq)
  ultimately have "\<not> bit c n" for n by (cases n) (simp_all only: d bit_0_eq bot_apply bot_bool_def simp_thms)
  then show "c = 0" by (intro bit_word_eqI) simp
qed

lemma crc_bits_inj: "crc_bits k a = crc_bits k b \<Longrightarrow> a = b"
proof (induction k arbitrary: a b)
  case (Suc k)
  then have "crc_bit a = crc_bit b" by (simp add: crc_bits_Suc)
  then have "crc_bit (a XOR b) = 0" by (simp add: crc_bit_xor)
  then have "a XOR b = 0" by (rule crc_bit_eq_0)
  then show ?case by (rule xor_eq_0D)
qed (simp add: crc_bits_def)

primrec pack :: "bytes \<Rightarrow> u32" where
  "pack [] = 0"
| "pack (b # bs) = ucast b XOR push_bit 8 (pack bs)"

lemma bit_pack: "length bs \<le> 4 \<Longrightarrow> bit (pack bs) n \<Longrightarrow> n < 8 * length bs"
  by (induction bs arbitrary: n)
    (force simp: bit_xor_iff bit_ucast_iff bit_push_bit_iff dest: bit_imp_le_length)+

lemma crc_bits_push:
  assumes "length bs \<le> 3"
  shows "crc_bits 8 (push_bit 8 (pack bs)) = pack bs"
proof -
  have "crc_bits 8 (push_bit 8 (pack bs)) = drop_bit 8 (push_bit 8 (pack bs))"
    by (rule crc_bits_shift) (simp add: bit_push_bit_iff)
  also have "\<dots> = pack bs"
  proof (rule bit_word_eqI)
    fix n
    have "bit (pack bs) n \<Longrightarrow> n < 24" using assms bit_pack [of bs n] by linarith
    then show "bit (drop_bit 8 (push_bit 8 (pack bs))) n = bit (pack bs) n"
      by (auto simp: bit_drop_bit_eq bit_push_bit_iff)
  qed
  finally show ?thesis .
qed

lemma foldl_step_pack:
  "length bs \<le> 4 \<Longrightarrow> foldl crc32_step c bs = crc_bits (8 * length bs) (c XOR pack bs)"
proof (induction bs arbitrary: c)
  case (Cons b bs)
  have "foldl crc32_step c (b # bs) = crc_bits (8 * length bs) (crc_bits 8 (c XOR ucast b) XOR pack bs)"
    using Cons by (simp add: crc32_step_bits)
  also have "crc_bits 8 (c XOR ucast b) XOR pack bs = crc_bits 8 (c XOR pack (b # bs))"
    using Cons.prems crc_bits_push [of bs] by (simp add: crc_bits_xor xor.assoc)
  also have "crc_bits (8 * length bs) (crc_bits 8 (c XOR pack (b # bs))) = crc_bits (8 * length (b # bs)) (c XOR pack (b # bs))"
    by (simp add: crc_bits_add add.commute)
  finally show ?case .
qed (simp add: crc_bits_def)

lemma pack_inj: "length xs = length ys \<Longrightarrow> length xs \<le> 4 \<Longrightarrow> pack xs = pack ys \<Longrightarrow> xs = ys"
proof (induction xs ys rule: list_induct2)
  case (Cons x xs y ys)
  have b: "bit x n \<longleftrightarrow> bit y n" if "n < 8" for n
  proof -
    have "bit (pack (x # xs)) n \<longleftrightarrow> bit (pack (y # ys)) n" using Cons.prems by simp
    then show ?thesis using that by (simp add: bit_xor_iff bit_ucast_iff bit_push_bit_iff)
  qed
  then have "x = y" by (intro bit_word_eqI) simp
  have "ucast x XOR push_bit 8 (pack xs) = ucast x XOR push_bit 8 (pack ys)"
    using Cons.prems(2) unfolding pack.simps \<open>x = y\<close> .
  then have p: "push_bit 8 (pack xs) = push_bit 8 (pack ys)" by (rule xor_cancel(1))
  have l: "length xs \<le> 3" "length ys \<le> 3" using Cons.prems(1) Cons.hyps by simp_all
  have "pack xs = pack ys"
    using crc_bits_push [OF l(1)] crc_bits_push [OF l(2)] unfolding p by (rule trans [OF sym])
  then show ?case using Cons \<open>x = y\<close> by simp
qed simp

lemma foldl_step_inj: "foldl crc32_step c bs = foldl crc32_step d bs \<Longrightarrow> c = d"
proof (induction bs arbitrary: c d)
  case (Cons b bs)
  then have "crc32_step c b = crc32_step d b" by simp
  then have "c XOR ucast b = d XOR ucast b" using crc_bits_inj by (simp add: crc32_step_bits)
  then show ?case by (rule xor_cancel(2))
qed simp

text \<open>
  The checksum detects every corruption confined to four consecutive bytes, wherever it lies:
  messages that differ exactly in such a window have different checksums.
\<close>

theorem calculateCRC32_detects_burst:
  assumes "length x = length y" "length x \<le> 4" "x \<noteq> y"
  shows "calculateCRC32 (pre @ x @ post) \<noteq> calculateCRC32 (pre @ y @ post)"
proof
  assume eq: "calculateCRC32 (pre @ x @ post) = calculateCRC32 (pre @ y @ post)"
  let ?c = "foldl crc32_step 0xFFFFFFFF pre"
  have "foldl crc32_step (foldl crc32_step ?c x) post = foldl crc32_step (foldl crc32_step ?c y) post"
    using eq by (simp add: calculateCRC32_def)
  then have "crc_bits (8 * length x) (?c XOR pack x) = crc_bits (8 * length x) (?c XOR pack y)"
    using foldl_step_inj foldl_step_pack assms by metis
  then have "?c XOR pack x = ?c XOR pack y" by (rule crc_bits_inj)
  then have "pack x = pack y" by (rule xor_cancel(1))
  then show False using pack_inj assms by blast
qed

theorem calculateCRC32_detects_burst_witness:
  "calculateCRC32 ([1, 2] @ [3, 4, 5, 6] @ [7]) \<noteq> calculateCRC32 ([1, 2] @ [3, 0, 5, 9] @ [7])"
  by (rule calculateCRC32_detects_burst) simp_all

end
