(* ===== verification/Disk.thy ===== *)
theory Disk
  imports Manipulation Maths Crc32 Text
begin

text \<open>
  The partitioning of the disk image: little-endian encoding of packed structures, \<^verbatim>\<open>shared/uuid\<close>,
  the build configuration, and \<^verbatim>\<open>image-builder/mbr.c\<close> and \<^verbatim>\<open>gpt.c\<close>. The image is the byte array
  that the program maps into memory; \<^verbatim>\<open>fileBuffer\<close> is the address of its first byte and a
  \<^verbatim>\<open>memcpy\<close> of a structure stores the bytes of its packed encoding.
\<close>

section \<open>Little-endian encoding\<close>

definition le_bytes :: "nat \<Rightarrow> 'a :: len word \<Rightarrow> bytes" where
  "le_bytes n w = map (\<lambda>i. ucast (drop_bit (8 * i) w)) [0..<n]"

abbreviation le16 :: "u16 \<Rightarrow> bytes" where "le16 \<equiv> le_bytes 2"
abbreviation le32 :: "u32 \<Rightarrow> bytes" where "le32 \<equiv> le_bytes 4"
abbreviation le64 :: "u64 \<Rightarrow> bytes" where "le64 \<equiv> le_bytes 8"

primrec of_le_bytes :: "bytes \<Rightarrow> 'a :: len word" where
  "of_le_bytes [] = 0"
| "of_le_bytes (b # bs) = ucast b OR push_bit 8 (of_le_bytes bs)"

text \<open>A fixed-size array member holds its initialiser and zeros.\<close>

definition padded :: "nat \<Rightarrow> bytes \<Rightarrow> bytes" where
  "padded n bs = take n bs @ replicate (n - length bs) 0"

section \<open>UUIDs\<close>

record UUID =
  timeLo :: u32
  timeMid :: u16
  timeHiAndVer :: u16
  clockSeqHiAndRes :: u8
  clockSeqLo :: u8
  node :: bytes

definition uuid_bytes :: "UUID \<Rightarrow> bytes" where
  "uuid_bytes u = le32 (timeLo u) @ le16 (timeMid u) @ le16 (timeHiAndVer u) @
     [clockSeqHiAndRes u, clockSeqLo u] @ padded 6 (node u)"

datatype UUIDVariant = UUID_VARIANT_0 | UUID_VARIANT_1 | UUID_VARIANT_2 | UUID_VARIANT_3

text \<open>\<^verbatim>\<open>version << 12\<close> is computed on \<^verbatim>\<open>int\<close> and then cast to \<^verbatim>\<open>U8\<close>.\<close>

definition setUUIDType :: "UUID \<Rightarrow> u8 \<Rightarrow> UUIDVariant \<Rightarrow> UUID" where
  "setUUIDType uuid version variant =
     (let shifted = ucast (push_bit 12 (ucast version :: u32)) :: u8;
          uuid = uuid\<lparr>timeHiAndVer := ucast shifted OR (timeHiAndVer uuid AND 0x0FFF)\<rparr>;
          c = clockSeqHiAndRes uuid in
      uuid\<lparr>clockSeqHiAndRes :=
        (case variant of
           UUID_VARIANT_0 \<Rightarrow> push_bit 7 0b0 OR (c AND 0b01111111)
         | UUID_VARIANT_1 \<Rightarrow> push_bit 6 0b10 OR (c AND 0b00111111)
         | UUID_VARIANT_2 \<Rightarrow> push_bit 5 0b110 OR (c AND 0b00011111)
         | UUID_VARIANT_3 \<Rightarrow> push_bit 5 0b111 OR (c AND 0b00011111))\<rparr>)"

definition NIL_UUID :: UUID where
  "NIL_UUID = \<lparr>timeLo = 0, timeMid = 0, timeHiAndVer = 0, clockSeqHiAndRes = 0, clockSeqLo = 0, node = replicate 6 0\<rparr>"

definition MAX_UUID :: UUID where
  "MAX_UUID = \<lparr>timeLo = 0xFFFFFFFF, timeMid = 0xFFFF, timeHiAndVer = 0xFFFF, clockSeqHiAndRes = 0xFF, clockSeqLo = 0xFF,
     node = replicate 6 0xFF\<rparr>"

definition BOOT_SIGNATURE :: u16 where "BOOT_SIGNATURE = 0xAA55"

definition EFI_SYSTEM_PARTITION_GUID :: UUID where
  "EFI_SYSTEM_PARTITION_GUID = \<lparr>timeLo = 0xC12A7328, timeMid = 0xF81F, timeHiAndVer = 0x11D2,
     clockSeqHiAndRes = 0xBA, clockSeqLo = 0x4B, node = [0x00, 0xA0, 0xC9, 0x3E, 0xC9, 0x3B]\<rparr>"

section \<open>Configuration\<close>

definition GPT_PARTITION_TABLE_ENTRIES :: nat where "GPT_PARTITION_TABLE_ENTRIES = 128"
definition GPT_PARTITION_TABLE_ENTRY_SIZE :: nat where "GPT_PARTITION_TABLE_ENTRY_SIZE = 128"
definition GPT_PARTITION_TABLE_SIZE :: u32 where "GPT_PARTITION_TABLE_SIZE = 16 * push_bit 10 1"

definition PROTECTIVE_MBR :: u16 where "PROTECTIVE_MBR = 1"
definition GPT_HEADER :: u16 where "GPT_HEADER = 1"

record Configuration =
  imageName :: bytes
  LBASizeBytes :: u16
  alignmentLBA :: u32
  totalImageSizeLBA :: u32
  totalImageSizeBytes :: u64
  GPTPartitionTableSizeLBA :: u32
  EFISystemPartitionStartLBA :: u32
  EFISystemPartitionSizeLBA :: u32
  dataPartitionStartLBA :: u32
  dataPartitionSizeLBA :: u32

definition configuration :: Configuration where
  "configuration = \<lparr>imageName = ascii ''FLOS_UEFI_IMAGE.hdd'', LBASizeBytes = 512, alignmentLBA = 1,
     totalImageSizeLBA = 0, totalImageSizeBytes = 0, GPTPartitionTableSizeLBA = 0, EFISystemPartitionStartLBA = 0,
     EFISystemPartitionSizeLBA = 0, dataPartitionStartLBA = 0, dataPartitionSizeLBA = 0\<rparr>"

section \<open>Protective master boot record\<close>

record MBRPartition =
  bootIndicator :: u8
  startingCHS :: bytes
  osType :: u8
  endingCHS :: bytes
  mbr_startingLBA :: u32
  mbr_sizeLBA :: u32

definition mbr_partition_bytes :: "MBRPartition \<Rightarrow> bytes" where
  "mbr_partition_bytes p = [bootIndicator p] @ padded 3 (startingCHS p) @ [osType p] @ padded 3 (endingCHS p) @
     le32 (mbr_startingLBA p) @ le32 (mbr_sizeLBA p)"

record MBR =
  bootCode :: bytes
  MBRSignature :: u32
  mbr_unknown :: u16
  partitions :: "MBRPartition list"
  mbr_signature :: u16

definition mbr_bytes :: "MBR \<Rightarrow> bytes" where
  "mbr_bytes m = padded 440 (bootCode m) @ le32 (MBRSignature m) @ le16 (mbr_unknown m) @
     concat (map mbr_partition_bytes (partitions m)) @ le16 (mbr_signature m)"

definition empty_partition :: MBRPartition where
  "empty_partition = \<lparr>bootIndicator = 0, startingCHS = [], osType = 0, endingCHS = [], mbr_startingLBA = 0, mbr_sizeLBA = 0\<rparr>"

definition protectiveMBR :: MBR where
  "protectiveMBR =
    \<lparr>bootCode = [], MBRSignature = 0, mbr_unknown = 0,
     partitions =
       [\<lparr>bootIndicator = 0, startingCHS = [0x00, 0x02, 0x00], osType = 0xEE, endingCHS = [0xFF, 0xFF, 0xFF],
         mbr_startingLBA = 0x00000001, mbr_sizeLBA = 0\<rparr>, empty_partition, empty_partition, empty_partition],
     mbr_signature = BOOT_SIGNATURE\<rparr>"

definition writeMBR :: "Configuration \<Rightarrow> addr \<Rightarrow> memory \<Rightarrow> memory" where
  "writeMBR c fileBuffer img =
     (let total = ucast (totalImageSizeLBA c) :: u64;
          size = (if total > 0xFFFFFFFF then 0xFFFFFFFF else ucast (total - 1));
          m = protectiveMBR\<lparr>partitions := (partitions protectiveMBR)[0 := (partitions protectiveMBR ! 0)\<lparr>mbr_sizeLBA := size\<rparr>]\<rparr> in
      store_bytes img fileBuffer (mbr_bytes m))"

section \<open>GUID partition table\<close>

record GPTHeader =
  gpt_signature :: bytes
  gpt_revision :: u32
  headerSize :: u32
  headerCRC32 :: u32
  gpt_reserved :: u32
  myLBA :: u64
  alternateLBA :: u64
  firstUsableLBA :: u64
  lastUsableLBA :: u64
  diskGUID :: UUID
  partitionTableLBA :: u64
  numberOfEntries :: u32
  sizeOfEntry :: u32
  partitionTableCRC32 :: u32

definition gpt_header_bytes :: "GPTHeader \<Rightarrow> bytes" where
  "gpt_header_bytes h = padded 8 (gpt_signature h) @ le32 (gpt_revision h) @ le32 (headerSize h) @ le32 (headerCRC32 h) @
     le32 (gpt_reserved h) @ le64 (myLBA h) @ le64 (alternateLBA h) @ le64 (firstUsableLBA h) @ le64 (lastUsableLBA h) @
     uuid_bytes (diskGUID h) @ le64 (partitionTableLBA h) @ le32 (numberOfEntries h) @ le32 (sizeOfEntry h) @
     le32 (partitionTableCRC32 h)"

record GPTPartitionEntry =
  partitionTypeGUID :: UUID
  uniquePartitionGUID :: UUID
  startingLBA :: u64
  endingLBA :: u64
  gpt_attributes :: u64
  partitionNameUTF16 :: "u16 list"

definition gpt_entry_bytes :: "GPTPartitionEntry \<Rightarrow> bytes" where
  "gpt_entry_bytes e = uuid_bytes (partitionTypeGUID e) @ uuid_bytes (uniquePartitionGUID e) @ le64 (startingLBA e) @
     le64 (endingLBA e) @ le64 (gpt_attributes e) @ padded 72 (concat (map le16 (partitionNameUTF16 e)))"

definition FLOS_BASIC_DATA_GUID :: UUID where
  "FLOS_BASIC_DATA_GUID = \<lparr>timeLo = 0x5f68a13c, timeMid = 0xcdae, timeHiAndVer = 0x4372, clockSeqHiAndRes = 0x95,
     clockSeqLo = 0xc7, node = [0xfb, 0xc3, 0x8a, 0x42, 0xff, 0x3e]\<rparr>"

definition RANDOM_GUID_1 :: UUID where
  "RANDOM_GUID_1 = \<lparr>timeLo = 0x314D4330, timeMid = 0x29de, timeHiAndVer = 0x4029, clockSeqHiAndRes = 0xA6,
     clockSeqLo = 0x0D, node = [0x89, 0xEA, 0x41, 0x02, 0x6A, 0x5D]\<rparr>"

definition RANDOM_GUID_2 :: UUID where
  "RANDOM_GUID_2 = \<lparr>timeLo = 0x1E736CF5, timeMid = 0x0F0F, timeHiAndVer = 0x47B4, clockSeqHiAndRes = 0x8E,
     clockSeqLo = 0xE0, node = [0xB6, 0xB5, 0x01, 0x0C, 0x05, 0xDD]\<rparr>"

definition RANDOM_GUID_3 :: UUID where
  "RANDOM_GUID_3 = \<lparr>timeLo = 0x1B67CFAB, timeMid = 0x21EF, timeHiAndVer = 0x4033, clockSeqHiAndRes = 0xB9,
     clockSeqLo = 0xDD, node = [0xCE, 0x61, 0x8C, 0xB3, 0x2C, 0xB8]\<rparr>"

definition gptHeader :: GPTHeader where
  "gptHeader =
    \<lparr>gpt_signature = ascii ''EFI PART'', gpt_revision = 0x00010000, headerSize = 92, headerCRC32 = 0, gpt_reserved = 0,
     myLBA = ucast PROTECTIVE_MBR, alternateLBA = 0, firstUsableLBA = 0, lastUsableLBA = 0, diskGUID = NIL_UUID,
     partitionTableLBA = ucast (PROTECTIVE_MBR + GPT_HEADER),
     numberOfEntries = of_nat GPT_PARTITION_TABLE_ENTRIES, sizeOfEntry = of_nat GPT_PARTITION_TABLE_ENTRY_SIZE,
     partitionTableCRC32 = 0\<rparr>"

definition empty_entry :: GPTPartitionEntry where
  "empty_entry = \<lparr>partitionTypeGUID = NIL_UUID, uniquePartitionGUID = NIL_UUID, startingLBA = 0, endingLBA = 0,
     gpt_attributes = 0, partitionNameUTF16 = []\<rparr>"

definition partitionEntries :: "GPTPartitionEntry list" where
  "partitionEntries =
    [\<lparr>partitionTypeGUID = EFI_SYSTEM_PARTITION_GUID, uniquePartitionGUID = NIL_UUID, startingLBA = 0, endingLBA = 0,
      gpt_attributes = 0, partitionNameUTF16 = map ucast (ascii ''EFI SYSTEM'')\<rparr>,
     \<lparr>partitionTypeGUID = FLOS_BASIC_DATA_GUID, uniquePartitionGUID = NIL_UUID, startingLBA = 0, endingLBA = 0,
      gpt_attributes = 0, partitionNameUTF16 = map ucast (ascii ''BASIC DATA'')\<rparr>] @
    replicate (GPT_PARTITION_TABLE_ENTRIES - 2) empty_entry"

definition fillPartitionEntry :: "nat \<Rightarrow> u64 \<Rightarrow> u64 \<Rightarrow> GPTPartitionEntry list \<Rightarrow> GPTPartitionEntry list" where
  "fillPartitionEntry index startLBA sizeLBA es =
     es[index := (es ! index)
       \<lparr>uniquePartitionGUID := (if index = 0 then RANDOM_GUID_2 else RANDOM_GUID_3),
        startingLBA := startLBA, endingLBA := startLBA + sizeLBA - 1\<rparr>]"

text \<open>The two headers and the table that \<^verbatim>\<open>writeGPTs\<close> builds; the C code updates one header in place.\<close>

definition gpt_entries :: "Configuration \<Rightarrow> GPTPartitionEntry list" where
  "gpt_entries c =
     fillPartitionEntry 1 (ucast (dataPartitionStartLBA c)) (ucast (dataPartitionSizeLBA c))
       (fillPartitionEntry 0 (ucast (EFISystemPartitionStartLBA c)) (ucast (EFISystemPartitionSizeLBA c)) partitionEntries)"

definition gpt_table_bytes :: "Configuration \<Rightarrow> bytes" where
  "gpt_table_bytes c = concat (map gpt_entry_bytes (gpt_entries c))"

definition gpt_primary_header :: "Configuration \<Rightarrow> GPTHeader" where
  "gpt_primary_header c =
     (let h = gptHeader
            \<lparr>alternateLBA := ucast (totalImageSizeLBA c - ucast GPT_HEADER),
             firstUsableLBA := ucast (ucast PROTECTIVE_MBR + ucast GPT_HEADER + GPTPartitionTableSizeLBA c),
             lastUsableLBA := ucast (totalImageSizeLBA c - ucast GPT_HEADER - GPTPartitionTableSizeLBA c - 1),
             diskGUID := RANDOM_GUID_1,
             partitionTableCRC32 := calculateCRC32 (gpt_table_bytes c)\<rparr> in
      h\<lparr>headerCRC32 := calculateCRC32 (take (unat (headerSize h)) (gpt_header_bytes h))\<rparr>)"

definition gpt_backup_header :: "Configuration \<Rightarrow> GPTHeader" where
  "gpt_backup_header c =
     (let h = gpt_primary_header c;
          h = h\<lparr>myLBA := alternateLBA h, alternateLBA := myLBA h,
                partitionTableLBA := ucast (totalImageSizeLBA c - ucast GPT_HEADER - GPTPartitionTableSizeLBA c),
                headerCRC32 := 0\<rparr> in
      h\<lparr>headerCRC32 := calculateCRC32 (gpt_header_bytes h)\<rparr>)"

definition writeGPTs :: "Configuration \<Rightarrow> addr \<Rightarrow> memory \<Rightarrow> memory" where
  "writeGPTs c fileBuffer img =
     (let lba = ucast (LBASizeBytes c) :: u64;
          primaryBuffer = fileBuffer + ucast PROTECTIVE_MBR * lba;
          img = store_bytes img primaryBuffer (gpt_header_bytes (gpt_primary_header c));
          primaryBuffer = primaryBuffer + ucast GPT_HEADER * lba;
          img = store_bytes img primaryBuffer (gpt_table_bytes c);
          h = gpt_backup_header c;
          fileBuffer = fileBuffer + partitionTableLBA h * lba;
          img = store_bytes img fileBuffer (gpt_table_bytes c);
          fileBuffer = fileBuffer + (myLBA h - partitionTableLBA h) * lba in
      store_bytes img fileBuffer (gpt_header_bytes h))"

section \<open>Reading back what was stored\<close>

lemma length_le_bytes [simp]: "length (le_bytes n w) = n"
  by (simp add: le_bytes_def)

lemma length_padded [simp]: "length (padded n bs) = n"
  by (simp add: padded_def)

lemma bit_of_le_bytes:
  "bit (of_le_bytes bs :: 'a :: len word) k \<longleftrightarrow> k < LENGTH('a) \<and> k div 8 < length bs \<and> bit (bs ! (k div 8)) (k mod 8)"
proof (induction bs arbitrary: k)
  case (Cons b bs)
  show ?case
  proof (cases "k < 8")
    case True
    then show ?thesis by (auto simp: bit_or_iff bit_ucast_iff bit_push_bit_iff dest: bit_imp_le_length)
  next
    case False
    then obtain j where j: "k = j + 8" using le_Suc_ex [of 8 k] by auto
    have "\<not> bit b k" using False bit_imp_le_length [of b k] by auto
    moreover have "k div 8 = Suc (j div 8)" "k mod 8 = j mod 8" using j by simp_all
    ultimately show ?thesis using Cons.IH [of j] j
      by (auto simp: bit_or_iff bit_ucast_iff bit_push_bit_iff)
  qed
qed simp

lemma of_le_bytes_le_bytes:
  assumes "LENGTH('a) = 8 * n"
  shows "of_le_bytes (le_bytes n (w :: 'a :: len word)) = w"
proof (rule bit_word_eqI)
  fix k assume k: "k < LENGTH('a)"
  then have "k div 8 < n" using assms by (simp add: less_mult_imp_div_less mult.commute)
  then show "bit (of_le_bytes (le_bytes n w) :: 'a word) k = bit w k"
    using k by (simp add: bit_of_le_bytes le_bytes_def bit_ucast_iff bit_drop_bit_eq)
qed

lemma of_le_bytes_le [simp]:
  "of_le_bytes (le16 a) = a" "of_le_bytes (le32 b) = b" "of_le_bytes (le64 d) = d"
  by (simp_all add: of_le_bytes_le_bytes)

lemma load_store_same:
  assumes "length bs < 2 ^ 64"
  shows "load_bytes (store_bytes m a bs) a (length bs) = bs"
  using assms by (intro nth_equalityI) (simp_all add: load_bytes_def store_bytes_def unat_of_nat_lt)

lemma unat_offset_diff:
  assumes "i < 2 ^ 64" "j < 2 ^ 64"
  shows "unat ((b + of_nat i) - (b + of_nat j) :: u64) = (if j \<le> i then i - j else 2 ^ 64 + i - j)"
  using unat_diff_of_nat [of j "of_nat i"] assms by (simp add: unat_of_nat_lt)

lemma load_store_disjoint:
  assumes "x + k \<le> y \<or> y + length bs \<le> x" "x + k \<le> 2 ^ 64" "y + length bs \<le> 2 ^ 64"
  shows "load_bytes (store_bytes m (b + of_nat y) bs) (b + of_nat x) k = load_bytes m (b + of_nat x) k"
proof (cases "bs = []")
  case False
  then have y: "y < 2 ^ 64" using assms(3) by (cases bs) auto
  have "\<not> unat (b + of_nat x + of_nat i - (b + of_nat y)) < length bs" if "i < k" for i
  proof -
    have "b + of_nat x + of_nat i = b + (of_nat (x + i) :: u64)" by simp
    then have "unat (b + of_nat x + of_nat i - (b + of_nat y)) = (if y \<le> x + i then x + i - y else 2 ^ 64 + (x + i) - y)"
      using unat_offset_diff [of "x + i" y b] that assms(2) y by (simp only:)
    then show ?thesis using that assms(1,3) by (auto split: if_splits)
  qed
  then show ?thesis by (simp add: load_bytes_def store_bytes_def)
qed (simp add: store_bytes_def)

section \<open>Sizes of the structures\<close>

lemma length_uuid_bytes [simp]: "length (uuid_bytes u) = 16"
  by (simp add: uuid_bytes_def)

lemma length_gpt_header_bytes [simp]: "length (gpt_header_bytes h) = 92"
  by (simp add: gpt_header_bytes_def)

lemma length_gpt_entry_bytes [simp]: "length (gpt_entry_bytes e) = 128"
  by (simp add: gpt_entry_bytes_def)

lemma length_gpt_entries [simp]: "length (gpt_entries c) = 128"
  by (simp add: gpt_entries_def fillPartitionEntry_def partitionEntries_def GPT_PARTITION_TABLE_ENTRIES_def)

lemma length_concat_const: "(\<And>x. x \<in> set xs \<Longrightarrow> length (f x) = n) \<Longrightarrow> length (concat (map f xs)) = length xs * n"
  by (induction xs) auto

lemma length_gpt_table_bytes [simp]: "length (gpt_table_bytes c) = 16384"
  by (simp add: gpt_table_bytes_def length_concat_const [where n = 128])

lemma length_mbr_bytes: "length (partitions m) = 4 \<Longrightarrow> length (mbr_bytes m) = 512"
  by (simp add: mbr_bytes_def length_concat_const [where n = 16] mbr_partition_bytes_def)

section \<open>What firmware checks of a header\<close>

definition header_field :: "nat \<Rightarrow> nat \<Rightarrow> bytes \<Rightarrow> 'a :: len word" where
  "header_field off n bs = of_le_bytes (take n (drop off bs))"

definition gpt_header_ok :: "bytes \<Rightarrow> bool" where
  "gpt_header_ok bs \<longleftrightarrow> length bs = 92 \<and> take 8 bs = ascii ''EFI PART'' \<and>
     header_field 16 4 bs = calculateCRC32 (take 16 bs @ [0, 0, 0, 0] @ drop 20 bs)"

lemma gpt_header_fields:
  "header_field 16 4 (gpt_header_bytes h) = headerCRC32 h"
  "header_field 24 8 (gpt_header_bytes h) = myLBA h"
  "header_field 32 8 (gpt_header_bytes h) = alternateLBA h"
  "header_field 72 8 (gpt_header_bytes h) = partitionTableLBA h"
  "header_field 88 4 (gpt_header_bytes h) = partitionTableCRC32 h"
  "take 8 (gpt_header_bytes h) = padded 8 (gpt_signature h)"
  by (simp_all add: header_field_def gpt_header_bytes_def)

lemma gpt_header_zero_crc:
  "take 16 (gpt_header_bytes h) @ [0, 0, 0, 0] @ drop 20 (gpt_header_bytes h) = gpt_header_bytes (h\<lparr>headerCRC32 := 0\<rparr>)"
  by (simp add: gpt_header_bytes_def le_bytes_def eval_nat_numeral)

lemma gpt_header_ok_bytes:
  "gpt_signature h = ascii ''EFI PART'' \<Longrightarrow> headerCRC32 h = calculateCRC32 (gpt_header_bytes (h\<lparr>headerCRC32 := 0\<rparr>)) \<Longrightarrow>
   gpt_header_ok (gpt_header_bytes h)"
  unfolding gpt_header_ok_def gpt_header_zero_crc gpt_header_fields by (simp add: padded_def ascii_def)


lemma gpt_headers_ok:
  "gpt_header_ok (gpt_header_bytes (gpt_primary_header c))" "gpt_header_ok (gpt_header_bytes (gpt_backup_header c))"
  by (rule gpt_header_ok_bytes; simp add: gpt_primary_header_def gpt_backup_header_def gptHeader_def Let_def)+

lemma gpt_addresses:
  assumes "2 * unat (GPTPartitionTableSizeLBA c) + 3 \<le> unat (totalImageSizeLBA c)"
  shows "partitionTableLBA (gpt_backup_header c) = of_nat (unat (totalImageSizeLBA c) - 1 - unat (GPTPartitionTableSizeLBA c))"
    and "myLBA (gpt_backup_header c) = of_nat (unat (totalImageSizeLBA c) - 1)"
    and "alternateLBA (gpt_primary_header c) = of_nat (unat (totalImageSizeLBA c) - 1)"
proof -
  let ?N = "totalImageSizeLBA c" and ?T = "GPTPartitionTableSizeLBA c"
  have "unat (?N - 1) = unat ?N - 1" using assms by (subst unat_sub_nowrap) simp_all
  moreover have "unat (?N - 1 - ?T) = unat ?N - 1 - unat ?T"
    using calculation assms by (subst unat_sub_nowrap) simp_all
  ultimately have *: "unat ?N - 1 - unat ?T = unat (?N - 1 - ?T)" "unat ?N - 1 = unat (?N - 1)" by simp_all
  have "ucast (?N - 1 - ?T) = (of_nat (unat ?N - 1 - unat ?T) :: u64)" "ucast (?N - 1) = (of_nat (unat ?N - 1) :: u64)"
    by (simp only: *(1) of_nat_unat, simp only: *(2) of_nat_unat)
  then show "partitionTableLBA (gpt_backup_header c) = of_nat (unat ?N - 1 - unat ?T)"
    and "myLBA (gpt_backup_header c) = of_nat (unat ?N - 1)" "alternateLBA (gpt_primary_header c) = of_nat (unat ?N - 1)"
    by (simp_all only: gpt_backup_header_def gpt_primary_header_def Let_def) (simp_all add: GPT_HEADER_def)
qed

lemma writeGPTs_stores:
  assumes "2 * unat (GPTPartitionTableSizeLBA c) + 3 \<le> unat (totalImageSizeLBA c)"
  defines "L \<equiv> unat (LBASizeBytes c)" and "N \<equiv> unat (totalImageSizeLBA c)" and "T \<equiv> unat (GPTPartitionTableSizeLBA c)"
  shows "writeGPTs c fb img =
    store_bytes (store_bytes (store_bytes (store_bytes img
      (fb + of_nat L) (gpt_header_bytes (gpt_primary_header c)))
      (fb + of_nat (2 * L)) (gpt_table_bytes c))
      (fb + of_nat ((N - 1 - T) * L)) (gpt_table_bytes c))
      (fb + of_nat ((N - 1) * L)) (gpt_header_bytes (gpt_backup_header c))"
proof -
  have l: "ucast (LBASizeBytes c) = (of_nat L :: u64)" by (simp add: L_def)
  have a: "partitionTableLBA (gpt_backup_header c) = of_nat (N - 1 - T)" "myLBA (gpt_backup_header c) = of_nat (N - 1)"
    using gpt_addresses [OF assms(1)] by (simp_all only: N_def T_def)
  have n: "N - 1 = (N - 1 - T) + T" using assms(1) by (simp add: N_def T_def)
  have "fb + of_nat (N - 1 - T) * of_nat L + (of_nat (N - 1) - of_nat (N - 1 - T)) * of_nat L = fb + (of_nat ((N - 1) * L) :: u64)"
    unfolding of_nat_mult by (simp add: algebra_simps)
  moreover have "fb + of_nat L + of_nat L = fb + (of_nat (2 * L) :: u64)" by (simp add: algebra_simps)
  ultimately show ?thesis
    by (simp only: writeGPTs_def Let_def l a PROTECTIVE_MBR_def GPT_HEADER_def unsigned_1 of_nat_mult mult_1_left)
qed

text \<open>
  C10. A disk written by \<^verbatim>\<open>writeGPTs\<close> carries two valid partition tables: at the block after the
  master boot record and at the last block stands a header with the right signature and checksum, each
  header names its own block and the other one, both tables are stored where the headers say, with the
  checksum the headers record, and nothing outside of the four areas changes.
\<close>

theorem writeGPTs_valid:
  fixes c :: Configuration and fb :: addr and img :: memory
  assumes "unat (LBASizeBytes c) * unat (GPTPartitionTableSizeLBA c) = 16384" "92 \<le> unat (LBASizeBytes c)"
    and "2 * unat (GPTPartitionTableSizeLBA c) + 3 \<le> unat (totalImageSizeLBA c)"
  defines "L \<equiv> unat (LBASizeBytes c)" and "N \<equiv> unat (totalImageSizeLBA c)" and "T \<equiv> unat (GPTPartitionTableSizeLBA c)"
  defines "img' \<equiv> writeGPTs c fb img"
  defines "primary \<equiv> load_bytes img' (fb + of_nat L) 92" and "backup \<equiv> load_bytes img' (fb + of_nat ((N - 1) * L)) 92"
  shows "gpt_header_ok primary \<and> gpt_header_ok backup \<and>
    header_field 24 8 primary = (1 :: u64) \<and> header_field 32 8 primary = (of_nat (N - 1) :: u64) \<and>
    header_field 24 8 backup = (of_nat (N - 1) :: u64) \<and> header_field 32 8 backup = (1 :: u64) \<and>
    load_bytes img' (fb + header_field 72 8 primary * of_nat L) 16384 = gpt_table_bytes c \<and>
    load_bytes img' (fb + header_field 72 8 backup * of_nat L) 16384 = gpt_table_bytes c \<and>
    header_field 88 4 primary = calculateCRC32 (gpt_table_bytes c) \<and>
    header_field 88 4 backup = calculateCRC32 (gpt_table_bytes c) \<and>
    (\<forall>x k. x + k \<le> L \<or> (2 + T) * L \<le> x \<and> x + k \<le> (N - 1 - T) * L \<longrightarrow>
       load_bytes img' (fb + of_nat x) k = load_bytes img (fb + of_nat x) k)"
proof -
  define B where "B = (N - 1 - T) * L"
  have T16: "T * L = 16384" and L: "92 \<le> L" using assms(1,2) by (simp_all add: L_def T_def mult.commute)
  have N: "N - 1 = (N - 1 - T) + T" "T + 2 \<le> N - 1 - T" using assms(3) by (simp_all add: N_def T_def)
  have E: "(N - 1) * L = B + 16384" using N(1) T16 by (simp add: B_def) (metis add_mult_distrib)
  have T: "(2 + T) * L = 2 * L + 16384" using T16 by (simp add: add_mult_distrib)
  have B: "2 * L + 16384 \<le> B"
    using mult_le_mono1 [OF N(2), of L] T unfolding B_def by (simp add: add.commute)
  have "N < 2 ^ 32" "L < 2 ^ 16" using unat_lt_u32 [of "totalImageSizeLBA c"] unat_lt_u16 [of "LBASizeBytes c"]
    by (simp_all add: N_def L_def)
  then have "N * L \<le> 2 ^ 32 * 2 ^ 16" by (intro mult_mono) simp_all
  moreover have "(N - 1) * L + L \<le> N * L" using N(2) mult_Suc [of "N - 1" L] by (cases N) simp_all
  ultimately have lim: "B + 16384 + L \<le> 2 ^ 48" using E by simp
  let ?p = "gpt_header_bytes (gpt_primary_header c)" and ?b = "gpt_header_bytes (gpt_backup_header c)" and ?t = "gpt_table_bytes c"
  let ?m1 = "store_bytes img (fb + of_nat L) ?p"
  let ?m2 = "store_bytes ?m1 (fb + of_nat (2 * L)) ?t"
  let ?m3 = "store_bytes ?m2 (fb + of_nat B) ?t"
  have m: "img' = store_bytes ?m3 (fb + of_nat (B + 16384)) ?b"
    unfolding img'_def writeGPTs_stores [OF assms(3)] L_def [symmetric] N_def [symmetric] T_def [symmetric] B_def [symmetric] E ..
  note d = load_store_disjoint [where b = fb]
  note st = load_store_same [of ?p] load_store_same [of ?b] load_store_same [of ?t]
  have "primary = load_bytes ?m1 (fb + of_nat L) 92"
    unfolding primary_def m by (subst d; (use L B lim in simp; fail)?)+
  then have p: "primary = ?p" using st(1) by simp
  have b: "backup = ?b" unfolding backup_def E m using st(2) by simp
  have "load_bytes img' (fb + of_nat (2 * L)) 16384 = load_bytes ?m2 (fb + of_nat (2 * L)) 16384"
    unfolding m by (subst d; (use L B lim in simp; fail)?)+
  then have t1: "load_bytes img' (fb + of_nat (2 * L)) 16384 = ?t" using st(3) by simp
  have "load_bytes img' (fb + of_nat B) 16384 = load_bytes ?m3 (fb + of_nat B) 16384"
    unfolding m by (subst d; (use L B lim in simp; fail)?)+
  then have t2: "load_bytes img' (fb + of_nat B) 16384 = ?t" using st(3) by simp
  have f: "partitionTableLBA (gpt_primary_header c) = 2" "myLBA (gpt_primary_header c) = 1" "alternateLBA (gpt_backup_header c) = 1"
      "partitionTableCRC32 (gpt_primary_header c) = calculateCRC32 ?t" "partitionTableCRC32 (gpt_backup_header c) = calculateCRC32 ?t"
    by (simp_all add: gpt_primary_header_def gpt_backup_header_def gptHeader_def PROTECTIVE_MBR_def GPT_HEADER_def Let_def)
  have rest: "load_bytes img' (fb + of_nat x) k = load_bytes img (fb + of_nat x) k"
    if "x + k \<le> L \<or> (2 + T) * L \<le> x \<and> x + k \<le> B" for x k
    unfolding m using that L B T lim by (subst d; (force; fail)?)+
  note a = gpt_addresses [OF assms(3), folded N_def T_def]
  show ?thesis
    unfolding p b gpt_header_fields f a using gpt_headers_ok t1 t2 rest by (simp add: B_def)
qed


definition sample_configuration :: Configuration where
  "sample_configuration = configuration\<lparr>totalImageSizeLBA := 100, GPTPartitionTableSizeLBA := 32,
     EFISystemPartitionStartLBA := 34, EFISystemPartitionSizeLBA := 20, dataPartitionStartLBA := 54, dataPartitionSizeLBA := 13\<rparr>"

theorem writeGPTs_valid_witness:
  "gpt_header_ok (load_bytes (writeGPTs sample_configuration 0 (\<lambda>_. 0)) 512 92) \<and>
   load_bytes (writeGPTs sample_configuration 0 (\<lambda>_. 0)) (67 * 512) 16384 = gpt_table_bytes sample_configuration"
proof -
  have c: "unat (LBASizeBytes sample_configuration) = 512" "unat (totalImageSizeLBA sample_configuration) = 100"
      "unat (GPTPartitionTableSizeLBA sample_configuration) = 32"
    by (simp_all add: sample_configuration_def configuration_def)
  note w = writeGPTs_valid [of sample_configuration 0 "\<lambda>_. 0", unfolded c]
  have "partitionTableLBA (gpt_backup_header sample_configuration) = 67"
    by (simp add: gpt_backup_header_def gpt_primary_header_def sample_configuration_def configuration_def GPT_HEADER_def Let_def)
  then have "(header_field 72 8 (gpt_header_bytes (gpt_backup_header sample_configuration)) :: u64) = 67"
    by (simp only: gpt_header_fields)
  moreover have "load_bytes (writeGPTs sample_configuration 0 (\<lambda>_. 0)) (of_nat ((100 - 1) * 512)) 92 =
      gpt_header_bytes (gpt_backup_header sample_configuration)"
    using load_store_same [of "gpt_header_bytes (gpt_backup_header sample_configuration)" _ "of_nat ((100 - 1) * 512)"]
      writeGPTs_stores [of sample_configuration 0 "\<lambda>_. 0"] by (simp add: c)
  ultimately show ?thesis using w by simp
qed

lemma le_bytes_0: "le_bytes n 0 = replicate n 0"
  by (simp add: le_bytes_def map_replicate_const)

lemma empty_partition_bytes: "mbr_partition_bytes empty_partition = replicate 16 0"
  by (simp add: mbr_partition_bytes_def empty_partition_def padded_def le_bytes_0 eval_nat_numeral)

text \<open>
  The master boot record occupies one 512-byte block, ends in the boot signature \<open>55 AA\<close>, and its
  first partition is of the protective type and spans the disk from block 1 to the last block; the rest
  of the image is untouched.
\<close>

theorem writeMBR_protective:
  fixes c :: Configuration and img :: memory and fb :: addr
  defines "b \<equiv> load_bytes (writeMBR c fb img) fb 512"
  shows "drop 510 b = [0x55, 0xAA] \<and> b ! 450 = 0xEE \<and> header_field 454 4 b = (1 :: u32) \<and>
    header_field 458 4 b = totalImageSizeLBA c - 1 \<and>
    (\<forall>x. 512 \<le> unat (x - fb) \<longrightarrow> writeMBR c fb img x = img x)"
proof -
  let ?N = "totalImageSizeLBA c"
  let ?m = "protectiveMBR\<lparr>partitions := (partitions protectiveMBR)[0 := (partitions protectiveMBR ! 0)\<lparr>mbr_sizeLBA := ?N - 1\<rparr>]\<rparr>"
  have "\<not> (ucast ?N :: u64) > 0xFFFFFFFF"
    using unat_lt_u32 [of ?N] by (simp add: word_less_nat_alt unat_ucast_up)
  moreover have "ucast (ucast ?N - 1 :: u64) = ?N - 1"
  proof (cases "?N = 0")
    case True
    have "(ucast (- 1 :: u64) :: u32) = - 1" by (rule bit_word_eqI) (simp add: bit_ucast_iff)
    then show ?thesis using True by simp
  next
    case False
    then have "1 \<le> unat ?N" using unat_gt_0 [of ?N] by linarith
    then have u: "unat (ucast ?N - 1 :: u64) = unat ?N - 1" "unat (?N - 1) = unat ?N - 1"
      by (subst unat_sub_nowrap; simp add: unat_ucast_up)+
    have "ucast (ucast ?N - 1 :: u64) = (of_nat (unat ?N - 1) :: u32)" unfolding u(1) [symmetric] of_nat_unat ..
    also have "\<dots> = ?N - 1" unfolding u(2) [symmetric] by simp
    finally show ?thesis .
  qed
  ultimately have w: "writeMBR c fb img = store_bytes img fb (mbr_bytes ?m)" by (simp add: writeMBR_def)
  have l: "length (mbr_bytes ?m) = 512" by (rule length_mbr_bytes) (simp add: protectiveMBR_def)
  have b: "b = mbr_bytes ?m" using load_store_same [of "mbr_bytes ?m" img fb] l by (simp add: b_def w)
  have m: "mbr_bytes ?m = replicate 446 0 @ [0, 0, 2, 0, 0xEE, 0xFF, 0xFF, 0xFF] @ le32 1 @ le32 (?N - 1) @ replicate 48 0 @ [0x55, 0xAA]"
  proof -
    have "le16 BOOT_SIGNATURE = [0x55, 0xAA]" by (simp add: le_bytes_def BOOT_SIGNATURE_def upt_rec)
    moreover have "padded 440 [] @ le32 0 @ le16 0 = replicate 446 0"
      by (simp add: padded_def le_bytes_0 flip: replicate_add append_assoc)
    moreover have "replicate 16 (0 :: u8) @ replicate 16 0 @ replicate 16 0 = replicate 48 0"
      by (simp flip: replicate_add append_assoc)
    ultimately show ?thesis
      by (simp add: mbr_bytes_def protectiveMBR_def empty_partition_bytes mbr_partition_bytes_def [of "MBRPartition.make _ _ _ _ _ _", unfolded MBRPartition.defs] padded_def)
  qed
  have "header_field 454 4 b = (of_le_bytes (le32 1) :: u32)" "header_field 458 4 b = (of_le_bytes (le32 (?N - 1)) :: u32)"
    unfolding b m header_field_def by simp_all
  then show ?thesis using l by (simp add: b m w store_bytes_def nth_append)
qed

theorem writeMBR_protective_witness:
  "writeMBR sample_configuration 0 (\<lambda>_. 7) 600 = 7 \<and> load_bytes (writeMBR sample_configuration 0 (\<lambda>_. 7)) 0 512 ! 450 = 0xEE"
  using writeMBR_protective [where fb = 0 and c = sample_configuration and img = "\<lambda>_. 7"] by simp

text \<open>
  \<^verbatim>\<open>setUUIDType\<close> never records a version: the cast to \<^verbatim>\<open>U8\<close> removes all bits of the shifted
  version, so the four version bits are zero whatever version is asked for. The variant bits are right.
\<close>

theorem setUUIDType_drops_version:
  "drop_bit 12 (timeHiAndVer (setUUIDType u version variant)) = 0 \<and>
   clockSeqHiAndRes (setUUIDType u version variant) AND
     (case variant of UUID_VARIANT_0 \<Rightarrow> 0x80 | UUID_VARIANT_1 \<Rightarrow> 0xC0 | _ \<Rightarrow> 0xE0) =
     (case variant of UUID_VARIANT_0 \<Rightarrow> 0 | UUID_VARIANT_1 \<Rightarrow> 0x80 | UUID_VARIANT_2 \<Rightarrow> 0xC0 | UUID_VARIANT_3 \<Rightarrow> 0xE0)"
proof -
  have "(ucast (push_bit 12 (ucast version :: u32)) :: u8) = 0"
    by (rule bit_word_eqI) (simp add: bit_ucast_iff bit_push_bit_iff)
  moreover have "drop_bit 12 (t AND 0x0FFF) = (0 :: u16)" for t :: u16
  proof -
    have "(0x0FFF :: u16) = mask 12" by (simp add: mask_eq_exp_minus_1)
    then show ?thesis by (simp only:) (rule bit_word_eqI, simp add: bit_drop_bit_eq bit_and_iff bit_mask_iff)
  qed
  moreover have "(x AND 0b01111111) AND 0x80 = 0" "(0x80 OR (x AND 0b00111111)) AND 0xC0 = 0x80"
      "(0xC0 OR (x AND 0b00011111)) AND 0xE0 = 0xC0" "(0xE0 OR (x AND 0b00011111)) AND 0xE0 = 0xE0" for x :: u8
    by (simp_all add: bit.conj_disj_distrib2 and.assoc)
  ultimately show ?thesis by (cases variant) (simp_all add: setUUIDType_def Let_def)
qed

end
