(* ===== verification/Fat32.thy ===== *)
theory Fat32
  imports Disk
begin

text \<open>
  The EFI system partition, \<^verbatim>\<open>image-builder/partitions/efi.c\<close>: a minimal FAT32 file system written
  into the mapped image. The static variables of the file are the record \<open>FatState\<close>; \<^verbatim>\<open>PRIMARY_FAT\<close>
  and \<^verbatim>\<open>DATA_CLUSTERS\<close> are addresses in the image. A failed \<^verbatim>\<open>ASSERT\<close> and
  \<^verbatim>\<open>__builtin_unreachable\<close> are \<open>None\<close>. The file that is copied in is read through the POSIX call
  \<^verbatim>\<open>read\<close>, which is a parameter.
\<close>

section \<open>Constants and structures\<close>

definition MIN_CLUSTERS_OF_FAT32 :: u32 where "MIN_CLUSTERS_OF_FAT32 = 65525 + 1"
definition PATH_DELIMITER :: u8 where "PATH_DELIMITER = 47"
definition DEFAULT_RESERVED_SECTORS :: u16 where "DEFAULT_RESERVED_SECTORS = 32"
definition INT_0X13_HARD_DISK_DRIVE_NUMBER :: u8 where "INT_0X13_HARD_DISK_DRIVE_NUMBER = 0x80"
definition EXTENDED_BOOT_SIGNATURE :: u8 where "EXTENDED_BOOT_SIGNATURE = 0x29"

text \<open>A \<^verbatim>\<open>Cluster\<close> is a 32-bit index that can be read as two halves.\<close>

type_synonym Cluster = u32

definition cluster_low :: "Cluster \<Rightarrow> u16" where "cluster_low c = ucast c"
definition cluster_high :: "Cluster \<Rightarrow> u16" where "cluster_high c = ucast (drop_bit 16 c)"
definition cluster_of :: "u16 \<Rightarrow> u16 \<Rightarrow> Cluster" where
  "cluster_of low high = ucast low OR push_bit 16 (ucast high)"

definition END_OF_CHAIN_MARKER :: u32 where "END_OF_CHAIN_MARKER = 0xFFFFFFFF"
definition RESERVED_CLUSTER_INDICES :: u32 where "RESERVED_CLUSTER_INDICES = 2"
definition ROOT_CLUSTER_FAT_INDEX :: Cluster where "ROOT_CLUSTER_FAT_INDEX = 2"
definition FAT32_SHORT_NAME_LEN :: nat where "FAT32_SHORT_NAME_LEN = 11"
definition ZERO_NAME :: bytes where "ZERO_NAME = replicate FAT32_SHORT_NAME_LEN 0"
definition REMOVABLE_MEDIA :: u8 where "REMOVABLE_MEDIA = 0xF0"
definition FIXED_MEDIA :: u8 where "FIXED_MEDIA = 0xF8"
definition ATTR_DIRECTORY :: u8 where "ATTR_DIRECTORY = 0x10"
definition FAT32_FILE_ATTRIBUTES :: u8 where "FAT32_FILE_ATTRIBUTES = 0"
definition FAT32_DIRECTORY_ATTRIBUTES :: u8 where "FAT32_DIRECTORY_ATTRIBUTES = ATTR_DIRECTORY"
definition DOT :: bytes where "DOT = ascii ''.          ''"
definition DOTDOT :: bytes where "DOTDOT = ascii ''..         ''"
definition DATA_FILE :: u32 where "DATA_FILE = 1"
definition DISK_FILE :: u32 where "DISK_FILE = 1"

record BIOSParameterBlock =
  jmpBoot :: bytes
  OEMName :: bytes
  bytesPerSector :: u16
  sectorsPerCluster :: u8
  reservedSectors :: u16
  FATs :: u8
  rootEntries :: u16
  totalSectors16Bit :: u16
  media :: u8
  FATSize16 :: u16
  sectorsPerTrack :: u16
  numberOfHeads :: u16
  hiddenSectors :: u32
  totalSectors32Bit :: u32
  FATSize32Sectors :: u32
  extendedFlags :: u16
  bpb_version :: u16
  rootClusterNumber :: u32
  FSInfoSector :: u16
  backupBootSector :: u16
  bpb_reserved :: bytes
  driverNumber :: u8
  bpb_reserved1 :: u8
  bootSignature :: u8
  volumeSerialNumber :: bytes
  volumeLabel :: bytes
  fileSystemType :: bytes
  bpb_reserved2 :: bytes
  bpb_signature :: u16

definition bpb_bytes :: "BIOSParameterBlock \<Rightarrow> bytes" where
  "bpb_bytes b =
     padded 3 (jmpBoot b) @ padded 8 (OEMName b) @ le16 (bytesPerSector b) @ [sectorsPerCluster b] @
     le16 (reservedSectors b) @ [FATs b] @ le16 (rootEntries b) @ le16 (totalSectors16Bit b) @ [media b] @
     le16 (FATSize16 b) @ le16 (sectorsPerTrack b) @ le16 (numberOfHeads b) @ le32 (hiddenSectors b) @
     le32 (totalSectors32Bit b) @ le32 (FATSize32Sectors b) @ le16 (extendedFlags b) @ le16 (bpb_version b) @
     le32 (rootClusterNumber b) @ le16 (FSInfoSector b) @ le16 (backupBootSector b) @ padded 12 (bpb_reserved b) @
     [driverNumber b, bpb_reserved1 b, bootSignature b] @ padded 4 (volumeSerialNumber b) @ padded 11 (volumeLabel b) @
     padded 8 (fileSystemType b) @ padded 420 (bpb_reserved2 b) @ le16 (bpb_signature b)"

record FileSystemInformation =
  leadSignature :: u32
  fsi_reserved :: bytes
  structureSignature :: u32
  freeCount :: u32
  nextFree :: u32
  fsi_reserved1 :: bytes
  trailSignature :: u32

definition fsinfo_bytes :: "FileSystemInformation \<Rightarrow> bytes" where
  "fsinfo_bytes f = le32 (leadSignature f) @ padded 480 (fsi_reserved f) @ le32 (structureSignature f) @
     le32 (freeCount f) @ le32 (nextFree f) @ padded 12 (fsi_reserved1 f) @ le32 (trailSignature f)"

record DirEntryShortName =
  dir_name :: bytes
  dir_attributes :: u8
  dir_reserved :: u8
  CrtTimeTenth :: u8
  CrtTime :: u16
  CrtDate :: u16
  lastAccessDate :: u16
  highClusterNumber :: u16
  writeTime :: u16
  writeDate :: u16
  lowClusterNumber :: u16
  fileSize :: u32

definition dir_entry_bytes :: "DirEntryShortName \<Rightarrow> bytes" where
  "dir_entry_bytes d = padded 11 (dir_name d) @ [dir_attributes d, dir_reserved d, CrtTimeTenth d] @ le16 (CrtTime d) @
     le16 (CrtDate d) @ le16 (lastAccessDate d) @ le16 (highClusterNumber d) @ le16 (writeTime d) @ le16 (writeDate d) @
     le16 (lowClusterNumber d) @ le32 (fileSize d)"

definition SIZEOF_DIR_ENTRY :: nat where "SIZEOF_DIR_ENTRY = 32"

definition initial_parameterBlock :: BIOSParameterBlock where
  "initial_parameterBlock =
    \<lparr>jmpBoot = [0xEB, 0x00, 0x90], OEMName = ascii ''THISDISK'', bytesPerSector = 0, sectorsPerCluster = 1,
     reservedSectors = DEFAULT_RESERVED_SECTORS, FATs = 2, rootEntries = 0, totalSectors16Bit = 0, media = FIXED_MEDIA,
     FATSize16 = 0, sectorsPerTrack = 0, numberOfHeads = 0, hiddenSectors = 0, totalSectors32Bit = 0,
     FATSize32Sectors = 0, extendedFlags = 0, bpb_version = 0, rootClusterNumber = 2, FSInfoSector = 1,
     backupBootSector = 6, bpb_reserved = [], driverNumber = INT_0X13_HARD_DISK_DRIVE_NUMBER, bpb_reserved1 = 0,
     bootSignature = EXTENDED_BOOT_SIGNATURE, volumeSerialNumber = [], volumeLabel = ascii ''NO NAME    '',
     fileSystemType = ascii ''FAT32   '', bpb_reserved2 = [], bpb_signature = BOOT_SIGNATURE\<rparr>"

definition initial_FSInfo :: FileSystemInformation where
  "initial_FSInfo = \<lparr>leadSignature = 0x41615252, fsi_reserved = [], structureSignature = 0x61417272, freeCount = 0,
     nextFree = 0, fsi_reserved1 = [], trailSignature = 0xAA550000\<rparr>"

record FatState =
  img :: memory
  parameterBlock :: BIOSParameterBlock
  FSInfo :: FileSystemInformation
  DATA_CLUSTERS :: addr
  PRIMARY_FAT :: addr
  DATA_CLUSTERS_COUNT :: u32
  FAT_SIZE_BYTES :: u32
  CURRENT_FREE_DATA_CLUSTER_INDEX :: Cluster

definition initial_fat_state :: "memory \<Rightarrow> FatState" where
  "initial_fat_state m = \<lparr>img = m, parameterBlock = initial_parameterBlock, FSInfo = initial_FSInfo, DATA_CLUSTERS = 0,
     PRIMARY_FAT = 0, DATA_CLUSTERS_COUNT = 0, FAT_SIZE_BYTES = 0, CURRENT_FREE_DATA_CLUSTER_INDEX = 0\<rparr>"

section \<open>Sizes\<close>

definition calculateEFIPartitionSize :: "Configuration \<Rightarrow> u32 \<Rightarrow> FatState \<Rightarrow> u32 \<times> FatState" where
  "calculateEFIPartitionSize c EFIApplicationSizeLBA s =
     (let b = (parameterBlock s)\<lparr>bytesPerSector := LBASizeBytes c\<rparr>;
          needed = ucast (sectorsPerCluster b) * (EFIApplicationSizeLBA + DATA_FILE + DISK_FILE);
          requiredDataClusters = (if MIN_CLUSTERS_OF_FAT32 > needed then MIN_CLUSTERS_OF_FAT32 else needed);
          clusters = ALIGN_UP_VALUE requiredDataClusters (alignmentLBA c);
          requiredFATSizeSectors = CEILING_DIV_VALUE clusters (ucast (LBASizeBytes c) div 4);
          reservedAndFATSizeSectors =
            ALIGN_UP_VALUE (ucast (reservedSectors b) + requiredFATSizeSectors * ucast (FATs b)) (alignmentLBA c);
          b = b\<lparr>FATSize32Sectors := (reservedAndFATSizeSectors - ucast (reservedSectors b)) div ucast (FATs b)\<rparr>;
          fatBytes = FATSize32Sectors b * ucast (bytesPerSector b);
          b = b\<lparr>totalSectors32Bit := reservedAndFATSizeSectors + clusters\<rparr> in
      (totalSectors32Bit b,
       s\<lparr>parameterBlock := b, DATA_CLUSTERS_COUNT := clusters, FAT_SIZE_BYTES := fatBytes\<rparr>))"

section \<open>Directory entries\<close>

definition setName :: "DirEntryShortName \<Rightarrow> bytes \<Rightarrow> DirEntryShortName" where
  "setName dir name = dir\<lparr>dir_name := take FAT32_SHORT_NAME_LEN name\<rparr>"

definition compareFAT32ShortName :: "bytes \<Rightarrow> bytes \<Rightarrow> bool" where
  "compareFAT32ShortName name1 name2 \<longleftrightarrow> take FAT32_SHORT_NAME_LEN name1 = take FAT32_SHORT_NAME_LEN name2"

definition getDataCluster :: "FatState \<Rightarrow> Cluster \<Rightarrow> addr" where
  "getDataCluster s clusterIndex =
     DATA_CLUSTERS s + ucast (ucast (bytesPerSector (parameterBlock s)) * (clusterIndex - RESERVED_CLUSTER_INDICES))"

definition blank_dir_entry :: "u8 \<Rightarrow> DirEntryShortName" where
  "blank_dir_entry attributes = \<lparr>dir_name = [], dir_attributes = attributes, dir_reserved = 0, CrtTimeTenth = 0, CrtTime = 0,
     CrtDate = 0, lastAccessDate = 0, highClusterNumber = 0, writeTime = 0, writeDate = 0, lowClusterNumber = 0, fileSize = 0\<rparr>"

definition writeDirectoryEntry :: "addr \<Rightarrow> Cluster \<Rightarrow> bytes \<Rightarrow> FatState \<Rightarrow> FatState" where
  "writeDirectoryEntry clusterBuffer cluster name s =
     (let dir = (blank_dir_entry FAT32_DIRECTORY_ATTRIBUTES)
            \<lparr>highClusterNumber := cluster_high cluster, lowClusterNumber := cluster_low cluster\<rparr>;
          dir = setName dir name in
      s\<lparr>img := store_bytes (img s) clusterBuffer (dir_entry_bytes dir)\<rparr>)"

definition writeDOTEntries :: "addr \<Rightarrow> Cluster \<Rightarrow> Cluster \<Rightarrow> FatState \<Rightarrow> FatState" where
  "writeDOTEntries clusterBuffer currentCluster parentCluster s =
     writeDirectoryEntry (clusterBuffer + of_nat SIZEOF_DIR_ENTRY) parentCluster DOTDOT
       (writeDirectoryEntry clusterBuffer currentCluster DOT s)"

section \<open>Cluster chains\<close>

definition read_fat :: "FatState \<Rightarrow> u32 \<Rightarrow> u32" where
  "read_fat s i = of_le_bytes (load_bytes (img s) (PRIMARY_FAT s + 4 * ucast i) 4)"

definition write_fat :: "u32 \<Rightarrow> u32 \<Rightarrow> FatState \<Rightarrow> FatState" where
  "write_fat i v s = s\<lparr>img := store_bytes (img s) (PRIMARY_FAT s + 4 * ucast i) (le32 v)\<rparr>"

text \<open>The loop that links the clusters \<open>i\<close> to \<open>exclusiveLastCluster - 1\<close>.\<close>

function link_clusters :: "u32 \<Rightarrow> u32 \<Rightarrow> FatState \<Rightarrow> FatState" where
  "link_clusters i exclusiveLastCluster s =
     (if i < exclusiveLastCluster
      then link_clusters (i + 1) exclusiveLastCluster
             (write_fat i (if i = exclusiveLastCluster - 1 then END_OF_CHAIN_MARKER else i + 1) s)
      else s)"
  by pat_completeness auto

termination
proof (relation "measure (\<lambda>(i, e, s). unat e - unat i)", goal_cases)
  case (2 i e s)
  then have "unat i < unat e" "unat (i + 1) = unat i + 1"
    using unat_lt_u32 [of e] by (simp_all add: word_less_nat_alt unat_add_nowrap)
  then show ?case by simp
qed simp

declare link_clusters.simps [simp del]

definition createContiguousSpaceForNewEntry :: "u64 \<Rightarrow> FatState \<Rightarrow> (Cluster \<times> FatState) option" where
  "createContiguousSpaceForNewEntry bytes s =
     (let requiredNewClusters = ucast (CEILING_DIV_VALUE bytes (ucast (bytesPerSector (parameterBlock s)))) :: u32;
          result = CURRENT_FREE_DATA_CLUSTER_INDEX s;
          exclusiveLastCluster = result + requiredNewClusters in
      if bytes > 0 \<and> requiredNewClusters < DATA_CLUSTERS_COUNT s - CURRENT_FREE_DATA_CLUSTER_INDEX s
      then Some (result, (link_clusters result exclusiveLastCluster s)\<lparr>CURRENT_FREE_DATA_CLUSTER_INDEX := exclusiveLastCluster\<rparr>)
      else None)"

section \<open>Directories and files\<close>

text \<open>The loops over the entries of a directory cluster; \<open>k\<close> entries are left.\<close>

fun find_or_create :: "nat \<Rightarrow> addr \<Rightarrow> bytes \<Rightarrow> Cluster \<Rightarrow> FatState \<Rightarrow> (Cluster \<times> FatState) option" where
  "find_or_create 0 entry name parentCluster s = None"
| "find_or_create (Suc k) entry name parentCluster s =
     (let e = load_bytes (img s) entry SIZEOF_DIR_ENTRY in
      if compareFAT32ShortName e name
      then Some (cluster_of (of_le_bytes (take 2 (drop 26 e))) (of_le_bytes (take 2 (drop 20 e))), s)
      else if compareFAT32ShortName e ZERO_NAME
      then (case createContiguousSpaceForNewEntry (of_nat SIZEOF_DIR_ENTRY) s of
              None \<Rightarrow> None
            | Some (createdCluster, s') \<Rightarrow>
                (let s'' = writeDirectoryEntry entry createdCluster name s' in
                 Some (createdCluster, writeDOTEntries (getDataCluster s'' createdCluster) createdCluster parentCluster s'')))
      else find_or_create k (entry + of_nat SIZEOF_DIR_ENTRY) name parentCluster s)"

definition entries_per_cluster :: "FatState \<Rightarrow> nat" where
  "entries_per_cluster s = (unat (bytesPerSector (parameterBlock s)) + 31) div SIZEOF_DIR_ENTRY"

definition createOrGetDirectory :: "bytes \<Rightarrow> Cluster \<Rightarrow> FatState \<Rightarrow> (Cluster \<times> FatState) option" where
  "createOrGetDirectory name parentCluster s =
     find_or_create (entries_per_cluster s) (getDataCluster s parentCluster) name parentCluster s"

fun find_free_entry :: "nat \<Rightarrow> addr \<Rightarrow> FatState \<Rightarrow> addr option" where
  "find_free_entry 0 entry s = None"
| "find_free_entry (Suc k) entry s =
     (if compareFAT32ShortName (load_bytes (img s) entry SIZEOF_DIR_ENTRY) ZERO_NAME then Some entry
      else find_free_entry k (entry + of_nat SIZEOF_DIR_ENTRY) s)"

definition getNewFileEntryLocation :: "Cluster \<Rightarrow> FatState \<Rightarrow> addr option" where
  "getNewFileEntryLocation parentCluster s = find_free_entry (entries_per_cluster s) (getDataCluster s parentCluster) s"

definition writeFileEntry :: "addr \<Rightarrow> bytes \<Rightarrow> u32 \<Rightarrow> FatState \<Rightarrow> FatState" where
  "writeFileEntry clusterBuffer name sz s =
     (let file = (blank_dir_entry FAT32_FILE_ATTRIBUTES)
            \<lparr>highClusterNumber := cluster_high (CURRENT_FREE_DATA_CLUSTER_INDEX s),
             lowClusterNumber := cluster_low (CURRENT_FREE_DATA_CLUSTER_INDEX s)\<rparr>;
          file = (setName file name)\<lparr>fileSize := sz\<rparr> in
      s\<lparr>img := store_bytes (img s) clusterBuffer (dir_entry_bytes file)\<rparr>)"

definition createFileEntryAfterWritingData :: "bytes \<Rightarrow> Cluster \<Rightarrow> u32 \<Rightarrow> FatState \<Rightarrow> FatState option" where
  "createFileEntryAfterWritingData name parentCluster sz s =
     (case getNewFileEntryLocation parentCluster s of
        None \<Rightarrow> None
      | Some location \<Rightarrow> map_option snd (createContiguousSpaceForNewEntry (ucast sz) (writeFileEntry location name sz s)))"

fun create_directories :: "bytes list \<Rightarrow> Cluster \<Rightarrow> FatState \<Rightarrow> (Cluster \<times> FatState) option" where
  "create_directories [] startCluster s = Some (startCluster, s)"
| "create_directories (d # ds) startCluster s =
     (case createOrGetDirectory d startCluster s of
        None \<Rightarrow> None
      | Some (c, s') \<Rightarrow> create_directories ds c s')"

definition createPath :: "bytes \<Rightarrow> Cluster \<Rightarrow> FatState \<Rightarrow> (Cluster \<times> FatState) option" where
  "createPath FAT32FilePath startCluster s =
     create_directories (TOKENIZE_STRING FAT32FilePath PATH_DELIMITER 0) startCluster s"


section \<open>Writing the partition\<close>

datatype FatError = ReadFailed | FatAssertFailed | FatOutOfFuel

text \<open>
  \<^verbatim>\<open>read(fd, buffer, count)\<close>: the new state of the file and the bytes delivered, or \<open>None\<close> for a
  negative result. The loop repeats until the whole size has arrived.
\<close>

type_synonym 'f posix_read = "'f \<Rightarrow> u64 \<Rightarrow> 'f \<times> bytes option"

fun read_into :: "nat \<Rightarrow> 'f posix_read \<Rightarrow> 'f \<Rightarrow> addr \<Rightarrow> addr \<Rightarrow> memory \<Rightarrow> FatError + ('f \<times> addr \<times> memory)" where
  "read_into 0 rd fd buffer exclusiveEnd m = (if buffer < exclusiveEnd then Inl FatOutOfFuel else Inr (fd, buffer, m))"
| "read_into (Suc fuel) rd fd buffer exclusiveEnd m =
     (if buffer < exclusiveEnd
      then (case rd fd (exclusiveEnd - buffer) of
              (_, None) \<Rightarrow> Inl ReadFailed
            | (fd', Some partial) \<Rightarrow>
                read_into fuel rd fd' (buffer + of_nat (length partial)) exclusiveEnd (store_bytes m buffer partial))
      else Inr (fd, buffer, m))"

definition appendToBuffer :: "addr \<Rightarrow> bytes \<Rightarrow> memory \<Rightarrow> u64 \<times> memory" where
  "appendToBuffer buffer data m = (of_nat (length data), store_bytes m buffer data)"

fun KLOG_APPENDs :: "addr \<Rightarrow> Convertible list \<Rightarrow> memory \<Rightarrow> (addr \<times> memory) option" where
  "KLOG_APPENDs buffer [] m = Some (buffer, m)"
| "KLOG_APPENDs buffer (d # ds) m =
     (case CONVERT_TO_STRING d of
        None \<Rightarrow> None
      | Some text \<Rightarrow> (let (n, m') = appendToBuffer buffer text m in KLOG_APPENDs (buffer + n) ds m'))"

definition create_text_file :: "bytes \<Rightarrow> Cluster \<Rightarrow> Convertible list \<Rightarrow> FatState \<Rightarrow> FatState option" where
  "create_text_file fileName parentCluster content s =
     (let start = getDataCluster s (CURRENT_FREE_DATA_CLUSTER_INDEX s) in
      case KLOG_APPENDs start content (img s) of
        None \<Rightarrow> None
      | Some (buffer, m) \<Rightarrow> createFileEntryAfterWritingData fileName parentCluster (ucast (buffer - start)) (s\<lparr>img := m\<rparr>))"

definition kernel_inf :: "Configuration \<Rightarrow> u64 \<Rightarrow> Convertible list" where
  "kernel_inf c kernelSizeBytes =
     [CString (ascii ''KERNEL_SIZE_BYTES=''), CU64 kernelSizeBytes, CString [10],
      CString (ascii ''KERNEL_START_LBA=''), CU32 (dataPartitionStartLBA c), CString [10]]"

definition diskdata_inf :: "Configuration \<Rightarrow> Convertible list" where
  "diskdata_inf c =
     [CString (ascii ''DISK_SIZE_BYTES=''), CU64 (totalImageSizeBytes c), CString [10],
      CString (ascii ''DISK_SIZE_LBA=''), CU32 (totalImageSizeLBA c), CString [10]]"

text \<open>
  The mirror loop; \<^verbatim>\<open>mirrorLocation\<close> is a \<^verbatim>\<open>U32 *\<close>, so adding \<^verbatim>\<open>FAT_SIZE_BYTES\<close> moves it by four
  times as many bytes.
\<close>

fun write_mirrors :: "nat \<Rightarrow> addr \<Rightarrow> FatState \<Rightarrow> FatState" where
  "write_mirrors 0 mirrorLocation s = s"
| "write_mirrors (Suc k) mirrorLocation s =
     write_mirrors k (mirrorLocation + 4 * ucast (FAT_SIZE_BYTES s))
       (s\<lparr>img := store_bytes (img s) mirrorLocation (load_bytes (img s) (PRIMARY_FAT s) (unat (FAT_SIZE_BYTES s)))\<rparr>)"

definition write_reserved_sectors :: "addr \<Rightarrow> FatState \<Rightarrow> FatState" where
  "write_reserved_sectors reserved s =
     (let bps = ucast (bytesPerSector (parameterBlock s)) :: u64;
          b = bpb_bytes (parameterBlock s);
          i = fsinfo_bytes (FSInfo s);
          m = store_bytes (img s) reserved b;
          reserved = reserved + bps;
          m = store_bytes m reserved i;
          reserved = reserved + bps * 5;
          m = store_bytes m reserved b;
          reserved = reserved + bps;
          m = store_bytes m reserved i in
      s\<lparr>img := m\<rparr>)"

text \<open>The reserved and root entries of the table, and where the tables and the data begin.\<close>

definition init_fat :: "Configuration \<Rightarrow> addr \<Rightarrow> FatState \<Rightarrow> FatState" where
  "init_fat c reserved s =
     (let b = (parameterBlock s)\<lparr>hiddenSectors := EFISystemPartitionStartLBA c\<rparr>;
          s = s\<lparr>parameterBlock := b, PRIMARY_FAT := reserved + ucast (bytesPerSector b) * ucast (reservedSectors b)\<rparr>;
          i = CURRENT_FREE_DATA_CLUSTER_INDEX s;
          s = write_fat i (0xFFFFFF00 OR ucast (media b)) s;
          s = write_fat (i + 1) END_OF_CHAIN_MARKER s;
          s = write_fat (i + 2) END_OF_CHAIN_MARKER s in
      s\<lparr>CURRENT_FREE_DATA_CLUSTER_INDEX := i + 3,
        DATA_CLUSTERS := PRIMARY_FAT s + ucast (FAT_SIZE_BYTES s * ucast (FATs b))\<rparr>)"

definition create_directories_of_image :: "FatState \<Rightarrow> (Cluster \<times> Cluster \<times> FatState) option" where
  "create_directories_of_image s =
     (case createPath (ascii ''EFI        '') ROOT_CLUSTER_FAT_INDEX s of None \<Rightarrow> None | Some (efiCluster, s) \<Rightarrow>
      (case createPath (ascii ''BOOT       '') efiCluster s of None \<Rightarrow> None | Some (efiBootCluster, s) \<Rightarrow>
       (case createPath (ascii ''FLOS       '') efiCluster s of None \<Rightarrow> None | Some (efiFLOSCluster, s) \<Rightarrow>
        Some (efiBootCluster, efiFLOSCluster, s))))"

definition create_info_files :: "Configuration \<Rightarrow> u64 \<Rightarrow> Cluster \<Rightarrow> FatState \<Rightarrow> FatState option" where
  "create_info_files c kernelSizeBytes efiFLOSCluster s =
     (case create_text_file (ascii ''KERNEL  INF'') efiFLOSCluster (kernel_inf c kernelSizeBytes) s of None \<Rightarrow> None
      | Some s \<Rightarrow> create_text_file (ascii ''DISKDATAINF'') efiFLOSCluster (diskdata_inf c) s)"

definition finish_partition :: "addr \<Rightarrow> FatState \<Rightarrow> FatState" where
  "finish_partition reserved s =
     (let s = write_mirrors (unat (FATs (parameterBlock s)) - 1) (PRIMARY_FAT s + 4 * ucast (FAT_SIZE_BYTES s)) s;
          i = (FSInfo s)\<lparr>freeCount := DATA_CLUSTERS_COUNT s - CURRENT_FREE_DATA_CLUSTER_INDEX s,
                         nextFree := CURRENT_FREE_DATA_CLUSTER_INDEX s\<rparr> in
      write_reserved_sectors reserved (s\<lparr>FSInfo := i\<rparr>))"

definition writeEFISystemPartition ::
    "nat \<Rightarrow> 'f posix_read \<Rightarrow> Configuration \<Rightarrow> addr \<Rightarrow> 'f \<Rightarrow> u64 \<Rightarrow> u64 \<Rightarrow> FatState \<Rightarrow> FatError + FatState" where
  "writeEFISystemPartition fuel rd c fileBuffer efifd efiSizeBytes kernelSizeBytes s =
     (let reserved = fileBuffer + ucast (EFISystemPartitionStartLBA c * ucast (LBASizeBytes c)) in
      case create_directories_of_image (init_fat c reserved s) of
        None \<Rightarrow> Inl FatAssertFailed
      | Some (efiBootCluster, efiFLOSCluster, s) \<Rightarrow>
          (let start = getDataCluster s (CURRENT_FREE_DATA_CLUSTER_INDEX s) in
           case read_into fuel rd efifd start (start + efiSizeBytes) (img s) of
             Inl e \<Rightarrow> Inl e
           | Inr (_, buffer, m) \<Rightarrow>
               (case createFileEntryAfterWritingData (ascii ''BOOTX64 EFI'') efiBootCluster (ucast (buffer - start)) (s\<lparr>img := m\<rparr>) of
                  None \<Rightarrow> Inl FatAssertFailed
                | Some s \<Rightarrow>
                    (case create_info_files c kernelSizeBytes efiFLOSCluster s of
                       None \<Rightarrow> Inl FatAssertFailed
                     | Some s \<Rightarrow> Inr (finish_partition reserved s)))))"

section \<open>The allocation table\<close>

lemma fat_offset: "4 * ucast (i :: u32) = (of_nat (4 * unat i) :: u64)"
  by (simp add: unat_ucast_up)

lemma read_write_fat: "read_fat (write_fat i v s) j = (if i = j then v else read_fat s j)"
proof (cases "i = j")
  case True
  then show ?thesis using load_store_same [of "le32 v" "img s" "PRIMARY_FAT s + 4 * ucast j"]
    by (simp add: read_fat_def write_fat_def)
next
  case False
  then have "unat i \<noteq> unat j" by (simp add: word_unat_eq_iff)
  then have "load_bytes (store_bytes (img s) (PRIMARY_FAT s + of_nat (4 * unat i)) (le32 v)) (PRIMARY_FAT s + of_nat (4 * unat j)) 4 =
      load_bytes (img s) (PRIMARY_FAT s + of_nat (4 * unat j)) 4"
    using unat_lt_u32 [of i] unat_lt_u32 [of j] by (intro load_store_disjoint) auto
  then show ?thesis using False unfolding read_fat_def write_fat_def fat_offset by simp
qed

lemma write_fat_fields [simp]:
  "parameterBlock (write_fat i v s) = parameterBlock s" "PRIMARY_FAT (write_fat i v s) = PRIMARY_FAT s"
  "DATA_CLUSTERS (write_fat i v s) = DATA_CLUSTERS s" "DATA_CLUSTERS_COUNT (write_fat i v s) = DATA_CLUSTERS_COUNT s"
  "FAT_SIZE_BYTES (write_fat i v s) = FAT_SIZE_BYTES s"
  "CURRENT_FREE_DATA_CLUSTER_INDEX (write_fat i v s) = CURRENT_FREE_DATA_CLUSTER_INDEX s"
  by (simp_all add: write_fat_def)

lemma link_clusters_fields [simp]:
  "parameterBlock (link_clusters i e s) = parameterBlock s" "PRIMARY_FAT (link_clusters i e s) = PRIMARY_FAT s"
  "DATA_CLUSTERS (link_clusters i e s) = DATA_CLUSTERS s" "DATA_CLUSTERS_COUNT (link_clusters i e s) = DATA_CLUSTERS_COUNT s"
  "FAT_SIZE_BYTES (link_clusters i e s) = FAT_SIZE_BYTES s"
  by (induction i e s rule: link_clusters.induct; subst link_clusters.simps; simp)+

lemma word_less_Suc: "i < (e :: u32) \<Longrightarrow> unat (i + 1) = unat i + 1"
  using unat_lt_u32 [of e] by (simp add: word_less_nat_alt unat_add_nowrap)

lemma read_link_clusters:
  "read_fat (link_clusters i e s) j =
     (if i \<le> j \<and> j < e then (if j = e - 1 then END_OF_CHAIN_MARKER else j + 1) else read_fat s j)"
proof (induction i e s rule: link_clusters.induct)
  case (1 i e s)
  show ?case
  proof (cases "i < e")
    case True
    have "i + 1 \<le> j \<longleftrightarrow> i \<le> j \<and> i \<noteq> j" using word_less_Suc [OF True]
      by (auto simp: word_le_nat_alt word_unat_eq_iff)
    moreover have "i \<le> j \<and> j < e \<longleftrightarrow> j = i \<or> (i + 1 \<le> j \<and> j < e)" using True calculation by auto
    ultimately show ?thesis using 1 [OF True] True
      by (subst link_clusters.simps) (auto simp: read_write_fat)
  next
    case False
    then show ?thesis by (subst link_clusters.simps) auto
  qed
qed

text \<open>The clusters reached from \<open>c\<close>, at most \<open>k\<close> of them, up to the end-of-chain marker.\<close>

fun chain :: "nat \<Rightarrow> (u32 \<Rightarrow> u32) \<Rightarrow> u32 \<Rightarrow> u32 list option" where
  "chain 0 f c = None"
| "chain (Suc k) f c = (if f c = END_OF_CHAIN_MARKER then Some [c] else map_option ((#) c) (chain k f (f c)))"

lemma chain_consecutive:
  assumes "\<And>j. c \<le> j \<Longrightarrow> j < c + of_nat (Suc n) \<Longrightarrow> f j = (if j = c + of_nat n then END_OF_CHAIN_MARKER else j + 1)"
    and "unat c + Suc n < 2 ^ 32"
  shows "chain (Suc n) f c = Some (map (\<lambda>i. c + of_nat i) [0..<Suc n])"
  using assms
proof (induction n arbitrary: c)
  case 0
  then show ?case by (simp add: word_less_nat_alt unat_add_nowrap)
next
  case (Suc n)
  have u: "unat (c + of_nat k) = unat c + k" if "k \<le> Suc (Suc n)" for k
    using that Suc.prems(2) by (subst unat_add_nowrap) (simp_all add: unat_of_nat_lt)
  have c1: "unat (c + 1) = unat c + 1" using u [of 1] by simp
  have fc: "f c = c + 1"
  proof -
    have "c < c + of_nat (Suc (Suc n))" using u [of "Suc (Suc n)"] by (simp add: word_less_nat_alt del: of_nat_Suc)
    moreover have "c \<noteq> c + of_nat (Suc n)" using u [of "Suc n"] by (metis add_cancel_right_right nat.distinct(1) order_refl le_SucI)
    ultimately show ?thesis using Suc.prems(1) [of c] by simp
  qed
  have e: "c + of_nat (Suc m) = (c + 1) + of_nat m" for m by simp
  have "chain (Suc n) f (c + 1) = Some (map (\<lambda>i. c + 1 + of_nat i) [0..<Suc n])"
  proof (rule Suc.IH)
    fix j assume "c + 1 \<le> j" "j < c + 1 + of_nat (Suc n)"
    then have "c \<le> j" "j < c + of_nat (Suc (Suc n))" using c1 by (simp_all only: word_le_nat_alt e)
    then show "f j = (if j = c + 1 + of_nat n then END_OF_CHAIN_MARKER else j + 1)"
      using Suc.prems(1) [of j] by (simp only: e)
  qed (use Suc.prems(2) c1 in simp)
  moreover have "c + 1 \<noteq> END_OF_CHAIN_MARKER"
    using c1 Suc.prems(2) by (auto simp: END_OF_CHAIN_MARKER_def)
  moreover have "map (\<lambda>i. c + of_nat i) [0..<Suc (Suc n)] = c # map (\<lambda>i. c + 1 + of_nat i) [0..<Suc n]"
    unfolding upt_conv_Cons [of 0 "Suc (Suc n)", OF zero_less_Suc] map_Suc_upt [symmetric] by (simp add: comp_def del: upt_Suc)
  ultimately show ?case using fc by (simp only: chain.simps(2) [of "Suc n"]) simp
qed


lemma ceiling_div_bounds:
  fixes d :: nat
  assumes "0 < d"
  shows "x \<le> (x + (d - 1)) div d * d" "(x + (d - 1)) div d * d < x + d"
  using dividend_less_div_times [OF assms, of "x + (d - 1)"] div_times_less_eq_dividend [of "x + (d - 1)" d] assms by linarith+

definition required_clusters :: "u64 \<Rightarrow> FatState \<Rightarrow> u32" where
  "required_clusters bytes s = ucast (CEILING_DIV_VALUE bytes (ucast (bytesPerSector (parameterBlock s))))"

lemma unat_required_clusters:
  assumes "bytesPerSector (parameterBlock s) = 2 ^ k" "k < 16" "bytes < 2 ^ 32"
  shows "unat (required_clusters bytes s) = (unat bytes + (2 ^ k - 1)) div 2 ^ k"
proof -
  have b: "unat bytes < 2 ^ 32" using assms(3) by (simp add: word_less_nat_alt)
  have p: "(2 :: nat) ^ k \<le> 2 ^ 15" using assms(2) by (intro power_increasing) auto
  have "ucast (2 ^ k :: u16) = (2 ^ k :: u64)"
    by (rule word_eq_unatI) (use assms(2) in \<open>simp add: unat_ucast_up\<close>)
  then have u: "unat (CEILING_DIV_VALUE bytes (ucast (2 ^ k :: u16))) = (unat bytes + (2 ^ k - 1)) div 2 ^ k"
    using unat_CEILING_DIV_VALUE [of k bytes] assms(2) b p by simp
  have "(unat bytes + (2 ^ k - 1)) div 2 ^ k \<le> (unat bytes * 2 ^ k + (2 ^ k - 1)) div 2 ^ k"
    by (intro div_le_mono add_le_mono) simp_all
  also have "\<dots> = unat bytes" using div_mult_self3 [of "2 ^ k" "unat bytes" "2 ^ k - 1 :: nat"] by simp
  finally have "unat (CEILING_DIV_VALUE bytes (ucast (2 ^ k :: u16))) < 2 ^ 32" using u b by linarith
  then show ?thesis using u assms(1) by (simp add: required_clusters_def unsigned_ucast_eq take_bit_nat_eq_self_iff)
qed

lemma createContiguousSpace_Some:
  assumes "createContiguousSpaceForNewEntry bytes s = Some (c, s')" "CURRENT_FREE_DATA_CLUSTER_INDEX s \<le> DATA_CLUSTERS_COUNT s"
  defines "n \<equiv> required_clusters bytes s"
  shows "c = CURRENT_FREE_DATA_CLUSTER_INDEX s" "s' = (link_clusters c (c + n) s)\<lparr>CURRENT_FREE_DATA_CLUSTER_INDEX := c + n\<rparr>"
    "unat c + unat n < unat (DATA_CLUSTERS_COUNT s)" "unat (c + n) = unat c + unat n" "0 < bytes"
proof -
  show c: "c = CURRENT_FREE_DATA_CLUSTER_INDEX s" and "0 < bytes" and "s' = (link_clusters c (c + n) s)\<lparr>CURRENT_FREE_DATA_CLUSTER_INDEX := c + n\<rparr>"
    using assms(1) by (auto simp: createContiguousSpaceForNewEntry_def n_def required_clusters_def Let_def split: if_splits)
  have "n < DATA_CLUSTERS_COUNT s - c"
    using assms(1) c by (auto simp: createContiguousSpaceForNewEntry_def n_def required_clusters_def Let_def split: if_splits)
  then show lt: "unat c + unat n < unat (DATA_CLUSTERS_COUNT s)"
    using assms(2) c by (simp add: word_less_nat_alt word_le_nat_alt unat_sub_nowrap)
  then show "unat (c + n) = unat c + unat n" using unat_lt_u32 [of "DATA_CLUSTERS_COUNT s"] by (simp add: unat_add_nowrap)
qed

text \<open>
  C9. Allocating space for a file of \<open>bytes\<close> bytes gives a chain of consecutive clusters that starts at
  the returned index, ends in the end-of-chain marker, has just enough clusters for the bytes, and lies in
  the data area; no other entry of the table changes and the next free cluster is the one after the chain.
\<close>

theorem createContiguousSpace_chain:
  assumes "createContiguousSpaceForNewEntry bytes s = Some (c, s')"
    and "CURRENT_FREE_DATA_CLUSTER_INDEX s \<le> DATA_CLUSTERS_COUNT s"
    and "bytesPerSector (parameterBlock s) = 2 ^ k" "k < 16" "bytes < 2 ^ 32"
  shows "\<exists>n. chain n (read_fat s') c = Some (map (\<lambda>i. c + of_nat i) [0..<n]) \<and>
    unat bytes \<le> n * 2 ^ k \<and> n * 2 ^ k < unat bytes + 2 ^ k \<and> unat c + n < unat (DATA_CLUSTERS_COUNT s) \<and>
    CURRENT_FREE_DATA_CLUSTER_INDEX s' = c + of_nat n \<and>
    (\<forall>j. \<not> (c \<le> j \<and> j < c + of_nat n) \<longrightarrow> read_fat s' j = read_fat s j)"
proof -
  let ?n = "required_clusters bytes s"
  note r = createContiguousSpace_Some [OF assms(1,2)]
  note n = unat_required_clusters [OF assms(3-5)]
  have b: "0 < unat bytes" using r(5) by (simp add: unat_gt_0 word_neq_0_conv)
  have p: "0 < (2 :: nat) ^ k" by simp
  have up: "unat bytes \<le> unat ?n * 2 ^ k" "unat ?n * 2 ^ k < unat bytes + 2 ^ k"
    unfolding n using ceiling_div_bounds [OF p] by blast+
  have "unat ?n \<noteq> 0" using up(1) b by (metis mult_0 not_le)
  then obtain m where m: "unat ?n = Suc m" by (metis not0_implies_Suc)
  have n1: "of_nat (Suc m) = ?n" unfolding m [symmetric] by simp
  then have n2: "c + of_nat m = c + ?n - 1" unfolding n1 [symmetric] by simp
  note ofn = n1 n2
  have rd: "read_fat s' j = (if c \<le> j \<and> j < c + ?n then (if j = c + ?n - 1 then END_OF_CHAIN_MARKER else j + 1) else read_fat s j)" for j
    unfolding r(2) by (simp add: read_link_clusters [symmetric] read_fat_def)
  have "chain (Suc m) (read_fat s') c = Some (map (\<lambda>i. c + of_nat i) [0..<Suc m])"
  proof (rule chain_consecutive)
    show "unat c + Suc m < 2 ^ 32" using r(3) m unat_lt_u32 [of "DATA_CLUSTERS_COUNT s"] by simp
    show "read_fat s' j = (if j = c + of_nat m then END_OF_CHAIN_MARKER else j + 1)" if "c \<le> j" "j < c + of_nat (Suc m)" for j
      using that rd [of j] unfolding ofn by simp
  qed
  then show ?thesis using up r(3) rd r(2) m ofn(1) by (intro exI [of _ "unat ?n"]) auto
qed


definition sample_fat :: FatState where
  "sample_fat = (initial_fat_state (\<lambda>_. 0))\<lparr>parameterBlock := initial_parameterBlock\<lparr>bytesPerSector := 512\<rparr>,
     PRIMARY_FAT := 0x4000, DATA_CLUSTERS := 0x84000, DATA_CLUSTERS_COUNT := 65536, FAT_SIZE_BYTES := 0x40000,
     CURRENT_FREE_DATA_CLUSTER_INDEX := 3\<rparr>"

lemma sample_fat_fields [simp]:
  "parameterBlock sample_fat = initial_parameterBlock\<lparr>bytesPerSector := 512\<rparr>" "PRIMARY_FAT sample_fat = 0x4000"
  "DATA_CLUSTERS sample_fat = 0x84000" "DATA_CLUSTERS_COUNT sample_fat = 65536" "FAT_SIZE_BYTES sample_fat = 0x40000"
  "CURRENT_FREE_DATA_CLUSTER_INDEX sample_fat = 3"
  by (simp_all add: sample_fat_def initial_fat_state_def)

lemma ctz_512: "ctz (512 :: u64) = 9"
  using ctz_power_of_two [of 9, where 'a = 64] by simp

theorem createContiguousSpace_chain_witness:
  "\<exists>s' n. createContiguousSpaceForNewEntry 1000 sample_fat = Some (3, s') \<and>
     chain n (read_fat s') 3 = Some (map (\<lambda>i. 3 + of_nat i) [0..<n]) \<and> 1000 \<le> n * 512 \<and> n * 512 < 1512"
proof -
  obtain s' where c: "createContiguousSpaceForNewEntry 1000 sample_fat = Some (3, s')"
    by (simp add: createContiguousSpaceForNewEntry_def CEILING_DIV_VALUE_def ctz_512 Let_def)
  show ?thesis using createContiguousSpace_chain [OF c, of 9] c by auto
qed

text \<open>
  The copy of the allocation table does not become the second table: \<^verbatim>\<open>mirrorLocation\<close> advances in
  units of four bytes, so the copy lands at four times the size of a table, inside the data area, and the
  place of the second table keeps its old (empty) content.
\<close>

theorem write_mirrors_misses_second_fat:
  fixes s :: FatState
  defines "F \<equiv> unat (FAT_SIZE_BYTES s)"
  defines "m \<equiv> img (write_mirrors 1 (PRIMARY_FAT s + 4 * ucast (FAT_SIZE_BYTES s)) s)"
  shows "load_bytes m (PRIMARY_FAT s + of_nat F) F = load_bytes (img s) (PRIMARY_FAT s + of_nat F) F \<and>
    load_bytes m (PRIMARY_FAT s + of_nat (4 * F)) F = load_bytes (img s) (PRIMARY_FAT s) F"
proof -
  have F: "F < 2 ^ 32" using unat_lt_u32 by (simp add: F_def)
  have a: "4 * ucast (FAT_SIZE_BYTES s) = (of_nat (4 * F) :: u64)" by (simp add: F_def unat_ucast_up)
  have m: "m = store_bytes (img s) (PRIMARY_FAT s + of_nat (4 * F)) (load_bytes (img s) (PRIMARY_FAT s) F)"
    unfolding m_def a by (simp add: F_def)
  have "load_bytes m (PRIMARY_FAT s + of_nat F) F = load_bytes (img s) (PRIMARY_FAT s + of_nat F) F"
    unfolding m using F by (intro load_store_disjoint) auto
  moreover have "load_bytes m (PRIMARY_FAT s + of_nat (4 * F)) F = load_bytes (img s) (PRIMARY_FAT s) F"
    using load_store_same [of "load_bytes (img s) (PRIMARY_FAT s) F" "img s" "PRIMARY_FAT s + of_nat (4 * F)"] F
    by (simp add: m)
  ultimately show ?thesis by blast
qed

lemma if_less_max: "(if x < y then y else x) = max y (x :: 'a :: linorder)"
  by (auto simp: max_def)

lemma efi_size_eqs:
  fixes n :: u32
  assumes "LBASizeBytes c = 2 ^ k" "alignmentLBA c = 2 ^ a" "sectorsPerCluster (parameterBlock s) = 1"
    "reservedSectors (parameterBlock s) = 32" "FATs (parameterBlock s) = 2"
  defines "clusters \<equiv> ALIGN_UP_VALUE (max MIN_CLUSTERS_OF_FAT32 (n + 2)) (2 ^ a)"
  defines "area \<equiv> ALIGN_UP_VALUE (32 + CEILING_DIV_VALUE clusters (ucast (2 ^ k :: u16) div 4) * 2) (2 ^ a)"
  shows "DATA_CLUSTERS_COUNT (snd (calculateEFIPartitionSize c n s)) = clusters"
    "FATSize32Sectors (parameterBlock (snd (calculateEFIPartitionSize c n s))) = (area - 32) div 2"
    "fst (calculateEFIPartitionSize c n s) = area + clusters"
  using assms(1-5) unfolding clusters_def area_def
  by (simp_all add: calculateEFIPartitionSize_def Let_def DATA_FILE_def DISK_FILE_def if_less_max add.assoc)

lemma ALIGN_UP_VALUE_bounds:
  fixes x :: u32
  assumes "a < 32" "unat x + 2 ^ a < 2 ^ 32"
  shows "unat x \<le> unat (ALIGN_UP_VALUE x (2 ^ a))" "unat (ALIGN_UP_VALUE x (2 ^ a)) < unat x + 2 ^ a"
    "2 ^ a dvd unat (ALIGN_UP_VALUE x (2 ^ a))"
proof -
  have u: "unat (ALIGN_UP_VALUE x (2 ^ a)) = (unat x + (2 ^ a - 1)) div 2 ^ a * 2 ^ a"
    using assms by (intro unat_ALIGN_UP_VALUE) simp_all
  show "unat x \<le> unat (ALIGN_UP_VALUE x (2 ^ a))" "unat (ALIGN_UP_VALUE x (2 ^ a)) < unat x + 2 ^ a"
    unfolding u by (rule ceiling_div_bounds; simp)+
  show "2 ^ a dvd unat (ALIGN_UP_VALUE x (2 ^ a))" unfolding u by simp
qed

lemma efi_partition_bounds:
  fixes n :: u32
  assumes "LBASizeBytes c = 2 ^ k" "9 \<le> k" "k < 16" "alignmentLBA c = 2 ^ a" "a < 24" "unat n < 2 ^ 30"
    and "sectorsPerCluster (parameterBlock s) = 1" "reservedSectors (parameterBlock s) = 32" "FATs (parameterBlock s) = 2"
  defines "s' \<equiv> snd (calculateEFIPartitionSize c n s)" and "sectors \<equiv> unat (fst (calculateEFIPartitionSize c n s))"
  defines "C \<equiv> unat (DATA_CLUSTERS_COUNT s')" and "F \<equiv> unat (FATSize32Sectors (parameterBlock s'))"
  shows "unat n + 2 \<le> C \<and> 65526 \<le> C \<and> 4 * C \<le> F * 2 ^ k \<and> 32 + 2 * F + C \<le> sectors \<and> 2 ^ a dvd sectors \<and>
    sectors < 2 ^ 31"
proof -
  have p: "(2 :: nat) ^ a \<le> 2 ^ 23" using assms(5) by (intro power_increasing) auto
  define cl where "cl = ALIGN_UP_VALUE (max MIN_CLUSTERS_OF_FAT32 (n + 2)) (2 ^ a)"
  define req where "req = CEILING_DIV_VALUE cl (ucast (2 ^ k :: u16) div 4)"
  define area where "area = ALIGN_UP_VALUE (32 + req * 2) (2 ^ a)"
  note e = efi_size_eqs [OF assms(1,4,7-9), of n, folded cl_def, folded req_def, folded area_def]
  have n2: "unat (n + 2) = unat n + 2" using assms(6) by (simp add: unat_add_nowrap)
  have mx: "unat (max MIN_CLUSTERS_OF_FAT32 (n + 2)) = max 65526 (unat n + 2)"
    using n2 by (simp add: max_def word_le_nat_alt MIN_CLUSTERS_OF_FAT32_def)
  have cl: "max 65526 (unat n + 2) \<le> unat cl" "unat cl < max 65526 (unat n + 2) + 2 ^ a" "2 ^ a dvd unat cl"
    using ALIGN_UP_VALUE_bounds [of a "max MIN_CLUSTERS_OF_FAT32 (n + 2)"] mx assms(5,6) p by (simp_all add: cl_def)
  have clb: "unat cl < 2 ^ 31" using cl(2) p assms(6) by simp
  define d where "d = k - 2"
  have k: "k = d + 2" "7 \<le> d" "d < 14" using assms(2,3) by (simp_all add: d_def)
  have dv: "ucast (2 ^ k :: u16) div 4 = (2 ^ d :: u32)"
  proof (rule word_eq_unatI)
    have "unat (ucast (2 ^ k :: u16) :: u32) = 2 ^ k" using assms(3) by (simp add: unat_ucast_up)
    then have "unat (ucast (2 ^ k :: u16) :: u32) = 2 ^ d * 4" by (simp only: k(1) power_add) simp
    then show "unat (ucast (2 ^ k :: u16) div 4 :: u32) = unat (2 ^ d :: u32)" using k(3) by (simp add: unat_div_distrib)
  qed
  have pd: "(2 :: nat) ^ d \<le> 2 ^ 13" "(2 :: nat) ^ 7 \<le> 2 ^ d" using k(2,3) by (intro power_increasing; simp)+
  have req: "unat req = (unat cl + (2 ^ d - 1)) div 2 ^ d"
    unfolding req_def dv using k clb pd by (intro unat_CEILING_DIV_VALUE) simp_all
  have r: "unat cl \<le> unat req * 2 ^ d" "unat req * 2 ^ d < unat cl + 2 ^ d"
    unfolding req by (rule ceiling_div_bounds; simp)+
  have "128 \<le> (2 :: nat) ^ d" using pd(2) by simp
  then have "unat req * 128 \<le> unat req * 2 ^ d" by (rule mult_le_mono2)
  moreover have "unat cl < 2147483648" "(2 :: nat) ^ d \<le> 8192" using clb pd(1) by simp_all
  ultimately have "unat req < 33554432" using r(2) by linarith
  then have rb: "unat req < 2 ^ 25" by simp
  have u32: "unat (32 + req * 2) = 32 + 2 * unat req" using rb by (simp add: unat_add_nowrap unat_mult_nowrap)
  have area: "32 + 2 * unat req \<le> unat area" "unat area < 32 + 2 * unat req + 2 ^ a" "2 ^ a dvd unat area"
    using ALIGN_UP_VALUE_bounds [of a "32 + req * 2"] u32 rb assms(5) p by (simp_all add: area_def)
  have f: "unat ((area - 32) div 2) = (unat area - 32) div 2"
    using area(1) by (simp add: unat_div_distrib unat_sub_nowrap)
  have t: "unat (area + cl) = unat area + unat cl" using area(2) rb p clb by (simp add: unat_add_nowrap)
  have F: "F = (unat area - 32) div 2" and C: "C = unat cl" and T: "sectors = unat area + unat cl"
    using e f t by (simp_all add: F_def C_def sectors_def s'_def)
  have "unat req \<le> F" using F area(1) by simp
  then have "unat cl \<le> F * 2 ^ d" using r(1) mult_le_mono1 order_trans by blast
  then have "4 * C \<le> F * 2 ^ k" using C k by (simp add: power_add)
  moreover have "32 + 2 * F + C \<le> sectors" using F T C area(1) by simp
  moreover have "2 ^ a dvd sectors" using T cl(3) area(3) by simp
  moreover have "sectors < 2 ^ 31" using T area(2) rb p cl(2) assms(6) by simp
  moreover have "unat n + 2 \<le> C" "65526 \<le> C" using cl(1) C by linarith+
  ultimately show ?thesis by blast
qed

text \<open>
  The EFI partition is large enough: with a block size and an alignment that are powers of two, the
  data area has a cluster for every block of the application and the two information files and at least
  the FAT32 minimum, each table has an entry for every data cluster, and the reserved sectors, the two
  tables and the data area fit into the computed size, which is aligned.
\<close>

theorem calculateEFIPartitionSize_fits:
  fixes n :: u32
  assumes "LBASizeBytes c = 2 ^ k" "9 \<le> k" "k < 16" "alignmentLBA c = 2 ^ a" "a < 24" "unat n < 2 ^ 30"
    and "sectorsPerCluster (parameterBlock s) = 1" "reservedSectors (parameterBlock s) = 32" "FATs (parameterBlock s) = 2"
  defines "s' \<equiv> snd (calculateEFIPartitionSize c n s)" and "sectors \<equiv> unat (fst (calculateEFIPartitionSize c n s))"
  defines "C \<equiv> unat (DATA_CLUSTERS_COUNT s')" and "F \<equiv> unat (FATSize32Sectors (parameterBlock s'))"
  shows "unat n + 2 \<le> C \<and> 65526 \<le> C \<and> 4 * C \<le> F * 2 ^ k \<and> 32 + 2 * F + C \<le> sectors \<and> 2 ^ a dvd sectors"
  using efi_partition_bounds [OF assms(1-9)] unfolding s'_def sectors_def C_def F_def by blast

theorem calculateEFIPartitionSize_fits_witness:
  "65526 \<le> unat (DATA_CLUSTERS_COUNT (snd (calculateEFIPartitionSize configuration 100 (initial_fat_state (\<lambda>_. 0)))))"
  using calculateEFIPartitionSize_fits [of configuration 9 0 100 "initial_fat_state (\<lambda>_. 0)"]
  by (simp add: configuration_def initial_fat_state_def initial_parameterBlock_def DEFAULT_RESERVED_SECTORS_def)

text \<open>
  The tables can be two entries short: the entries 0 and 1 of a table are reserved, but its size is
  computed from the number of data clusters alone. With unaligned partitions and an application of 65534
  blocks the table has 65536 entries for 65536 data clusters, so the last two clusters have none.
\<close>

theorem calculateEFIPartitionSize_two_short:
  "let s' = snd (calculateEFIPartitionSize configuration 65534 (initial_fat_state (\<lambda>_. 0))) in
   unat (FAT_SIZE_BYTES s') div 4 < unat (DATA_CLUSTERS_COUNT s') + 2"
proof -
  have "ctz (128 :: u32) = 7" using ctz_power_of_two [of 7, where 'a = 32] by simp
  then show ?thesis
    by (simp add: calculateEFIPartitionSize_def configuration_def initial_fat_state_def initial_parameterBlock_def
        DEFAULT_RESERVED_SECTORS_def DATA_FILE_def DISK_FILE_def MIN_CLUSTERS_OF_FAT32_def ALIGN_UP_VALUE_def
        CEILING_DIV_VALUE_def Let_def)
qed

section \<open>Directories\<close>

text \<open>The layout the directory operations rely on: tables first, then clusters that fit into 32-bit offsets.\<close>

definition fat_layout :: "nat \<Rightarrow> nat \<Rightarrow> FatState \<Rightarrow> bool" where
  "fat_layout k D s \<longleftrightarrow> 6 \<le> k \<and> k < 16 \<and> bytesPerSector (parameterBlock s) = 2 ^ k \<and>
     DATA_CLUSTERS s = PRIMARY_FAT s + of_nat D \<and> 4 * unat (DATA_CLUSTERS_COUNT s) \<le> D \<and> D < 2 ^ 34 \<and>
     unat (DATA_CLUSTERS_COUNT s) * 2 ^ k < 2 ^ 32 \<and>
     2 \<le> unat (CURRENT_FREE_DATA_CLUSTER_INDEX s) \<and> CURRENT_FREE_DATA_CLUSTER_INDEX s \<le> DATA_CLUSTERS_COUNT s"

definition cluster_offset :: "nat \<Rightarrow> nat \<Rightarrow> Cluster \<Rightarrow> nat" where
  "cluster_offset k D c = D + 2 ^ k * (unat c - 2)"

lemma getDataCluster_offset:
  assumes "fat_layout k D s" "2 \<le> unat c" "unat c \<le> unat (DATA_CLUSTERS_COUNT s)"
  shows "getDataCluster s c = PRIMARY_FAT s + of_nat (cluster_offset k D c)"
proof -
  note l = assms(1) [unfolded fat_layout_def]
  have c: "unat (c - 2) = unat c - 2" using assms(2) by (subst unat_sub_nowrap) simp_all
  have "2 ^ k * (unat c - 2) \<le> unat (DATA_CLUSTERS_COUNT s) * 2 ^ k" using assms(3) by (simp add: mult.commute mult_le_mono)
  then have b: "2 ^ k * (unat c - 2) < 2 ^ 32" using l by linarith
  have "unat (ucast (2 ^ k :: u16) :: u32) = 2 ^ k" using l by (simp add: unat_ucast_up)
  then have "unat (ucast (2 ^ k :: u16) * (c - 2) :: u32) = 2 ^ k * (unat c - 2)"
    using b c by (simp add: unat_mult_nowrap)
  then have "ucast (ucast (2 ^ k :: u16) * (c - 2) :: u32) = (of_nat (2 ^ k * (unat c - 2)) :: u64)"
    by (metis of_nat_unat)
  then show ?thesis using l by (simp add: getDataCluster_def RESERVED_CLUSTER_INDICES_def cluster_offset_def)
qed

lemma img_of_update: "img (s\<lparr>img := m\<rparr>) = m"
  by simp

lemma link_clusters_frame:
  assumes "4 * unat e \<le> x" "x + n \<le> 2 ^ 64"
  shows "load_bytes (img (link_clusters i e s)) (PRIMARY_FAT s + of_nat x) n = load_bytes (img s) (PRIMARY_FAT s + of_nat x) n"
  using assms(1)
proof (induction i e s rule: link_clusters.induct)
  case (1 i e s)
  show ?case
  proof (cases "i < e")
    case True
    let ?s = "write_fat i (if i = e - 1 then END_OF_CHAIN_MARKER else i + 1) s"
    have "load_bytes (img ?s) (PRIMARY_FAT s + of_nat x) n = load_bytes (img s) (PRIMARY_FAT s + of_nat x) n"
      unfolding write_fat_def fat_offset using True 1(2) assms(2) unat_lt_u32 [of i]
      by (simp only: img_of_update, intro load_store_disjoint) (simp_all add: word_less_nat_alt)
    then show ?thesis using 1(1) [OF True 1(2)] True by (subst link_clusters.simps) simp
  next
    case False
    then show ?thesis by (subst link_clusters.simps) simp
  qed
qed

lemma length_dir_entry_bytes [simp]: "length (dir_entry_bytes d) = 32"
  by (simp add: dir_entry_bytes_def)

lemma cluster_of_halves: "cluster_of (cluster_low c) (cluster_high c) = c"
  by (rule bit_word_eqI)
    (auto simp: cluster_of_def cluster_low_def cluster_high_def bit_or_iff bit_ucast_iff bit_push_bit_iff bit_drop_bit_eq)

lemma dir_entry_fields:
  "length name = 11 \<Longrightarrow> take 11 (dir_entry_bytes (d\<lparr>dir_name := name\<rparr>)) = name"
  "of_le_bytes (take 2 (drop 26 (dir_entry_bytes d))) = lowClusterNumber d"
  "of_le_bytes (take 2 (drop 20 (dir_entry_bytes d))) = highClusterNumber d"
proof -
  show "length name = 11 \<Longrightarrow> take 11 (dir_entry_bytes (d\<lparr>dir_name := name\<rparr>)) = name"
    by (simp add: dir_entry_bytes_def padded_def)
qed (simp_all add: dir_entry_bytes_def)

lemma writeDirectoryEntry_fields [simp]:
  "parameterBlock (writeDirectoryEntry a c n s) = parameterBlock s" "PRIMARY_FAT (writeDirectoryEntry a c n s) = PRIMARY_FAT s"
  "DATA_CLUSTERS (writeDirectoryEntry a c n s) = DATA_CLUSTERS s" "DATA_CLUSTERS_COUNT (writeDirectoryEntry a c n s) = DATA_CLUSTERS_COUNT s"
  "CURRENT_FREE_DATA_CLUSTER_INDEX (writeDirectoryEntry a c n s) = CURRENT_FREE_DATA_CLUSTER_INDEX s"
  by (simp_all add: writeDirectoryEntry_def Let_def)

lemma writeDirectoryEntry_frame:
  "x + n \<le> y \<or> y + 32 \<le> x \<Longrightarrow> x + n \<le> 2 ^ 64 \<Longrightarrow> y + 32 \<le> 2 ^ 64 \<Longrightarrow>
   load_bytes (img (writeDirectoryEntry (b + of_nat y) c name s)) (b + of_nat x) n = load_bytes (img s) (b + of_nat x) n"
  unfolding writeDirectoryEntry_def Let_def by (simp only: img_of_update, intro load_store_disjoint) simp_all

lemma dot_entries_frame:
  "x + n \<le> y \<Longrightarrow> y + 64 \<le> 2 ^ 64 \<Longrightarrow>
   load_bytes (img (writeDirectoryEntry (b + of_nat (y + 32)) p d1 (writeDirectoryEntry (b + of_nat y) c d2 s))) (b + of_nat x) n =
   load_bytes (img s) (b + of_nat x) n"
  by (rule trans [OF writeDirectoryEntry_frame writeDirectoryEntry_frame]) auto

lemma writeDirectoryEntry_read:
  assumes "length name = 11"
  shows "\<exists>e. load_bytes (img (writeDirectoryEntry a c name s)) a 32 = e \<and> take 11 e = name \<and>
    cluster_of (of_le_bytes (take 2 (drop 26 e))) (of_le_bytes (take 2 (drop 20 e))) = c"
proof -
  let ?d = "setName ((blank_dir_entry FAT32_DIRECTORY_ATTRIBUTES)\<lparr>highClusterNumber := cluster_high c, lowClusterNumber := cluster_low c\<rparr>) name"
  have "load_bytes (img (writeDirectoryEntry a c name s)) a 32 = dir_entry_bytes ?d"
    using load_store_same [of "dir_entry_bytes ?d" "img s" a] by (simp add: writeDirectoryEntry_def Let_def)
  moreover have "take 11 (dir_entry_bytes ?d) = name"
    using assms by (simp add: setName_def FAT32_SHORT_NAME_LEN_def dir_entry_fields(1))
  moreover have "cluster_of (of_le_bytes (take 2 (drop 26 (dir_entry_bytes ?d)))) (of_le_bytes (take 2 (drop 20 (dir_entry_bytes ?d)))) = c"
    unfolding dir_entry_fields by (simp add: setName_def cluster_of_halves)
  ultimately show ?thesis by blast
qed


definition created :: "addr \<Rightarrow> bytes \<Rightarrow> Cluster \<Rightarrow> Cluster \<Rightarrow> FatState \<Rightarrow> FatState" where
  "created entry name parent c s =
     (let s2 = writeDirectoryEntry entry c name s in writeDOTEntries (getDataCluster s2 c) c parent s2)"

lemma created_eq:
  assumes "fat_layout k D s" "createContiguousSpaceForNewEntry 32 s = Some (c, s1)"
  shows "created (PRIMARY_FAT s + of_nat y) name p c s1 =
      writeDirectoryEntry (PRIMARY_FAT s + of_nat (cluster_offset k D c + 32)) p DOTDOT
        (writeDirectoryEntry (PRIMARY_FAT s + of_nat (cluster_offset k D c)) c DOT
          (writeDirectoryEntry (PRIMARY_FAT s + of_nat y) c name s1))" (is ?eq)
    and "cluster_offset k D c + 64 \<le> 2 ^ 64" "c = CURRENT_FREE_DATA_CLUSTER_INDEX s"
    and "D \<le> x \<Longrightarrow> x + n \<le> 2 ^ 64 \<Longrightarrow>
      load_bytes (img s1) (PRIMARY_FAT s + of_nat x) n = load_bytes (img s) (PRIMARY_FAT s + of_nat x) n"
proof -
  note l = assms(1) [unfolded fat_layout_def]
  have cur: "CURRENT_FREE_DATA_CLUSTER_INDEX s \<le> DATA_CLUSTERS_COUNT s" using l by blast
  note r = createContiguousSpace_Some [OF assms(2) cur]
  let ?e = "c + required_clusters 32 s"
  have s1: "PRIMARY_FAT s1 = PRIMARY_FAT s" "fat_layout k D (s1\<lparr>CURRENT_FREE_DATA_CLUSTER_INDEX := CURRENT_FREE_DATA_CLUSTER_INDEX s\<rparr>)"
      "DATA_CLUSTERS_COUNT s1 = DATA_CLUSTERS_COUNT s" "img s1 = img (link_clusters c ?e s)"
    using assms(1) unfolding r(2) by (simp_all add: fat_layout_def)
  have c: "2 \<le> unat c" "unat c \<le> unat (DATA_CLUSTERS_COUNT s)" using l r(1,3) by simp_all
  have co: "getDataCluster (writeDirectoryEntry a c name s1) c = PRIMARY_FAT s + of_nat (cluster_offset k D c)" for a
    using getDataCluster_offset [OF s1(2)] c s1(1,3) by (simp add: getDataCluster_def)
  have "2 ^ k * (unat c - 2) \<le> unat (DATA_CLUSTERS_COUNT s) * 2 ^ k" using c by (simp add: mult.commute mult_le_mono)
  then have "2 ^ k * (unat c - 2) < 2 ^ 32" using l by linarith
  then show "cluster_offset k D c + 64 \<le> 2 ^ 64" using l unfolding cluster_offset_def by simp
  show ?eq unfolding created_def writeDOTEntries_def Let_def co by (simp add: SIZEOF_DIR_ENTRY_def add.assoc)
  show "c = CURRENT_FREE_DATA_CLUSTER_INDEX s" by (rule r(1))
  show "load_bytes (img s1) (PRIMARY_FAT s + of_nat x) n = load_bytes (img s) (PRIMARY_FAT s + of_nat x) n"
    if "D \<le> x" "x + n \<le> 2 ^ 64"
    unfolding s1(4) using that r(3,4) l by (intro link_clusters_frame) linarith+
qed

lemma created_frame:
  assumes "fat_layout k D s" "createContiguousSpaceForNewEntry 32 s = Some (c, s1)"
    and "D \<le> x" "x + n \<le> cluster_offset k D c" "x + n \<le> y \<or> y + 32 \<le> x" "y + 32 \<le> 2 ^ 64"
  shows "load_bytes (img (created (PRIMARY_FAT s + of_nat y) name p c s1)) (PRIMARY_FAT s + of_nat x) n =
      load_bytes (img s) (PRIMARY_FAT s + of_nat x) n"
proof -
  note e = created_eq [OF assms(1,2)]
  have x: "x + n \<le> 2 ^ 64" using e(2) assms(4) by linarith
  let ?b = "PRIMARY_FAT s" and ?o = "cluster_offset k D c"
  have "load_bytes (img (created (?b + of_nat y) name p c s1)) (?b + of_nat x) n =
      load_bytes (img (writeDirectoryEntry (?b + of_nat y) c name s1)) (?b + of_nat x) n"
    unfolding e(1) using assms(4) e(2) by (rule dot_entries_frame)
  also have "\<dots> = load_bytes (img s1) (?b + of_nat x) n" using assms(5,6) x by (intro writeDirectoryEntry_frame)
  also have "\<dots> = load_bytes (img s) (?b + of_nat x) n" using assms(3) x by (rule e(4))
  finally show ?thesis .
qed

lemma createContiguousSpace_fields:
  "createContiguousSpaceForNewEntry b s = Some (c, s') \<Longrightarrow> PRIMARY_FAT s' = PRIMARY_FAT s \<and>
   DATA_CLUSTERS s' = DATA_CLUSTERS s \<and> parameterBlock s' = parameterBlock s"
  by (auto simp: createContiguousSpaceForNewEntry_def Let_def split: if_splits)

lemma find_or_create_fields:
  "find_or_create j a name p s = Some (c, s') \<Longrightarrow>
   DATA_CLUSTERS s' = DATA_CLUSTERS s \<and> parameterBlock s' = parameterBlock s"
  by (induction j arbitrary: a)
    (auto simp: Let_def writeDOTEntries_def split: if_splits option.splits dest: createContiguousSpace_fields)

lemma find_or_create_frame:
  assumes "find_or_create j (PRIMARY_FAT s + of_nat y) name p s = Some (c, s')" "fat_layout k D s"
    and "y + 32 * j \<le> cluster_offset k D (CURRENT_FREE_DATA_CLUSTER_INDEX s)" "D \<le> x" "x + 32 \<le> y"
  shows "load_bytes (img s') (PRIMARY_FAT s + of_nat x) 32 = load_bytes (img s) (PRIMARY_FAT s + of_nat x) 32"
  using assms(1,3,5)
proof (induction j arbitrary: y)
  case (Suc j)
  let ?e = "load_bytes (img s) (PRIMARY_FAT s + of_nat y) SIZEOF_DIR_ENTRY"
  consider "compareFAT32ShortName ?e name" | "\<not> compareFAT32ShortName ?e name" "compareFAT32ShortName ?e ZERO_NAME"
    | "\<not> compareFAT32ShortName ?e name" "\<not> compareFAT32ShortName ?e ZERO_NAME" by blast
  then show ?case
  proof cases
    case 1
    then show ?thesis using Suc.prems(1) by (simp add: Let_def)
  next
    case 2
    then obtain s1 where s1: "createContiguousSpaceForNewEntry 32 s = Some (c, s1)"
        "s' = created (PRIMARY_FAT s + of_nat y) name p c s1"
      using Suc.prems(1) by (auto simp: Let_def created_def SIZEOF_DIR_ENTRY_def split: option.splits)
    note r = created_eq(2,3) [OF assms(2) s1(1)]
    have y: "y + 32 \<le> cluster_offset k D c" using Suc.prems(2) unfolding r(2) by simp
    show ?thesis unfolding s1(2)
      by (rule created_frame [OF assms(2) s1(1) assms(4)]) (use Suc.prems(3) y r(1) in linarith)+
  next
    case 3
    have "find_or_create j (PRIMARY_FAT s + of_nat (y + 32)) name p s = Some (c, s')"
      using Suc.prems(1) 3 by (simp add: Let_def SIZEOF_DIR_ENTRY_def add.assoc)
    then show ?thesis using Suc.IH [of "y + 32"] Suc.prems(2,3) by simp
  qed
qed simp

lemma find_or_create_again:
  assumes "find_or_create j (PRIMARY_FAT s + of_nat y) name p s = Some (c, s')" "fat_layout k D s"
    and "y + 32 * j \<le> cluster_offset k D (CURRENT_FREE_DATA_CLUSTER_INDEX s)" "D \<le> y" "length name = 11"
  shows "find_or_create j (PRIMARY_FAT s + of_nat y) name p s' = Some (c, s')"
  using assms(1,3,4)
proof (induction j arbitrary: y)
  case (Suc j)
  let ?e = "load_bytes (img s) (PRIMARY_FAT s + of_nat y) SIZEOF_DIR_ENTRY"
  consider "compareFAT32ShortName ?e name" | "\<not> compareFAT32ShortName ?e name" "compareFAT32ShortName ?e ZERO_NAME"
    | "\<not> compareFAT32ShortName ?e name" "\<not> compareFAT32ShortName ?e ZERO_NAME" by blast
  then show ?case
  proof cases
    case 1
    then show ?thesis using Suc.prems(1) by (auto simp: Let_def)
  next
    case 2
    then obtain s1 where s1: "createContiguousSpaceForNewEntry 32 s = Some (c, s1)"
        "s' = created (PRIMARY_FAT s + of_nat y) name p c s1"
      using Suc.prems(1) by (auto simp: Let_def created_def SIZEOF_DIR_ENTRY_def split: option.splits)
    note r = created_eq [OF assms(2) s1(1)]
    have y: "y + 32 \<le> cluster_offset k D c" using Suc.prems(2) unfolding r(3) by simp
    have "load_bytes (img s') (PRIMARY_FAT s + of_nat y) 32 =
        load_bytes (img (writeDirectoryEntry (PRIMARY_FAT s + of_nat y) c name s1)) (PRIMARY_FAT s + of_nat y) 32"
      unfolding s1(2) r(1) using y r(2) by (rule dot_entries_frame)
    then obtain e where "load_bytes (img s') (PRIMARY_FAT s + of_nat y) 32 = e" "take 11 e = name"
        "cluster_of (of_le_bytes (take 2 (drop 26 e))) (of_le_bytes (take 2 (drop 20 e))) = c"
      using writeDirectoryEntry_read [OF assms(5)] by metis
    then show ?thesis using assms(5)
      by (simp add: Let_def SIZEOF_DIR_ENTRY_def compareFAT32ShortName_def FAT32_SHORT_NAME_LEN_def)
  next
    case 3
    have n: "find_or_create j (PRIMARY_FAT s + of_nat (y + 32)) name p s = Some (c, s')"
      using Suc.prems(1) 3 by (simp add: Let_def SIZEOF_DIR_ENTRY_def add.assoc)
    have "load_bytes (img s') (PRIMARY_FAT s + of_nat y) 32 = load_bytes (img s) (PRIMARY_FAT s + of_nat y) 32"
      using find_or_create_frame [OF n assms(2), of y] Suc.prems by simp
    moreover have "find_or_create j (PRIMARY_FAT s + of_nat (y + 32)) name p s' = Some (c, s')"
      using Suc.IH [OF n] Suc.prems by simp
    ultimately show ?thesis using 3 by (simp add: Let_def SIZEOF_DIR_ENTRY_def add.assoc)
  qed
qed simp

text \<open>
  C36. Directories are created once: after \<^verbatim>\<open>createOrGetDirectory\<close> has returned the cluster of a
  directory, asking again for the same name in the same parent finds that cluster and changes nothing.
  In particular the new entry, its table entry and the dot entries do not overwrite the parent's entries.
\<close>

theorem createOrGetDirectory_idempotent:
  assumes "createOrGetDirectory name p s = Some (c, s')" "fat_layout k D s" "length name = 11"
    and "2 \<le> unat p" "unat p < unat (CURRENT_FREE_DATA_CLUSTER_INDEX s)"
  shows "createOrGetDirectory name p s' = Some (c, s')"
proof -
  note l = assms(2) [unfolded fat_layout_def]
  let ?y = "cluster_offset k D p" and ?j = "entries_per_cluster s"
  have p: "getDataCluster s p = PRIMARY_FAT s + of_nat ?y"
    using getDataCluster_offset [OF assms(2,4)] assms(5) l by (simp add: word_le_nat_alt)
  have k: "(2 :: nat) ^ k = 32 * 2 ^ (k - 5)" using l power_add [of "2 :: nat" 5 "k - 5"] by simp
  have "?j = (32 * 2 ^ (k - 5) + 31) div 32" using l k by (simp add: entries_per_cluster_def SIZEOF_DIR_ENTRY_def)
  then have j: "32 * ?j = 2 ^ k" using k by simp
  have "2 ^ k * (unat p - 2) + 2 ^ k = 2 ^ k * (unat p - 1)"
    using assms(4) by (metis Suc_diff_Suc Suc_1 Suc_le_lessD add.commute mult_Suc_right)
  also have "\<dots> \<le> 2 ^ k * (unat (CURRENT_FREE_DATA_CLUSTER_INDEX s) - 2)" using assms(5) by simp
  finally have le: "?y + 32 * ?j \<le> cluster_offset k D (CURRENT_FREE_DATA_CLUSTER_INDEX s)"
    unfolding j cluster_offset_def by simp
  have f: "find_or_create ?j (PRIMARY_FAT s + of_nat ?y) name p s = Some (c, s')"
    using assms(1) p by (simp add: createOrGetDirectory_def)
  have "find_or_create ?j (PRIMARY_FAT s + of_nat ?y) name p s' = Some (c, s')"
    using find_or_create_again [OF f assms(2) le] assms(3) by (simp add: cluster_offset_def)
  moreover have "getDataCluster s' p = getDataCluster s p" "entries_per_cluster s' = ?j"
    using find_or_create_fields [OF f] by (simp_all add: getDataCluster_def entries_per_cluster_def)
  ultimately show ?thesis using p by (simp add: createOrGetDirectory_def)
qed


theorem createOrGetDirectory_idempotent_witness:
  "\<exists>c s'. createOrGetDirectory (ascii ''EFI        '') ROOT_CLUSTER_FAT_INDEX sample_fat = Some (c, s') \<and>
     createOrGetDirectory (ascii ''EFI        '') ROOT_CLUSTER_FAT_INDEX s' = Some (c, s')"
proof -
  have l: "fat_layout 9 0x80000 sample_fat" by (simp add: fat_layout_def word_le_nat_alt)
  have z: "load_bytes (\<lambda>_. 0) a n = replicate n 0" for a n
    by (rule nth_equalityI) (simp_all add: load_bytes_def)
  have n: "\<not> compareFAT32ShortName (replicate 32 0) (ascii ''EFI        '')" "compareFAT32ShortName (replicate 32 0) ZERO_NAME"
  proof -
    show "compareFAT32ShortName (replicate 32 0) ZERO_NAME"
      by (simp add: compareFAT32ShortName_def FAT32_SHORT_NAME_LEN_def ZERO_NAME_def)
    have ne: "(0 :: u8) \<noteq> 32" by simp
    have "last (take 11 (replicate 32 (0 :: u8))) = 0" "last (take 11 (ascii ''EFI        '')) = 32"
      by (simp_all add: ascii_def)
    then show "\<not> compareFAT32ShortName (replicate 32 0) (ascii ''EFI        '')"
      unfolding compareFAT32ShortName_def FAT32_SHORT_NAME_LEN_def by (metis ne)
  qed
  have e: "entries_per_cluster sample_fat = Suc 15" by (simp add: entries_per_cluster_def SIZEOF_DIR_ENTRY_def)
  obtain s1 where "createContiguousSpaceForNewEntry (of_nat 32) sample_fat = Some (3, s1)"
    by (simp add: createContiguousSpaceForNewEntry_def CEILING_DIV_VALUE_def ctz_512 Let_def)
  moreover have "img sample_fat = (\<lambda>_. 0)" by (simp add: sample_fat_def initial_fat_state_def)
  ultimately obtain s' where c: "createOrGetDirectory (ascii ''EFI        '') ROOT_CLUSTER_FAT_INDEX sample_fat = Some (3, s')"
    unfolding createOrGetDirectory_def e find_or_create.simps using n z by (simp add: Let_def SIZEOF_DIR_ENTRY_def)
  then show ?thesis using createOrGetDirectory_idempotent [OF c l] by (simp add: ascii_def ROOT_CLUSTER_FAT_INDEX_def)
qed

end
