(* ===== verification/ImageBuilder.thy ===== *)
theory ImageBuilder
  imports Fat32
begin

text \<open>
  The image builder around the partitions: \<^verbatim>\<open>setConfiguration\<close> (\<^verbatim>\<open>configuration.c\<close>), the data partition
  (\<^verbatim>\<open>partitions/data.c\<close>) and the program itself (\<^verbatim>\<open>main.c\<close>): its arguments, the sequence that
  writes the image, and the clean-up after an error. The outcomes of the operating-system calls are
  parameters; progress messages are left out.
\<close>

section \<open>Configuration\<close>

text \<open>\<open>None\<close> is the division by a block size of zero.\<close>

definition setConfiguration ::
    "u64 \<Rightarrow> u64 \<Rightarrow> u32 \<Rightarrow> Configuration \<Rightarrow> FatState \<Rightarrow> (Configuration \<times> FatState) option" where
  "setConfiguration efiApplicationSizeBytes kernelSizeBytes alignmentSizeBytes c s =
     (if LBASizeBytes c = 0 then None
      else
       (let lba = ucast (LBASizeBytes c) :: u32;
            c = (if alignmentSizeBytes > lba then c\<lparr>alignmentLBA := alignmentSizeBytes div lba\<rparr> else c);
            c = c\<lparr>GPTPartitionTableSizeLBA := GPT_PARTITION_TABLE_SIZE div lba\<rparr>;
            currentLBA = ucast PROTECTIVE_MBR + ucast GPT_HEADER + GPTPartitionTableSizeLBA c;
            currentLBA = ALIGN_UP_VALUE currentLBA (alignmentLBA c);
            c = c\<lparr>EFISystemPartitionStartLBA := currentLBA\<rparr>;
            (unalignedLBA, s) = calculateEFIPartitionSize c (ucast (CEILING_DIV_VALUE efiApplicationSizeBytes (ucast lba))) s;
            c = c\<lparr>EFISystemPartitionSizeLBA := ALIGN_UP_VALUE unalignedLBA (alignmentLBA c)\<rparr>;
            currentLBA = currentLBA + EFISystemPartitionSizeLBA c;
            c = c\<lparr>dataPartitionStartLBA := currentLBA,
                  dataPartitionSizeLBA := ucast (CEILING_DIV_VALUE kernelSizeBytes (ucast lba))\<rparr>;
            currentLBA = currentLBA + dataPartitionSizeLBA c;
            currentLBA = currentLBA + (GPTPartitionTableSizeLBA c + ucast GPT_HEADER);
            c = c\<lparr>totalImageSizeLBA := currentLBA\<rparr>;
            c = c\<lparr>totalImageSizeBytes := ucast (totalImageSizeLBA c * lba)\<rparr> in
        Some (c, s)))"

section \<open>Data partition\<close>

definition writeDataPartition ::
    "nat \<Rightarrow> 'f posix_read \<Rightarrow> Configuration \<Rightarrow> addr \<Rightarrow> 'f \<Rightarrow> u64 \<Rightarrow> memory \<Rightarrow> FatError + memory" where
  "writeDataPartition fuel rd c fileBuffer kernelfd kernelSizeBytes m =
     (let fileBuffer = fileBuffer + ucast (dataPartitionStartLBA c * ucast (LBASizeBytes c)) in
      case read_into fuel rd kernelfd fileBuffer (fileBuffer + kernelSizeBytes) m of
        Inl e \<Rightarrow> Inl e
      | Inr (_, _, m') \<Rightarrow> Inr m')"

section \<open>Arguments\<close>

definition EFI_FILE_FLAG :: bytes where "EFI_FILE_FLAG = ascii ''--efi''"
definition KERNEL_FILE_FLAG :: bytes where "KERNEL_FILE_FLAG = ascii ''--kernel''"
definition PHYSICAL_BOUNDARY_FLAG :: bytes where "PHYSICAL_BOUNDARY_FLAG = ascii ''--phys''"
definition OPTIMAL_TRANSFER_FLAG :: bytes where "OPTIMAL_TRANSFER_FLAG = ascii ''--optimal-transfer-length''"
definition LBA_FLAG :: bytes where "LBA_FLAG = ascii ''--lba''"

record BuilderArguments =
  efiFile :: "bytes option"
  kernelFile :: "bytes option"
  physicalBoundary :: u32
  optimalTransferLengthGranularity :: u32
  arg_LBASizeBytes :: u16

text \<open>
  One round of the loop. The value of a flag at the end of the command line is the null pointer
  (\<open>None\<close>): it leaves a file name unset, and taking the length of a missing number crashes.
\<close>

definition parse_flag :: "bytes \<Rightarrow> bytes option \<Rightarrow> BuilderArguments \<Rightarrow> BuilderArguments option" where
  "parse_flag flag val a =
     (if flag = EFI_FILE_FLAG then Some (a\<lparr>efiFile := val\<rparr>)
      else if flag = KERNEL_FILE_FLAG then Some (a\<lparr>kernelFile := val\<rparr>)
      else if flag = PHYSICAL_BOUNDARY_FLAG then map_option (\<lambda>v. a\<lparr>physicalBoundary := parseU32 v 10\<rparr>) val
      else if flag = OPTIMAL_TRANSFER_FLAG then map_option (\<lambda>v. a\<lparr>optimalTransferLengthGranularity := parseU32 v 10\<rparr>) val
      else if flag = LBA_FLAG then map_option (\<lambda>v. a\<lparr>arg_LBASizeBytes := parseU16 v 10\<rparr>) val
      else Some a)"

fun parse_arguments :: "bytes list \<Rightarrow> BuilderArguments \<Rightarrow> BuilderArguments option" where
  "parse_arguments [] a = Some a"
| "parse_arguments [flag] a = parse_flag flag None a"
| "parse_arguments (flag # val # rest) a =
     (case parse_flag flag (Some val) a of None \<Rightarrow> None | Some a' \<Rightarrow> parse_arguments rest a')"

definition initial_arguments :: BuilderArguments where
  "initial_arguments = \<lparr>efiFile = None, kernelFile = None, physicalBoundary = 0, optimalTransferLengthGranularity = 0,
     arg_LBASizeBytes = LBASizeBytes configuration\<rparr>"

definition alignment_bytes :: "BuilderArguments \<Rightarrow> u32" where
  "alignment_bytes a =
     (if physicalBoundary a \<noteq> 0 \<or> optimalTransferLengthGranularity a \<noteq> 0
      then (if physicalBoundary a > optimalTransferLengthGranularity a then physicalBoundary a
            else optimalTransferLengthGranularity a)
      else 1 * push_bit 20 1)"

section \<open>Writing the image\<close>

datatype BuildError = MissingFiles | OpenFileFailed | OpenImageFailed | TruncateFailed | MmapFailed
  | EFIPartitionFailed FatError | DataPartitionFailed FatError | BadConfiguration

text \<open>Whether the calls \<^verbatim>\<open>open\<close>, \<^verbatim>\<open>ftruncate\<close> and \<^verbatim>\<open>mmap\<close> on the image succeed.\<close>

record ImageCalls =
  open_ok :: bool
  ftruncate_ok :: bool
  mmap_ok :: bool

definition createUEFIImage ::
    "nat \<Rightarrow> 'f posix_read \<Rightarrow> ImageCalls \<Rightarrow> Configuration \<Rightarrow> 'f \<times> u64 \<Rightarrow> 'f \<times> u64 \<Rightarrow> addr \<Rightarrow> FatState \<Rightarrow> BuildError + memory" where
  "createUEFIImage fuel rd calls c efiFileInfo kernelFileInfo dataBuffer s =
     (if \<not> open_ok calls then Inl OpenImageFailed
      else if \<not> ftruncate_ok calls then Inl TruncateFailed
      else if \<not> mmap_ok calls then Inl MmapFailed
      else
       (let m = writeMBR c dataBuffer (img s);
            m = writeGPTs c dataBuffer m in
        case writeEFISystemPartition fuel rd c dataBuffer (fst efiFileInfo) (snd efiFileInfo) (snd kernelFileInfo) (s\<lparr>img := m\<rparr>) of
          Inl e \<Rightarrow> Inl (EFIPartitionFailed e)
        | Inr s' \<Rightarrow>
            (case writeDataPartition fuel rd c dataBuffer (fst kernelFileInfo) (snd kernelFileInfo) (img s') of
               Inl e \<Rightarrow> Inl (DataPartitionFailed e)
             | Inr m' \<Rightarrow> Inr m')))"

text \<open>
  \<^verbatim>\<open>main\<close>: the files are opened by a parameter that returns the descriptor and the size, or \<open>None\<close>.
\<close>

definition builder_main ::
    "nat \<Rightarrow> 'f posix_read \<Rightarrow> (bytes \<Rightarrow> ('f \<times> u64) option) \<Rightarrow> ImageCalls \<Rightarrow> addr \<Rightarrow> bytes list \<Rightarrow> (BuildError + memory) option" where
  "builder_main fuel rd openFile calls dataBuffer argv =
     (case parse_arguments argv initial_arguments of
        None \<Rightarrow> None
      | Some a \<Rightarrow>
          Some (case (kernelFile a, efiFile a) of
            (Some k, Some e) \<Rightarrow>
              (case openFile e of
                 None \<Rightarrow> Inl OpenFileFailed
               | Some efiFileInfo \<Rightarrow>
                   (case openFile k of
                      None \<Rightarrow> Inl OpenFileFailed
                    | Some kernelFileInfo \<Rightarrow>
                        (case setConfiguration (snd efiFileInfo) (snd kernelFileInfo) (alignment_bytes a)
                                (configuration\<lparr>LBASizeBytes := arg_LBASizeBytes a\<rparr>) (initial_fat_state (\<lambda>_. 0)) of
                           None \<Rightarrow> Inl BadConfiguration
                         | Some (c, s) \<Rightarrow> createUEFIImage fuel rd calls c efiFileInfo kernelFileInfo dataBuffer s)))
          | _ \<Rightarrow> Inl MissingFiles))"

text \<open>The error handler: the image is removed if it can be inspected and was modified since the start.\<close>

definition error_handler_unlinks :: "int \<Rightarrow> int option \<Rightarrow> bool" where
  "error_handler_unlinks programStartTime imageModifiedTime =
     (case imageModifiedTime of None \<Rightarrow> False | Some t \<Rightarrow> \<not> programStartTime > t)"

section \<open>Reading a file\<close>

text \<open>What \<^verbatim>\<open>read\<close> does on a file whose unread bytes are \<open>unread fd\<close>: at least one byte, at most the count.\<close>

definition reads_file :: "'f posix_read \<Rightarrow> ('f \<Rightarrow> bytes) \<Rightarrow> bool" where
  "reads_file rd unread \<longleftrightarrow> (\<forall>fd n. 0 < unat n \<and> unread fd \<noteq> [] \<longrightarrow>
     (\<exists>fd' bs. rd fd n = (fd', Some bs) \<and> bs \<noteq> [] \<and> length bs \<le> unat n \<and> unread fd = bs @ unread fd'))"

lemma read_into_file:
  assumes "reads_file rd unread" "length (unread fd) \<ge> n" "n \<le> fuel" "unat b + n < 2 ^ 64"
  shows "\<exists>fd' m'. read_into fuel rd fd b (b + of_nat n) m = Inr (fd', b + of_nat n, m') \<and>
    load_bytes m' b n = take n (unread fd) \<and> (\<forall>x. n \<le> unat (x - b) \<longrightarrow> m' x = m x)"
  using assms(2-4)
proof (induction fuel arbitrary: fd b n m)
  case 0
  then show ?case by (simp add: load_bytes_def)
next
  case (Suc fuel)
  have nn: "unat (of_nat n :: u64) = n" using Suc.prems(3) by (simp add: unat_of_nat_lt)
  have e: "unat (b + of_nat n) = unat b + n" using Suc.prems(3) nn by (simp add: unat_add_nowrap)
  show ?case
  proof (cases "n = 0")
    case True
    then show ?thesis by (simp add: load_bytes_def)
  next
    case False
    then have "b < b + of_nat n" using e by (simp add: word_less_nat_alt)
    moreover have "unread fd \<noteq> []" using Suc.prems(1) False by auto
    moreover have d: "b + of_nat n - b = (of_nat n :: u64)" by simp
    ultimately obtain fd' bs where r: "rd fd (of_nat n) = (fd', Some bs)" "bs \<noteq> []" "length bs \<le> n" "unread fd = bs @ unread fd'"
      using assms(1) False nn unfolding reads_file_def by (metis gr0I)
    let ?j = "length bs" and ?b = "b + of_nat (length bs)"
    have j: "0 < ?j" using r(2) by simp
    have bj: "unat ?b = unat b + ?j" using Suc.prems(3) r(3) by (simp add: unat_add_nowrap unat_of_nat_lt)
    have eq: "b + of_nat n = ?b + of_nat (n - ?j)" using r(3) by simp
    obtain fd'' m' where m': "read_into fuel rd fd' ?b (?b + of_nat (n - ?j)) (store_bytes m b bs) = Inr (fd'', ?b + of_nat (n - ?j), m')"
        "load_bytes m' ?b (n - ?j) = take (n - ?j) (unread fd')" "\<forall>x. n - ?j \<le> unat (x - ?b) \<longrightarrow> m' x = store_bytes m b bs x"
    proof -
      have "n - ?j \<le> length (unread fd')" "n - ?j \<le> fuel" "unat ?b + (n - ?j) < 2 ^ 64"
        using Suc.prems r(3,4) bj by (simp, use Suc.prems(2) j in linarith, simp)
      from Suc.IH [OF this, of "store_bytes m b bs"] show thesis using that by blast
    qed
    have out: "n - ?j \<le> unat (b + of_nat i - ?b)" if "i < ?j" for i
    proof -
      have "unat (b + of_nat i - ?b) = 2 ^ 64 + i - ?j"
        using unat_offset_diff [of i ?j b] that r(3) Suc.prems(3) by simp
      then show ?thesis using that r(3) Suc.prems(3) by simp
    qed
    have "load_bytes m' b ?j = load_bytes (store_bytes m b bs) b ?j"
      using out m'(3) by (simp add: load_bytes_def)
    also have "\<dots> = bs" using r(3) Suc.prems(3) by (intro load_store_same) simp
    finally have h: "load_bytes m' b ?j = bs" .
    have "load_bytes m' b n = take n (unread fd)"
      using load_bytes_append [of m' b ?j "n - ?j"] h m'(2) r(3,4) by simp
    moreover have "m' x = m x" if "n \<le> unat (x - b)" for x
    proof -
      have "unat (x - ?b) = unat (x - b) - ?j"
        using unat_diff_of_nat [of ?j "x - b"] that r(3) Suc.prems(3) by (simp add: diff_diff_add)
      then have "m' x = store_bytes m b bs x" using m'(3) that by simp
      then show ?thesis using that r(3) by (simp add: store_bytes_def)
    qed
    moreover have "read_into (Suc fuel) rd fd b (b + of_nat n) m = Inr (fd'', b + of_nat n, m')"
      using \<open>b < b + of_nat n\<close> r(1) m'(1) [unfolded eq [symmetric]] d by simp
    ultimately show ?thesis by blast
  qed
qed


text \<open>
  If \<^verbatim>\<open>read\<close> delivers the kernel file piece by piece (at least one byte each time while there are
  any), the data partition holds exactly the kernel's bytes at the configured block, and nothing else
  of the image changes; the loop ends after at most as many reads as the file has bytes.
\<close>

theorem writeDataPartition_copies:
  fixes c :: Configuration and fb :: addr
  assumes "reads_file rd unread" "length (unread fd) = unat n" "unat n \<le> fuel"
  defines "start \<equiv> fb + ucast (dataPartitionStartLBA c * ucast (LBASizeBytes c))"
  assumes "unat start + unat n < 2 ^ 64"
  shows "\<exists>m'. writeDataPartition fuel rd c fb fd n m = Inr m' \<and> load_bytes m' start (unat n) = unread fd \<and>
    (\<forall>x. unat n \<le> unat (x - start) \<longrightarrow> m' x = m x)"
proof -
  have "start + n = start + of_nat (unat n)" by simp
  then show ?thesis
    using read_into_file [OF assms(1) _ assms(3), of fd start m] assms(2,5)
    unfolding writeDataPartition_def start_def [symmetric] Let_def by (metis order_refl sum.case(2) take_all prod.case)
qed

definition byte_reader :: "bytes posix_read" where
  "byte_reader fd n = (if fd = [] \<or> n = 0 then (fd, Some []) else (tl fd, Some [hd fd]))"

lemma byte_reader_reads: "reads_file byte_reader id"
  by (auto simp: reads_file_def byte_reader_def Suc_le_eq)

theorem writeDataPartition_copies_witness:
  "\<exists>m'. writeDataPartition 3 byte_reader sample_configuration 0 [7, 8, 9] 3 (\<lambda>_. 0) = Inr m' \<and>
     load_bytes m' (54 * 512) 3 = [7, 8, 9]"
  using writeDataPartition_copies [OF byte_reader_reads, of "[7, 8, 9]" 3 3 0 sample_configuration "\<lambda>_. 0"]
  by (auto simp: sample_configuration_def configuration_def)

section \<open>The layout of the image\<close>

lemma setConfiguration_total: "LBASizeBytes c \<noteq> 0 \<Longrightarrow> \<exists>c' s'. setConfiguration e k a c s = Some (c', s')"
  by (simp add: setConfiguration_def Let_def split_beta)

text \<open>
  The recorded size in bytes is wrong for images of 4 GiB and more: the product of the number of
  blocks and the block size is computed in 32 bits and only then widened, so the image file is created
  with the size modulo \<open>2 ^ 32\<close>.
\<close>

theorem setConfiguration_size_wraps:
  assumes "setConfiguration e k a c s = Some (c', s')"
  shows "unat (totalImageSizeBytes c') = unat (totalImageSizeLBA c') * unat (LBASizeBytes c') mod 2 ^ 32"
proof -
  have "totalImageSizeBytes c' = ucast (totalImageSizeLBA c' * ucast (LBASizeBytes c'))"
    using assms by (auto simp: setConfiguration_def Let_def split: if_splits prod.splits)
  then show ?thesis by (simp add: unat_ucast_up unat_word_ariths)
qed


theorem setConfiguration_size_wraps_witness:
  "\<exists>c' s'. setConfiguration 0 0 0x100000 configuration (initial_fat_state (\<lambda>_. 0)) = Some (c', s') \<and>
     unat (totalImageSizeBytes c') = unat (totalImageSizeLBA c') * unat (LBASizeBytes c') mod 2 ^ 32"
proof -
  obtain c' s' where r: "setConfiguration 0 0 0x100000 configuration (initial_fat_state (\<lambda>_. 0)) = Some (c', s')"
    using setConfiguration_total [of configuration 0 0 "0x100000" "initial_fat_state (\<lambda>_. 0)"]
    by (auto simp: configuration_def)
  show ?thesis using setConfiguration_size_wraps [OF r] r by blast
qed

text \<open>The configuration that \<^verbatim>\<open>calculateEFIPartitionSize\<close> sees.\<close>

definition aligned_configuration :: "u32 \<Rightarrow> Configuration \<Rightarrow> Configuration" where
  "aligned_configuration al c =
     (let lba = ucast (LBASizeBytes c) :: u32;
          c = (if al > lba then c\<lparr>alignmentLBA := al div lba\<rparr> else c);
          c = c\<lparr>GPTPartitionTableSizeLBA := GPT_PARTITION_TABLE_SIZE div lba\<rparr> in
      c\<lparr>EFISystemPartitionStartLBA := ALIGN_UP_VALUE (2 + GPTPartitionTableSizeLBA c) (alignmentLBA c)\<rparr>)"

lemma ucast_u16_u32_u64: "(ucast (ucast (x :: u16) :: u32) :: u64) = ucast x"
  by (rule word_eq_unatI) (simp add: unat_ucast_up)

lemma setConfiguration_fields:
  fixes c :: Configuration and e kn :: u64 and al :: u32
  assumes "setConfiguration e kn al c s = Some (c', s')"
  defines "c1 \<equiv> aligned_configuration al c"
  defines "efi \<equiv> calculateEFIPartitionSize c1 (ucast (CEILING_DIV_VALUE e (ucast (LBASizeBytes c)))) s"
  shows "LBASizeBytes c' = LBASizeBytes c" "LBASizeBytes c1 = LBASizeBytes c" "s' = snd efi"
    "GPTPartitionTableSizeLBA c' = GPTPartitionTableSizeLBA c1"
    "GPTPartitionTableSizeLBA c1 = GPT_PARTITION_TABLE_SIZE div ucast (LBASizeBytes c)"
    "EFISystemPartitionStartLBA c' = ALIGN_UP_VALUE (2 + GPTPartitionTableSizeLBA c1) (alignmentLBA c1)"
    "EFISystemPartitionSizeLBA c' = ALIGN_UP_VALUE (fst efi) (alignmentLBA c1)"
    "dataPartitionStartLBA c' = EFISystemPartitionStartLBA c' + EFISystemPartitionSizeLBA c'"
    "dataPartitionSizeLBA c' = ucast (CEILING_DIV_VALUE kn (ucast (LBASizeBytes c)))"
    "totalImageSizeLBA c' = dataPartitionStartLBA c' + dataPartitionSizeLBA c' + (GPTPartitionTableSizeLBA c' + 1)"
  using assms(1) unfolding efi_def c1_def
  by (auto simp: setConfiguration_def aligned_configuration_def PROTECTIVE_MBR_def GPT_HEADER_def Let_def
      ucast_u16_u32_u64 split: if_splits prod.splits)

lemma aligned_configuration_alignment:
  fixes al :: u32
  assumes "LBASizeBytes c = 2 ^ k" "k < 16" "alignmentLBA c = 1" "al = 2 ^ m" "m < 32"
  shows "alignmentLBA (aligned_configuration al c) = 2 ^ (m - k)"
proof -
  have u: "unat (ucast (2 ^ k :: u16) :: u32) = 2 ^ k" using assms(2) by (simp add: unat_ucast_up)
  have um: "unat al = 2 ^ m" using assms(4,5) by simp
  show ?thesis
  proof (cases "k < m")
    case True
    have "unat (al div ucast (2 ^ k :: u16)) = 2 ^ m div 2 ^ k" using u um by (simp add: unat_div_distrib)
    also have "\<dots> = 2 ^ (m - k)" using True by (simp add: power_diff)
    finally have "al div ucast (2 ^ k :: u16) = 2 ^ (m - k)" using assms(5) by (simp add: word_unat_eq_iff)
    moreover have "al > ucast (2 ^ k :: u16)" using True u um by (simp add: word_less_nat_alt)
    ultimately show ?thesis using assms(1) by (simp add: aligned_configuration_def Let_def)
  next
    case False
    then have "(2 :: nat) ^ m \<le> 2 ^ k" by (intro power_increasing) simp_all
    then have "\<not> al > ucast (2 ^ k :: u16)" using u um by (simp add: word_less_nat_alt)
    then show ?thesis using assms(1,3) False by (simp add: aligned_configuration_def Let_def)
  qed
qed


lemma unat_blocks:
  fixes b :: u64
  assumes "k < 16" "unat b < 2 ^ 36" "9 \<le> k"
  shows "unat (ucast (CEILING_DIV_VALUE b (ucast (2 ^ k :: u16))) :: u32) = (unat b + (2 ^ k - 1)) div 2 ^ k"
    "(unat b + (2 ^ k - 1)) div 2 ^ k < 2 ^ 28"
proof -
  have "ucast (2 ^ k :: u16) = (2 ^ k :: u64)"
    by (rule word_eq_unatI) (use assms(1) in \<open>simp add: unat_ucast_up\<close>)
  moreover have p: "(2 :: nat) ^ k \<le> 2 ^ 15" "(2 :: nat) ^ 9 \<le> 2 ^ k" using assms by (intro power_increasing; simp)+
  ultimately have u: "unat (CEILING_DIV_VALUE b (ucast (2 ^ k :: u16))) = (unat b + (2 ^ k - 1)) div 2 ^ k"
    using unat_CEILING_DIV_VALUE [of k b] assms(1,2) by simp
  have "(unat b + (2 ^ k - 1)) div 2 ^ k \<le> (unat b + (2 ^ k - 1)) div 2 ^ 9" using p(2) by (intro div_le_mono2) simp_all
  also have "\<dots> < 2 ^ 28" using assms(2) p(1) by (intro less_mult_imp_div_less) simp
  finally show lt: "(unat b + (2 ^ k - 1)) div 2 ^ k < 2 ^ 28" .
  then have "(unat b + (2 ^ k - 1)) div 2 ^ k < 2 ^ 32" by simp
  then show "unat (ucast (CEILING_DIV_VALUE b (ucast (2 ^ k :: u16))) :: u32) = (unat b + (2 ^ k - 1)) div 2 ^ k"
    using u by (simp add: unsigned_ucast_eq take_bit_nat_eq_self_iff)
qed



end
