(* ===== verification/Acpi.thy ===== *)
theory Acpi
  imports Text Cpu
begin

text \<open>
  The tables of ACPI as the program lays them out (\<^verbatim>\<open>efi/acpi\<close>, \<^verbatim>\<open>ignored/acpi\<close>), the signatures of tables, and the
  registers of the local interrupt controller (\<^verbatim>\<open>os-loader/apic.h\<close>). A packed structure is the list of its fields with their
  sizes in bytes; flexible array members take no room.
\<close>

section \<open>Tables\<close>

definition sizeof :: "(string \<times> nat) list \<Rightarrow> nat" where
  "sizeof fs = sum_list (map snd fs)"

definition CAcpiRSDPV1_fields :: "(string \<times> nat) list" where
  "CAcpiRSDPV1_fields = [(''signature'', 8), (''checksum'', 1), (''oem_id'', 6), (''rev'', 1), (''rsdt_addr'', 4)]"

definition CAcpiRSDPV2_fields :: "(string \<times> nat) list" where
  "CAcpiRSDPV2_fields = [(''v1'', sizeof CAcpiRSDPV1_fields), (''length'', 4), (''xsdt_addr'', 8), (''ext_checksum'', 1), (''reserved'', 3)]"

definition ACPI_DESCRIPTION_TABLE_SIGNATURE_LEN :: nat where "ACPI_DESCRIPTION_TABLE_SIGNATURE_LEN = 4"

definition CAcpiDescriptionTableHeader_fields :: "(string \<times> nat) list" where
  "CAcpiDescriptionTableHeader_fields =
     [(''signature'', ACPI_DESCRIPTION_TABLE_SIGNATURE_LEN), (''length'', 4), (''rev'', 1), (''checksum'', 1), (''oem_id'', 6),
      (''oem_table_id'', 8), (''oem_rev'', 4), (''creator_id'', 4), (''creator_rev'', 4)]"

text \<open>\<^verbatim>\<open>descriptionHeaders\<close> is a pointer.\<close>

definition CAcpiSDT_fields :: "(string \<times> nat) list" where
  "CAcpiSDT_fields = [(''header'', sizeof CAcpiDescriptionTableHeader_fields), (''descriptionHeaders'', 8)]"

definition CAcpiMADT_fields :: "(string \<times> nat) list" where
  "CAcpiMADT_fields = [(''header'', sizeof CAcpiSDT_fields), (''local_controller_addr'', 4), (''flags'', 4)]"

definition CAcpiMADTHeader_fields :: "(string \<times> nat) list" where
  "CAcpiMADTHeader_fields = [(''type'', 1), (''length'', 1)]"

definition CAcpiMADTLAPIC_fields :: "(string \<times> nat) list" where
  "CAcpiMADTLAPIC_fields = [(''header'', sizeof CAcpiMADTHeader_fields), (''acpi_processor_uid'', 1), (''lapic_id'', 1), (''flags'', 4)]"

definition CAcpiMADTX2APIC_fields :: "(string \<times> nat) list" where
  "CAcpiMADTX2APIC_fields = [(''header'', sizeof CAcpiMADTHeader_fields), (''reserved'', 2), (''x2apic_id'', 4), (''flags'', 4),
     (''acpi_processor_uid'', 4)]"

definition CAcpiMADTIOAPIC_fields :: "(string \<times> nat) list" where
  "CAcpiMADTIOAPIC_fields = [(''type'', 1), (''length'', 1), (''apic_id'', 1), (''reserved'', 1), (''address'', 4), (''gsib'', 4)]"

definition CAcpiMADTGICC_fields :: "(string \<times> nat) list" where
  "CAcpiMADTGICC_fields = [(''header'', sizeof CAcpiMADTHeader_fields), (''reserved1'', 2), (''iface_no'', 4), (''acpi_uid'', 4), (''flags'', 4),
     (''parking_ver'', 4), (''perf_gsiv'', 4), (''parking_addr'', 8), (''gicc_base_addr'', 8), (''gicv_base_addr'', 8),
     (''gich_base_addr'', 8), (''vgic_maint_gsiv'', 4), (''gicr_base_addr'', 8), (''mpidr'', 8), (''power_eff_class'', 1),
     (''reserved2'', 1), (''spe_overflow_gsiv'', 2)]"

text \<open>The layout of \<^verbatim>\<open>ignored/include/acpi/madt.h\<close>.\<close>

definition InterruptControllerStructure_fields :: "(string \<times> nat) list" where
  "InterruptControllerStructure_fields = [(''type'', 1), (''totalLength'', 1), (''data'', 8)]"

definition ConstantMADT_fields :: "(string \<times> nat) list" where
  "ConstantMADT_fields = [(''header'', sizeof CAcpiDescriptionTableHeader_fields), (''localInterruptControllerAddress'', 4), (''flags'', 4)]"

definition MADT_fields :: "(string \<times> nat) list" where
  "MADT_fields = [(''madt'', sizeof ConstantMADT_fields), (''interruptStructures'', 0)]"

lemma acpi_sizes:
  "sizeof CAcpiRSDPV1_fields = 20" "sizeof CAcpiRSDPV2_fields = 36" "sizeof CAcpiDescriptionTableHeader_fields = 36"
  "sizeof CAcpiMADTHeader_fields = 2"
  by (simp_all add: sizeof_def CAcpiRSDPV1_fields_def CAcpiRSDPV2_fields_def CAcpiDescriptionTableHeader_fields_def
      ACPI_DESCRIPTION_TABLE_SIGNATURE_LEN_def CAcpiMADTHeader_fields_def)

text \<open>The sizes that the specification gives for the entries of the interrupt controller table.\<close>

lemma madt_entry_sizes:
  "sizeof CAcpiMADTLAPIC_fields = 8" "sizeof CAcpiMADTX2APIC_fields = 16" "sizeof CAcpiMADTIOAPIC_fields = 12"
  "sizeof CAcpiMADTGICC_fields = 80"
  by (simp_all add: CAcpiMADTLAPIC_fields_def CAcpiMADTX2APIC_fields_def CAcpiMADTIOAPIC_fields_def CAcpiMADTGICC_fields_def acpi_sizes)
    (simp_all add: sizeof_def)

text \<open>
  The two layouts of the interrupt controller table disagree: behind the common header of 36 bytes the one has
  the address of the local controller, the other a pointer, so that every later field is eight bytes too far.
\<close>

theorem madt_layouts_disagree:
  "field_offset ConstantMADT_fields ''localInterruptControllerAddress'' = 36 \<and>
   field_offset CAcpiMADT_fields ''local_controller_addr'' = 44 \<and> sizeof CAcpiMADT_fields = sizeof MADT_fields + 8"
  by (simp add: ConstantMADT_fields_def CAcpiMADT_fields_def CAcpiSDT_fields_def MADT_fields_def acpi_sizes) (simp add: sizeof_def)

section \<open>Signatures\<close>

datatype ACPITable = FIXED_ACPI_DESCRIPTION_TABLE | MULTIPLE_APIC_DESCRIPTION_TABLE | HIGH_PRECISION_EVENT_TIMER_TABLE
  | PCI_MEMORY_MAPPED_CONFIGURATION_TABLE | WINDOWS_ACPI_EMULATED_DEVICES_TABLE | ERROR_AND_NUM_TABLES

definition acpi_tables :: "ACPITable list" where
  "acpi_tables = [FIXED_ACPI_DESCRIPTION_TABLE, MULTIPLE_APIC_DESCRIPTION_TABLE, HIGH_PRECISION_EVENT_TIMER_TABLE,
     PCI_MEMORY_MAPPED_CONFIGURATION_TABLE, WINDOWS_ACPI_EMULATED_DEVICES_TABLE]"

definition signatures :: "bytes list" where
  "signatures = [ascii ''FACP'', ascii ''APIC'', ascii ''HPET'', ascii ''MCFG'', ascii ''WAET'']"

definition ACPITablesToEnum :: "bytes \<Rightarrow> ACPITable" where
  "ACPITablesToEnum signature =
     (case find (\<lambda>i. stringEquals signature (signatures ! i)) [0..<length acpi_tables] of
        Some i \<Rightarrow> acpi_tables ! i | None \<Rightarrow> ERROR_AND_NUM_TABLES)"

text \<open>A signature of the list gives the table at its place, and every other string gives the error value.\<close>

theorem ACPITablesToEnum_correct:
  "i < length signatures \<longrightarrow> ACPITablesToEnum (signatures ! i) = acpi_tables ! i"
  "s \<notin> set signatures \<longrightarrow> ACPITablesToEnum s = ERROR_AND_NUM_TABLES"
proof -
  have eq: "stringEquals a b \<longleftrightarrow> a = b" for a b by (auto simp: stringEquals_def)
  have d: "distinct signatures" "length acpi_tables = length signatures" by (simp_all add: signatures_def ascii_def acpi_tables_def)
  have "find (\<lambda>j. signatures ! i = signatures ! j) [0..<length signatures] = Some i" if "i < length signatures" for i
    using that d(1) by (auto simp: find_Some_iff nth_eq_iff_index_eq intro!: exI [of _ i])
  then show "i < length signatures \<longrightarrow> ACPITablesToEnum (signatures ! i) = acpi_tables ! i"
    by (simp add: ACPITablesToEnum_def eq d(2))
  have "find (\<lambda>j. s = signatures ! j) [0..<length signatures] = None" if "s \<notin> set signatures"
    using that by (auto simp: find_None_iff)
  then show "s \<notin> set signatures \<longrightarrow> ACPITablesToEnum s = ERROR_AND_NUM_TABLES"
    by (simp add: ACPITablesToEnum_def eq d(2))
qed

section \<open>Local interrupt controller\<close>

definition APIC_LOCAL_ID_REGISTER :: u64 where "APIC_LOCAL_ID_REGISTER = 0xFEE00020"
definition APIC_SIV_REGISTER :: u64 where "APIC_SIV_REGISTER = 0xFEE000F0"
definition APIC_ERROR_STATUS_REGISTER :: u64 where "APIC_ERROR_STATUS_REGISTER = 0xFEE00280"
definition APIC_IPI_ICR_LOW :: u64 where "APIC_IPI_ICR_LOW = 0xFEE00300"
definition APIC_IPI_ICR_HIGH :: u64 where "APIC_IPI_ICR_HIGH = 0xFEE0310"
definition APIC_LVT3_ERROR_REGISTER :: u64 where "APIC_LVT3_ERROR_REGISTER = 0xFEE0370"
definition APIC_IPI_ICR_LOW_RESERVED :: u32 where "APIC_IPI_ICR_LOW_RESERVED = 0xFFF32000"
definition APIC_IPI_ICR_HIGH_RESERVED :: u32 where "APIC_IPI_ICR_HIGH_RESERVED = 0x00FFFFFF"
definition APIC_SIV_ENABLE_LOCAL :: u32 where "APIC_SIV_ENABLE_LOCAL = push_bit 7 1"
definition APIC_INIT_IPI :: u32 where "APIC_INIT_IPI = 0x00C4500"
definition APIC_START_UP_IPI :: u32 where "APIC_START_UP_IPI = 0x00C4600"
definition APIC_ICR_DELIVERY_STATUS :: u32 where "APIC_ICR_DELIVERY_STATUS = push_bit 12 1"

text \<open>The two macros on the words at the addresses of the registers.\<close>

definition APIC_IPI_ICR_SET_HIGH :: "u32 \<Rightarrow> (u64 \<Rightarrow> u32) \<Rightarrow> u64 \<Rightarrow> u32" where
  "APIC_IPI_ICR_SET_HIGH destination r =
     r(APIC_IPI_ICR_HIGH := (r APIC_IPI_ICR_HIGH AND APIC_IPI_ICR_HIGH_RESERVED) OR push_bit 24 destination)"

definition APIC_IPI_ICR_SET_LOW :: "u32 \<Rightarrow> (u64 \<Rightarrow> u32) \<Rightarrow> u64 \<Rightarrow> u32" where
  "APIC_IPI_ICR_SET_LOW bottom3Bytes r =
     r(APIC_IPI_ICR_LOW := (r APIC_IPI_ICR_LOW AND APIC_IPI_ICR_LOW_RESERVED) OR bottom3Bytes)"

text \<open>The high half gets the destination and keeps its reserved bits.\<close>

theorem APIC_IPI_ICR_SET_HIGH_sets:
  "drop_bit 24 (APIC_IPI_ICR_SET_HIGH d r APIC_IPI_ICR_HIGH) = d AND 0xFF \<and>
   APIC_IPI_ICR_SET_HIGH d r APIC_IPI_ICR_HIGH AND APIC_IPI_ICR_HIGH_RESERVED = r APIC_IPI_ICR_HIGH AND APIC_IPI_ICR_HIGH_RESERVED"
proof -
  have m: "(0xFF :: u32) = mask 8" "APIC_IPI_ICR_HIGH_RESERVED = mask 24"
    by (simp_all add: mask_eq_exp_minus_1 APIC_IPI_ICR_HIGH_RESERVED_def)
  show ?thesis unfolding m
    by (intro conjI bit_word_eqI) (auto simp: APIC_IPI_ICR_SET_HIGH_def m bit_simps dest: bit_imp_le_length)
qed

text \<open>
  A digit is missing in two of the addresses: the high half of the command register and the error vector are not in
  the page of the controller, where its other registers are.
\<close>

theorem apic_registers_misplaced:
  "drop_bit 12 APIC_IPI_ICR_LOW = 0xFEE00 \<and> drop_bit 12 APIC_IPI_ICR_HIGH \<noteq> 0xFEE00 \<and> drop_bit 12 APIC_LVT3_ERROR_REGISTER \<noteq> 0xFEE00"
  by (simp add: APIC_IPI_ICR_LOW_def APIC_IPI_ICR_HIGH_def APIC_LVT3_ERROR_REGISTER_def)

end
