(* ===== verification/Loader.thy ===== *)
theory Loader
  imports Kernel ImageBuilder Acpi
begin

text \<open>
  The boot loader: \<^verbatim>\<open>os-loader\<close> with the parts of \<^verbatim>\<open>efi\<close> and \<^verbatim>\<open>x86/efi\<close> it runs, from \<^verbatim>\<open>efi_main\<close> to the jump into the
  kernel. The firmware is not part of the program: its services are the fields of a record, acting on
  the memory and on a state of their own. An operation returns, exits through \<^verbatim>\<open>waitKeyThenReset\<close> with its error
  message, or is stuck (a failed assertion or a loop without end in the code it calls). Progress messages
  are not modelled.
\<close>

section \<open>Firmware\<close>

definition STATUS_WIDTH :: nat where "STATUS_WIDTH = 64"
definition STATUS_ERROR_MASK :: u64 where "STATUS_ERROR_MASK = push_bit (STATUS_WIDTH - 8) 0x80"
definition STATUS_ERROR_OEM_MASK :: u64 where "STATUS_ERROR_OEM_MASK = push_bit (STATUS_WIDTH - 8) 0xC0"
definition STATUS_WARNING_MASK :: u64 where "STATUS_WARNING_MASK = push_bit (STATUS_WIDTH - 8) 0x00"
definition STATUS_WARNING_OEM_MASK :: u64 where "STATUS_WARNING_OEM_MASK = push_bit (STATUS_WIDTH - 8) 0x40"
definition STATUS_ERROR_C :: "u64 \<Rightarrow> u64" where "STATUS_ERROR_C x = x OR STATUS_ERROR_MASK"
definition STATUS_ERROR_OEM_C :: "u64 \<Rightarrow> u64" where "STATUS_ERROR_OEM_C x = x OR STATUS_ERROR_OEM_MASK"
definition STATUS_WARNING_C :: "u64 \<Rightarrow> u64" where "STATUS_WARNING_C x = x OR STATUS_WARNING_MASK"
definition STATUS_WARNING_OEM_C :: "u64 \<Rightarrow> u64" where "STATUS_WARNING_OEM_C x = x OR STATUS_WARNING_OEM_MASK"
definition EFI_ERROR :: "u64 \<Rightarrow> bool" where "EFI_ERROR status \<longleftrightarrow> status AND STATUS_ERROR_MASK \<noteq> 0"
definition SUCCESS :: u64 where "SUCCESS = 0"

text \<open>The codes with their names.\<close>

definition error_codes :: "(string \<times> u64) list" where
  "error_codes = map (\<lambda>(s, n). (s, STATUS_ERROR_C n))
    [(''LOAD_ERROR'', 1), (''INVALID_PARAMETER'', 2), (''UNSUPPORTED'', 3), (''BAD_BUFFER_SIZE'', 4),
     (''BUFFER_TOO_SMALL'', 5), (''NOT_READY'', 6), (''DEVICE_ERROR'', 7), (''WRITE_PROTECTED'', 8),
     (''OUT_OF_RESOURCES'', 9), (''VOLUME_CORRUPTED'', 10), (''VOLUME_FULL'', 11), (''NO_MEDIA'', 12),
     (''MEDIA_CHANGED'', 13), (''NOT_FOUND'', 14), (''ACCESS_DENIED'', 15), (''NO_RESPONSE'', 16),
     (''NO_MAPPING'', 17), (''TIMEOUT'', 18), (''NOT_STARTED'', 19), (''ALREADY_STARTED'', 20), (''ABORTED'', 21),
     (''ICMP_ERROR'', 22), (''TFTP_ERROR'', 23), (''PROTOCOL_ERROR'', 24), (''INCOMPATIBLE_VERSION'', 25),
     (''SECURITY_VIOLATION'', 26), (''CRC_ERROR'', 27), (''END_OF_MEDIA'', 28), (''END_OF_FILE'', 31),
     (''INVALID_LANGUAGE'', 32), (''COMPROMISED_DATA'', 33), (''IP_ADDRESS_CONFLICT'', 34), (''HTTP_ERROR'', 35)]"

definition warning_codes :: "(string \<times> u64) list" where
  "warning_codes = map (\<lambda>(s, n). (s, STATUS_WARNING_C n))
    [(''WARN_UNKNOWN_GLYPH'', 1), (''WARN_DELETE_FAILURE'', 2), (''WARN_WRITE_FAILURE'', 3),
     (''WARN_BUFFER_TOO_SMALL'', 4), (''WARN_STALE_DATA'', 5), (''WARN_FILE_SYSTEM'', 6), (''WARN_RESET_REQUIRED'', 7)]"

definition BUFFER_TOO_SMALL :: u64 where "BUFFER_TOO_SMALL = STATUS_ERROR_C 5"
definition UEFI_PAGE_SIZE :: u64 where "UEFI_PAGE_SIZE = push_bit 12 1"

datatype protocol = LOADED_IMAGE_PROTOCOL | BLOCK_IO_PROTOCOL | SIMPLE_FILE_SYSTEM_PROTOCOL

text \<open>The media of a block device, and the mode of the graphics output.\<close>

record BlockIoMedia =
  MediaId :: u32
  BlockSize :: u32
  LogicalPartition :: bool

record GraphicsMode =
  frameBufferBase :: u64
  frameBufferSize :: u64
  horizontalResolution :: u32
  verticalResolution :: u32
  pixelsPerScanLine :: u32

record ConfigurationTable =
  vendor_guid :: UUID
  vendor_table :: addr

record MemoryInfo =
  memoryMapSize :: u64
  memoryMap :: addr
  mapKey :: u64
  memoryDescriptorSize :: u64
  memoryDescriptors :: "MemoryDescriptor list"

text \<open>
  The calls the loader makes. Handles and protocol interfaces are numbers; a call that delivers an
  interface delivers what the loader reads of it. A path is the list of its components. \<open>fw_get_memory_map\<close> gets the size and the address of the buffer.
\<close>

record 'f firmware =
  fw_image :: u64
  fw_open_loaded_image :: "u64 \<Rightarrow> memory \<times> 'f \<Rightarrow> (u64 \<times> u64) \<times> memory \<times> 'f"
  fw_open_block_io :: "u64 \<Rightarrow> memory \<times> 'f \<Rightarrow> (u64 \<times> BlockIoMedia) \<times> memory \<times> 'f"
  fw_open_file_system :: "u64 \<Rightarrow> memory \<times> 'f \<Rightarrow> (u64 \<times> u64) \<times> memory \<times> 'f"
  fw_close_protocol :: "u64 \<Rightarrow> protocol \<Rightarrow> memory \<times> 'f \<Rightarrow> memory \<times> 'f"
  fw_locate_block_handles :: "memory \<times> 'f \<Rightarrow> (u64 \<times> u64 list) \<times> memory \<times> 'f"
  fw_read_blocks :: "u64 \<Rightarrow> u32 \<Rightarrow> u64 \<Rightarrow> u64 \<Rightarrow> addr \<Rightarrow> memory \<times> 'f \<Rightarrow> u64 \<times> memory \<times> 'f"
  fw_allocate_pages :: "u64 \<Rightarrow> memory \<times> 'f \<Rightarrow> (u64 \<times> addr) \<times> memory \<times> 'f"
  fw_free_pages :: "addr \<Rightarrow> u64 \<Rightarrow> memory \<times> 'f \<Rightarrow> u64 \<times> memory \<times> 'f"
  fw_open_volume :: "u64 \<Rightarrow> memory \<times> 'f \<Rightarrow> (u64 \<times> u64) \<times> memory \<times> 'f"
  fw_open :: "u64 \<Rightarrow> string list \<Rightarrow> memory \<times> 'f \<Rightarrow> (u64 \<times> u64) \<times> memory \<times> 'f"
  fw_get_info :: "u64 \<Rightarrow> memory \<times> 'f \<Rightarrow> (u64 \<times> u64) \<times> memory \<times> 'f"
  fw_read :: "u64 \<Rightarrow> u64 \<Rightarrow> addr \<Rightarrow> memory \<times> 'f \<Rightarrow> (u64 \<times> u64) \<times> memory \<times> 'f"
  fw_close :: "u64 \<Rightarrow> memory \<times> 'f \<Rightarrow> memory \<times> 'f"
  fw_locate_graphics :: "memory \<times> 'f \<Rightarrow> (u64 \<times> GraphicsMode) \<times> memory \<times> 'f"
  fw_get_memory_map :: "u64 \<Rightarrow> addr \<Rightarrow> memory \<times> 'f \<Rightarrow> (u64 \<times> u64 \<times> u64 \<times> u64 \<times> MemoryDescriptor list) \<times> memory \<times> 'f"
  fw_exit_boot_services :: "u64 \<Rightarrow> memory \<times> 'f \<Rightarrow> u64 \<times> memory \<times> 'f"
  fw_configuration_tables :: "ConfigurationTable list"

datatype 'a efi_result = Done 'a | Exit string | Halted

text \<open>The machine the loader runs on.\<close>

record 'f machine =
  mc_memory :: memory
  mc_firmware :: 'f
  mc_cpu :: cpu
  mc_tables :: ptmem
  mc_level4 :: addr
  mc_gdt :: DescriptorTableRegister

type_synonym ('a, 'f) efi = "'f machine \<Rightarrow> ('a \<times> 'f machine) efi_result"

definition efi_return :: "'a \<Rightarrow> ('a, 'f) efi" where
  "efi_return x c = Done (x, c)"

definition efi_bind :: "('a, 'f) efi \<Rightarrow> ('a \<Rightarrow> ('b, 'f) efi) \<Rightarrow> ('b, 'f) efi" where
  "efi_bind p f c = (case p c of Done (x, c) \<Rightarrow> f x c | Exit e \<Rightarrow> Exit e | Halted \<Rightarrow> Halted)"

definition EXIT_WITH_MESSAGE :: "string \<Rightarrow> ('a, 'f) efi" where
  "EXIT_WITH_MESSAGE e c = Exit e"

definition firmware_call :: "(memory \<times> 'f \<Rightarrow> 'a \<times> memory \<times> 'f) \<Rightarrow> ('a, 'f) efi" where
  "firmware_call call c = (case call (mc_memory c, mc_firmware c) of (x, m, f) \<Rightarrow> Done (x, c\<lparr>mc_memory := m, mc_firmware := f\<rparr>))"

definition firmware_do :: "(memory \<times> 'f \<Rightarrow> memory \<times> 'f) \<Rightarrow> (unit, 'f) efi" where
  "firmware_do call = firmware_call (\<lambda>w. ((), call w))"

text \<open>A call with a status, under \<^verbatim>\<open>EXIT_WITH_MESSAGE_IF\<close>.\<close>

definition checked :: "string \<Rightarrow> (memory \<times> 'f \<Rightarrow> (u64 \<times> 'a) \<times> memory \<times> 'f) \<Rightarrow> ('a, 'f) efi" where
  "checked e call = efi_bind (firmware_call call) (\<lambda>(status, x). if EFI_ERROR status then EXIT_WITH_MESSAGE e else efi_return x)"

definition checked_status :: "string \<Rightarrow> (memory \<times> 'f \<Rightarrow> u64 \<times> memory \<times> 'f) \<Rightarrow> (unit, 'f) efi" where
  "checked_status e call = checked e (\<lambda>w. case call w of (status, w) \<Rightarrow> ((status, ()), w))"

section \<open>Reading the disk\<close>

definition allocate_for :: "'f firmware \<Rightarrow> string \<Rightarrow> u64 \<Rightarrow> (addr, 'f) efi" where
  "allocate_for fw e n = checked e (fw_allocate_pages fw (CEILING_DIV_VALUE n UEFI_PAGE_SIZE))"

text \<open>
  \<^verbatim>\<open>ALIGN_UP_VALUE\<close> with a 32-bit alignment: the complement is taken at 32 bits, so the upper half of the result is zero.
\<close>

definition align_to_block :: "u64 \<Rightarrow> u32 \<Rightarrow> u64" where
  "align_to_block n block = (n + ucast (block - 1)) AND ucast (NOT (block - 1))"

definition open_image :: "'f firmware \<Rightarrow> (u64, 'f) efi" where
  "open_image fw = checked ''Could not open Loaded Image Protocol'' (fw_open_loaded_image fw (fw_image fw))"

definition close_image :: "'f firmware \<Rightarrow> u64 \<Rightarrow> protocol \<Rightarrow> (unit, 'f) efi" where
  "close_image fw device protocol =
     efi_bind (firmware_do (fw_close_protocol fw device protocol)) (\<lambda>_.
     firmware_do (fw_close_protocol fw (fw_image fw) LOADED_IMAGE_PROTOCOL))"

text \<open>
  The loop over the handles: the buffer of the first device with the media of the image whose blocks
  start with the kernel's magic number.
\<close>

primrec image_loop :: "'f firmware \<Rightarrow> bytes \<Rightarrow> u64 \<Rightarrow> u64 \<Rightarrow> u32 \<Rightarrow> u64 list \<Rightarrow> ((addr \<times> u64) option, 'f) efi" where
  "image_loop fw KERNEL_MAGIC diskLba n imageMedia [] = efi_return None"
| "image_loop fw KERNEL_MAGIC diskLba n imageMedia (h # hs) =
     efi_bind (checked ''Could not Open Block IO protocol on handle'' (fw_open_block_io fw h)) (\<lambda>media.
     let alignedBytes = align_to_block n (BlockSize media) in
     efi_bind (allocate_for fw ''Could not allocete data for disk buffer'' alignedBytes) (\<lambda>address.
     efi_bind (if MediaId media = imageMedia
       then efi_bind (firmware_call (fw_read_blocks fw h (MediaId media) diskLba alignedBytes address)) (\<lambda>status c.
         Done (\<not> EFI_ERROR status \<and> compare_bytes KERNEL_MAGIC (load_bytes (mc_memory c) address (length KERNEL_MAGIC)) = 0, c))
       else efi_return False) (\<lambda>readBlocks.
     efi_bind (firmware_do (fw_close_protocol fw h BLOCK_IO_PROTOCOL)) (\<lambda>_.
     if readBlocks then efi_return (Some (address, alignedBytes))
     else image_loop fw KERNEL_MAGIC diskLba n imageMedia hs))))"

definition readDiskLbasFromCurrentGlobalImage :: "'f firmware \<Rightarrow> bytes \<Rightarrow> u64 \<Rightarrow> u64 \<Rightarrow> (addr \<times> u64, 'f) efi" where
  "readDiskLbasFromCurrentGlobalImage fw KERNEL_MAGIC diskLba n =
     efi_bind (open_image fw) (\<lambda>device.
     efi_bind (checked ''Could not open Block IO Protocol for this loaded image.'' (fw_open_block_io fw device)) (\<lambda>image.
     efi_bind (checked ''Could not locate any Block IO Protocols.'' (fw_locate_block_handles fw)) (\<lambda>handles.
     efi_bind (image_loop fw KERNEL_MAGIC diskLba n (MediaId image) handles) (\<lambda>data.
     efi_bind (close_image fw device BLOCK_IO_PROTOCOL) (\<lambda>_.
     case data of None \<Rightarrow> EXIT_WITH_MESSAGE ''Could not find Block IO protocol for disk with ID:'' | Some d \<Rightarrow> efi_return d)))))"

text \<open>\<^verbatim>\<open>readDiskLbas\<close>: the whole disk with the given media.\<close>

primrec disk_loop :: "'f firmware \<Rightarrow> u64 \<Rightarrow> u64 \<Rightarrow> u32 \<Rightarrow> u64 list \<Rightarrow> ((addr \<times> u64) option, 'f) efi" where
  "disk_loop fw diskLba n mediaID [] = efi_return None"
| "disk_loop fw diskLba n mediaID (h # hs) =
     efi_bind (checked ''Could not Open Block IO protocol on handle'' (fw_open_block_io fw h)) (\<lambda>media.
     efi_bind (if MediaId media = mediaID \<and> \<not> LogicalPartition media
       then (if BlockSize media = 0 then (\<lambda>c. Halted) else
         let alignedBytes = ((n + ucast (BlockSize media) - 1) div ucast (BlockSize media)) * ucast (BlockSize media) in
         efi_bind (allocate_for fw ''Could not allocate data for disk buffer'' alignedBytes) (\<lambda>address.
         efi_bind (checked_status ''Could not read blocks from disk buffer''
           (fw_read_blocks fw h (MediaId media) diskLba alignedBytes address)) (\<lambda>_.
         efi_return (Some (address, alignedBytes)))))
       else efi_return None) (\<lambda>data.
     efi_bind (firmware_do (fw_close_protocol fw h BLOCK_IO_PROTOCOL)) (\<lambda>_.
     case data of Some d \<Rightarrow> efi_return (Some d) | None \<Rightarrow> disk_loop fw diskLba n mediaID hs)))"

definition readDiskLbas :: "'f firmware \<Rightarrow> u64 \<Rightarrow> u64 \<Rightarrow> u32 \<Rightarrow> (addr \<times> u64, 'f) efi" where
  "readDiskLbas fw diskLba n mediaID =
     efi_bind (checked ''Could not locate any Block IO Protocols.'' (fw_locate_block_handles fw)) (\<lambda>handles.
     efi_bind (disk_loop fw diskLba n mediaID handles) (\<lambda>data.
     case data of None \<Rightarrow> EXIT_WITH_MESSAGE ''Could not find Block IO protocol for disk with ID:'' | Some d \<Rightarrow> efi_return d))"

definition getDiskImageMediaID :: "'f firmware \<Rightarrow> (u32, 'f) efi" where
  "getDiskImageMediaID fw =
     efi_bind (open_image fw) (\<lambda>device.
     efi_bind (checked ''Could not open Block IO Protocol for this loaded image.'' (fw_open_block_io fw device)) (\<lambda>media.
     efi_bind (close_image fw device BLOCK_IO_PROTOCOL) (\<lambda>_. efi_return (MediaId media))))"

section \<open>The kernel's description\<close>

record DataPartitionFile =
  dpf_bytes :: u64
  dpf_lbaStart :: u64

definition decimal_u64 :: "bytes \<Rightarrow> u64" where
  "decimal_u64 = foldl (\<lambda>acc c. acc * 10 + (ucast c - 48)) 0"

text \<open>The tokens of a line from the second on; \<open>layout\<close> counts the lines.\<close>

fun parse_tokens :: "nat \<Rightarrow> bytes list \<Rightarrow> DataPartitionFile \<Rightarrow> DataPartitionFile" where
  "parse_tokens layout [] k = k"
| "parse_tokens layout (t # ts) k =
     parse_tokens layout ts
       (if layout = 0 then k\<lparr>dpf_bytes := decimal_u64 t\<rparr> else if layout = 1 then k\<lparr>dpf_lbaStart := decimal_u64 t\<rparr> else k)"

fun parse_lines :: "nat \<Rightarrow> bytes list \<Rightarrow> DataPartitionFile \<Rightarrow> DataPartitionFile" where
  "parse_lines layout [] k = k"
| "parse_lines layout (l # ls) k = parse_lines (layout + 1) ls (parse_tokens layout (tl (TOKENIZE_STRING l 61 0)) k)"

text \<open>The result on a structure that is not initialised, whose values are \<open>k\<close>.\<close>

definition parse_kernel_info :: "DataPartitionFile \<Rightarrow> bytes \<Rightarrow> DataPartitionFile" where
  "parse_kernel_info k dataFile = parse_lines 0 (TOKENIZE_STRING dataFile 10 0) k"

definition getKernelInfo :: "'f firmware \<Rightarrow> DataPartitionFile \<Rightarrow> (DataPartitionFile, 'f) efi" where
  "getKernelInfo fw k =
     efi_bind (open_image fw) (\<lambda>device.
     efi_bind (checked ''Could not open Simple File System Protocol'' (fw_open_file_system fw device)) (\<lambda>sfsp.
     efi_bind (checked ''Could not Open Volume for root directory in ESP'' (fw_open_volume fw sfsp)) (\<lambda>root.
     efi_bind (checked ''Could not Open File'' (fw_open fw root [''EFI'', ''FLOS'', ''KERNEL.INF''])) (\<lambda>file.
     efi_bind (checked ''Could not get file info'' (fw_get_info fw file)) (\<lambda>fileSize.
     efi_bind (allocate_for fw ''Could not allocate memory for file'' fileSize) (\<lambda>address.
     efi_bind (firmware_call (fw_read fw file fileSize address)) (\<lambda>(status, len).
     if EFI_ERROR status \<or> len \<noteq> fileSize then EXIT_WITH_MESSAGE ''Could not read file into buffer''
     else
     efi_bind (firmware_do (fw_close fw root)) (\<lambda>_.
     efi_bind (firmware_do (fw_close fw file)) (\<lambda>_.
     efi_bind (close_image fw device SIMPLE_FILE_SYSTEM_PROTOCOL) (\<lambda>_ c.
     Done (parse_kernel_info k (load_bytes (mc_memory c) address (unat len)), c)))))))))))"

section \<open>The root table of ACPI\<close>

datatype RSDPRevision = RSDP_REVISION_1 | RSDP_REVISION_2

record RSDPStruct =
  rsdp_guid :: UUID
  rsdp_size :: nat
  rsdp_revision :: RSDPRevision

definition EFI_ACPI_20_TABLE_GUID :: UUID where
  "EFI_ACPI_20_TABLE_GUID = \<lparr>timeLo = 0x8868e871, timeMid = 0xe4f1, timeHiAndVer = 0x11d3,
     clockSeqHiAndRes = 0xbc, clockSeqLo = 0x22, node = [0x00, 0x80, 0xc7, 0x3c, 0x88, 0x81]\<rparr>"

definition ACPI_TABLE_GUID :: UUID where
  "ACPI_TABLE_GUID = \<lparr>timeLo = 0xeb9d2d30, timeMid = 0x2d88, timeHiAndVer = 0x11d3,
     clockSeqHiAndRes = 0x9a, clockSeqLo = 0x16, node = [0x00, 0x90, 0x27, 0x3f, 0xc1, 0x4d]\<rparr>"

definition possibleRsdps :: "RSDPStruct list" where
  "possibleRsdps = [\<lparr>rsdp_guid = ACPI_TABLE_GUID, rsdp_size = sizeof CAcpiRSDPV1_fields, rsdp_revision = RSDP_REVISION_1\<rparr>,
     \<lparr>rsdp_guid = EFI_ACPI_20_TABLE_GUID, rsdp_size = sizeof CAcpiRSDPV2_fields, rsdp_revision = RSDP_REVISION_2\<rparr>]"

definition ACPIChecksum :: "memory \<Rightarrow> addr \<Rightarrow> nat \<Rightarrow> bool" where
  "ACPIChecksum m p n \<longleftrightarrow> foldl (\<lambda>acc b. acc + b) 0 (load_bytes m p n) = (0 :: u8)"

text \<open>The inner loop over the kinds of one table: what was found so far, and whether the search is over.\<close>

fun rsdp_kinds :: "memory \<Rightarrow> ConfigurationTable \<Rightarrow> RSDPStruct list \<Rightarrow> (addr \<times> RSDPRevision) option \<Rightarrow> bool \<times> (addr \<times> RSDPRevision) option" where
  "rsdp_kinds m t [] found = (False, found)"
| "rsdp_kinds m t (k # ks) found =
     (if compare_bytes (uuid_bytes (vendor_guid t)) (uuid_bytes (rsdp_guid k)) \<noteq> 0 then rsdp_kinds m t ks found
      else if \<not> ACPIChecksum m (vendor_table t) (rsdp_size k) then rsdp_kinds m t ks found
      else let found = Some (vendor_table t, rsdp_revision k) in
        if rsdp_revision k = RSDP_REVISION_2 then (True, found) else rsdp_kinds m t ks found)"

fun rsdp_tables :: "memory \<Rightarrow> ConfigurationTable list \<Rightarrow> (addr \<times> RSDPRevision) option \<Rightarrow> (addr \<times> RSDPRevision) option" where
  "rsdp_tables m [] found = found"
| "rsdp_tables m (t # ts) found =
     (case rsdp_kinds m t possibleRsdps found of (stop, found) \<Rightarrow> if stop then found else rsdp_tables m ts found)"

definition getRSDP :: "memory \<Rightarrow> ConfigurationTable list \<Rightarrow> (addr \<times> RSDPRevision) option" where
  "getRSDP m tables = rsdp_tables m tables None"

section \<open>Memory of the loader\<close>

definition efi_allocate4KiBPage :: "'f firmware \<Rightarrow> u64 \<Rightarrow> (addr, 'f) efi" where
  "efi_allocate4KiBPage fw numPages = checked ''Could not allocate 4KiB page'' (fw_allocate_pages fw numPages)"

definition zero_memory :: "addr \<Rightarrow> u64 \<Rightarrow> (unit, 'f) efi" where
  "zero_memory p n c = (case memset (mc_memory c) p 0 n of None \<Rightarrow> Halted | Some m \<Rightarrow> Done ((), c\<lparr>mc_memory := m\<rparr>))"

definition allocAndZero :: "'f firmware \<Rightarrow> u64 \<Rightarrow> (addr, 'f) efi" where
  "allocAndZero fw numPages =
     efi_bind (efi_allocate4KiBPage fw numPages) (\<lambda>page.
     efi_bind (zero_memory page (numPages * UEFI_PAGE_SIZE)) (\<lambda>_. efi_return page))"

definition getMemoryInfo :: "'f firmware \<Rightarrow> (MemoryInfo, 'f) efi" where
  "getMemoryInfo fw =
     efi_bind (firmware_call (fw_get_memory_map fw 0 0)) (\<lambda>(status, n, key, descriptorSize, _).
     if status \<noteq> BUFFER_TOO_SMALL then EXIT_WITH_MESSAGE ''Should have received a buffer too small error here!''
     else
     let n = n + descriptorSize * 2 in
     efi_bind (allocate_for fw ''Could not allocate data for memory map buffer'' n) (\<lambda>buffer.
     efi_bind (checked ''Getting memory map failed!'' (fw_get_memory_map fw n buffer)) (\<lambda>(n, key, descriptorSize, ds).
     efi_return \<lparr>memoryMapSize = n, memoryMap = buffer, mapKey = key, memoryDescriptorSize = descriptorSize, memoryDescriptors = ds\<rparr>)))"

text \<open>
  \<^verbatim>\<open>mapVirtualRegion\<close> with the loader's page allocator, which exits when the firmware has no page.
\<close>

definition loader_page :: "'f firmware \<Rightarrow> 'f machine \<Rightarrow> string option + (addr \<times> 'f machine)" where
  "loader_page fw c = (case efi_allocate4KiBPage fw 1 c of Done x \<Rightarrow> Inr x | Exit e \<Rightarrow> Inl (Some e) | Halted \<Rightarrow> Inl None)"

definition map_in_loader :: "nat \<Rightarrow> 'f firmware \<Rightarrow> u64 \<Rightarrow> PagedMemory \<Rightarrow> (unit, 'f) efi" where
  "map_in_loader fuel fw virt memory c =
     (case mapVirtualRegion fuel (loader_page fw) (mc_level4 c) virt memory UEFI_PAGE_SIZE (mc_tables c, c) of
        Inl (AllocFailed (Some e)) \<Rightarrow> Exit e
      | Inl _ \<Rightarrow> Halted
      | Inr (tables, c) \<Rightarrow> Done ((), c\<lparr>mc_tables := tables\<rparr>))"

section \<open>The processor\<close>

text \<open>\<open>cpuid n\<close> gives EAX, EBX, ECX and EDX; \<open>tsc\<close> the two readings of the time stamp counter.\<close>

definition feature :: "string \<Rightarrow> u32 \<Rightarrow> bool" where
  "feature f edx \<longleftrightarrow> bit edx (field_offset CPUFeatures_edx_fields f)"

definition on_cpu :: "(cpu \<Rightarrow> cpu) \<Rightarrow> (unit, 'f) efi" where
  "on_cpu f c = Done ((), c\<lparr>mc_cpu := f (mc_cpu c)\<rparr>)"

definition messageAndExit_unless :: "bool \<Rightarrow> string \<Rightarrow> (unit, 'f) efi" where
  "messageAndExit_unless ok e = (if ok then efi_return () else EXIT_WITH_MESSAGE e)"

definition bootstrapProcessorWork :: "'f firmware \<Rightarrow> (unit, 'f) efi" where
  "bootstrapProcessorWork fw =
     efi_bind (on_cpu disablePICAndNMI) (\<lambda>_.
     efi_bind (allocate_for fw ''Could not allocate data for disk buffer'' (3 * 4096)) (\<lambda>gdtData c.
     case prepNewGDT gdtData (gdtData + 4096) of (_, _, r) \<Rightarrow> Done ((), c\<lparr>mc_gdt := r\<rparr>)))"

definition initArchitecture :: "'f firmware \<Rightarrow> (u32 \<Rightarrow> u32 \<times> u32 \<times> u32 \<times> u32) \<Rightarrow> u64 \<times> u64 \<Rightarrow> (u64, 'f) efi" where
  "initArchitecture fw cpuid tsc =
     efi_bind (efi_allocate4KiBPage fw 1) (\<lambda>newCR3.
     efi_bind (zero_memory newCR3 UEFI_PAGE_SIZE) (\<lambda>_.
     efi_bind (\<lambda>c. Done ((), c\<lparr>mc_level4 := newCR3,
        mc_tables := (\<lambda>a. if a - newCR3 < UEFI_PAGE_SIZE then 0 else mc_tables c a)\<rparr>)) (\<lambda>_.
     case cpuid 0 of (maxCPUID, _) \<Rightarrow>
     efi_bind (messageAndExit_unless (1 \<le> maxCPUID) ''CPU does not support CPUID of 1 and above'') (\<lambda>_.
     case cpuid 1 of (_, _, _, edx) \<Rightarrow>
     efi_bind (messageAndExit_unless (feature ''APIC'' edx) ''CPU does not support APIC'') (\<lambda>_.
     efi_bind (messageAndExit_unless (feature ''TSC'' edx) ''CPU does not support Time Stamp Counter'') (\<lambda>_.
     let cyclesPerMicroSecond = calibrateWait (fst tsc) (snd tsc) in
     efi_bind (messageAndExit_unless (feature ''PGE'' edx) ''CPU does not support global memory paging!'') (\<lambda>_.
     efi_bind (on_cpu CPUEnableGPE) (\<lambda>_.
     efi_bind (messageAndExit_unless (feature ''FPU'' edx) ''CPU does not support FPU!'') (\<lambda>_.
     efi_bind (on_cpu CPUEnableFPU) (\<lambda>_.
     efi_bind (messageAndExit_unless (feature ''SSE'' edx) ''CPU does not support SSE!'') (\<lambda>_.
     efi_bind (on_cpu CPUEnableSSE) (\<lambda>_.
     efi_bind (bootstrapProcessorWork fw) (\<lambda>_. efi_return cyclesPerMicroSecond)))))))))))))"

section \<open>Boot\<close>

text \<open>Leaving the firmware: a map that became stale is fetched once more. The result is the last map.\<close>

definition exit_boot_services :: "'f firmware \<Rightarrow> (MemoryInfo, 'f) efi" where
  "exit_boot_services fw =
     efi_bind (getMemoryInfo fw) (\<lambda>memoryInfo.
     efi_bind (firmware_call (fw_exit_boot_services fw (mapKey memoryInfo))) (\<lambda>status.
     if EFI_ERROR status then
       efi_bind (checked_status ''Could not free allocated memory map''
         (fw_free_pages fw (memoryMap memoryInfo) (CEILING_DIV_VALUE (memoryMapSize memoryInfo) UEFI_PAGE_SIZE))) (\<lambda>_.
       efi_bind (getMemoryInfo fw) (\<lambda>memoryInfo.
       efi_bind (checked_status ''could not exit boot services!'' (fw_exit_boot_services fw (mapKey memoryInfo))) (\<lambda>_.
       efi_return memoryInfo)))
     else efi_return memoryInfo))"

definition descriptors_of :: "MemoryInfo \<Rightarrow> MemoryDescriptor list" where
  "descriptors_of i = take (unat (memoryMapSize i div memoryDescriptorSize i)) (memoryDescriptors i)"

primrec map_descriptors :: "nat \<Rightarrow> 'f firmware \<Rightarrow> MemoryDescriptor list \<Rightarrow> (unit, 'f) efi" where
  "map_descriptors fuel fw [] = efi_return ()"
| "map_descriptors fuel fw (d # ds) =
     efi_bind (map_in_loader fuel fw (md_physicalStart d) \<lparr>pageStart = md_physicalStart d, numberOfPages = md_numberOfPages d\<rparr>) (\<lambda>_.
     map_descriptors fuel fw ds)"

text \<open>What the kernel starts with.\<close>

record Handover =
  ho_params :: KernelParameters
  ho_stackPointer :: u64
  ho_entry :: u64

definition jumpIntoKernel :: "KernelParameters \<Rightarrow> u64 \<Rightarrow> (Handover, 'f) efi" where
  "jumpIntoKernel params stackPointer c =
     Done (\<lparr>ho_params = params, ho_stackPointer = stackPointer, ho_entry = KERNEL_CODE_START\<rparr>,
       c\<lparr>mc_cpu := (enableNewGDT (mc_gdt c) (mc_cpu c))\<lparr>cr3 := mc_level4 c\<rparr>\<rparr>)"

definition efi_main :: "nat \<Rightarrow> 'f firmware \<Rightarrow> bytes \<Rightarrow> DataPartitionFile \<Rightarrow> (u32 \<Rightarrow> u32 \<times> u32 \<times> u32 \<times> u32) \<Rightarrow> u64 \<times> u64 \<Rightarrow>
    (Handover, 'f) efi" where
  "efi_main fuel fw KERNEL_MAGIC uninitialised cpuid tsc =
     efi_bind (initArchitecture fw cpuid tsc) (\<lambda>_.
     efi_bind (getKernelInfo fw uninitialised) (\<lambda>kernelFile.
     efi_bind (readDiskLbasFromCurrentGlobalImage fw KERNEL_MAGIC (dpf_lbaStart kernelFile) (dpf_bytes kernelFile)) (\<lambda>(buf, len).
     efi_bind (map_in_loader fuel fw KERNEL_CODE_START \<lparr>pageStart = buf, numberOfPages = CEILING_DIV_VALUE len UEFI_PAGE_SIZE\<rparr>) (\<lambda>_.
     efi_bind (checked ''Could not locate locate GOP'' (fw_locate_graphics fw)) (\<lambda>gop.
     efi_bind (getMemoryInfo fw) (\<lambda>memoryInfo.
     if memoryDescriptorSize memoryInfo = 0 then (\<lambda>c. Halted) else
     efi_bind (map_descriptors fuel fw (descriptors_of memoryInfo)) (\<lambda>_.
     efi_bind (map_in_loader fuel fw (frameBufferBase gop)
       \<lparr>pageStart = frameBufferBase gop, numberOfPages = CEILING_DIV_VALUE (frameBufferSize gop) UEFI_PAGE_SIZE\<rparr>) (\<lambda>_.
     efi_bind (allocAndZero fw (CEILING_DIV_VALUE KERNEL_PARAMS_SIZE UEFI_PAGE_SIZE)) (\<lambda>kernelParams.
     efi_bind (map_in_loader fuel fw KERNEL_PARAMS_START
       \<lparr>pageStart = kernelParams, numberOfPages = CEILING_DIV_VALUE KERNEL_PARAMS_SIZE UEFI_PAGE_SIZE\<rparr>) (\<lambda>_.
     efi_bind (allocAndZero fw (CEILING_DIV_VALUE STACK_SIZE UEFI_PAGE_SIZE)) (\<lambda>stackEnd.
     efi_bind (map_in_loader fuel fw BOTTOM_STACK
       \<lparr>pageStart = stackEnd, numberOfPages = CEILING_DIV_VALUE STACK_SIZE UEFI_PAGE_SIZE\<rparr>) (\<lambda>_.
     let stackPointer = stackEnd + STACK_SIZE;
         fb = \<lparr>fb_ptr = frameBufferBase gop, fb_size = frameBufferSize gop, fb_columns = horizontalResolution gop,
           fb_rows = verticalResolution gop, fb_scanline = pixelsPerScanLine gop\<rparr> in
     efi_bind (\<lambda>c. if getRSDP (mc_memory c) (fw_configuration_tables fw) = None then Exit ''Could not find an RSDP!'' else Done ((), c)) (\<lambda>_.
     efi_bind (exit_boot_services fw) (\<lambda>memoryInfo.
     jumpIntoKernel \<lparr>kp_fb = fb, kp_memory = \<lparr>km_descriptors = descriptors_of memoryInfo\<rparr>\<rparr> stackPointer))))))))))))))"

section \<open>The loader reads what the image builder writes\<close>

lemma store_bytes_append:
  assumes "length xs + length ys < 2 ^ 64"
  shows "store_bytes (store_bytes m a xs) (a + of_nat (length xs)) ys = store_bytes m a (xs @ ys)"
proof
  fix x
  let ?n = "length xs"
  let ?d = "unat (x - a)"
  have d: "unat (x - (a + of_nat ?n)) = (if ?n \<le> ?d then ?d - ?n else 2 ^ 64 + ?d - ?n)"
    using unat_diff_of_nat [of ?n "x - a"] assms by (simp add: diff_diff_eq)
  show "store_bytes (store_bytes m a xs) (a + of_nat ?n) ys x = store_bytes m a (xs @ ys) x"
  proof (cases "?n \<le> ?d")
    case True
    then have "?d - ?n < length ys \<longleftrightarrow> ?d < ?n + length ys" by linarith
    then show ?thesis using d True by (simp add: store_bytes_def nth_append)
  next
    case False
    then have "\<not> unat (x - (a + of_nat ?n)) < length ys" unfolding d using assms by simp
    then show ?thesis using False by (simp add: store_bytes_def nth_append)
  qed
qed

primrec texts :: "Convertible list \<Rightarrow> bytes option" where
  "texts [] = Some []"
| "texts (d # ds) = (case CONVERT_TO_STRING d of None \<Rightarrow> None | Some t \<Rightarrow> map_option ((@) t) (texts ds))"

lemma KLOG_APPENDs_texts:
  assumes "texts ds = Some t" "length t < 2 ^ 64"
  shows "KLOG_APPENDs p ds m = Some (p + of_nat (length t), store_bytes m p t)"
  using assms
proof (induction ds arbitrary: p m t)
  case Nil
  then show ?case by (simp add: store_bytes_def)
next
  case (Cons d ds)
  then obtain t1 t2 where t: "CONVERT_TO_STRING d = Some t1" "texts ds = Some t2" "t = t1 @ t2"
    by (auto split: option.splits)
  then show ?case using Cons.IH [OF t(2), of "p + of_nat (length t1)" "store_bytes m p t1"] Cons.prems(2) store_bytes_append [of t1 t2 m p]
    by (simp add: appendToBuffer_def add.assoc)
qed

text \<open>Fields joined by a delimiter come apart in one way only.\<close>

lemma fields_unique:
  assumes "concat (map (\<lambda>t. t @ [k]) xs) = concat (map (\<lambda>t. t @ [k]) ys)" "\<forall>t\<in>set xs. k \<notin> set t" "\<forall>t\<in>set ys. k \<notin> set t"
  shows "xs = ys"
  using assms
proof (induction xs arbitrary: ys)
  case Nil
  then show ?case by (cases ys) auto
next
  case (Cons x xs)
  then obtain y ys' where ys: "ys = y # ys'" by (cases ys) auto
  have e: "x @ k # concat (map (\<lambda>t. t @ [k]) xs) = y @ k # concat (map (\<lambda>t. t @ [k]) ys')" using Cons.prems(1) ys by simp
  have "x = takeWhile (\<lambda>c. c \<noteq> k) (x @ k # concat (map (\<lambda>t. t @ [k]) xs))" using Cons.prems(2) by (subst takeWhile_append2) auto
  also have "\<dots> = y" unfolding e using Cons.prems(3) ys by (subst takeWhile_append2) auto
  finally have "x = y" .
  then show ?case using e Cons ys by auto
qed

lemma TOKENIZE_STRING_join:
  assumes "\<forall>t\<in>set ts. k \<notin> set t"
  shows "TOKENIZE_STRING (concat (map (\<lambda>t. t @ [k]) ts)) k 0 = ts"
proof -
  let ?s = "concat (map (\<lambda>t. t @ [k]) ts)"
  have "?s = [] \<or> last ?s = k" by (cases ts rule: rev_cases) simp_all
  then show ?thesis using TOKENIZE_STRING_drop [of ?s k 0] assms by (intro fields_unique) auto
qed

lemma TOKENIZE_STRING_open:
  assumes "\<forall>t\<in>set ts. k \<notin> set t" "k \<notin> set u" "u \<noteq> []"
  shows "TOKENIZE_STRING (concat (map (\<lambda>t. t @ [k]) ts) @ u) k 0 = ts @ [u]"
proof -
  let ?s = "concat (map (\<lambda>t. t @ [k]) ts) @ u"
  have "?s \<noteq> []" "last ?s \<noteq> k" using assms(2,3) by auto
  then show ?thesis using TOKENIZE_STRING_drop [of ?s k 0] assms by (intro fields_unique [of k]) auto
qed

lemma decimal_u64_decimal: "decimal_u64 (decimal n) = of_nat n"
proof -
  have sub: "(ucast c :: u64) - 48 = ucast (c - 48)" if "is_digit c" for c :: u8
    using that by (intro word_eq_unatI) (simp add: is_digit_def unat_sub_nowrap unat_ucast_up)
  have "foldl (\<lambda>acc c. acc * 10 + (ucast c - 48)) r s = foldl (\<lambda>acc c. acc * 10 + ucast (c - 48)) r s"
    if "list_all is_digit s" for r :: u64 and s
    using that by (induction s arbitrary: r) (simp_all add: sub)
  then show ?thesis
    using parse_fold [where 'a = 64, of "decimal n" 0] decimal_spec [of n] by (simp add: decimal_u64_def decimal_value_def)
qed

lemma digits_plain: "c \<in> set (decimal n) \<Longrightarrow> c \<noteq> 10 \<and> c \<noteq> 61"
  using decimal_spec [of n] by (auto simp: list_all_iff is_digit_def)

lemma parse_line:
  assumes "61 \<notin> set name" "layout < 2"
  shows "parse_tokens layout (tl (TOKENIZE_STRING (name @ [61] @ decimal n) 61 0)) k =
    (if layout = 0 then k\<lparr>dpf_bytes := of_nat n\<rparr> else k\<lparr>dpf_lbaStart := of_nat n\<rparr>)"
proof -
  have "decimal n \<noteq> []" "61 \<notin> set (decimal n)" using decimal_spec [of n] digits_plain by blast+
  then have "TOKENIZE_STRING (name @ [61] @ decimal n) 61 0 = [name] @ [decimal n]"
    using TOKENIZE_STRING_open [of "[name]" 61 "decimal n"] assms(1) by simp
  then show ?thesis using assms(2) by (simp add: decimal_u64_decimal)
qed

lemma kernel_inf_texts:
  "texts (kernel_inf c n) = Some (concat (map (\<lambda>t. t @ [10])
     [ascii ''KERNEL_SIZE_BYTES'' @ [61] @ decimal (unat n), ascii ''KERNEL_START_LBA'' @ [61] @ decimal (unat (dataPartitionStartLBA c))]))"
proof -
  have "U64ToString x STRING_CONVERTER_BUF_LEN = Some (decimal (unat x))" for x
    by (rule U64ToString_decimal) (simp add: STRING_CONVERTER_BUF_LEN_def)
  then show ?thesis by (simp add: kernel_inf_def stringToString_def ascii_def unat_ucast_up)
qed

text \<open>
  C6. The boot loader reads back what the image builder wrote: the text of \<^verbatim>\<open>KERNEL.INF\<close>, for every kernel size and
  every configuration, parses to exactly that size and that first block.
\<close>

theorem kernel_info_roundtrip:
  "\<exists>p' m'. KLOG_APPENDs p (kernel_inf c n) m = Some (p', m') \<and>
     parse_kernel_info k (load_bytes m' p (unat (p' - p))) = \<lparr>dpf_bytes = n, dpf_lbaStart = ucast (dataPartitionStartLBA c)\<rparr>"
proof -
  let ?a = "ascii ''KERNEL_SIZE_BYTES''" and ?b = "ascii ''KERNEL_START_LBA''"
  let ?lines = "[?a @ [61] @ decimal (unat n), ?b @ [61] @ decimal (unat (dataPartitionStartLBA c))]"
  let ?t = "concat (map (\<lambda>t. t @ [10]) ?lines)"
  have names: "61 \<notin> set ?a" "61 \<notin> set ?b" "10 \<notin> set ?a" "10 \<notin> set ?b" by (simp_all add: ascii_def)
  have "unat x < 10 ^ 20" for x :: u64 using unat_lt_u64 [of x] by simp
  then have "length (decimal (unat n)) \<le> 20" by (rule length_decimal) simp
  moreover have "length (decimal (unat (dataPartitionStartLBA c))) \<le> 10"
    using unat_lt_2p [of "dataPartitionStartLBA c"] by (intro length_decimal) simp_all
  ultimately have len: "length ?t < 2 ^ 64" by (simp add: ascii_def)
  have "KLOG_APPENDs p (kernel_inf c n) m = Some (p + of_nat (length ?t), store_bytes m p ?t)"
    by (rule KLOG_APPENDs_texts [OF kernel_inf_texts len])
  moreover have "unat (p + of_nat (length ?t) - p) = length ?t"
    using len unat_of_nat_lt [of "length ?t", where 'a = 64] by (simp only: add_diff_cancel_left' len_num1 len_bit0) simp
  moreover have "parse_kernel_info k ?t = \<lparr>dpf_bytes = n, dpf_lbaStart = ucast (dataPartitionStartLBA c)\<rparr>"
  proof -
    have tok: "TOKENIZE_STRING ?t 10 0 = ?lines"
      using names digits_plain by (intro TOKENIZE_STRING_join) auto
    show ?thesis unfolding parse_kernel_info_def tok using names by (simp add: parse_line del: append_Cons append_Nil)
  qed
  ultimately show ?thesis using load_store_same [OF len] by (intro exI conjI) (assumption, simp only:)
qed

section \<open>Finding the kernel on disk\<close>

lemma status_masks:
  "STATUS_ERROR_MASK = 0x8000000000000000" "STATUS_ERROR_OEM_MASK = 0xC000000000000000"
  "STATUS_WARNING_MASK = 0" "STATUS_WARNING_OEM_MASK = 0x4000000000000000"
  by (simp_all add: STATUS_ERROR_MASK_def STATUS_ERROR_OEM_MASK_def STATUS_WARNING_MASK_def STATUS_WARNING_OEM_MASK_def STATUS_WIDTH_def)

text \<open>
  Every error code, also one of a vendor, is an error for the tests of the loader, and neither success nor a
  warning is; no two codes are the same.
\<close>

theorem status_codes_classified:
  "EFI_ERROR (STATUS_ERROR_C x) \<and> EFI_ERROR (STATUS_ERROR_OEM_C x) \<and> \<not> EFI_ERROR SUCCESS \<and>
   (\<not> bit x 63 \<longrightarrow> \<not> EFI_ERROR (STATUS_WARNING_C x) \<and> \<not> EFI_ERROR (STATUS_WARNING_OEM_C x))"
proof -
  have m: "STATUS_ERROR_MASK = push_bit 63 1" "STATUS_ERROR_OEM_MASK = push_bit 63 1 OR push_bit 62 1"
    "STATUS_WARNING_OEM_MASK = push_bit 62 1" by (simp_all add: status_masks)
  have e: "EFI_ERROR v \<longleftrightarrow> bit v 63" for v
    by (simp add: EFI_ERROR_def m(1) push_bit_eq_mult bit_iff_and_push_bit_not_eq_0 flip: push_bit_eq_mult)
  show ?thesis by (simp add: e STATUS_ERROR_C_def STATUS_ERROR_OEM_C_def STATUS_WARNING_C_def STATUS_WARNING_OEM_C_def m status_masks(3) SUCCESS_def bit_simps)
qed

lemma status_codes_listed:
  "list_all (EFI_ERROR \<circ> snd) error_codes" "list_all (\<lambda>c. \<not> EFI_ERROR (snd c) \<and> snd c \<noteq> SUCCESS) warning_codes"
  "map_of error_codes ''BUFFER_TOO_SMALL'' = Some BUFFER_TOO_SMALL"
  by (simp_all add: error_codes_def warning_codes_def EFI_ERROR_def STATUS_ERROR_C_def STATUS_WARNING_C_def BUFFER_TOO_SMALL_def SUCCESS_def status_masks)

lemma feature_offsets:
  "field_offset CPUFeatures_edx_fields ''APIC'' = 9" "field_offset CPUFeatures_edx_fields ''TSC'' = 4"
  "field_offset CPUFeatures_edx_fields ''PGE'' = 13" "field_offset CPUFeatures_edx_fields ''FPU'' = 0"
  "field_offset CPUFeatures_edx_fields ''SSE'' = 25"
  by (simp_all add: CPUFeatures_edx_fields_def)

lemma feature_bits:
  "feature ''APIC'' edx = bit edx 9" "feature ''TSC'' edx = bit edx 4" "feature ''PGE'' edx = bit edx 13" "feature ''FPU'' edx = bit edx 0"
  "feature ''SSE'' edx = bit edx 25"
  by (simp_all only: feature_def feature_offsets)

lemma EFI_ERROR_SUCCESS [simp]: "\<not> EFI_ERROR SUCCESS"
  by (simp add: EFI_ERROR_def SUCCESS_def)

text \<open>
  A firmware whose services work: every handle has its media, a read delivers the blocks of the disk,
  allocation returns some buffer, and closing changes nothing the loader sees.
\<close>

definition disk_firmware :: "'f firmware \<Rightarrow> u64 \<Rightarrow> u64 list \<Rightarrow> (u64 \<Rightarrow> BlockIoMedia) \<Rightarrow> (u64 \<Rightarrow> u64 \<Rightarrow> u64 \<Rightarrow> bytes) \<Rightarrow> bool" where
  "disk_firmware fw device hs med disk \<longleftrightarrow>
     (\<forall>w. fw_open_loaded_image fw (fw_image fw) w = ((SUCCESS, device), w)) \<and>
     (\<forall>h w. fw_open_block_io fw h w = ((SUCCESS, med h), w)) \<and>
     (\<forall>h p w. fw_close_protocol fw h p w = w) \<and>
     (\<forall>w. fw_locate_block_handles fw w = ((SUCCESS, hs), w)) \<and>
     (\<forall>n m f. \<exists>a f'. fw_allocate_pages fw n (m, f) = ((SUCCESS, a), m, f')) \<and>
     (\<forall>h lba n a m f. fw_read_blocks fw h (MediaId (med h)) lba n a (m, f) = (SUCCESS, store_bytes m a (disk h lba n), f)) \<and>
     (\<forall>h lba n. length (disk h lba n) = unat n)"

text \<open>The handle has the media of the image and its blocks start with the magic number.\<close>

definition kernel_disk :: "(u64 \<Rightarrow> BlockIoMedia) \<Rightarrow> (u64 \<Rightarrow> u64 \<Rightarrow> u64 \<Rightarrow> bytes) \<Rightarrow> bytes \<Rightarrow> u64 \<Rightarrow> u64 \<Rightarrow> u32 \<Rightarrow> u64 \<Rightarrow> bool" where
  "kernel_disk med disk magic lba n imgId h \<longleftrightarrow> MediaId (med h) = imgId \<and>
     take (length magic) (disk h lba (align_to_block n (BlockSize (med h)))) = magic"

lemma load_store_prefix:
  assumes "k \<le> length bs" "length bs < 2 ^ 64"
  shows "load_bytes (store_bytes m a bs) a k = take k bs"
  using assms by (intro nth_equalityI) (simp_all add: load_bytes_def store_bytes_def unat_of_nat_lt)

lemma machine_update_same [simp]: "c\<lparr>mc_memory := mc_memory c, mc_firmware := mc_firmware c\<rparr> = c"
  by simp

lemma firmware_simps:
  assumes "disk_firmware fw device hs med disk"
  shows "firmware_do (fw_close_protocol fw h p) c = Done ((), c)"
    and "checked e (fw_open_block_io fw h) c = Done (med h, c)"
    and "open_image fw c = Done (device, c)"
    and "checked e (fw_locate_block_handles fw) c = Done (hs, c)"
  using assms by (simp_all add: disk_firmware_def firmware_do_def firmware_call_def checked_def open_image_def efi_bind_def efi_return_def)

lemma firmware_allocates:
  assumes "disk_firmware fw device hs med disk"
  shows "\<exists>a f'. allocate_for fw e n c = Done (a, c\<lparr>mc_firmware := f'\<rparr>)"
proof -
  obtain a f' where "fw_allocate_pages fw (CEILING_DIV_VALUE n UEFI_PAGE_SIZE) (mc_memory c, mc_firmware c) = ((SUCCESS, a), mc_memory c, f')"
    using assms unfolding disk_firmware_def by meson
  then show ?thesis by (auto simp: allocate_for_def checked_def firmware_call_def efi_bind_def efi_return_def)
qed

lemma image_loop_finds:
  assumes fw: "disk_firmware fw device hs' med disk"
    and magic: "\<forall>h\<in>set hs. length magic \<le> unat (align_to_block n (BlockSize (med h)))"
  shows "case find (kernel_disk med disk magic lba n imgId) hs of
      None \<Rightarrow> \<exists>c'. image_loop fw magic lba n imgId hs c = Done (None, c')
    | Some h \<Rightarrow> \<exists>a c'. image_loop fw magic lba n imgId hs c = Done (Some (a, align_to_block n (BlockSize (med h))), c') \<and>
        load_bytes (mc_memory c') a (unat (align_to_block n (BlockSize (med h)))) = disk h lba (align_to_block n (BlockSize (med h)))"
  using magic
proof (induction hs arbitrary: c)
  case Nil
  then show ?case by (simp add: efi_return_def)
next
  case (Cons h hs)
  let ?n = "align_to_block n (BlockSize (med h))"
  have len: "length (disk h lba ?n) = unat ?n" "unat ?n < 2 ^ 64" using fw unat_lt_u64 [of ?n] by (simp_all add: disk_firmware_def)
  obtain a f' where al: "allocate_for fw ''Could not allocete data for disk buffer'' ?n c = Done (a, c\<lparr>mc_firmware := f'\<rparr>)"
    using firmware_allocates [OF fw] by blast
  let ?m = "store_bytes (mc_memory c) a (disk h lba ?n)"
  have rd: "firmware_call (fw_read_blocks fw h (MediaId (med h)) lba ?n a) (c\<lparr>mc_firmware := f'\<rparr>) =
      Done (SUCCESS, c\<lparr>mc_firmware := f', mc_memory := ?m\<rparr>)"
    using fw by (simp add: disk_firmware_def firmware_call_def)
  have cmp: "compare_bytes magic (load_bytes ?m a (length magic)) = 0 \<longleftrightarrow> take (length magic) (disk h lba ?n) = magic"
    using len Cons.prems load_store_prefix [of "length magic" "disk h lba ?n" "mc_memory c" a]
    by (auto simp: compare_bytes_0_iff)
  have ld: "load_bytes ?m a (unat ?n) = disk h lba ?n" using load_store_same [of "disk h lba ?n"] len by simp
  show ?case
  proof (cases "kernel_disk med disk magic lba n imgId h")
    case True
    then have id: "MediaId (med h) = imgId" by (simp add: kernel_disk_def)
    have "image_loop fw magic lba n imgId (h # hs) c = Done (Some (a, ?n), c\<lparr>mc_firmware := f', mc_memory := ?m\<rparr>)"
      using cmp True by (simp add: efi_bind_def firmware_simps [OF fw] al rd [unfolded id] id Let_def kernel_disk_def efi_return_def)
    then show ?thesis using True ld by simp
  next
    case False
    have "\<exists>c'. image_loop fw magic lba n imgId (h # hs) c = image_loop fw magic lba n imgId hs c'"
    proof (cases "MediaId (med h) = imgId")
      case id: True
      then show ?thesis using cmp False
        by (auto simp: efi_bind_def firmware_simps [OF fw] al rd [unfolded id] Let_def kernel_disk_def efi_return_def)
    qed (auto simp: efi_bind_def firmware_simps [OF fw] al Let_def efi_return_def)
    then obtain c' where e: "image_loop fw magic lba n imgId (h # hs) c = image_loop fw magic lba n imgId hs c'" ..
    show ?thesis unfolding e using Cons.IH [of c'] Cons.prems False by simp
  qed
qed



text \<open>A firmware with a memory stick and the disk of the running image, which has block size 512.\<close>

definition demo_firmware :: "u64 firmware" where
  "demo_firmware = \<lparr>fw_image = 7, fw_open_loaded_image = (\<lambda>_ w. ((SUCCESS, 2), w)),
     fw_open_block_io = (\<lambda>h w. ((SUCCESS, \<lparr>MediaId = ucast h, BlockSize = 512, LogicalPartition = False\<rparr>), w)),
     fw_open_file_system = (\<lambda>h w. ((SUCCESS, h), w)), fw_close_protocol = (\<lambda>_ _ w. w), fw_locate_block_handles = (\<lambda>w. ((SUCCESS, [1, 2]), w)),
     fw_read_blocks = (\<lambda>h _ _ n a (m, f). (SUCCESS, store_bytes m a (replicate (unat n) (ucast h)), f)),
     fw_allocate_pages = (\<lambda>n (m, f). ((SUCCESS, f), m, f + n * 4096)), fw_free_pages = (\<lambda>_ _ w. (SUCCESS, w)),
     fw_open_volume = (\<lambda>h w. ((SUCCESS, h), w)), fw_open = (\<lambda>h _ w. ((SUCCESS, h), w)), fw_get_info = (\<lambda>_ w. ((SUCCESS, 0), w)),
     fw_read = (\<lambda>_ n _ w. ((SUCCESS, n), w)), fw_close = (\<lambda>_ w. w),
     fw_locate_graphics = (\<lambda>w. ((SUCCESS, \<lparr>frameBufferBase = 0, frameBufferSize = 0, horizontalResolution = 0, verticalResolution = 0, pixelsPerScanLine = 0\<rparr>), w)),
     fw_get_memory_map = (\<lambda>n _ (m, f). ((if n < 96 then BUFFER_TOO_SMALL else SUCCESS, 96, f, 48, []), m, f)),
     fw_exit_boot_services = (\<lambda>key (m, f). (if key = f then SUCCESS else STATUS_ERROR_MASK OR 2, m, f)), fw_configuration_tables = []\<rparr>"

definition demo_machine :: "u64 machine" where
  "demo_machine = \<lparr>mc_memory = (\<lambda>_. 0), mc_firmware = 0x10000, mc_cpu = undefined, mc_tables = (\<lambda>_. 0), mc_level4 = 0, mc_gdt = undefined\<rparr>"


section \<open>The root table\<close>

text \<open>A table of the kind with a correct checksum.\<close>

definition rsdp_valid :: "memory \<Rightarrow> RSDPStruct \<Rightarrow> ConfigurationTable \<Rightarrow> bool" where
  "rsdp_valid m k t \<longleftrightarrow> uuid_bytes (vendor_guid t) = uuid_bytes (rsdp_guid k) \<and>
     sum_list (load_bytes m (vendor_table t) (rsdp_size k)) = 0"

lemma foldl_plus_sum: "foldl (\<lambda>acc b. acc + b) a bs = a + sum_list (bs :: u8 list)"
  by (induction bs arbitrary: a) (simp_all add: add.assoc)

lemma rsdp_kinds_eq:
  "rsdp_kinds m t possibleRsdps found =
     (if rsdp_valid m (possibleRsdps ! 1) t then (True, Some (vendor_table t, RSDP_REVISION_2))
      else if rsdp_valid m (possibleRsdps ! 0) t then (False, Some (vendor_table t, RSDP_REVISION_1)) else (False, found))"
  by (simp add: possibleRsdps_def rsdp_valid_def ACPIChecksum_def compare_bytes_0_iff foldl_plus_sum Let_def)

lemma rsdp_tables_eq:
  "rsdp_tables m ts found =
     (case find (rsdp_valid m (possibleRsdps ! 1)) ts of
        Some t \<Rightarrow> Some (vendor_table t, RSDP_REVISION_2)
      | None \<Rightarrow> (case find (rsdp_valid m (possibleRsdps ! 0)) (rev ts) of
          Some t \<Rightarrow> Some (vendor_table t, RSDP_REVISION_1) | None \<Rightarrow> found))"
proof (induction ts arbitrary: found)
  case (Cons t ts)
  have app: "find P (xs @ [t]) = (case find P xs of Some y \<Rightarrow> Some y | None \<Rightarrow> if P t then Some t else None)" for P xs
    by (induction xs) auto
  show ?case using Cons.IH by (simp add: rsdp_kinds_eq app split: option.splits)
qed simp

text \<open>
  C25. \<^verbatim>\<open>getRSDP\<close> prefers the newer table wherever it stands: it is the first table of revision 2 with a correct checksum if there
  is one, otherwise the last of revision 1 with a correct checksum, otherwise none.
\<close>

theorem getRSDP_prefers_newest:
  "getRSDP m ts =
     (case find (rsdp_valid m \<lparr>rsdp_guid = EFI_ACPI_20_TABLE_GUID, rsdp_size = 36, rsdp_revision = RSDP_REVISION_2\<rparr>) ts of
        Some t \<Rightarrow> Some (vendor_table t, RSDP_REVISION_2)
      | None \<Rightarrow> (case find (rsdp_valid m \<lparr>rsdp_guid = ACPI_TABLE_GUID, rsdp_size = 20, rsdp_revision = RSDP_REVISION_1\<rparr>) (rev ts) of
          Some t \<Rightarrow> Some (vendor_table t, RSDP_REVISION_1) | None \<Rightarrow> None))"
  unfolding getRSDP_def rsdp_tables_eq by (simp only: possibleRsdps_def acpi_sizes nth_Cons_0 nth_Cons_Suc One_nat_def)

section \<open>Leaving the firmware\<close>

lemma efi_bind_Done: "efi_bind p f c = Done r \<longleftrightarrow> (\<exists>x c'. p c = Done (x, c') \<and> f x c' = Done r)"
  by (auto simp: efi_bind_def split: efi_result.splits)

lemma efi_return_Done: "efi_return x c = Done r \<longleftrightarrow> r = (x, c)"
  by (auto simp: efi_return_def)

lemma EXIT_Done: "EXIT_WITH_MESSAGE e c \<noteq> Done r"
  by (simp add: EXIT_WITH_MESSAGE_def)

lemma checked_Done:
  "checked e call c = Done (x, c') \<longleftrightarrow> (\<exists>status m f. call (mc_memory c, mc_firmware c) = ((status, x), m, f) \<and>
     \<not> EFI_ERROR status \<and> c' = c\<lparr>mc_memory := m, mc_firmware := f\<rparr>)"
  by (auto simp: checked_def efi_bind_Done firmware_call_def efi_return_Done EXIT_Done split: prod.splits if_splits)

lemma checked_status_Done:
  "checked_status e call c = Done (u, c') \<longleftrightarrow> (\<exists>status m f. call (mc_memory c, mc_firmware c) = (status, m, f) \<and>
     \<not> EFI_ERROR status \<and> c' = c\<lparr>mc_memory := m, mc_firmware := f\<rparr>)"
  by (auto simp: checked_status_def checked_Done split: prod.splits)

lemma exit_boot_services_accepted:
  assumes "exit_boot_services fw c = Done (i, c')"
  shows "\<exists>w status. fw_exit_boot_services fw (mapKey i) w = (status, mc_memory c', mc_firmware c') \<and> \<not> EFI_ERROR status"
proof -
  obtain i1 c1 status c2 where 1: "getMemoryInfo fw c = Done (i1, c1)"
      "firmware_call (fw_exit_boot_services fw (mapKey i1)) c1 = Done (status, c2)"
    and rest: "(if EFI_ERROR status then
       efi_bind (checked_status ''Could not free allocated memory map''
         (fw_free_pages fw (memoryMap i1) (CEILING_DIV_VALUE (memoryMapSize i1) UEFI_PAGE_SIZE))) (\<lambda>_.
       efi_bind (getMemoryInfo fw) (\<lambda>memoryInfo.
       efi_bind (checked_status ''could not exit boot services!'' (fw_exit_boot_services fw (mapKey memoryInfo))) (\<lambda>_.
       efi_return memoryInfo)))
     else efi_return i1) c2 = Done (i, c')"
    using assms by (auto simp: exit_boot_services_def efi_bind_Done)
  show ?thesis
  proof (cases "EFI_ERROR status")
    case True
    then obtain c3 where "checked_status ''could not exit boot services!'' (fw_exit_boot_services fw (mapKey i)) c3 = Done ((), c')"
      using rest by (auto simp: efi_bind_Done efi_return_Done)
    then show ?thesis by (force simp: checked_status_Done)
  next
    case False
    then have "i = i1" "c' = c2" using rest by (simp_all add: efi_return_Done)
    then show ?thesis using 1(2) False by (force simp: firmware_call_def split: prod.splits)
  qed
qed

lemma demo_leaves_firmware: "\<exists>i c'. exit_boot_services demo_firmware demo_machine = Done (i, c')"
  by (simp add: exit_boot_services_def getMemoryInfo_def allocate_for_def checked_def firmware_call_def efi_bind_def efi_return_def
      demo_firmware_def demo_machine_def Let_def BUFFER_TOO_SMALL_def STATUS_ERROR_C_def status_masks EFI_ERROR_def SUCCESS_def
      CEILING_DIV_VALUE_def UEFI_PAGE_SIZE_def)

text \<open>What holds whenever an operation is done.\<close>

definition ends_in :: "('a, 'f) efi \<Rightarrow> ('a \<Rightarrow> 'f machine \<Rightarrow> bool) \<Rightarrow> bool" where
  "ends_in p Q \<longleftrightarrow> (\<forall>c x c'. p c = Done (x, c') \<longrightarrow> Q x c')"

lemma ends_in_bind: "(\<And>x. ends_in (f x) Q) \<Longrightarrow> ends_in (efi_bind p f) Q"
  by (auto simp: ends_in_def efi_bind_Done)

lemma ends_in_halted: "ends_in (\<lambda>c. Halted) Q"
  by (simp add: ends_in_def)

lemma ends_in_if: "ends_in p Q \<Longrightarrow> ends_in q Q \<Longrightarrow> ends_in (if b then p else q) Q"
  by simp

lemma ends_in_prod: "(\<And>a b. ends_in (f a b) Q) \<Longrightarrow> ends_in (case p of (a, b) \<Rightarrow> f a b) Q"
  by (cases p) simp

definition handed_over :: "'f firmware \<Rightarrow> Handover \<Rightarrow> 'f machine \<Rightarrow> bool" where
  "handed_over fw h c \<longleftrightarrow> ho_entry h = KERNEL_CODE_START \<and> cr3 (mc_cpu c) = mc_level4 c \<and> gdtr (mc_cpu c) = mc_gdt c \<and>
     (\<exists>i w status. fw_exit_boot_services fw (mapKey i) w = (status, mc_memory c, mc_firmware c) \<and> \<not> EFI_ERROR status \<and>
        km_descriptors (kp_memory (ho_params h)) = descriptors_of i)"

lemma handover_ends:
  "ends_in (efi_bind (exit_boot_services fw) (\<lambda>i. jumpIntoKernel \<lparr>kp_fb = fb, kp_memory = \<lparr>km_descriptors = descriptors_of i\<rparr>\<rparr> sp))
     (handed_over fw)"
proof -
  have "handed_over fw x c'" if "exit_boot_services fw c = Done (i, c1)"
      "jumpIntoKernel \<lparr>kp_fb = fb, kp_memory = \<lparr>km_descriptors = descriptors_of i\<rparr>\<rparr> sp c1 = Done (x, c')" for c i c1 x c'
    using exit_boot_services_accepted [OF that(1)] that(2) by (force simp: jumpIntoKernel_def handed_over_def enableNewGDT_def)
  then show ?thesis by (auto simp: ends_in_def efi_bind_Done)
qed


section \<open>The processor the loader accepts\<close>

definition needed_features :: "(u32 \<Rightarrow> u32 \<times> u32 \<times> u32 \<times> u32) \<Rightarrow> bool" where
  "needed_features cpuid \<longleftrightarrow> 1 \<le> fst (cpuid 0) \<and> (\<forall>f\<in>{''FPU'', ''TSC'', ''APIC'', ''PGE'', ''SSE''}. feature f (snd (snd (snd (cpuid 1)))))"

lemma messageAndExit_Done: "messageAndExit_unless b e c = Done r \<longleftrightarrow> b \<and> r = ((), c)"
  by (auto simp: messageAndExit_unless_def efi_return_def EXIT_WITH_MESSAGE_def)

text \<open>
  \<^verbatim>\<open>initArchitecture\<close> comes through only on a processor with a local APIC, a time stamp counter, global pages, an FPU and SSE; then
  global pages, the FPU and SSE are switched on in the control registers, the two interrupt controllers are masked, and the new root
  page table is empty.
\<close>

theorem initArchitecture_checks_features:
  assumes "initArchitecture fw cpuid tsc c = Done (cycles, c')"
  shows "needed_features cpuid \<and> bit (cr4 (mc_cpu c')) CR4_PGE \<and> bit (cr4 (mc_cpu c')) CR4_OSFXSR \<and> bit (cr4 (mc_cpu c')) CR4_OSXMMEXCPT \<and>
    bit (cr0 (mc_cpu c')) CR0_NE \<and> \<not> bit (cr0 (mc_cpu c')) CR0_EM \<and> port (mc_cpu c') 0x21 = 0xFF \<and> port (mc_cpu c') 0xA1 = 0xFF \<and>
    (\<forall>i<512. mc_tables c' (mc_level4 c' + 8 * i) = 0)"
proof -
  obtain a ebx ecx edx where id: "cpuid 1 = (a, ebx, ecx, edx)" by (cases "cpuid 1") auto
  have eight: "8 * i < UEFI_PAGE_SIZE" if "i < 512" for i :: u64
  proof -
    have "unat i < 512" using that by (simp add: word_less_nat_alt)
    then have "unat (8 * i) = 8 * unat i" using unat_mult_nowrap [of 8 i] by simp
    then show ?thesis using \<open>unat i < 512\<close> by (simp add: UEFI_PAGE_SIZE_def word_less_nat_alt)
  qed
  show ?thesis
    using assms eight id
    by (auto simp: initArchitecture_def efi_bind_Done efi_return_Done messageAndExit_Done on_cpu_def zero_memory_def bootstrapProcessorWork_def
        allocate_for_def checked_Done efi_allocate4KiBPage_def Let_def needed_features_def CPUEnableGPE_def CPUEnableFPU_def CPUEnableSSE_def
        disablePICAndNMI_def bit_simps register_bits prepNewGDT_def
        split: prod.splits option.splits)
qed

theorem initArchitecture_checks_features_witness:
  "\<exists>cycles c'. initArchitecture demo_firmware (\<lambda>_. (1, 0, 0, - 1)) (100, 300) demo_machine = Done (cycles, c') \<and> bit (cr4 (mc_cpu c')) CR4_PGE"
proof -
  obtain m where m: "memset (mc_memory demo_machine) 0x10000 0 UEFI_PAGE_SIZE = Some m"
    using memset_eq_filled [of "0x10000" UEFI_PAGE_SIZE "mc_memory demo_machine" 0] by (simp add: UEFI_PAGE_SIZE_def)
  then have "\<exists>cycles c'. initArchitecture demo_firmware (\<lambda>_. (1, 0, 0, - 1)) (100, 300) demo_machine = Done (cycles, c')"
    by (simp add: initArchitecture_def efi_allocate4KiBPage_def zero_memory_def messageAndExit_unless_def feature_bits on_cpu_def
        bootstrapProcessorWork_def allocate_for_def prepNewGDT_def checked_def firmware_call_def efi_bind_def efi_return_def
        demo_firmware_def demo_machine_def Let_def EFI_ERROR_def SUCCESS_def)
  then show ?thesis using initArchitecture_checks_features by blast
qed

end
