(* ===== verification/Blocks.thy ===== *)
theory Blocks
  imports Disk Allocator "HOL-Library.Multiset"
begin

text \<open>
  What the pool and the buddy allocator (\<^verbatim>\<open>shared/memory/allocator\<close>) share: 64-bit words in memory, and the
  contract of an allocator of blocks. A client requests, writes and releases blocks; the locale
  \<open>block_allocator\<close> says what it relies on, and shows that for the client the blocks are independent
  arrays of bytes, whatever the order of its operations.
\<close>

section \<open>Words in memory\<close>

definition load_u64 :: "memory \<Rightarrow> addr \<Rightarrow> u64" where
  "load_u64 m p = of_le_bytes (load_bytes m p 8)"

definition store_u64 :: "memory \<Rightarrow> addr \<Rightarrow> u64 \<Rightarrow> memory" where
  "store_u64 m p v = store_bytes m p (le64 v)"

lemma unat_diff_wrap:
  fixes x a :: u64
  shows "unat (x - a) = (if unat a \<le> unat x then unat x - unat a else 2 ^ 64 + unat x - unat a)"
  using unat_diff_of_nat [of "unat a" x] unat_lt_2p [of a] by simp

lemma store_u64_other:
  assumes "unat p + 8 \<le> 2 ^ 64" "unat x < unat p \<or> unat p + 8 \<le> unat x"
  shows "store_u64 m p v x = m x"
  using assms unat_lt_2p [of x] unat_lt_2p [of p] by (auto simp: store_u64_def store_bytes_def unat_diff_wrap)

lemma load_store_u64 [simp]: "load_u64 (store_u64 m p v) p = v"
  using load_store_same [of "le64 v" m p] by (simp add: load_u64_def store_u64_def)

text \<open>A word depends on its eight bytes only.\<close>

lemma unat_inside: "unat p + k \<le> 2 ^ 64 \<Longrightarrow> i < k \<Longrightarrow> unat (p + of_nat i :: u64) = unat p + i"
  by (subst unat_add_nowrap) (simp_all add: unat_of_nat_lt)

lemma load_bytes_range_cong:
  assumes "\<And>x. unat p \<le> unat x \<Longrightarrow> unat x < unat p + k \<Longrightarrow> m' x = m x" "unat p + k \<le> 2 ^ 64"
  shows "load_bytes m' p k = load_bytes m p k"
  using assms(1) unat_inside [OF assms(2)] by (simp add: load_bytes_def)

lemma load_u64_cong:
  assumes "\<And>x. unat p \<le> unat x \<Longrightarrow> unat x < unat p + 8 \<Longrightarrow> m' x = m x" "unat p + 8 \<le> 2 ^ 64"
  shows "load_u64 m' p = load_u64 m p"
  using load_bytes_range_cong [OF assms] by (simp add: load_u64_def)

lemma load_u64_store_other:
  assumes "unat p + 8 \<le> unat q \<or> unat q + 8 \<le> unat p" "unat p + 8 \<le> 2 ^ 64" "unat q + 8 \<le> 2 ^ 64"
  shows "load_u64 (store_u64 m p v) q = load_u64 m q"
  using assms by (intro load_u64_cong store_u64_other) auto

section \<open>Clients\<close>

text \<open>
  The client knows its blocks with their bytes, the newest first. It names a block by its place in
  that list and writes only inside blocks.
\<close>

datatype 'r client_op = Request 'r | Write nat nat u8 | Release nat

type_synonym blocks = "(addr \<times> bytes) list"

definition extents :: "blocks \<Rightarrow> (addr \<times> nat) list" where
  "extents = map (\<lambda>l. (fst l, length (snd l)))"

definition remove_at :: "nat \<Rightarrow> 'a list \<Rightarrow> 'a list" where
  "remove_at i xs = take i xs @ drop (Suc i) xs"

fun client_step :: "(memory \<Rightarrow> 'a \<Rightarrow> 'r \<Rightarrow> (addr \<times> memory \<times> 'a) control) \<Rightarrow> (memory \<Rightarrow> 'a \<Rightarrow> addr \<Rightarrow> (memory \<times> 'a) control) \<Rightarrow>
    ('r \<Rightarrow> nat) \<Rightarrow> 'r client_op \<Rightarrow> memory \<times> 'a \<times> blocks \<Rightarrow> (memory \<times> 'a \<times> blocks) control" where
  "client_step allocate release wanted (Request r) (m, a, live) =
     (case allocate m a r of
        Ret (p, m, a) \<Rightarrow> Ret (m, a, if p = 0 then live else (p, load_bytes m p (wanted r)) # live)
      | Jump \<Rightarrow> Jump | Stuck \<Rightarrow> Stuck)"
| "client_step allocate release wanted (Write i j b) (m, a, live) =
     Ret (if i < length live \<and> j < length (snd (live ! i))
          then (m(fst (live ! i) + of_nat j := b), a, live[i := (fst (live ! i), (snd (live ! i))[j := b])])
          else (m, a, live))"
| "client_step allocate release wanted (Release i) (m, a, live) =
     (if i < length live
      then (case release m a (fst (live ! i)) of Ret (m, a) \<Rightarrow> Ret (m, a, remove_at i live) | Jump \<Rightarrow> Jump | Stuck \<Rightarrow> Stuck)
      else Ret (m, a, live))"

primrec client_run :: "(memory \<Rightarrow> 'a \<Rightarrow> 'r \<Rightarrow> (addr \<times> memory \<times> 'a) control) \<Rightarrow> (memory \<Rightarrow> 'a \<Rightarrow> addr \<Rightarrow> (memory \<times> 'a) control) \<Rightarrow>
    ('r \<Rightarrow> nat) \<Rightarrow> 'r client_op list \<Rightarrow> memory \<times> 'a \<times> blocks \<Rightarrow> (memory \<times> 'a \<times> blocks) control" where
  "client_run allocate release wanted [] s = Ret s"
| "client_run allocate release wanted (p # ps) s =
     (case client_step allocate release wanted p s of Ret s \<Rightarrow> client_run allocate release wanted ps s | Jump \<Rightarrow> Jump | Stuck \<Rightarrow> Stuck)"

text \<open>The memory implements the client's blocks.\<close>

definition holds :: "memory \<Rightarrow> blocks \<Rightarrow> bool" where
  "holds m live \<longleftrightarrow> list_all (\<lambda>l. load_bytes m (fst l) (length (snd l)) = snd l) live"

fun allowed :: "('r \<Rightarrow> bool) \<Rightarrow> 'r client_op \<Rightarrow> bool" where
  "allowed admissible (Request r) = admissible r"
| "allowed admissible _ = True"

text \<open>Memory is the same inside the given extents.\<close>

definition untouched :: "(addr \<times> nat) list \<Rightarrow> memory \<Rightarrow> memory \<Rightarrow> bool" where
  "untouched ps m m' \<longleftrightarrow> (\<forall>(q, k) \<in> set ps. \<forall>j<k. m' (q + of_nat j) = m (q + of_nat j))"

lemma holds_simps [simp]:
  "holds m []" "holds m ((p, bs) # live) \<longleftrightarrow> load_bytes m p (length bs) = bs \<and> holds m live"
  by (simp_all add: holds_def)

lemma extents_simps [simp]:
  "extents [] = []" "extents ((p, bs) # live) = (p, length bs) # extents live" "length (extents live) = length live"
  "extents (remove_at i live) = remove_at i (extents live)"
  by (simp_all add: extents_def remove_at_def take_map drop_map)

lemma untouched_simps [simp]:
  "untouched [] m m'" "untouched ((q, k) # ps) m m' \<longleftrightarrow> (\<forall>j<k. m' (q + of_nat j) = m (q + of_nat j)) \<and> untouched ps m m'"
  by (simp_all add: untouched_def)

lemma untouched_load: "untouched (extents live) m m' \<Longrightarrow> holds m live \<Longrightarrow> holds m' live"
proof (induction live)
  case (Cons l live)
  obtain p bs where l: "l = (p, bs)" by (cases l)
  then have "load_bytes m' p (length bs) = load_bytes m p (length bs)" using Cons.prems(1) by (simp add: load_bytes_def)
  then show ?case using Cons l by simp
qed simp

lemma set_remove_at: "set (remove_at i xs) \<subseteq> set xs"
  by (auto simp: remove_at_def dest: in_set_takeD in_set_dropD)

lemma mset_remove_at: "i < length xs \<Longrightarrow> add_mset (f (xs ! i)) (mset (map f (remove_at i xs))) = mset (map f xs)"
  by (subst (2) id_take_nth_drop [of i xs]) (simp_all add: remove_at_def)

lemma untouched_trans: "untouched ps m m1 \<Longrightarrow> untouched ps m1 m2 \<Longrightarrow> untouched ps m m2"
  by (induction ps) auto

lemma untouched_subset: "set ps' \<subseteq> set ps \<Longrightarrow> untouched ps m m' \<Longrightarrow> untouched ps' m m'"
  unfolding untouched_def by blast

lemma holds_remove_at: "holds m live \<Longrightarrow> holds m (remove_at i live)"
  using set_remove_at [of i live] by (auto simp: holds_def list_all_iff)

lemma fst_extents: "i < length live \<Longrightarrow> fst (extents live ! i) = fst (live ! i)"
  by (simp add: extents_def split: prod.split)

section \<open>The contract\<close>

locale block_allocator =
  fixes valid :: "memory \<Rightarrow> 'a \<Rightarrow> (addr \<times> nat) list \<Rightarrow> bool"
    and allocate :: "memory \<Rightarrow> 'a \<Rightarrow> 'r \<Rightarrow> (addr \<times> memory \<times> 'a) control"
    and release :: "memory \<Rightarrow> 'a \<Rightarrow> addr \<Rightarrow> (memory \<times> 'a) control"
    and wanted :: "'r \<Rightarrow> nat"
    and admissible :: "'r \<Rightarrow> bool"
  assumes no_overlap: "valid m a ps \<Longrightarrow> i < length ps \<Longrightarrow> i' < length ps \<Longrightarrow> j < snd (ps ! i) \<Longrightarrow> j' < snd (ps ! i') \<Longrightarrow>
        fst (ps ! i) + of_nat j = fst (ps ! i') + of_nat j' \<Longrightarrow> i = i' \<and> j = j'"
    and allocate_contract: "valid m a ps \<Longrightarrow> admissible r \<Longrightarrow> allocate m a r \<noteq> Stuck"
      "valid m a ps \<Longrightarrow> admissible r \<Longrightarrow> allocate m a r = Ret (p, m', a') \<Longrightarrow>
        valid m' a' (if p = 0 then ps else (p, wanted r) # ps) \<and> untouched ps m m'"
    and release_contract: "valid m a ps \<Longrightarrow> i < length ps \<Longrightarrow>
        \<exists>m' a'. release m a (fst (ps ! i)) = Ret (m', a') \<and> valid m' a' (remove_at i ps) \<and> untouched (remove_at i ps) m m'"
    and write_contract: "valid m a ps \<Longrightarrow> i < length ps \<Longrightarrow> j < snd (ps ! i) \<Longrightarrow>
        valid (m(fst (ps ! i) + of_nat j := b)) a ps"
begin

lemma write_holds:
  assumes "valid m a (extents live)" "holds m live" "i < length live" "j < length (snd (live ! i))"
  shows "holds (m(fst (live ! i) + of_nat j := b)) (live[i := (fst (live ! i), (snd (live ! i))[j := b])])"
proof -
  let ?p = "fst (live ! i)" and ?m = "m(fst (live ! i) + of_nat j := b)"
  have e: "extents live ! k = (fst (live ! k), length (snd (live ! k)))" if "k < length live" for k
    using that by (simp add: extents_def)
  have other: "?m (fst (live ! k) + of_nat l) = m (fst (live ! k) + of_nat l)"
    if "k < length live" "l < length (snd (live ! k))" "\<not> (k = i \<and> l = j)" for k l
    using no_overlap [OF assms(1), of i k j l] that assms(3,4) e by auto
  have old: "load_bytes m (fst (live ! k)) (length (snd (live ! k))) = snd (live ! k)" if "k < length live" for k
    using assms(2) that by (simp add: holds_def list_all_length)
  have new: "m (fst (live ! k) + of_nat l) = snd (live ! k) ! l" if "k < length live" "l < length (snd (live ! k))" for k l
    using arg_cong [OF old [OF that(1)], of "\<lambda>bs. bs ! l"] that(2) by (simp add: load_bytes_def)
  have "?m (fst (live ! k) + of_nat l) = (if k = i then (snd (live ! i))[j := b] else snd (live ! k)) ! l"
    if "k < length live" "l < length (snd (live ! k))" for k l
  proof (cases "k = i \<and> l = j")
    case False
    then show ?thesis using other [OF that False] new [OF that] by auto
  qed (use assms(4) in simp)
  then have "load_bytes ?m (fst (live ! k)) (length (snd (live ! k))) = (if k = i then (snd (live ! i))[j := b] else snd (live ! k))"
    if "k < length live" for k
    using that by (intro nth_equalityI) (simp_all add: load_bytes_def del: fun_upd_apply)
  then show ?thesis using assms(3) by (auto simp: holds_def list_all_length nth_list_update)
qed

lemma step_refines:
  assumes "valid m a (extents live)" "holds m live" "allowed admissible op"
  shows "case client_step allocate release wanted op (m, a, live) of
      Ret (m', a', live') \<Rightarrow> valid m' a' (extents live') \<and> holds m' live' | Jump \<Rightarrow> True | Stuck \<Rightarrow> False"
proof (cases op)
  case (Request r)
  then have ok: "admissible r" using assms(3) by simp
  show ?thesis
  proof (cases "allocate m a r")
    case (Ret x)
    obtain p m' a' where x: "x = (p, m', a')" by (cases x)
    have "valid m' a' (if p = 0 then extents live else (p, wanted r) # extents live)" "untouched (extents live) m m'"
      using allocate_contract(2) [OF assms(1) ok] Ret x by blast+
    then show ?thesis using Request Ret x untouched_load [OF _ assms(2)] by (cases "p = 0") (simp_all add: load_bytes_def)
  next
    case Stuck
    then show ?thesis using allocate_contract(1) [OF assms(1) ok] by simp
  qed (simp add: Request)
next
  case (Write i j b)
  show ?thesis
  proof (cases "i < length live \<and> j < length (snd (live ! i))")
    case True
    have "extents (live[i := (fst (live ! i), (snd (live ! i))[j := b])]) = extents live"
      using True by (intro nth_equalityI) (auto simp: extents_def nth_list_update split: prod.split)
    moreover have "valid (m(fst (live ! i) + of_nat j := b)) a (extents live)"
      using write_contract [OF assms(1), of i j b] True by (simp add: extents_def split: prod.splits)
    ultimately show ?thesis using Write True write_holds [OF assms(1,2)] by simp
  next
    case False
    then show ?thesis using Write assms by (simp add: if_not_P [OF False])
  qed
next
  case (Release i)
  show ?thesis
  proof (cases "i < length live")
    case True
    obtain m' a' where "release m a (fst (live ! i)) = Ret (m', a')" "valid m' a' (remove_at i (extents live))"
        "untouched (remove_at i (extents live)) m m'"
      using release_contract [OF assms(1), of i] True fst_extents [OF True] by auto
    then show ?thesis using Release True untouched_load [OF _ holds_remove_at [OF assms(2)], of i m'] by simp
  next
    case False
    then show ?thesis using Release assms by simp
  qed
qed

text \<open>Every run: it never gets stuck, and at its end the memory still implements the client's blocks.\<close>

lemma run_refines:
  assumes "valid m a (extents live)" "holds m live" "list_all (allowed admissible) ops"
  shows "case client_run allocate release wanted ops (m, a, live) of
      Ret (m', a', live') \<Rightarrow> valid m' a' (extents live') \<and> holds m' live' | Jump \<Rightarrow> True | Stuck \<Rightarrow> False"
  using assms
proof (induction ops arbitrary: m a live)
  case (Cons op ops)
  have st: "case client_step allocate release wanted op (m, a, live) of
      Ret (m', a', live') \<Rightarrow> valid m' a' (extents live') \<and> holds m' live' | Jump \<Rightarrow> True | Stuck \<Rightarrow> False"
    using step_refines [OF Cons.prems(1,2)] Cons.prems(3) by simp
  show ?case
  proof (cases "client_step allocate release wanted op (m, a, live)")
    case (Ret x)
    obtain m' a' live' where x: "x = (m', a', live')" by (cases x)
    then show ?thesis using st Ret Cons.IH [of m' a' live'] Cons.prems(3) by simp
  qed (use st in simp_all)
qed simp

end

end
