(* ===== verification/Pool.thy ===== *)
theory Pool
  imports Blocks
begin

text \<open>
  The pool allocator (\<^verbatim>\<open>shared/memory/allocator/pool.c\<close>): chunks of one size, the free ones linked through
  their first eight bytes. The list is in memory, so what a client writes into a chunk it holds and what the allocator
  writes are the same bytes. Shown is that a pool is a stack of its free chunks and meets the
  contract of \<open>block_allocator\<close>, and that \<open>freePool\<close> on a pool in use breaks it. Assertions expand to
  nothing, as in a release build; an \<^verbatim>\<open>I64\<close> is a word that \<open>sint\<close> reads.
\<close>

section \<open>Operations\<close>

record PoolAllocator =
  pool_beg :: addr
  pool_cap :: u64
  pool_chunkSize :: u64
  pool_head :: addr

text \<open>\<^verbatim>\<open>node->next = pool->head; pool->head = node;\<close>\<close>

definition push_node :: "addr \<Rightarrow> memory \<times> PoolAllocator \<Rightarrow> memory \<times> PoolAllocator" where
  "push_node nd s = (case s of (m, pool) \<Rightarrow> (store_u64 m nd (pool_head pool), pool\<lparr>pool_head := nd\<rparr>))"

definition freePool :: "memory \<Rightarrow> PoolAllocator \<Rightarrow> (memory \<times> PoolAllocator) control" where
  "freePool m pool =
     (if pool_chunkSize pool = 0 then Stuck
      else
        let chunkCount = word_of_int (sint (pool_cap pool) sdiv sint (pool_chunkSize pool)) :: u64 in
        Ret (fold (\<lambda>i. push_node (pool_beg pool + of_nat i * pool_chunkSize pool)) [0..<unat chunkCount] (m, pool)))"

definition createPoolAllocator :: "memory \<Rightarrow> addr \<Rightarrow> u64 \<Rightarrow> u64 \<Rightarrow> (memory \<times> PoolAllocator) control" where
  "createPoolAllocator m buffer cap chunkSize =
     freePool m \<lparr>pool_beg = buffer, pool_cap = cap, pool_chunkSize = chunkSize, pool_head = 0\<rparr>"

definition poolAlloc :: "memory \<Rightarrow> PoolAllocator \<Rightarrow> u8 \<Rightarrow> (addr \<times> memory \<times> PoolAllocator) control" where
  "poolAlloc m pool flags =
     (let nd = pool_head pool in
      if nd = 0 then (if flags AND NULLPTR_ON_FAIL \<noteq> 0 then Ret (0, m, pool) else Jump)
      else
        let pool = pool\<lparr>pool_head := load_u64 m nd\<rparr> in
        if flags AND ZERO_MEMORY \<noteq> 0
        then (case memset m nd 0 (pool_chunkSize pool) of None \<Rightarrow> Stuck | Some m \<Rightarrow> Ret (nd, m, pool))
        else Ret (nd, m, pool))"

definition freePoolNode :: "memory \<Rightarrow> PoolAllocator \<Rightarrow> addr \<Rightarrow> (memory \<times> PoolAllocator) control" where
  "freePoolNode m pool ptr = Ret (push_node ptr (m, pool))"

section \<open>The free list\<close>

text \<open>Following the links from \<open>p\<close> visits \<open>xs\<close> and arrives at \<open>q\<close>.\<close>

primrec linked :: "memory \<Rightarrow> addr \<Rightarrow> addr list \<Rightarrow> addr \<Rightarrow> bool" where
  "linked m p [] q \<longleftrightarrow> p = q"
| "linked m p (x # xs) q \<longleftrightarrow> p = x \<and> x \<noteq> 0 \<and> linked m (load_u64 m x) xs q"

definition free_list :: "memory \<Rightarrow> addr \<Rightarrow> addr list \<Rightarrow> bool" where
  "free_list m p xs \<longleftrightarrow> linked m p xs 0"

lemma linked_cong:
  "(\<And>x. x \<in> set xs \<Longrightarrow> load_u64 m' x = load_u64 m x) \<Longrightarrow> linked m' p xs q = linked m p xs q"
  by (induction xs arbitrary: p) simp_all

lemma free_list_simps [simp]:
  "free_list m p [] \<longleftrightarrow> p = 0" "free_list m p (x # xs) \<longleftrightarrow> p = x \<and> x \<noteq> 0 \<and> free_list m (load_u64 m x) xs"
  by (simp_all add: free_list_def)

lemma free_list_null [simp]: "free_list m 0 xs \<longleftrightarrow> xs = []"
  by (cases xs) auto

definition chunk_count :: "PoolAllocator \<Rightarrow> nat" where
  "chunk_count pool = unat (pool_cap pool) div unat (pool_chunkSize pool)"

definition chunks :: "PoolAllocator \<Rightarrow> addr list" where
  "chunks pool = map (\<lambda>i. pool_beg pool + of_nat i * pool_chunkSize pool) [0..<chunk_count pool]"

definition geometry :: "PoolAllocator \<Rightarrow> bool" where
  "geometry pool \<longleftrightarrow> 8 \<le> unat (pool_chunkSize pool) \<and> unat (pool_chunkSize pool) < 2 ^ 63 \<and> unat (pool_cap pool) < 2 ^ 63 \<and>
     0 < unat (pool_beg pool) \<and> unat (pool_beg pool) + unat (pool_cap pool) + 160 < 2 ^ 64"

definition pool_valid :: "u64 \<Rightarrow> memory \<Rightarrow> PoolAllocator \<Rightarrow> (addr \<times> nat) list \<Rightarrow> bool" where
  "pool_valid n m pool ps \<longleftrightarrow> geometry pool \<and> pool_chunkSize pool = n \<and> list_all (\<lambda>l. snd l = unat n) ps \<and>
     (\<exists>free. free_list m (pool_head pool) free \<and> mset (free @ map fst ps) = mset (chunks pool))"

lemma unat_chunk:
  assumes "geometry pool" "i < chunk_count pool"
  shows "unat (pool_beg pool + of_nat i * pool_chunkSize pool) = unat (pool_beg pool) + i * unat (pool_chunkSize pool)"
    and "unat (pool_beg pool) + Suc i * unat (pool_chunkSize pool) \<le> unat (pool_beg pool) + unat (pool_cap pool)"
proof -
  let ?n = "unat (pool_chunkSize pool)"
  have "Suc i * ?n \<le> chunk_count pool * ?n" using assms(2) by (intro mult_le_mono1) simp
  also have "\<dots> \<le> unat (pool_cap pool)" by (simp add: chunk_count_def)
  finally have le: "Suc i * ?n \<le> unat (pool_cap pool)" .
  then show "unat (pool_beg pool) + Suc i * ?n \<le> unat (pool_beg pool) + unat (pool_cap pool)" by simp
  have "chunk_count pool < 2 ^ 64" unfolding chunk_count_def
    using assms(1) by (intro le_less_trans [OF div_le_dividend]) (simp add: geometry_def)
  then have i: "unat (of_nat i :: u64) = i" using assms(2) by (simp add: unat_of_nat_lt)
  have "i * ?n < 2 ^ 63" using le assms(1) unfolding geometry_def by simp
  then have m: "unat (of_nat i * pool_chunkSize pool) = i * ?n" by (subst unat_mult_nowrap) (simp_all add: i)
  show "unat (pool_beg pool + of_nat i * pool_chunkSize pool) = unat (pool_beg pool) + i * ?n"
    using le assms(1) by (subst unat_add_nowrap) (simp_all add: m geometry_def)
qed

lemma chunk_bounds:
  assumes "geometry pool" "p \<in> set (chunks pool)"
  shows "unat (pool_beg pool) \<le> unat p" "unat p + unat (pool_chunkSize pool) \<le> unat (pool_beg pool) + unat (pool_cap pool)"
    "unat p + unat (pool_chunkSize pool) + 160 < 2 ^ 64" "p \<noteq> 0"
proof -
  obtain i where i: "i < chunk_count pool" "p = pool_beg pool + of_nat i * pool_chunkSize pool"
    using assms(2) by (auto simp: chunks_def)
  note u = unat_chunk [OF assms(1) i(1), folded i(2)]
  show le: "unat (pool_beg pool) \<le> unat p" "unat p + unat (pool_chunkSize pool) \<le> unat (pool_beg pool) + unat (pool_cap pool)"
    using u by simp_all
  then show "unat p + unat (pool_chunkSize pool) + 160 < 2 ^ 64" using assms(1) by (simp add: geometry_def)
  have "0 < unat p" using le(1) assms(1) by (simp add: geometry_def)
  then show "p \<noteq> 0" by auto
qed

lemma chunk_apart:
  assumes "geometry pool" "p \<in> set (chunks pool)" "q \<in> set (chunks pool)" "p \<noteq> q"
  shows "unat p + unat (pool_chunkSize pool) \<le> unat q \<or> unat q + unat (pool_chunkSize pool) \<le> unat p"
proof -
  obtain i j where i: "i < chunk_count pool" "p = pool_beg pool + of_nat i * pool_chunkSize pool"
    and j: "j < chunk_count pool" "q = pool_beg pool + of_nat j * pool_chunkSize pool"
    using assms(2,3) by (auto simp: chunks_def)
  note u = unat_chunk(1) [OF assms(1) i(1), folded i(2)] unat_chunk(1) [OF assms(1) j(1), folded j(2)]
  have "i \<noteq> j" using assms(4) i(2) j(2) by auto
  then have "Suc i \<le> j \<or> Suc j \<le> i" by auto
  then have "Suc i * unat (pool_chunkSize pool) \<le> j * unat (pool_chunkSize pool) \<or>
      Suc j * unat (pool_chunkSize pool) \<le> i * unat (pool_chunkSize pool)"
    using mult_le_mono1 by blast
  then show ?thesis unfolding u by auto
qed

lemma distinct_chunks:
  assumes "geometry pool"
  shows "distinct (chunks pool)"
  unfolding chunks_def distinct_map
proof (intro conjI inj_onI)
  fix i j
  assume ij: "i \<in> set [0..<chunk_count pool]" "j \<in> set [0..<chunk_count pool]"
    "pool_beg pool + of_nat i * pool_chunkSize pool = pool_beg pool + of_nat j * pool_chunkSize pool"
  have "unat (pool_beg pool) + i * unat (pool_chunkSize pool) = unat (pool_beg pool) + j * unat (pool_chunkSize pool)"
    using arg_cong [OF ij(3), of unat] ij(1,2) by (simp only: unat_chunk(1) [OF assms] atLeastLessThan_iff set_upt)
  moreover have "unat (pool_chunkSize pool) \<noteq> 0" using assms by (simp add: geometry_def)
  ultimately show "i = j" by simp
qed simp

section \<open>The pool meets the contract\<close>

lemma push_node_linked:
  assumes "geometry pool" "linked m (pool_head pool) xs q" "set (p # xs) \<subseteq> set (chunks pool)" "p \<notin> set xs"
  shows "linked (store_u64 m p (pool_head pool)) p (p # xs) q"
proof -
  have "load_u64 (store_u64 m p (pool_head pool)) x = load_u64 m x" if "x \<in> set xs" for x
  proof -
    have x: "x \<in> set (chunks pool)" "p \<in> set (chunks pool)" "x \<noteq> p" using that assms(3,4) by auto
    note b = chunk_apart [OF assms(1) x] chunk_bounds(3) [OF assms(1) x(1)] chunk_bounds(3) [OF assms(1) x(2)]
    have "8 \<le> unat (pool_chunkSize pool)" using assms(1) by (simp add: geometry_def)
    then show ?thesis using b by (intro load_u64_store_other; linarith)
  qed
  then have "linked (store_u64 m p (pool_head pool)) (pool_head pool) xs q"
    using assms(2) linked_cong [of xs "store_u64 m p (pool_head pool)" m "pool_head pool" q] by blast
  then show ?thesis using assms(3) chunk_bounds(4) [OF assms(1), of p] by simp
qed

lemma sint_small:
  assumes "unat (a :: u64) < 2 ^ 63"
  shows "sint a = int (unat a)"
proof -
  have "int (unat a) < int (2 ^ 63)" using assms by (simp only: of_nat_less_iff)
  then have "uint a < 2 ^ 63" by simp
  then have "signed_take_bit 63 (uint a) = uint a"
    using order_trans [of "- (2 ^ 63)" 0 "uint a"] by (intro signed_take_bit_int_eq_self) simp_all
  then show ?thesis by (simp add: sint_uint)
qed

lemma signed_div_small:
  assumes "unat a < 2 ^ 63" "unat b < 2 ^ 63" "0 < unat b"
  shows "unat (word_of_int (sint a sdiv sint b) :: u64) = unat (a :: u64) div unat (b :: u64)"
proof -
  have "int x sdiv int y = int (x div y)" if "0 < y" for x y
    using that by (cases "x = 0") (simp_all add: signed_divide_int_def zdiv_int)
  then have "sint a sdiv sint b = int (unat a div unat b)"
    using assms(3) by (simp only: sint_small [OF assms(1)] sint_small [OF assms(2)])
  moreover have "unat a div unat b < 2 ^ LENGTH(64)" using order_le_less_trans [OF div_le_dividend assms(1), of "unat b"] by simp
  ultimately show ?thesis by (simp only: of_int_of_nat_eq unat_of_nat_lt)
qed

text \<open>Linking all chunks puts them in front of what was linked before.\<close>

lemma link_chunks:
  assumes "geometry pool" "n \<le> chunk_count pool"
  shows "case fold (\<lambda>i. push_node (pool_beg pool + of_nat i * pool_chunkSize pool)) [0..<n] (m, pool) of
    (m', pool') \<Rightarrow> pool' = pool\<lparr>pool_head := pool_head pool'\<rparr> \<and> linked m' (pool_head pool') (rev (take n (chunks pool))) (pool_head pool)"
  using assms(2)
proof (induction n)
  case (Suc n)
  let ?f = "\<lambda>i. push_node (pool_beg pool + of_nat i * pool_chunkSize pool)"
  let ?p = "pool_beg pool + of_nat n * pool_chunkSize pool"
  obtain m1 pool1 where f: "fold ?f [0..<n] (m, pool) = (m1, pool1)" by (cases "fold ?f [0..<n] (m, pool)")
  have ih: "pool1 = pool\<lparr>pool_head := pool_head pool1\<rparr>" "linked m1 (pool_head pool1) (rev (take n (chunks pool))) (pool_head pool)"
    using Suc f by simp_all
  have p: "?p = chunks pool ! n" "n < length (chunks pool)" using Suc.prems by (simp_all add: chunks_def)
  have take: "take (Suc n) (chunks pool) = take n (chunks pool) @ [?p]" using p by (simp add: take_Suc_conv_app_nth)
  have "distinct (take (Suc n) (chunks pool))" using distinct_chunks [OF assms(1)] by (rule distinct_take)
  then have "?p \<notin> set (rev (take n (chunks pool)))" unfolding take by simp
  moreover have "set (?p # rev (take n (chunks pool))) \<subseteq> set (chunks pool)"
    using nth_mem [OF p(2)] set_take_subset [of n "chunks pool"] p(1) by simp
  moreover have "geometry pool1" "chunks pool1 = chunks pool"
    using assms(1) by (subst ih(1), simp add: geometry_def chunks_def chunk_count_def)+
  ultimately have "linked (store_u64 m1 ?p (pool_head pool1)) ?p (?p # rev (take n (chunks pool))) (pool_head pool)"
    using push_node_linked [of pool1 m1 _ _ ?p] ih(2) by simp
  moreover have "fold ?f [0..<Suc n] (m, pool) = (store_u64 m1 ?p (pool_head pool1), pool1\<lparr>pool_head := ?p\<rparr>)"
    using f by (simp add: push_node_def)
  moreover have "pool1\<lparr>pool_head := ?p\<rparr> = pool\<lparr>pool_head := ?p\<rparr>" by (subst ih(1)) simp
  ultimately show ?case using take by (simp del: upt_Suc)
qed simp

lemma freePool_links:
  assumes "geometry pool"
  shows "\<exists>m' pool'. freePool m pool = Ret (m', pool') \<and> pool' = pool\<lparr>pool_head := pool_head pool'\<rparr> \<and>
    linked m' (pool_head pool') (rev (chunks pool)) (pool_head pool)"
proof -
  let ?n = "unat (word_of_int (sint (pool_cap pool) sdiv sint (pool_chunkSize pool)) :: u64)"
  have pos: "0 < unat (pool_chunkSize pool)" using assms by (simp add: geometry_def)
  then have n: "?n = chunk_count pool"
    using assms signed_div_small [of "pool_cap pool" "pool_chunkSize pool"] by (simp add: geometry_def chunk_count_def)
  have "pool_chunkSize pool \<noteq> 0" using pos by auto
  moreover have "take (chunk_count pool) (chunks pool) = chunks pool" by (simp add: chunks_def)
  ultimately show ?thesis using link_chunks [OF assms order_refl, of m] by (auto simp: freePool_def Let_def n split: prod.splits)
qed

lemma pool_validE:
  assumes "pool_valid n m pool ps"
  obtains free where "geometry pool" "pool_chunkSize pool = n" "free_list m (pool_head pool) free"
    "mset (free @ map fst ps) = mset (chunks pool)" "distinct (free @ map fst ps)" "set (free @ map fst ps) = set (chunks pool)"
    "\<And>i. i < length ps \<Longrightarrow> snd (ps ! i) = unat n"
proof -
  obtain free where f: "geometry pool" "pool_chunkSize pool = n" "list_all (\<lambda>l. snd l = unat n) ps"
      "free_list m (pool_head pool) free" "mset (free @ map fst ps) = mset (chunks pool)"
    using assms by (auto simp: pool_valid_def)
  show thesis
    using that [OF f(1,2,4,5)] mset_eq_setD [OF f(5)] mset_eq_imp_distinct_iff [OF f(5)] distinct_chunks [OF f(1)] f(3)
    by (simp add: list_all_length)
qed

lemma pool_no_overlap:
  assumes "pool_valid n m pool ps" "i < length ps" "i' < length ps" "j < snd (ps ! i)" "j' < snd (ps ! i')"
    and "fst (ps ! i) + of_nat j = fst (ps ! i') + of_nat j'"
  shows "i = i' \<and> j = j'"
proof -
  obtain free where f: "geometry pool" "pool_chunkSize pool = n" "distinct (free @ map fst ps)"
      "set (free @ map fst ps) = set (chunks pool)" "\<And>i. i < length ps \<Longrightarrow> snd (ps ! i) = unat n"
    using pool_validE [OF assms(1)] by metis
  have c: "fst (ps ! k) \<in> set (chunks pool)" if "k < length ps" for k
    using nth_mem [OF that] unfolding f(4) [symmetric] by simp
  have u: "unat (fst (ps ! k) + of_nat l) = unat (fst (ps ! k)) + l" if "k < length ps" "l < unat n" for k l
    using chunk_bounds(3) [OF f(1) c [OF that(1)]] that(2) unfolding f(2) by (intro unat_inside [where k = "unat n"]) simp_all
  have jj: "j < unat n" "j' < unat n" using assms(2-5) f(5) by simp_all
  have e: "unat (fst (ps ! i)) + j = unat (fst (ps ! i')) + j'"
    using arg_cong [OF assms(6), of unat] u [OF assms(2) jj(1)] u [OF assms(3) jj(2)] by simp
  have "fst (ps ! i) = fst (ps ! i')"
    using chunk_apart [OF f(1) c [OF assms(2)] c [OF assms(3)]] e jj unfolding f(2) by linarith
  moreover have "distinct (map fst ps)" using f(3) by simp
  ultimately have "i = i'" using assms(2,3) by (simp add: distinct_conv_nth) metis
  then show ?thesis using e by simp
qed

text \<open>A change inside one chunk is not seen through the others.\<close>

lemma outside_chunk:
  assumes "geometry pool" "p \<in> set (chunks pool)" "q \<in> set (chunks pool)" "p \<noteq> q"
    and "\<And>x. unat x < unat p \<or> unat p + unat (pool_chunkSize pool) \<le> unat x \<Longrightarrow> m' x = m x"
  shows "load_u64 m' q = load_u64 m q" "j < unat (pool_chunkSize pool) \<Longrightarrow> m' (q + of_nat j) = m (q + of_nat j)"
proof -
  let ?n = "unat (pool_chunkSize pool)"
  note b = chunk_bounds(3) [OF assms(1,2)] chunk_bounds(3) [OF assms(1,3)] chunk_apart [OF assms(1-4)]
  have n: "8 \<le> ?n" using assms(1) by (simp add: geometry_def)
  have out: "m' x = m x" if "unat q \<le> unat x" "unat x < unat q + ?n" for x
    by (rule assms(5)) (use b that in linarith)
  show "load_u64 m' q = load_u64 m q" by (rule load_u64_cong) (use out n b in auto)
  assume j: "j < ?n"
  then have "unat (q + of_nat j) = unat q + j" using b by (intro unat_inside [where k = ?n]) simp_all
  then show "m' (q + of_nat j) = m (q + of_nat j)" using j by (intro out) simp_all
qed

lemma filled_apart:
  assumes "unat x < unat p \<or> unat p + k \<le> unat x" "unat p + k < 2 ^ 64"
  shows "filled m p b k x = m x"
  using assms by (auto simp: filled_def unat_diff_wrap)

lemma free_list_outside:
  assumes "geometry pool" "p \<in> set (chunks pool)" "p \<notin> set xs" "set xs \<subseteq> set (chunks pool)"
    and "\<And>x. unat x < unat p \<or> unat p + unat (pool_chunkSize pool) \<le> unat x \<Longrightarrow> m' x = m x"
  shows "free_list m' h xs = free_list m h xs"
  unfolding free_list_def
proof (rule linked_cong)
  fix q assume "q \<in> set xs"
  then show "load_u64 m' q = load_u64 m q" using assms(3,4) by (intro outside_chunk(1) [OF assms(1,2) _ _ assms(5)]) auto
qed

lemma untouched_outside:
  assumes "geometry pool" "p \<in> set (chunks pool)" "set (map fst ps) \<subseteq> set (chunks pool)" "p \<notin> set (map fst ps)"
    and "list_all (\<lambda>l. snd l = unat (pool_chunkSize pool)) ps"
    and "\<And>x. unat x < unat p \<or> unat p + unat (pool_chunkSize pool) \<le> unat x \<Longrightarrow> m' x = m x"
  shows "untouched ps m m'"
  unfolding untouched_def
proof (intro ballI, simp only: split_paired_all prod.case, intro allI impI)
  fix q k j assume q: "(q, k) \<in> set ps" and j: "j < k"
  then have "q \<in> set (map fst ps)" "k = unat (pool_chunkSize pool)" using assms(5) by (force, auto simp: list_all_iff)
  then show "m' (q + of_nat j) = m (q + of_nat j)"
    using assms(3,4) j by (intro outside_chunk(2) [OF assms(1,2) _ _ assms(6)]) auto
qed

lemma poolAlloc_cases:
  assumes "pool_valid n m pool ps"
  obtains (full) "pool_head pool = 0" "length ps = chunk_count pool"
      "poolAlloc m pool flags = (if flags AND NULLPTR_ON_FAIL \<noteq> 0 then Ret (0, m, pool) else Jump)"
  | (chunk) p m' where "p \<noteq> 0" "p \<in> set (chunks pool)" "p \<notin> set (map fst ps)"
      "poolAlloc m pool flags = Ret (p, m', pool\<lparr>pool_head := load_u64 m p\<rparr>)"
      "pool_valid n m' (pool\<lparr>pool_head := load_u64 m p\<rparr>) ((p, unat n) # ps)" "untouched ps m m'"
      "flags AND ZERO_MEMORY \<noteq> 0 \<Longrightarrow> load_bytes m' p (unat n) = replicate (unat n) 0"
      "length ps < chunk_count pool"
proof -
  obtain free where f: "geometry pool" "pool_chunkSize pool = n" "free_list m (pool_head pool) free"
      "mset (free @ map fst ps) = mset (chunks pool)" "distinct (free @ map fst ps)" "set (free @ map fst ps) = set (chunks pool)"
      "\<And>i. i < length ps \<Longrightarrow> snd (ps ! i) = unat n"
    using pool_validE [OF assms] by metis
  have len: "length free + length ps = chunk_count pool"
    using mset_eq_length [OF f(4)] by (simp add: chunks_def)
  show thesis
  proof (cases free)
    case Nil
    then show ?thesis using f(3) len by (intro full) (simp_all add: poolAlloc_def)
  next
    case (Cons p xs)
    let ?m = "if flags AND ZERO_MEMORY \<noteq> 0 then filled m p 0 (unat n) else m" and ?pool = "pool\<lparr>pool_head := load_u64 m p\<rparr>"
    have p: "pool_head pool = p" "p \<noteq> 0" "free_list m (load_u64 m p) xs" using f(3) Cons by simp_all
    have pc: "p \<in> set (chunks pool)" "set xs \<subseteq> set (chunks pool)" "set (map fst ps) \<subseteq> set (chunks pool)"
        "p \<notin> set xs" "p \<notin> set (map fst ps)"
      using f(5) Cons by (simp_all flip: f(6)) auto
    note b = chunk_bounds(3) [OF f(1) pc(1), unfolded f(2)]
    have out: "?m x = m x" if "unat x < unat p \<or> unat p + unat (pool_chunkSize pool) \<le> unat x" for x
      using filled_apart [of x p "unat n" m 0] that b by (simp add: f(2))
    have lv: "list_all (\<lambda>l. snd l = unat (pool_chunkSize pool)) ps" using f(2,7) by (simp add: list_all_length)
    have "memset m p 0 n = Some (filled m p 0 (unat n))" using memset_eq_filled [of p n m 0] b by simp
    then have alloc: "poolAlloc m pool flags = Ret (p, ?m, ?pool)" using p(1,2) f(2) by (simp add: poolAlloc_def)
    have "free_list ?m (load_u64 m p) xs" using free_list_outside [OF f(1) pc(1,4,2), of ?m m "load_u64 m p"] out p(3) by blast
    moreover have "geometry ?pool" "chunks ?pool = chunks pool" using f(1) by (simp_all add: geometry_def chunks_def chunk_count_def)
    moreover have "mset (xs @ map fst ((p, unat n) # ps)) = mset (chunks pool)" using f(4) Cons by simp
    ultimately have "pool_valid n ?m ?pool ((p, unat n) # ps)" using f(2) lv by (auto simp: pool_valid_def)
    moreover have "load_bytes ?m p (unat n) = replicate (unat n) 0" if "flags AND ZERO_MEMORY \<noteq> 0"
      using that b by (intro nth_equalityI) (simp_all add: load_bytes_def filled_def unat_of_nat_lt)
    ultimately show ?thesis
      using untouched_outside [OF f(1) pc(1,3,5) lv, of ?m m] out alloc p(2) pc len Cons by (intro chunk [of p ?m]) simp_all
  qed
qed

lemma chunks_head [simp]: "geometry (pool\<lparr>pool_head := h\<rparr>) = geometry pool" "chunks (pool\<lparr>pool_head := h\<rparr>) = chunks pool"
  by (simp_all add: geometry_def chunks_def chunk_count_def)

lemma freePoolNode_valid:
  assumes "pool_valid n m pool ps" "i < length ps"
  defines "p \<equiv> fst (ps ! i)"
  shows "freePoolNode m pool p = Ret (store_u64 m p (pool_head pool), pool\<lparr>pool_head := p\<rparr>) \<and>
    pool_valid n (store_u64 m p (pool_head pool)) (pool\<lparr>pool_head := p\<rparr>) (remove_at i ps) \<and>
    untouched (remove_at i ps) m (store_u64 m p (pool_head pool))"
proof -
  let ?m = "store_u64 m p (pool_head pool)" and ?ps = "remove_at i ps"
  obtain free where f: "geometry pool" "pool_chunkSize pool = n" "free_list m (pool_head pool) free"
      "mset (free @ map fst ps) = mset (chunks pool)" "distinct (free @ map fst ps)" "set (free @ map fst ps) = set (chunks pool)"
      "\<And>i. i < length ps \<Longrightarrow> snd (ps ! i) = unat n"
    using pool_validE [OF assms(1)] by metis
  have ms: "add_mset p (mset (map fst ?ps)) = mset (map fst ps)" using mset_remove_at [OF assms(2), of fst] by (simp add: p_def)
  then have "mset (p # free @ map fst ?ps) = mset (chunks pool)" by (simp flip: f(4))
  then have perm: "distinct (p # free @ map fst ?ps)" "set (p # free @ map fst ?ps) = set (chunks pool)"
      "mset ((p # free) @ map fst ?ps) = mset (chunks pool)"
    using mset_eq_imp_distinct_iff distinct_chunks [OF f(1)] mset_eq_setD by (blast, blast, simp)
  have b: "unat p + unat (pool_chunkSize pool) + 160 < 2 ^ 64" "8 \<le> unat (pool_chunkSize pool)"
    using chunk_bounds(3) [OF f(1), of p] perm(2) f(1) by (auto simp: geometry_def)
  have out: "?m x = m x" if "unat x < unat p \<or> unat p + unat (pool_chunkSize pool) \<le> unat x" for x
    using b that by (intro store_u64_other) auto
  have lv: "list_all (\<lambda>l. snd l = unat (pool_chunkSize pool)) ?ps"
    using assms(1) f(2) set_remove_at [of i ps] by (auto simp: pool_valid_def list_all_iff)
  have "free_list ?m p (p # free)" using perm(1,2) unfolding free_list_def
    by (intro push_node_linked [OF f(1,3) [unfolded free_list_def]]) auto
  then have "\<exists>free. free_list ?m p free \<and> mset (free @ map fst ?ps) = mset (chunks pool)" using perm(3) by blast
  then have "pool_valid n ?m (pool\<lparr>pool_head := p\<rparr>) ?ps" using f(1,2) lv by (simp add: pool_valid_def del: mset_append)
  moreover have "untouched ?ps m ?m" using perm(1,2) by (intro untouched_outside [OF f(1) _ _ _ lv out]) auto
  ultimately show ?thesis by (simp add: freePoolNode_def push_node_def)
qed

lemma pool_write_valid:
  assumes "pool_valid n m pool ps" "i < length ps" "j < snd (ps ! i)"
  shows "pool_valid n (m(fst (ps ! i) + of_nat j := b)) pool ps"
proof -
  let ?p = "fst (ps ! i)" and ?m = "m(fst (ps ! i) + of_nat j := b)"
  obtain free where f: "geometry pool" "pool_chunkSize pool = n" "free_list m (pool_head pool) free"
      "mset (free @ map fst ps) = mset (chunks pool)" "distinct (free @ map fst ps)" "set (free @ map fst ps) = set (chunks pool)"
      "\<And>i. i < length ps \<Longrightarrow> snd (ps ! i) = unat n"
    using pool_validE [OF assms(1)] by metis
  have p: "?p \<in> set (map fst ps)" using assms(2) by simp
  have pc: "?p \<in> set (chunks pool)" "?p \<notin> set free" "set free \<subseteq> set (chunks pool)"
    using p f(5) by (auto simp flip: f(6))
  have "unat (?p + of_nat j) = unat ?p + j"
    using chunk_bounds(3) [OF f(1) pc(1)] assms(3) f(2) f(7) [OF assms(2)] by (intro unat_inside [where k = "unat n"]) simp_all
  then have "?m x = m x" if "unat x < unat ?p \<or> unat ?p + unat (pool_chunkSize pool) \<le> unat x" for x
    using that assms(3) f(2) f(7) [OF assms(2)] by auto
  then have "free_list ?m (pool_head pool) free"
    using free_list_outside [OF f(1) pc(1,2,3), of ?m m "pool_head pool"] f(3) by blast
  then show ?thesis using assms(1) f(4) by (auto simp: pool_valid_def)
qed

definition pool_at :: "addr \<Rightarrow> u64 \<Rightarrow> u64 \<Rightarrow> memory \<Rightarrow> PoolAllocator \<Rightarrow> (addr \<times> nat) list \<Rightarrow> bool" where
  "pool_at buffer cap n m pool ps \<longleftrightarrow> pool_valid n m pool ps \<and> pool_beg pool = buffer \<and> pool_cap pool = cap"

interpretation pool: block_allocator "pool_at buffer cap n" poolAlloc freePoolNode "\<lambda>_. unat n" "\<lambda>_. True" for buffer cap n
proof (unfold_locales, goal_cases)
  case (1 m a ps i i' j j')
  then show ?case using pool_no_overlap unfolding pool_at_def by blast
next
  case (2 m a ps r)
  then have v: "pool_valid n m a ps" by (simp add: pool_at_def)
  show ?case by (cases rule: poolAlloc_cases [OF v, of r]) auto
next
  case (3 m a ps r p m' a')
  then have v: "pool_valid n m a ps" by (simp add: pool_at_def)
  show ?case by (cases rule: poolAlloc_cases [OF v, of r]) (use 3 in \<open>auto simp: pool_at_def untouched_def split: if_splits\<close>)
next
  case (4 m a ps i)
  then show ?case using freePoolNode_valid [of n m a ps i] by (auto simp: pool_at_def)
next
  case (5 m a ps i j b)
  then show ?case using pool_write_valid unfolding pool_at_def by blast
qed

section \<open>Properties\<close>

lemma createPoolAllocator_valid:
  assumes "geometry \<lparr>pool_beg = buffer, pool_cap = cap, pool_chunkSize = n, pool_head = 0\<rparr>"
  shows "\<exists>m' pool. createPoolAllocator m buffer cap n = Ret (m', pool) \<and> pool_at buffer cap n m' pool []"
proof -
  let ?pool = "\<lparr>pool_beg = buffer, pool_cap = cap, pool_chunkSize = n, pool_head = 0\<rparr>"
  obtain m' pool where p: "freePool m ?pool = Ret (m', pool)" "pool = ?pool\<lparr>pool_head := pool_head pool\<rparr>"
      "linked m' (pool_head pool) (rev (chunks ?pool)) 0"
    using freePool_links [OF assms, of m] by auto
  have "geometry pool" "chunks pool = chunks ?pool" "pool_chunkSize pool = n" "pool_beg pool = buffer" "pool_cap pool = cap"
    using assms by (subst p(2), simp add: geometry_def chunks_def chunk_count_def)+
  moreover have "\<exists>free. free_list m' (pool_head pool) free \<and> mset (free @ map fst []) = mset (chunks ?pool)"
    using p(3) by (intro exI [of _ "rev (chunks ?pool)"]) (simp add: free_list_def)
  ultimately show ?thesis using p(1) by (simp add: createPoolAllocator_def pool_valid_def pool_at_def)
qed

lemma pool_at_client:
  assumes "pool_at buffer cap n m pool (extents live)" "holds m live"
  shows "distinct (map fst live) \<and> length live \<le> unat cap div unat n \<and>
    (\<forall>(p, bs) \<in> set live. unat buffer \<le> unat p \<and> unat p + unat n \<le> unat buffer + unat cap \<and>
      length bs = unat n \<and> load_bytes m p (unat n) = bs)"
proof -
  have v: "pool_valid n m pool (extents live)" "pool_beg pool = buffer" "pool_cap pool = cap" using assms(1) by (simp_all add: pool_at_def)
  obtain free where f: "geometry pool" "pool_chunkSize pool = n" "free_list m (pool_head pool) free"
      "mset (free @ map fst (extents live)) = mset (chunks pool)" "distinct (free @ map fst (extents live))"
      "set (free @ map fst (extents live)) = set (chunks pool)" "\<And>i. i < length (extents live) \<Longrightarrow> snd (extents live ! i) = unat n"
    using pool_validE [OF v(1)] by metis
  have e: "map fst (extents live) = map fst live" by (simp add: extents_def comp_def)
  have "length free + length live = chunk_count pool"
    using mset_eq_length [OF f(4)] by (simp add: chunks_def)
  then have len: "length live \<le> unat cap div unat n" using v f(2) by (simp add: chunk_count_def)
  have "unat buffer \<le> unat p \<and> unat p + unat n \<le> unat buffer + unat cap \<and> length bs = unat n \<and> load_bytes m p (unat n) = bs"
    if "(p, bs) \<in> set live" for p bs
  proof -
    have "p \<in> set (map fst live)" using that by force
    then have "p \<in> set (chunks pool)" unfolding f(6) [symmetric] e by simp
    moreover obtain i where "i < length live" "live ! i = (p, bs)" using \<open>(p, bs) \<in> set live\<close> by (auto simp: in_set_conv_nth)
    ultimately show ?thesis
      using chunk_bounds(1,2) [OF f(1)] f(7) [of i] assms(2) v f(2) by (auto simp: extents_def holds_def list_all_length)
  qed
  then show ?thesis using f(5) len unfolding e by auto
qed

text \<open>
  C14. Whatever a client does with a pool it has created - requests, writes into its chunks, releases, in any order - no
  operation gets stuck, and at the end the chunks it holds are different, lie inside the buffer and have exactly the
  bytes the client last wrote to them: the free list and the chunks never interfere.
\<close>

theorem pool_clients_independent:
  assumes "geometry \<lparr>pool_beg = buffer, pool_cap = cap, pool_chunkSize = n, pool_head = 0\<rparr>"
  shows "\<exists>m1 pool1. createPoolAllocator m buffer cap n = Ret (m1, pool1) \<and>
    (case client_run poolAlloc freePoolNode (\<lambda>_. unat n) ops (m1, pool1, []) of
       Ret (m', pool', live) \<Rightarrow> distinct (map fst live) \<and> length live \<le> unat cap div unat n \<and>
         (\<forall>(p, bs) \<in> set live. unat buffer \<le> unat p \<and> unat p + unat n \<le> unat buffer + unat cap \<and>
            length bs = unat n \<and> load_bytes m' p (unat n) = bs)
     | Jump \<Rightarrow> True | Stuck \<Rightarrow> False)"
proof -
  obtain m1 pool1 where c: "createPoolAllocator m buffer cap n = Ret (m1, pool1)" "pool_at buffer cap n m1 pool1 []"
    using createPoolAllocator_valid [OF assms, of m] by blast
  have "allowed (\<lambda>_. True) op" for op :: "u8 client_op" by (cases op) simp_all
  then have run: "case client_run poolAlloc freePoolNode (\<lambda>_. unat n) ops (m1, pool1, []) of
      Ret (m', pool', live) \<Rightarrow> pool_at buffer cap n m' pool' (extents live) \<and> holds m' live | Jump \<Rightarrow> True | Stuck \<Rightarrow> False"
    using pool.run_refines [of buffer cap n m1 pool1 "[]" ops] c(2) by (simp add: list_all_iff)
  show ?thesis
  proof (cases "client_run poolAlloc freePoolNode (\<lambda>_. unat n) ops (m1, pool1, [])")
    case (Ret x)
    obtain m' pool' live where x: "x = (m', pool', live)" by (cases x)
    have "pool_at buffer cap n m' pool' (extents live)" "holds m' live" using run Ret x by simp_all
    then show ?thesis using pool_at_client Ret x c(1) by simp
  qed (use run c(1) in simp_all)
qed

lemma demo_geometry:
  "geometry \<lparr>pool_beg = 0x1000, pool_cap = 64, pool_chunkSize = 16, pool_head = 0\<rparr>"
  "unat (0x1000 :: u64) = 0x1000" "unat (64 :: u64) = 64" "unat (16 :: u64) = 16"
  by (simp_all add: geometry_def)

theorem pool_clients_independent_witness:
  "\<exists>m1 pool1. createPoolAllocator (\<lambda>_. 0) 0x1000 64 16 = Ret (m1, pool1) \<and>
    (case client_run poolAlloc freePoolNode (\<lambda>_. 16) [Request 1, Request 1, Write 0 3 7, Release 1, Request 1] (m1, pool1, []) of
       Ret (m', pool', live) \<Rightarrow> distinct (map fst live) \<and> length live \<le> 64 div 16 \<and>
         (\<forall>(p, bs) \<in> set live. 0x1000 \<le> unat p \<and> unat p + 16 \<le> 0x1000 + 64 \<and> length bs = 16 \<and> load_bytes m' p 16 = bs)
     | Jump \<Rightarrow> True | Stuck \<Rightarrow> False)"
  using pool_clients_independent [OF demo_geometry(1), of "\<lambda>_. 0" "[Request 1, Request 1, Write 0 3 7, Release 1, Request 1]"]
  unfolding demo_geometry(2-4) .

text \<open>Requests in a row, without anything in between.\<close>

primrec poolAllocs :: "nat \<Rightarrow> memory \<Rightarrow> PoolAllocator \<Rightarrow> u8 \<Rightarrow> addr list control" where
  "poolAllocs 0 m pool flags = Ret []"
| "poolAllocs (Suc k) m pool flags =
     (case poolAlloc m pool flags of
        Ret (p, m, pool) \<Rightarrow> (case poolAllocs k m pool flags of Ret ps \<Rightarrow> Ret (p # ps) | Jump \<Rightarrow> Jump | Stuck \<Rightarrow> Stuck)
      | Jump \<Rightarrow> Jump | Stuck \<Rightarrow> Stuck)"

lemma poolAllocs_linked:
  assumes "linked m (pool_head pool) xs q" "q \<noteq> 0"
  shows "poolAllocs (Suc (length xs)) m pool 0 = Ret (xs @ [q])"
  using assms(1)
proof (induction xs arbitrary: pool)
  case (Cons x xs)
  have "linked m (pool_head (pool\<lparr>pool_head := load_u64 m x\<rparr>)) xs q" using Cons.prems by simp
  from Cons.IH [OF this] Cons.prems show ?case by (simp add: poolAlloc_def)
qed (use assms(2) in \<open>simp add: poolAlloc_def\<close>)

text \<open>
  \<^verbatim>\<open>freePool\<close> does not reset the head: on a pool that still has a free chunk it links the last chunk back to that
  one, so that the pool, which then counts as free, hands out all its chunks and after them a chunk a second time.
\<close>

theorem freePool_hands_out_twice:
  assumes "pool_valid n m pool ps" "length ps < chunk_count pool"
  shows "\<exists>m' pool' q. freePool m pool = Ret (m', pool') \<and> q \<in> set (chunks pool) \<and>
    poolAllocs (chunk_count pool + 1) m' pool' 0 = Ret (rev (chunks pool) @ [q])"
proof -
  obtain free where f: "geometry pool" "free_list m (pool_head pool) free" "mset (free @ map fst ps) = mset (chunks pool)"
      "set (free @ map fst ps) = set (chunks pool)"
    using pool_validE [OF assms(1)] by metis
  have "length free + length ps = chunk_count pool" using mset_eq_length [OF f(3)] by (simp add: chunks_def)
  then obtain q xs where "free = q # xs" using assms(2) by (cases free) simp_all
  then have q: "pool_head pool = q" "q \<noteq> 0" "q \<in> set (chunks pool)" using f(2) by (simp_all flip: f(4))
  obtain m' pool' where p: "freePool m pool = Ret (m', pool')" "linked m' (pool_head pool') (rev (chunks pool)) (pool_head pool)"
    using freePool_links [OF f(1), of m] by blast
  then have "poolAllocs (Suc (length (rev (chunks pool)))) m' pool' 0 = Ret (rev (chunks pool) @ [q])"
    unfolding q(1) by (intro poolAllocs_linked q(2))
  then show ?thesis using p(1) q(3) by (auto simp: chunks_def)
qed

text \<open>A pool of four chunks, freshly created.\<close>

lemma demo_pool: "\<exists>m pool. createPoolAllocator (\<lambda>_. 0) 0x1000 64 16 = Ret (m, pool) \<and> pool_at 0x1000 64 16 m pool []"
  by (rule createPoolAllocator_valid) (rule demo_geometry(1))

theorem freePool_hands_out_twice_witness:
  "\<exists>m pool m' pool' q. createPoolAllocator (\<lambda>_. 0) 0x1000 64 16 = Ret (m, pool) \<and> freePool m pool = Ret (m', pool') \<and>
     q \<in> {0x1000, 0x1010, 0x1020, 0x1030} \<and> poolAllocs 5 m' pool' 0 = Ret [0x1030, 0x1020, 0x1010, 0x1000, q]"
proof -
  obtain m pool where p: "createPoolAllocator (\<lambda>_. 0) 0x1000 64 16 = Ret (m, pool)" "pool_valid 16 m pool []"
      "pool_beg pool = 0x1000" "pool_cap pool = 64"
    using demo_pool unfolding pool_at_def by blast
  have n: "pool_chunkSize pool = 16" using p(2) by (simp add: pool_valid_def)
  have c: "chunk_count pool = 4" using p(4) n by (simp add: chunk_count_def)
  have ch: "chunks pool = [0x1000, 0x1010, 0x1020, 0x1030]" using p(3) n c by (simp add: chunks_def upt_rec)
  show ?thesis using freePool_hands_out_twice [OF p(2)] p(1) c ch by simp
qed

end
