(* ===== verification/Buddy.thy ===== *)
theory Buddy
  imports Blocks
begin

text \<open>
  The buddy allocator (\<^verbatim>\<open>shared/memory/allocator/buddy.c\<close>): blocks of power-of-two sizes that tile the memory
  from \<open>head\<close> to \<open>tail\<close>, each with its size and a flag in its first sixteen bytes. The headers are
  in memory beside the clients' data. Shown is that the blocks always tile the region, that the
  allocator meets the contract of \<open>block_allocator\<close>, and where it fails although a block is free. The loops
  over the blocks carry fuel, the size of the region, which is more than the number of blocks. Assertions expand to nothing,
  as in a release build.
\<close>

section \<open>Blocks in memory\<close>

definition block_size :: "memory \<Rightarrow> addr \<Rightarrow> u64" where
  "block_size m b = load_u64 m b"

definition block_isFree :: "memory \<Rightarrow> addr \<Rightarrow> bool" where
  "block_isFree m b \<longleftrightarrow> m (b + 8) \<noteq> 0"

definition set_size :: "addr \<Rightarrow> u64 \<Rightarrow> memory \<Rightarrow> memory" where
  "set_size b n m = store_u64 m b n"

definition set_isFree :: "addr \<Rightarrow> bool \<Rightarrow> memory \<Rightarrow> memory" where
  "set_isFree b f m = m(b + 8 := of_bool f)"

definition SIZEOF_BuddyBlock :: u64 where "SIZEOF_BuddyBlock = 16"

definition nextBuddy :: "memory \<Rightarrow> addr \<Rightarrow> addr" where
  "nextBuddy m b = b + block_size m b"

lemma block_size_set [simp]: "block_size (set_size b n m) b = n" "block_size (set_isFree b f m) b = block_size m b"
proof -
  have "b + of_nat i \<noteq> b + 8" if "i < 8" for i :: nat
  proof -
    have "unat (of_nat i :: u64) \<noteq> unat (8 :: u64)" using that by (subst unat_of_nat_lt) simp_all
    then show ?thesis by auto
  qed
  then show "block_size (set_isFree b f m) b = block_size m b"
    by (auto simp: block_size_def set_isFree_def load_u64_def load_bytes_def intro!: arg_cong [where f = of_le_bytes])
qed (simp add: block_size_def set_size_def)

section \<open>Operations\<close>

text \<open>The loop of \<^verbatim>\<open>splitBuddy\<close>: the block in hand is halved, and its upper half is the next one.\<close>

definition split_block :: "addr \<Rightarrow> memory \<Rightarrow> addr \<times> memory" where
  "split_block block m =
     (let halfSize = drop_bit 1 (block_size m block);
          m = set_size block halfSize m;
          block = nextBuddy m block;
          m = set_isFree block True (set_size block halfSize m) in
      (block, m))"

lemma split_block_size:
  assumes "sz * 2 < block_size m block" "split_block block m = (block', m')"
  shows "unat (block_size m' block') < unat (block_size m block)"
proof -
  have "block_size m block \<noteq> 0" using assms(1) by auto
  then have "unat (drop_bit 1 (block_size m block)) < unat (block_size m block)" by (intro unat_drop_bit_less) simp_all
  then show ?thesis using assms(2) by (auto simp: split_block_def Let_def)
qed

function split_loop :: "u64 \<Rightarrow> addr \<Rightarrow> memory \<Rightarrow> addr \<times> memory" where
  "split_loop sz block m =
     (if sz * 2 < block_size m block then case split_block block m of (block', m') \<Rightarrow> split_loop sz block' m' else (block, m))"
  by pat_completeness auto

termination
  by (relation "measure (\<lambda>(sz, block, m). unat (block_size m block))") (simp_all, metis split_block_size case_prod_conv)

declare split_loop.simps [simp del]

definition splitBuddy :: "addr \<Rightarrow> u64 \<Rightarrow> memory \<Rightarrow> addr \<times> memory" where
  "splitBuddy block sz m =
     (if block \<noteq> 0
      then (case split_loop sz block m of (block, m) \<Rightarrow> (if sz \<le> block_size m block then block else 0, m))
      else (0, m))"

text \<open>\<open>0\<close> stands for the null pointer; the buddy behind a block at the tail is left as it was.\<close>

definition step_over :: "addr \<Rightarrow> addr \<Rightarrow> memory \<Rightarrow> addr \<times> addr" where
  "step_over tail buddy m = (let block = nextBuddy m buddy in (block, if block < tail then nextBuddy m block else buddy))"

definition better :: "memory \<Rightarrow> u64 \<Rightarrow> addr \<Rightarrow> addr \<Rightarrow> addr" where
  "better m sz bestBlock b =
     (if block_isFree m b \<and> sz \<le> block_size m b \<and> (bestBlock = 0 \<or> block_size m b < block_size m bestBlock) then b else bestBlock)"

primrec find_loop :: "nat \<Rightarrow> addr \<Rightarrow> u64 \<Rightarrow> addr \<Rightarrow> addr \<Rightarrow> addr \<Rightarrow> memory \<Rightarrow> (addr \<times> memory) option" where
  "find_loop 0 tail sz block buddy bestBlock m = None"
| "find_loop (Suc fuel) tail sz block buddy bestBlock m =
     (if block < tail \<and> buddy < tail then
        if block_isFree m block \<and> block_isFree m buddy \<and> block_size m block = block_size m buddy then
          let m = set_size block (push_bit 1 (block_size m block)) m;
              bestBlock = (if sz \<le> block_size m block \<and> (bestBlock = 0 \<or> block_size m block \<le> block_size m bestBlock)
                           then block else bestBlock) in
          case step_over tail buddy m of (block, buddy) \<Rightarrow> find_loop fuel tail sz block buddy bestBlock m
        else
          let bestBlock = better m sz (better m sz bestBlock block) buddy in
          if block_size m block < block_size m buddy
          then case step_over tail buddy m of (block, buddy) \<Rightarrow> find_loop fuel tail sz block buddy bestBlock m
          else find_loop fuel tail sz buddy (nextBuddy m buddy) bestBlock m
      else Some (bestBlock, m))"

definition region_fuel :: "addr \<Rightarrow> addr \<Rightarrow> nat" where
  "region_fuel head tail = unat (tail - head) + 1"

definition findBestBuddy :: "addr \<Rightarrow> addr \<Rightarrow> u64 \<Rightarrow> memory \<Rightarrow> (addr \<times> memory) option" where
  "findBestBuddy head tail sz m =
     (let buddy = nextBuddy m head in
      if buddy = tail \<and> block_isFree m head then Some (splitBuddy head sz m)
      else
        (case find_loop (region_fuel head tail) tail sz head buddy 0 m of
           None \<Rightarrow> None
         | Some (bestBlock, m) \<Rightarrow> Some (if bestBlock \<noteq> 0 then splitBuddy bestBlock sz m else (0, m))))"

record BuddyAllocator =
  buddy_head :: addr
  buddy_tail :: addr

definition createBuddyAllocator :: "memory \<Rightarrow> addr \<Rightarrow> u64 \<Rightarrow> memory \<times> BuddyAllocator" where
  "createBuddyAllocator m data sz =
     (let m = set_isFree data True (set_size data sz m) in (m, \<lparr>buddy_head = data, buddy_tail = nextBuddy m data\<rparr>))"

text \<open>One pass over the blocks: whether it found nothing to merge, and the memory after it.\<close>

primrec coalesce_pass :: "nat \<Rightarrow> addr \<Rightarrow> addr \<Rightarrow> addr \<Rightarrow> bool \<Rightarrow> memory \<Rightarrow> (bool \<times> memory) option" where
  "coalesce_pass 0 tail block buddy noCoalesce m = None"
| "coalesce_pass (Suc fuel) tail block buddy noCoalesce m =
     (if block < tail \<and> buddy < tail then
        if block_size m block < block_size m buddy
        then case step_over tail buddy m of (block, buddy) \<Rightarrow> coalesce_pass fuel tail block buddy noCoalesce m
        else if block_size m block > block_size m buddy
        then coalesce_pass fuel tail buddy (nextBuddy m buddy) noCoalesce m
        else if block_isFree m block \<and> block_isFree m buddy then
          let m = set_size block (push_bit 1 (block_size m block)) m;
              block = nextBuddy m block in
          if block < tail then coalesce_pass fuel tail block (nextBuddy m block) False m
          else coalesce_pass fuel tail block buddy noCoalesce m
        else case step_over tail buddy m of (block, buddy) \<Rightarrow> coalesce_pass fuel tail block buddy noCoalesce m
      else Some (noCoalesce, m))"

primrec coalesce_loop :: "nat \<Rightarrow> addr \<Rightarrow> addr \<Rightarrow> memory \<Rightarrow> memory option" where
  "coalesce_loop 0 head tail m = None"
| "coalesce_loop (Suc fuel) head tail m =
     (case coalesce_pass (region_fuel head tail) tail head (nextBuddy m head) True m of
        None \<Rightarrow> None
      | Some (noCoalesce, m) \<Rightarrow> if noCoalesce then Some m else coalesce_loop fuel head tail m)"

definition coalesceBuddies :: "addr \<Rightarrow> addr \<Rightarrow> memory \<Rightarrow> memory option" where
  "coalesceBuddies head tail m = coalesce_loop (region_fuel head tail) head tail m"

text \<open>The search, coalescing and searching again when it finds nothing.\<close>

definition find_twice :: "addr \<Rightarrow> addr \<Rightarrow> u64 \<Rightarrow> memory \<Rightarrow> (addr \<times> memory) option" where
  "find_twice head tail sz m =
     (case findBestBuddy head tail sz m of
        None \<Rightarrow> None
      | Some (found, m) \<Rightarrow>
          if found = 0 then (case coalesceBuddies head tail m of None \<Rightarrow> None | Some m \<Rightarrow> findBestBuddy head tail sz m)
          else Some (found, m))"

text \<open>A request: size and number of the elements, and the flags.\<close>

type_synonym buddy_request = "u64 \<times> u64 \<times> u8"

definition buddyAlloc :: "memory \<Rightarrow> BuddyAllocator \<Rightarrow> buddy_request \<Rightarrow> (addr \<times> memory \<times> BuddyAllocator) control" where
  "buddyAlloc m a r =
     (case r of (sz, cnt, flags) \<Rightarrow>
      let bytes_total = sz * cnt; totalSize = bytes_total + SIZEOF_BuddyBlock in
      case find_twice (buddy_head a) (buddy_tail a) totalSize m of
        None \<Rightarrow> Stuck
      | Some (found, m) \<Rightarrow>
          if found \<noteq> 0 then
            let m = set_isFree found False m; result = found + SIZEOF_BuddyBlock in
            if ZERO_MEMORY AND flags \<noteq> 0
            then (case memset m result 0 bytes_total of None \<Rightarrow> Stuck | Some m \<Rightarrow> Ret (result, m, a))
            else Ret (result, m, a)
          else if flags AND NULLPTR_ON_FAIL \<noteq> 0 then Ret (0, m, a)
          else Jump)"

definition freeBuddy :: "memory \<Rightarrow> BuddyAllocator \<Rightarrow> addr \<Rightarrow> (memory \<times> BuddyAllocator) control" where
  "freeBuddy m a data =
     (let block = data - SIZEOF_BuddyBlock in
      case coalesceBuddies (buddy_head a) (buddy_tail a) (set_isFree block True m) of None \<Rightarrow> Stuck | Some m \<Rightarrow> Ret (m, a))"

section \<open>The blocks tile the region\<close>

type_synonym block = "addr \<times> u64 \<times> bool"

definition good_size :: "u64 \<Rightarrow> bool" where
  "good_size n \<longleftrightarrow> (\<exists>k. 5 \<le> k \<and> k < 64 \<and> unat n = 2 ^ k)"

primrec tiles :: "memory \<Rightarrow> addr \<Rightarrow> addr \<Rightarrow> block list \<Rightarrow> bool" where
  "tiles m p t [] \<longleftrightarrow> p = t"
| "tiles m p t (b # bs) \<longleftrightarrow> b = (p, block_size m p, block_isFree m p) \<and> good_size (block_size m p) \<and>
     unat p + unat (block_size m p) \<le> unat t \<and> tiles m (p + block_size m p) t bs"

lemma good_size_ge: "good_size n \<Longrightarrow> 32 \<le> unat n"
  using power_increasing [of 5 _ "2 :: nat"] by (auto simp: good_size_def)

lemma unat_next: "unat p + unat n \<le> unat (t :: u64) \<Longrightarrow> unat (p + n) = unat p + unat (n :: u64)"
  using unat_lt_2p [of t] by (intro unat_add_nowrap) simp

lemma tiles_le: "tiles m p t bs \<Longrightarrow> unat p \<le> unat t"
  by (cases bs) auto

lemma tiles_length: "tiles m p t bs \<Longrightarrow> unat p + 32 * length bs \<le> unat t"
proof (induction bs arbitrary: p)
  case (Cons b bs)
  then have "unat (p + block_size m p) + 32 * length bs \<le> unat t" by simp
  then show ?case using Cons.prems good_size_ge [of "block_size m p"] unat_next [of p "block_size m p" t] by simp
qed simp

lemma tiles_append: "tiles m p t (xs @ ys) \<longleftrightarrow> (\<exists>q. tiles m p q xs \<and> tiles m q t ys)"
proof (induction xs arbitrary: p)
  case (Cons x xs)
  have "unat p + unat (block_size m p) \<le> unat q" if "tiles m (p + block_size m p) q xs" "unat p + unat (block_size m p) \<le> unat t" for q
    using tiles_le [OF that(1)] unat_next [OF that(2)] by simp
  moreover have "unat p + unat (block_size m p) \<le> unat t" if "unat p + unat (block_size m p) \<le> unat q" "tiles m q t ys" for q
    using tiles_le [OF that(2)] that(1) by simp
  ultimately show ?case using Cons.IH by auto
qed simp

lemma tiles_member:
  "tiles m p t bs \<Longrightarrow> (a, n, f) \<in> set bs \<Longrightarrow>
     unat p \<le> unat a \<and> unat a + unat n \<le> unat t \<and> good_size n \<and> n = block_size m a \<and> f = block_isFree m a"
proof (induction bs arbitrary: p)
  case (Cons b bs)
  have u: "unat (p + block_size m p) = unat p + unat (block_size m p)" using Cons.prems(1) by (intro unat_next [of _ _ t]) simp
  show ?case
  proof (cases "(a, n, f) = b")
    case True
    then show ?thesis using Cons.prems(1) by auto
  next
    case False
    then have "(a, n, f) \<in> set bs" using Cons.prems(2) by simp
    moreover have "tiles m (p + block_size m p) t bs" using Cons.prems(1) by simp
    ultimately show ?thesis using Cons.IH u by fastforce
  qed
qed simp

lemma tiles_bounds:
  assumes "tiles m p t bs" "(a, n, f) \<in> set bs"
  shows "unat p \<le> unat a" "unat a + unat n \<le> unat t" "good_size n" "n = block_size m a" "f = block_isFree m a"
  using tiles_member [OF assms] by blast+

text \<open>A header is nine bytes; the tiling depends on nothing else.\<close>

definition same_header :: "memory \<Rightarrow> memory \<Rightarrow> addr \<Rightarrow> bool" where
  "same_header m m' a \<longleftrightarrow> block_size m' a = block_size m a \<and> block_isFree m' a = block_isFree m a"

lemma same_headerI:
  assumes "\<And>x. unat a \<le> unat x \<Longrightarrow> unat x < unat a + 16 \<Longrightarrow> m' x = m x" "unat a + 16 \<le> 2 ^ 64"
  shows "same_header m m' a"
proof -
  have "unat (a + 8) = unat a + 8" using unat_inside [OF assms(2), of 8] by simp
  then show ?thesis using assms load_u64_cong [of a m' m] by (simp add: same_header_def block_size_def block_isFree_def)
qed

lemma tiles_cong: "(\<And>a n f. (a, n, f) \<in> set bs \<Longrightarrow> same_header m m' a) \<Longrightarrow> tiles m p t bs \<Longrightarrow> tiles m' p t bs"
proof (induction bs arbitrary: p)
  case (Cons b bs)
  have "(p, block_size m p, block_isFree m p) \<in> set (b # bs)" using Cons.prems(2) by simp
  then have "same_header m m' p" by (rule Cons.prems(1))
  moreover have "tiles m' (p + block_size m p) t bs"
  proof (rule Cons.IH)
    show "same_header m m' a" if "(a, n, f) \<in> set bs" for a n f using Cons.prems(1) [of a n f] that by simp
  qed (use Cons.prems(2) in simp)
  ultimately show ?case using Cons.prems(2) by (simp add: same_header_def)
qed simp

text \<open>What is written inside \<open>[a, a + n)\<close> does not change the blocks below and above.\<close>

lemma tiles_outside:
  assumes "tiles m p t bs" "\<And>x. unat x < lo \<or> hi \<le> unat x \<Longrightarrow> m' x = m x" "unat t \<le> lo \<or> hi \<le> unat p"
  shows "tiles m' p t bs"
proof (rule tiles_cong [OF _ assms(1)])
  fix a n f assume b: "(a, n, f) \<in> set bs"
  note tb = tiles_bounds [OF assms(1) b] good_size_ge [of n]
  have "m' x = m x" if "unat a \<le> unat x" "unat x < unat a + 16" for x
    by (rule assms(2)) (use assms(3) tb that in linarith)
  moreover have "unat a + 16 \<le> 2 ^ 64" using tb unat_lt_2p [of t] by simp
  ultimately show "same_header m m' a" by (intro same_headerI)
qed

definition used :: "block list \<Rightarrow> block list" where
  "used bs = filter (\<lambda>(a, n, f). \<not> f) bs"

lemma used_simps [simp]:
  "used [] = []" "used ((a, n, f) # bs) = (if f then used bs else (a, n, f) # used bs)" "used (xs @ ys) = used xs @ used ys"
  by (simp_all add: used_def)

lemma set_used: "(a, n, f) \<in> set (used bs) \<longleftrightarrow> (a, n, f) \<in> set bs \<and> \<not> f"
  by (auto simp: used_def)

text \<open>The bytes of the blocks in use are the same.\<close>

definition same_data :: "block list \<Rightarrow> memory \<Rightarrow> memory \<Rightarrow> bool" where
  "same_data bs m m' \<longleftrightarrow> (\<forall>a n f x. (a, n, f) \<in> set (used bs) \<longrightarrow> unat a \<le> unat x \<longrightarrow> unat x < unat a + unat n \<longrightarrow> m' x = m x)"

definition evolves :: "addr \<Rightarrow> addr \<Rightarrow> memory \<Rightarrow> block list \<Rightarrow> memory \<Rightarrow> block list \<Rightarrow> bool" where
  "evolves p t m bs m' bs' \<longleftrightarrow> tiles m' p t bs' \<and> used bs' = used bs \<and> same_data bs m m'"

lemma evolves_refl: "tiles m p t bs \<Longrightarrow> evolves p t m bs m bs"
  by (simp add: evolves_def same_data_def)

lemma evolves_trans: "evolves p t m bs m1 bs1 \<Longrightarrow> evolves p t m1 bs1 m2 bs2 \<Longrightarrow> evolves p t m bs m2 bs2"
  by (simp add: evolves_def same_data_def)

text \<open>Changing the memory of some consecutive blocks.\<close>

lemma replace_tiles:
  assumes "tiles m p a pre" "tiles m c t post" "unat a \<le> unat c"
    and out: "\<And>x. unat x < unat a \<or> unat c \<le> unat x \<Longrightarrow> m' x = m x" and mid: "tiles m' a c mid"
  shows "tiles m' p t (pre @ mid @ post)" "same_data (pre @ post) m m'"
proof -
  have "tiles m' p a pre" by (rule tiles_outside [OF assms(1), of "unat a" "unat c" m']) (simp_all add: out)
  moreover have "tiles m' c t post" by (rule tiles_outside [OF assms(2), of "unat a" "unat c" m']) (simp_all add: out)
  ultimately show "tiles m' p t (pre @ mid @ post)" using mid tiles_append by blast
  have "m' x = m x" if "(b, n, f) \<in> set pre \<or> (b, n, f) \<in> set post" "unat b \<le> unat x" "unat x < unat b + unat n" for b n f x
    using that(1)
  proof
    assume "(b, n, f) \<in> set pre"
    then show ?thesis using tiles_bounds(2) [OF assms(1)] that(2,3) by (intro out disjI1) (meson order_less_le_trans)
  next
    assume "(b, n, f) \<in> set post"
    then show ?thesis using tiles_bounds(1) [OF assms(2)] that(2) by (intro out disjI2) (meson order_trans)
  qed
  then show "same_data (pre @ post) m m'" unfolding same_data_def by (auto simp: set_used)
qed

lemma good_size_double:
  assumes "good_size n" "unat n + unat n < 2 ^ 64"
  shows "good_size (push_bit 1 n)" "unat (push_bit 1 n) = unat n + unat n" "push_bit 1 n = n + n"
proof -
  have e: "push_bit 1 n = n + n" by (simp add: push_bit_eq_mult)
  show "push_bit 1 n = n + n" by (rule e)
  show u: "unat (push_bit 1 n) = unat n + unat n" unfolding e using assms(2) by (intro unat_add_nowrap) simp
  obtain k where k: "5 \<le> k" "k < 64" "unat n = 2 ^ k" using assms(1) by (auto simp: good_size_def)
  have "(2 :: nat) ^ Suc k < 2 ^ 64" using assms(2) k(3) by simp
  then have "Suc k < 64" by (rule power_less_imp_less_exp [rotated]) simp
  then show "good_size (push_bit 1 n)" using k u by (auto simp: good_size_def intro!: exI [of _ "Suc k"])
qed

lemma good_size_halve:
  assumes "good_size n" "32 < unat n"
  shows "good_size (drop_bit 1 n)" "unat n = unat (drop_bit 1 n) + unat (drop_bit 1 n)"
proof -
  obtain k where k: "5 \<le> k" "k < 64" "unat n = 2 ^ k" using assms(1) by (auto simp: good_size_def)
  have "k \<noteq> 5" using assms(2) k(3) by auto
  then obtain j where j: "k = Suc j" "5 \<le> j" using k(1) by (cases k) auto
  have u: "unat (drop_bit 1 n) = 2 ^ j" by (simp add: unat_drop_bit k(3) j(1))
  then show "good_size (drop_bit 1 n)" "unat n = unat (drop_bit 1 n) + unat (drop_bit 1 n)"
    using k j by (auto simp: good_size_def)
qed

lemma isFree_set_size:
  assumes "unat a + 16 \<le> 2 ^ 64"
  shows "block_isFree (set_size a n m) a = block_isFree m a"
proof -
  have "unat (a + 8) = unat a + 8" using unat_inside [OF assms, of 8] by simp
  then show ?thesis using assms by (simp add: block_isFree_def set_size_def store_u64_other)
qed

lemma isFree_set_isFree [simp]: "block_isFree (set_isFree a f m) a = f"
  by (simp add: block_isFree_def set_isFree_def)

lemma set_size_other: "unat a + 16 \<le> 2 ^ 64 \<Longrightarrow> unat x < unat a \<or> unat a + 16 \<le> unat x \<Longrightarrow> set_size a n m x = m x"
  by (auto simp: set_size_def intro!: store_u64_other)

lemma set_isFree_other:
  assumes "unat a + 16 \<le> 2 ^ 64" "unat x < unat a \<or> unat a + 16 \<le> unat x"
  shows "set_isFree a f m x = m x"
proof -
  have "unat (a + 8) = unat a + 8" using unat_inside [OF assms(1), of 8] by simp
  then show ?thesis using assms(2) by (auto simp: set_isFree_def)
qed

section \<open>Merging and splitting\<close>

lemma merge_evolves:
  assumes "tiles m p t (pre @ (a, n, True) # (b, n, True) # post)"
  shows "evolves p t m (pre @ (a, n, True) # (b, n, True) # post)
     (set_size a (push_bit 1 n) m) (pre @ (a, push_bit 1 n, True) # post)"
    and "b + n = a + push_bit 1 n"
proof -
  let ?m = "set_size a (push_bit 1 n) m"
  have h: "tiles m p a pre" "n = block_size m a" "block_isFree m a" "b = a + n" "n = block_size m b" "good_size n"
      "unat a + unat n \<le> unat t" "unat b + unat n \<le> unat t" "tiles m (b + n) t post"
    using assms by (auto simp: tiles_append)
  have ub: "unat b = unat a + unat n" unfolding h(4) by (rule unat_next [OF h(7)])
  then have "unat n + unat n < 2 ^ 64" using h(8) unat_lt_2p [of t] by simp
  note d = good_size_double [OF h(6) this] and ge = good_size_ge [OF h(6)]
  show e: "b + n = a + push_bit 1 n" unfolding h(4) d(3) by simp
  have c: "unat (a + push_bit 1 n) = unat a + unat (push_bit 1 n)" using h(8) ub d(2) by (intro unat_next [of _ _ t]) simp
  have lt: "unat a + 16 \<le> 2 ^ 64" using h(7) ge unat_lt_2p [of t] by simp
  have out: "?m x = m x" if "unat x < unat a \<or> unat (a + push_bit 1 n) \<le> unat x" for x
    using that c d(2) ge by (intro set_size_other lt) auto
  have mid: "tiles ?m a (a + push_bit 1 n) [(a, push_bit 1 n, True)]"
    using d(1) c h(3) isFree_set_size [OF lt] by simp
  have "unat a \<le> unat (a + push_bit 1 n)" using c by simp
  note r = replace_tiles [OF h(1) h(9) [unfolded e] this out mid]
  show "evolves p t m (pre @ (a, n, True) # (b, n, True) # post) ?m (pre @ (a, push_bit 1 n, True) # post)"
    using r by (simp add: evolves_def same_data_def)
qed

lemma split_block_evolves:
  assumes "tiles m p t (pre @ (a, n, True) # post)" "32 < unat n"
  shows "\<exists>m'. split_block a m = (a + drop_bit 1 n, m') \<and>
     evolves p t m (pre @ (a, n, True) # post) m' (pre @ (a, drop_bit 1 n, True) # (a + drop_bit 1 n, drop_bit 1 n, True) # post)"
proof -
  let ?h = "drop_bit 1 n"
  let ?b = "a + ?h"
  let ?m1 = "set_size a ?h m"
  let ?m = "set_isFree ?b True (set_size ?b ?h ?m1)"
  have h: "tiles m p a pre" "n = block_size m a" "block_isFree m a" "good_size n"
      "unat a + unat n \<le> unat t" "tiles m (a + n) t post"
    using assms(1) by (auto simp: tiles_append)
  note d = good_size_halve [OF h(4) assms(2)] and ge = good_size_ge [OF good_size_halve(1) [OF h(4) assms(2)]]
  have ub: "unat ?b = unat a + unat ?h" using h(5) d(2) by (intro unat_next [of _ _ t]) simp
  have uc: "unat (a + n) = unat a + unat n" by (rule unat_next [OF h(5)])
  have bc: "?b + ?h = a + n" by (intro word_eq_unatI) (use ub uc d(2) h(5) in \<open>subst unat_next [of _ _ t], simp_all\<close>)
  have lt: "unat a + 16 \<le> 2 ^ 64" "unat ?b + 16 \<le> 2 ^ 64" using h(5) ge ub d(2) unat_lt_2p [of t] by simp_all
  have out: "?m x = m x" if "unat x < unat a \<or> unat (a + n) \<le> unat x" for x
  proof -
    have "unat x < unat ?b \<or> unat ?b + 16 \<le> unat x" "unat x < unat a \<or> unat a + 16 \<le> unat x" using that ub uc d(2) ge by linarith+
    then show ?thesis by (simp only: set_isFree_other [OF lt(2)] set_size_other [OF lt(1)] set_size_other [OF lt(2)])
  qed
  have "same_header ?m1 ?m a"
    by (rule same_headerI) (use ub ge lt in \<open>simp_all add: set_isFree_other set_size_other\<close>)
  then have "block_size ?m a = ?h" "block_isFree ?m a" using h(3) isFree_set_size [OF lt(1)] by (simp_all add: same_header_def)
  then have mid: "tiles ?m a (a + n) [(a, ?h, True), (?b, ?h, True)]"
    using d ub uc bc by simp
  have "unat a \<le> unat (a + n)" using uc by simp
  note r = replace_tiles [OF h(1) h(6) this out mid]
  have "split_block a m = (?b, ?m)" by (simp add: split_block_def Let_def nextBuddy_def flip: h(2))
  moreover have "evolves p t m (pre @ (a, n, True) # post) ?m (pre @ (a, ?h, True) # (?b, ?h, True) # post)"
    using r by (simp add: evolves_def same_data_def)
  ultimately show ?thesis by blast
qed

lemma split_loop_evolves:
  assumes "tiles m p t (pre @ (a, n, True) # post)" "16 \<le> unat sz" "unat sz < 2 ^ 63"
  shows "\<exists>b k m' bs'. split_loop sz a m = (b, m') \<and> evolves p t m (pre @ (a, n, True) # post) m' bs' \<and> (b, k, True) \<in> set bs' \<and>
     (sz \<le> n \<longrightarrow> sz \<le> k)"
  using assms
proof (induction sz a m arbitrary: pre n rule: split_loop.induct)
  case (1 sz a m)
  have sz: "block_size m a = n" using tiles_bounds(4) [OF "1.prems"(1), of a n True] by simp
  have u2: "unat (sz * 2) = unat sz * 2" using "1.prems"(3) by (subst unat_mult_nowrap) simp_all
  show ?case
  proof (cases "sz * 2 < n")
    case False
    then have "split_loop sz a m = (a, m)" by (subst split_loop.simps) (simp add: sz)
    moreover have "(a, n, True) \<in> set (pre @ (a, n, True) # post)" by simp
    ultimately show ?thesis using evolves_refl [OF "1.prems"(1)] by blast
  next
    case True
    let ?h = "drop_bit 1 n"
    have n: "unat sz * 2 < unat n" using True u2 by (simp add: word_less_nat_alt)
    then have "32 < unat n" using "1.prems"(2) by simp
    then obtain m1 where s: "split_block a m = (a + ?h, m1)"
        "evolves p t m (pre @ (a, n, True) # post) m1 (pre @ (a, ?h, True) # (a + ?h, ?h, True) # post)"
      using split_block_evolves [OF "1.prems"(1)] by blast
    have t1: "tiles m1 p t ((pre @ [(a, ?h, True)]) @ (a + ?h, ?h, True) # post)" using s(2) by (simp add: evolves_def)
    have "sz \<le> ?h" using n by (simp add: word_le_nat_alt unat_drop_bit)
    then obtain b k m' bs' where b: "split_loop sz (a + ?h) m1 = (b, m')"
        "evolves p t m1 ((pre @ [(a, ?h, True)]) @ (a + ?h, ?h, True) # post) m' bs'" "(b, k, True) \<in> set bs'" "sz \<le> k"
      using "1.IH" [OF True [folded sz] s(1) [symmetric] t1 "1.prems"(2,3)] by blast
    have "split_loop sz a m = (b, m')" unfolding split_loop.simps [of sz a m] sz s(1) by (simp only: True if_True prod.case b(1))
    moreover have "evolves p t m (pre @ (a, n, True) # post) m' bs'" using evolves_trans [OF s(2)] b(2) by simp
    ultimately show ?thesis using b(3,4) by blast
  qed
qed

section \<open>Searching and coalescing\<close>

text \<open>A place in the walk over the blocks: \<open>block\<close> comes after \<open>pre\<close> and before or with \<open>post\<close>, its buddy is the next.\<close>

definition walking :: "addr \<Rightarrow> addr \<Rightarrow> memory \<Rightarrow> block list \<Rightarrow> block list \<Rightarrow> addr \<Rightarrow> addr \<Rightarrow> bool" where
  "walking p t m pre post block buddy \<longleftrightarrow>
     tiles m p block pre \<and> tiles m block t post \<and> (post \<noteq> [] \<longrightarrow> buddy = nextBuddy m block)"

lemma walking_tiles: "walking p t m pre post block buddy \<Longrightarrow> tiles m p t (pre @ post)"
  unfolding walking_def tiles_append by blast

lemma walking_start: "tiles m p t bs \<Longrightarrow> walking p t m [] bs p (nextBuddy m p)"
  by (simp add: walking_def)

text \<open>The loops go on exactly while there are two blocks to look at.\<close>

lemma walking_two:
  assumes "walking p t m pre post block buddy"
  shows "block < t \<and> buddy < t \<longleftrightarrow> 2 \<le> length post"
proof (cases post)
  case Nil
  then show ?thesis using assms by (simp add: walking_def)
next
  case (Cons b bs)
  then have h: "unat block + unat (block_size m block) \<le> unat t" "32 \<le> unat (block_size m block)"
      "tiles m (block + block_size m block) t bs" "buddy = block + block_size m block"
    using assms good_size_ge by (auto simp: walking_def nextBuddy_def)
  then have "block < t" by (simp add: word_less_nat_alt)
  moreover have "buddy < t \<longleftrightarrow> bs \<noteq> []"
  proof (cases bs)
    case (Cons c cs)
    then show ?thesis using h(3,4) good_size_ge [of "block_size m buddy"] by (auto simp: word_less_nat_alt)
  qed (use h in simp)
  ultimately show ?thesis using Cons by (cases bs) simp_all
qed

lemma walkingE:
  assumes "walking p t m pre post block buddy" "2 \<le> length post"
  obtains rest where "post = (block, block_size m block, block_isFree m block) # (buddy, block_size m buddy, block_isFree m buddy) # rest"
    "tiles m (nextBuddy m buddy) t rest" "buddy = nextBuddy m block"
proof -
  obtain b c rest where p: "post = b # c # rest" using assms(2) by (cases post rule: remdups_adj.cases) auto
  then show thesis using that assms(1) by (auto simp: walking_def nextBuddy_def)
qed

text \<open>One block further, and two blocks further.\<close>

lemma walking_one:
  assumes "walking p t m pre (b # c # rest) block buddy"
  shows "walking p t m (pre @ [b]) (c # rest) buddy (nextBuddy m buddy)"
  using assms tiles_le [of m buddy t "c # rest"] unat_next [of block "block_size m block" t]
  by (auto simp: walking_def tiles_append nextBuddy_def)

lemma walking_over:
  assumes "walking p t m pre (b # c # rest) block buddy" "step_over t buddy m = (block', buddy')"
  shows "walking p t m (pre @ [b, c]) rest block' buddy'"
proof -
  have w: "walking p t m (pre @ [b]) (c # rest) buddy (nextBuddy m buddy)" by (rule walking_one [OF assms(1)])
  then have "tiles m p buddy (pre @ [b])" "c = (buddy, block_size m buddy, block_isFree m buddy)" "good_size (block_size m buddy)"
      "unat buddy + unat (block_size m buddy) \<le> unat t" "tiles m (nextBuddy m buddy) t rest"
    by (auto simp: walking_def nextBuddy_def)
  note h = this
  have "tiles m p (nextBuddy m buddy) ((pre @ [b]) @ [c])"
    unfolding tiles_append [of m p _ "pre @ [b]"] using h unat_next [OF h(4)] by (intro exI [of _ buddy]) (simp add: nextBuddy_def)
  moreover have "nextBuddy m buddy < t" if "rest \<noteq> []"
    using that h(5) good_size_ge [of "block_size m (nextBuddy m buddy)"] by (cases rest) (auto simp: word_less_nat_alt)
  ultimately show ?thesis using assms(2) h(5) by (auto simp: step_over_def walking_def Let_def)
qed

lemma walking_after:
  assumes "tiles m p t (pre @ (a, n, f) # rest)" "block' = a + n" "rest \<noteq> [] \<Longrightarrow> buddy' = nextBuddy m block'"
  shows "walking p t m (pre @ [(a, n, f)]) rest block' buddy'"
proof -
  have h: "tiles m p a pre" "n = block_size m a" "f = block_isFree m a" "good_size n" "unat a + unat n \<le> unat t" "tiles m (a + n) t rest"
    using assms(1) by (auto simp: tiles_append)
  moreover have "tiles m a (a + n) [(a, n, f)]" using h unat_next [OF h(5)] by simp
  ultimately have "tiles m p (a + n) (pre @ [(a, n, f)])" unfolding tiles_append by blast
  then show ?thesis using h(6) assms(2,3) by (simp add: walking_def)
qed

lemma walking_merge:
  assumes "walking p t m pre ((block, n, True) # (buddy, n, True) # rest) block buddy"
  defines "m1 \<equiv> set_size block (push_bit 1 n) m"
  shows "evolves p t m (pre @ (block, n, True) # (buddy, n, True) # rest) m1 (pre @ (block, push_bit 1 n, True) # rest)"
    and "nextBuddy m1 block = block + push_bit 1 n" "nextBuddy m1 buddy = block + push_bit 1 n" "n \<le> push_bit 1 n"
    and "block_isFree m1 block" "block + push_bit 1 n < t \<longleftrightarrow> rest \<noteq> []"
proof -
  note t = walking_tiles [OF assms(1)]
  note mg = merge_evolves [OF t, folded m1_def]
  show "evolves p t m (pre @ (block, n, True) # (buddy, n, True) # rest) m1 (pre @ (block, push_bit 1 n, True) # rest)" by (rule mg(1))
  show "nextBuddy m1 block = block + push_bit 1 n" by (simp add: nextBuddy_def m1_def)
  have t1: "tiles m1 p t (pre @ (block, push_bit 1 n, True) # rest)" using mg(1) by (simp add: evolves_def)
  then show "block_isFree m1 block" by (auto simp: tiles_append)
  have h: "n = block_size m buddy" "buddy = block + n" "good_size n" "unat block + unat n \<le> unat t" "unat buddy + unat n \<le> unat t"
    using t by (auto simp: tiles_append)
  have ub: "unat buddy = unat block + unat n" unfolding h(2) by (rule unat_next [OF h(4)])
  note ge = good_size_ge [OF h(3)] and lt = unat_lt_2p [of t]
  have "same_header m m1 buddy"
    unfolding m1_def by (rule same_headerI) (use ub ge h(5) lt in \<open>simp_all add: set_size_other\<close>)
  then show "nextBuddy m1 buddy = block + push_bit 1 n" using mg(2) h(1) by (simp add: nextBuddy_def same_header_def)
  have "unat n + unat n < 2 ^ 64" using ub h(5) lt by simp
  then show "n \<le> push_bit 1 n" using good_size_double(2) [OF h(3)] by (simp add: word_le_nat_alt)
  have "tiles m1 (block + push_bit 1 n) t rest" using t1 by (auto simp: tiles_append)
  then show "block + push_bit 1 n < t \<longleftrightarrow> rest \<noteq> []"
    using good_size_ge [of "block_size m1 (block + push_bit 1 n)"] by (cases rest) (auto simp: word_less_nat_alt)
qed

lemma coalesce_pass_spec:
  assumes "walking p t m pre post block buddy" "length post < fuel"
  shows "\<exists>r m' bs'. coalesce_pass fuel t block buddy noCoalesce m = Some (r, m') \<and> evolves p t m (pre @ post) m' bs' \<and>
    length bs' \<le> length (pre @ post) \<and> (noCoalesce \<and> \<not> r \<longrightarrow> length bs' < length (pre @ post))"
  using assms
proof (induction fuel arbitrary: m pre post block buddy noCoalesce)
  case (Suc fuel)
  note w = Suc.prems(1)
  show ?case
  proof (cases "2 \<le> length post")
    case False
    then show ?thesis using walking_two [OF w] evolves_refl [OF walking_tiles [OF w]] by auto
  next
    case True
    let ?b = "(block, block_size m block, block_isFree m block)" and ?c = "(buddy, block_size m buddy, block_isFree m buddy)"
    obtain rest where post: "post = ?b # ?c # rest" using walkingE [OF w True] by metis
    have more: "block < t \<and> buddy < t" using walking_two [OF w] True by blast
    have over: ?thesis if "coalesce_pass (Suc fuel) t block buddy noCoalesce m =
        (case step_over t buddy m of (block, buddy) \<Rightarrow> coalesce_pass fuel t block buddy noCoalesce m)"
    proof -
      obtain b' c' where st: "step_over t buddy m = (b', c')" by (cases "step_over t buddy m")
      then show ?thesis using Suc.IH [OF walking_over [OF w [unfolded post] st], of noCoalesce] Suc.prems(2) that
        by (simp add: post)
    qed
    consider "block_size m block < block_size m buddy" | "block_size m block > block_size m buddy"
      | "block_size m block = block_size m buddy" "block_isFree m block \<and> block_isFree m buddy"
      | "block_size m block = block_size m buddy" "\<not> (block_isFree m block \<and> block_isFree m buddy)"
      by (metis linorder_less_linear)
    then show ?thesis
    proof cases
      case 1
      then show ?thesis using more by (intro over) simp
    next
      case 2
      then have "coalesce_pass (Suc fuel) t block buddy noCoalesce m = coalesce_pass fuel t buddy (nextBuddy m buddy) noCoalesce m"
        using more by auto
      then show ?thesis using Suc.IH [OF walking_one [OF w [unfolded post]], of noCoalesce] Suc.prems(2) by (simp add: post)
    next
      case 3
      let ?n = "block_size m block"
      let ?m = "set_size block (push_bit 1 ?n) m" and ?e = "block + push_bit 1 ?n"
      note mg = walking_merge [OF w [unfolded post, folded 3(1), unfolded conjunct1 [OF 3(2), THEN eqTrueI] conjunct2 [OF 3(2), THEN eqTrueI]]]
      let ?buddy = "if ?e < t then nextBuddy ?m ?e else buddy"
      have "tiles ?m p t (pre @ (block, push_bit 1 ?n, True) # rest)" using mg(1) by (simp add: evolves_def)
      then have w1: "walking p t ?m (pre @ [(block, push_bit 1 ?n, True)]) rest ?e ?buddy"
        by (rule walking_after) (use mg(6) in simp_all)
      have step: "coalesce_pass (Suc fuel) t block buddy noCoalesce m =
          coalesce_pass fuel t ?e ?buddy (if ?e < t then False else noCoalesce) ?m"
        using more 3 mg(2) by (simp add: Let_def)
      have "length rest < fuel" using Suc.prems(2) post by simp
      then obtain r m' bs' where "coalesce_pass fuel t ?e ?buddy (if ?e < t then False else noCoalesce) ?m = Some (r, m')"
          "evolves p t ?m ((pre @ [(block, push_bit 1 ?n, True)]) @ rest) m' bs'"
          "length bs' \<le> length ((pre @ [(block, push_bit 1 ?n, True)]) @ rest)"
        using Suc.IH [OF w1] by blast
      moreover from this(2) have "evolves p t m (pre @ post) m' bs'"
        using evolves_trans [OF mg(1)] post 3 by simp
      ultimately show ?thesis unfolding step by (intro exI [of _ r] exI [of _ m'] exI [of _ bs']) (simp add: post)
    next
      case 4
      then show ?thesis using more by (intro over) auto
    qed
  qed
qed simp

lemma tiles_region_fuel: "tiles m p t bs \<Longrightarrow> length bs < region_fuel p t"
  using tiles_length [of m p t bs] by (simp add: region_fuel_def unat_sub_nowrap)

lemma coalesce_loop_spec:
  assumes "tiles m p t bs" "length bs < fuel"
  shows "\<exists>m' bs'. coalesce_loop fuel p t m = Some m' \<and> evolves p t m bs m' bs'"
  using assms
proof (induction fuel arbitrary: m bs)
  case (Suc fuel)
  obtain r m1 bs1 where c: "coalesce_pass (region_fuel p t) t p (nextBuddy m p) True m = Some (r, m1)"
      "evolves p t m bs m1 bs1" "\<not> r \<longrightarrow> length bs1 < length bs"
    using coalesce_pass_spec [OF walking_start [OF Suc.prems(1)] tiles_region_fuel [OF Suc.prems(1)], of True] by auto
  show ?case
  proof (cases r)
    case True
    then show ?thesis using c by auto
  next
    case False
    have "tiles m1 p t bs1" using c(2) by (simp add: evolves_def)
    moreover have "length bs1 < fuel" using False c(3) Suc.prems(2) by simp
    ultimately obtain m' bs' where "coalesce_loop fuel p t m1 = Some m'" "evolves p t m1 bs1 m' bs'" using Suc.IH by blast
    then show ?thesis using False c evolves_trans [OF c(2)] by auto
  qed
qed simp

lemma coalesceBuddies_spec:
  assumes "tiles m p t bs"
  shows "\<exists>m' bs'. coalesceBuddies p t m = Some m' \<and> evolves p t m bs m' bs'"
  unfolding coalesceBuddies_def by (rule coalesce_loop_spec [OF assms tiles_region_fuel [OF assms]])

text \<open>What the search has found is a free block of the size asked for.\<close>

definition candidate :: "u64 \<Rightarrow> addr \<Rightarrow> block list \<Rightarrow> bool" where
  "candidate sz best bs \<longleftrightarrow> best = 0 \<or> (\<exists>n. (best, n, True) \<in> set bs \<and> sz \<le> n)"

lemma candidate_better:
  assumes "candidate sz best bs" "(b, block_size m b, block_isFree m b) \<in> set bs"
  shows "candidate sz (better m sz best b) bs"
  using assms by (auto simp: candidate_def better_def)

lemma find_loop_spec:
  assumes "walking p t m pre post block buddy" "length post < fuel" "candidate sz best (pre @ take 1 post)"
  shows "\<exists>best' m' bs'. find_loop fuel t sz block buddy best m = Some (best', m') \<and> evolves p t m (pre @ post) m' bs' \<and>
    candidate sz best' bs'"
  using assms
proof (induction fuel arbitrary: m pre post block buddy best)
  case (Suc fuel)
  note w = Suc.prems(1)
  show ?case
  proof (cases "2 \<le> length post")
    case False
    have "candidate sz best (pre @ post)" using Suc.prems(3) by (auto simp: candidate_def dest: in_set_takeD)
    then show ?thesis using False walking_two [OF w] evolves_refl [OF walking_tiles [OF w]] by auto
  next
    case True
    let ?n = "block_size m block"
    let ?b = "(block, ?n, block_isFree m block)" and ?c = "(buddy, block_size m buddy, block_isFree m buddy)"
    obtain rest where post: "post = ?b # ?c # rest" using walkingE [OF w True] by metis
    have more: "block < t \<and> buddy < t" using walking_two [OF w] True by blast
    have fuel: "length rest < fuel" "length (?c # rest) < fuel" using Suc.prems(2) by (simp_all add: post)
    show ?thesis
    proof (cases "block_isFree m block \<and> block_isFree m buddy \<and> ?n = block_size m buddy")
      case merge: True
      let ?m = "set_size block (push_bit 1 ?n) m" and ?e = "block + push_bit 1 ?n"
      let ?best = "if sz \<le> push_bit 1 ?n \<and> (best = 0 \<or> push_bit 1 ?n \<le> block_size ?m best) then block else best"
      have free: "block_isFree m block = True" "block_isFree m buddy = True" "block_size m buddy = ?n" using merge by simp_all
      note mg = walking_merge [OF w [unfolded post free]]
      let ?buddy = "if ?e < t then nextBuddy ?m ?e else buddy"
      have "tiles ?m p t (pre @ (block, push_bit 1 ?n, True) # rest)" using mg(1) by (simp add: evolves_def)
      then have w1: "walking p t ?m (pre @ [(block, push_bit 1 ?n, True)]) rest ?e ?buddy"
        by (rule walking_after) (use mg(6) in simp_all)
      have step: "find_loop (Suc fuel) t sz block buddy best m = find_loop fuel t sz ?e ?buddy ?best ?m"
        using more merge mg(3) by (simp add: Let_def step_over_def)
      have "candidate sz best (pre @ [(block, ?n, True)])" using Suc.prems(3) post free by simp
      then have "candidate sz ?best ((pre @ [(block, push_bit 1 ?n, True)]) @ take 1 rest)"
        using mg(4) order_trans by (fastforce simp: candidate_def)
      then obtain best' m' bs' where "find_loop fuel t sz ?e ?buddy ?best ?m = Some (best', m')"
          "evolves p t ?m ((pre @ [(block, push_bit 1 ?n, True)]) @ rest) m' bs'" "candidate sz best' bs'"
        using Suc.IH [OF w1 fuel(1)] by blast
      moreover from this(2) have "evolves p t m (pre @ post) m' bs'"
        using evolves_trans [OF mg(1)] post free by simp
      ultimately show ?thesis unfolding step by blast
    next
      case no_merge: False
      let ?best = "better m sz (better m sz best block) buddy"
      have step: "find_loop (Suc fuel) t sz block buddy best m =
          (if ?n < block_size m buddy
           then case step_over t buddy m of (block, buddy) \<Rightarrow> find_loop fuel t sz block buddy ?best m
           else find_loop fuel t sz buddy (nextBuddy m buddy) ?best m)"
        by (simp only: find_loop.simps Let_def if_P [OF more] if_not_P [OF no_merge])
      have "candidate sz best (pre @ [?b, ?c])" using Suc.prems(3) by (auto simp: post candidate_def)
      then have cand: "candidate sz ?best (pre @ [?b, ?c])" by (intro candidate_better) simp_all
      show ?thesis
      proof (cases "?n < block_size m buddy")
        case True
        obtain b' c' where st: "step_over t buddy m = (b', c')" by (cases "step_over t buddy m")
        have "candidate sz ?best ((pre @ [?b, ?c]) @ take 1 rest)" using cand by (auto simp: candidate_def)
        then show ?thesis using Suc.IH [OF walking_over [OF w [unfolded post] st] fuel(1)] True step st by (simp add: post)
      next
        case False
        have "candidate sz ?best ((pre @ [?b]) @ take 1 (?c # rest))" using cand by simp
        then show ?thesis using Suc.IH [OF walking_one [OF w [unfolded post]] fuel(2)] False step by (simp add: post)
      qed
    qed
  qed
qed simp

lemma splitBuddy_spec:
  assumes "tiles m p t bs" "(a, n, True) \<in> set bs" "16 \<le> unat sz" "unat sz < 2 ^ 63"
  shows "\<exists>b m' bs'. splitBuddy a sz m = (b, m') \<and> evolves p t m bs m' bs' \<and> candidate sz b bs'"
proof (cases "a = 0")
  case True
  then show ?thesis using evolves_refl [OF assms(1)] by (auto simp: splitBuddy_def candidate_def)
next
  case False
  obtain pre post where bs: "bs = pre @ (a, n, True) # post" using split_list [OF assms(2)] by blast
  obtain b k m' bs' where b: "split_loop sz a m = (b, m')" "evolves p t m bs m' bs'" "(b, k, True) \<in> set bs'"
    using split_loop_evolves [OF assms(1) [unfolded bs] assms(3,4)] unfolding bs by blast
  have "tiles m' p t bs'" using b(2) by (simp add: evolves_def)
  then have "k = block_size m' b" using tiles_bounds(4) b(3) by blast
  then have "candidate sz (if sz \<le> block_size m' b then b else 0) bs'" using b(3) by (auto simp: candidate_def)
  moreover have "splitBuddy a sz m = (if sz \<le> block_size m' b then b else 0, m')" using False b(1) by (simp add: splitBuddy_def)
  ultimately show ?thesis using b(2) by blast
qed

lemma findBestBuddy_spec:
  assumes "tiles m p t bs" "p \<noteq> t" "16 \<le> unat sz" "unat sz < 2 ^ 63"
  shows "\<exists>b m' bs'. findBestBuddy p t sz m = Some (b, m') \<and> evolves p t m bs m' bs' \<and> candidate sz b bs'"
proof -
  obtain rest where bs: "bs = (p, block_size m p, block_isFree m p) # rest" using assms(1,2) by (cases bs) auto
  show ?thesis
  proof (cases "nextBuddy m p = t \<and> block_isFree m p")
    case True
    then have "(p, block_size m p, True) \<in> set bs" by (simp add: bs)
    then show ?thesis using splitBuddy_spec [OF assms(1) _ assms(3,4)] True by (simp add: findBestBuddy_def)
  next
    case False
    obtain best m1 bs1 where f: "find_loop (region_fuel p t) t sz p (nextBuddy m p) 0 m = Some (best, m1)"
        "evolves p t m bs m1 bs1" "candidate sz best bs1"
      using find_loop_spec [OF walking_start [OF assms(1)] tiles_region_fuel [OF assms(1)], of sz 0] by (auto simp: candidate_def)
    have r: "findBestBuddy p t sz m = Some (if best \<noteq> 0 then splitBuddy best sz m1 else (0, m1))"
      using False f(1) by (auto simp: findBestBuddy_def)
    show ?thesis
    proof (cases "best = 0")
      case True
      then show ?thesis using r f(2) by (auto simp: candidate_def)
    next
      case False
      then obtain n where "(best, n, True) \<in> set bs1" using f(3) by (auto simp: candidate_def)
      moreover have "tiles m1 p t bs1" using f(2) by (simp add: evolves_def)
      ultimately obtain b m' bs' where "splitBuddy best sz m1 = (b, m')" "evolves p t m1 bs1 m' bs'" "candidate sz b bs'"
        using splitBuddy_spec assms(3,4) by blast
      then show ?thesis using r False evolves_trans [OF f(2)] by auto
    qed
  qed
qed

section \<open>The allocator meets the contract\<close>

lemma tiles_apart:
  assumes "tiles m p t bs" "(a, n, f) \<in> set bs" "(a', n', f') \<in> set bs" "a \<noteq> a'"
  shows "unat a + unat n \<le> unat a' \<or> unat a' + unat n' \<le> unat a"
proof -
  obtain pre post where bs: "bs = pre @ (a, n, f) # post" using split_list [OF assms(2)] by blast
  have t: "tiles m p a pre" "tiles m (a + n) t post" "unat a + unat n \<le> unat t" "n = block_size m a"
    using assms(1) unfolding bs by (auto simp: tiles_append)
  have "(a', n', f') \<in> set pre \<or> (a', n', f') \<in> set post" using assms(3,4) unfolding bs by auto
  then show ?thesis using tiles_bounds(2) [OF t(1), of a' n' f'] tiles_bounds(1) [OF t(2), of a' n' f'] unat_next [OF t(3)] by auto
qed

lemma tiles_distinct: "tiles m p t bs \<Longrightarrow> distinct (map fst bs)"
proof (induction bs arbitrary: p)
  case (Cons b bs)
  have "p \<notin> fst ` set bs"
  proof
    assume "p \<in> fst ` set bs"
    then obtain n f where "(p, n, f) \<in> set bs" by auto
    then show False using Cons.prems tiles_bounds(1) [of m "p + block_size m p" t bs p n f]
        unat_next [of p "block_size m p" t] good_size_ge [of "block_size m p"] by simp
  qed
  then show ?case using Cons by auto
qed simp

lemma data_write:
  assumes "tiles m p t bs" "(a, n, f) \<in> set bs" "\<And>x. unat x < unat a + 16 \<or> unat a + unat n \<le> unat x \<Longrightarrow> m' x = m x"
  shows "tiles m' p t bs"
proof (rule tiles_cong [OF _ assms(1)])
  fix b k g assume b: "(b, k, g) \<in> set bs"
  note tb = tiles_bounds [OF assms(1) b] good_size_ge [of k] unat_lt_2p [of t]
  show "same_header m m' b"
  proof (rule same_headerI)
    fix x :: addr assume x: "unat b \<le> unat x" "unat x < unat b + 16"
    show "m' x = m x"
    proof (rule assms(3), cases "b = a")
      case False
      then show "unat x < unat a + 16 \<or> unat a + unat n \<le> unat x"
        using tiles_apart [OF assms(1,2) b] x tb by auto
    qed (use x in simp)
  qed (use tb in simp)
qed

lemma mark_block:
  assumes "tiles m p t (pre @ (a, n, f) # post)"
  shows "tiles (set_isFree a g m) p t (pre @ (a, n, g) # post)" "same_data (pre @ post) m (set_isFree a g m)"
proof -
  have h: "tiles m p a pre" "n = block_size m a" "good_size n" "unat a + unat n \<le> unat t" "tiles m (a + n) t post"
    using assms by (auto simp: tiles_append)
  have c: "unat (a + n) = unat a + unat n" by (rule unat_next [OF h(4)])
  have lt: "unat a + 16 \<le> 2 ^ 64" using h(4) good_size_ge [OF h(3)] unat_lt_2p [of t] by simp
  have out: "set_isFree a g m x = m x" if "unat x < unat a \<or> unat (a + n) \<le> unat x" for x
    using that c good_size_ge [OF h(3)] by (intro set_isFree_other lt) auto
  have mid: "tiles (set_isFree a g m) a (a + n) [(a, n, g)]" using h(2,3) c by simp
  have "unat a \<le> unat (a + n)" using c by simp
  from replace_tiles [OF h(1,5) this out mid] show "tiles (set_isFree a g m) p t (pre @ (a, n, g) # post)"
    "same_data (pre @ post) m (set_isFree a g m)" by simp_all
qed

text \<open>The clients' blocks are the data of the blocks in use.\<close>

definition data_of :: "block \<Rightarrow> addr" where
  "data_of b = fst b + SIZEOF_BuddyBlock"

definition covered :: "block list \<Rightarrow> (addr \<times> nat) list \<Rightarrow> bool" where
  "covered us ps \<longleftrightarrow> mset (map data_of us) = mset (map fst ps) \<and>
     list_all (\<lambda>l. \<exists>b \<in> set us. data_of b = fst l \<and> snd l + 16 \<le> unat (fst (snd b))) ps"

definition buddy_valid :: "addr \<Rightarrow> addr \<Rightarrow> memory \<Rightarrow> BuddyAllocator \<Rightarrow> (addr \<times> nat) list \<Rightarrow> bool" where
  "buddy_valid head tail m a ps \<longleftrightarrow> a = \<lparr>buddy_head = head, buddy_tail = tail\<rparr> \<and> head \<noteq> 0 \<and> head \<noteq> tail \<and>
     unat tail + 160 < 2 ^ 64 \<and> (\<exists>bs. tiles m head tail bs \<and> covered (used bs) ps)"

lemma unat_data:
  assumes "tiles m p t bs" "b \<in> set bs"
  shows "unat (data_of b) = unat (fst b) + 16" "unat (fst b) + 32 \<le> unat t" "fst b = data_of b - SIZEOF_BuddyBlock"
proof -
  obtain a n f where b: "b = (a, n, f)" by (cases b)
  note tb = tiles_bounds(2,3) [OF assms(1) assms(2) [unfolded b]]
  show "unat (fst b) + 32 \<le> unat t" using tb good_size_ge [of n] by (simp add: b)
  then show "unat (data_of b) = unat (fst b) + 16"
    using unat_lt_2p [of t] by (simp add: data_of_def SIZEOF_BuddyBlock_def unat_add_nowrap)
qed (simp add: data_of_def)

lemma coveredE:
  assumes "tiles m p t bs" "covered (used bs) ps" "i < length ps"
  obtains a n where "(a, n, False) \<in> set bs" "fst (ps ! i) = data_of (a, n, False)" "snd (ps ! i) + 16 \<le> unat n"
    "unat (fst (ps ! i)) = unat a + 16" "a = fst (ps ! i) - SIZEOF_BuddyBlock"
proof -
  obtain b where b: "b \<in> set (used bs)" "data_of b = fst (ps ! i)" "snd (ps ! i) + 16 \<le> unat (fst (snd b))"
    using assms(2,3) by (auto simp: covered_def list_all_length)
  obtain a n f where bb: "b = (a, n, f)" by (cases b)
  then have m: "(a, n, False) \<in> set bs" "b = (a, n, False)" using b(1) by (auto simp: set_used)
  note u = unat_data [OF assms(1) m(1), unfolded fst_conv]
  show thesis
    by (rule that [OF m(1)]) (use b(2,3) u m(2) in \<open>simp_all only: fst_conv snd_conv\<close>)
qed

lemma covered_distinct:
  assumes "tiles m p t bs" "covered (used bs) ps"
  shows "distinct (map fst ps)"
proof -
  have "distinct (map fst (used bs))" using tiles_distinct [OF assms(1)] by (simp add: used_def distinct_map_filter)
  then have "distinct (map data_of (used bs))" by (auto simp: distinct_map inj_on_def data_of_def)
  then show ?thesis using assms(2) mset_eq_imp_distinct_iff unfolding covered_def by blast
qed

lemma buddy_no_overlap:
  assumes "buddy_valid head tail m a ps" "i < length ps" "i' < length ps" "j < snd (ps ! i)" "j' < snd (ps ! i')"
    and "fst (ps ! i) + of_nat j = fst (ps ! i') + of_nat j'"
  shows "i = i' \<and> j = j'"
proof -
  obtain bs where t: "tiles m head tail bs" "covered (used bs) ps" "unat tail + 160 < 2 ^ 64" using assms(1) by (auto simp: buddy_valid_def)
  obtain b n where b: "(b, n, False) \<in> set bs" "fst (ps ! i) = data_of (b, n, False)" "snd (ps ! i) + 16 \<le> unat n"
      "unat (fst (ps ! i)) = unat b + 16" using coveredE [OF t(1,2) assms(2)] by metis
  obtain b' n' where b': "(b', n', False) \<in> set bs" "fst (ps ! i') = data_of (b', n', False)" "snd (ps ! i') + 16 \<le> unat n'"
      "unat (fst (ps ! i')) = unat b' + 16" using coveredE [OF t(1,2) assms(3)] by metis
  note bd = tiles_bounds(2) [OF t(1) b(1)] tiles_bounds(2) [OF t(1) b'(1)] t(3)
  have "unat (fst (ps ! i) + of_nat j) = unat (fst (ps ! i)) + j"
    by (rule unat_inside [where k = "snd (ps ! i)"]) (use bd b(3,4) assms(4) in simp_all)
  moreover have "unat (fst (ps ! i') + of_nat j') = unat (fst (ps ! i')) + j'"
    by (rule unat_inside [where k = "snd (ps ! i')"]) (use bd b'(3,4) assms(5) in simp_all)
  ultimately have e: "unat b + j = unat b' + j'" using arg_cong [OF assms(6), of unat] b(4) b'(4) by simp
  have "b = b'"
  proof (rule ccontr)
    assume "b \<noteq> b'"
    then show False using tiles_apart [OF t(1) b(1) b'(1)] e b(3) b'(3) assms(4,5) by linarith
  qed
  then have "fst (ps ! i) = fst (ps ! i')" using b(2) b'(2) by (simp add: data_of_def)
  then have "i = i'" using covered_distinct [OF t(1,2)] assms(2,3) by (simp add: distinct_conv_nth) metis
  then show ?thesis using e \<open>b = b'\<close> by simp
qed

lemma untouched_data:
  assumes "tiles m p t bs" "covered (used bs) ps" "\<And>a n x. (a, n, False) \<in> set bs \<Longrightarrow> unat a \<le> unat x \<Longrightarrow> unat x < unat a + unat n \<Longrightarrow> m' x = m x"
  shows "untouched ps m m'"
  unfolding untouched_def
proof (intro ballI, simp only: split_paired_all prod.case, intro allI impI)
  fix q k j assume q: "(q, k) \<in> set ps" and j: "j < k"
  obtain i where i: "i < length ps" "ps ! i = (q, k)" using q by (auto simp: in_set_conv_nth)
  obtain a n where a: "(a, n, False) \<in> set bs" "k + 16 \<le> unat n" "unat q = unat a + 16"
    using coveredE [OF assms(1,2) i(1)] i(2) by (metis fst_conv snd_conv)
  note bd = tiles_bounds(2) [OF assms(1) a(1)] unat_lt_2p [of t]
  have "unat (q + of_nat j) = unat q + j" by (rule unat_inside [where k = k]) (use bd a(2,3) j in simp_all)
  then show "m' (q + of_nat j) = m (q + of_nat j)" using a j by (intro assms(3) [OF a(1)]) simp_all
qed

lemma evolves_untouched: "tiles m p t bs \<Longrightarrow> covered (used bs) ps \<Longrightarrow> evolves p t m bs m' bs' \<Longrightarrow> untouched ps m m'"
  by (rule untouched_data) (auto simp: evolves_def same_data_def set_used)

text \<open>Taking a free block into use, and giving it back.\<close>

lemma take_block:
  assumes "tiles m p t bs" "covered (used bs) ps" "(a, n, True) \<in> set bs" "k + 16 \<le> unat n"
  shows "\<exists>bs'. tiles (set_isFree a False m) p t bs' \<and> (a, n, False) \<in> set bs' \<and> covered (used bs') ((data_of (a, n, False), k) # ps) \<and>
    untouched ps m (set_isFree a False m)"
proof -
  obtain pre post where bs: "bs = pre @ (a, n, True) # post" using split_list [OF assms(3)] by blast
  note mk = mark_block [OF assms(1) [unfolded bs], of False]
  have "covered (used (pre @ (a, n, False) # post)) ((data_of (a, n, False), k) # ps)"
    using assms(2,4) unfolding bs covered_def by (auto simp: list_all_iff)
  moreover have "untouched ps m (set_isFree a False m)"
  proof (rule untouched_data [OF assms(1,2)])
    fix b k and x :: addr assume "(b, k, False) \<in> set bs" "unat b \<le> unat x" "unat x < unat b + unat k"
    then show "set_isFree a False m x = m x" using mk(2) unfolding bs same_data_def by (auto simp: set_used)
  qed
  ultimately show ?thesis using mk(1) by (intro exI [of _ "pre @ (a, n, False) # post"]) simp
qed

lemma give_block:
  assumes "tiles m p t bs" "covered (used bs) ps" "i < length ps"
  defines "a \<equiv> fst (ps ! i) - SIZEOF_BuddyBlock"
  shows "\<exists>bs'. tiles (set_isFree a True m) p t bs' \<and> covered (used bs') (remove_at i ps) \<and>
    untouched (remove_at i ps) m (set_isFree a True m)"
proof -
  obtain n where a: "(a, n, False) \<in> set bs" "fst (ps ! i) = data_of (a, n, False)"
    using coveredE [OF assms(1-3)] unfolding a_def by metis
  obtain pre post where bs: "bs = pre @ (a, n, False) # post" using split_list [OF a(1)] by blast
  note mk = mark_block [OF assms(1) [unfolded bs], of True]
  have "add_mset (fst (ps ! i)) (mset (map fst (remove_at i ps))) = mset (map fst ps)"
    by (rule mset_remove_at [OF assms(3)])
  also have "\<dots> = mset (map data_of (used bs))" using assms(2) by (simp only: covered_def)
  also have "\<dots> = add_mset (fst (ps ! i)) (mset (map data_of (used (pre @ post))))" by (simp add: bs a(2))
  finally have ms: "mset (map data_of (used (pre @ post))) = mset (map fst (remove_at i ps))"
    by (simp only: add_mset_add_mset_same_iff)
  have "\<exists>b \<in> set (used (pre @ post)). data_of b = fst l \<and> snd l + 16 \<le> unat (fst (snd b))" if l: "l \<in> set (remove_at i ps)" for l
  proof -
    obtain b where b: "b \<in> set (used bs)" "data_of b = fst l" "snd l + 16 \<le> unat (fst (snd b))"
      using assms(2) l set_remove_at [of i ps] unfolding covered_def list_all_iff by blast
    have "fst l \<in> set (map data_of (used (pre @ post)))" using mset_eq_setD [OF ms] l by auto
    moreover have "distinct (map data_of (used bs))"
      using covered_distinct [OF assms(1,2)] assms(2) mset_eq_imp_distinct_iff unfolding covered_def by blast
    ultimately have "b \<noteq> (a, n, False)" using b(2) unfolding bs by auto
    then show ?thesis using b unfolding bs by auto
  qed
  then have cov: "covered (used (pre @ post)) (remove_at i ps)" using ms by (simp add: covered_def list_all_iff)
  have "untouched (remove_at i ps) m (set_isFree a True m)"
    unfolding untouched_def
  proof (intro ballI, simp only: split_paired_all prod.case, intro allI impI)
    fix q k j assume q: "(q, k) \<in> set (remove_at i ps)" and j: "j < k"
    obtain b where b: "b \<in> set (used (pre @ post))" "data_of b = q" "k + 16 \<le> unat (fst (snd b))"
      using cov q unfolding covered_def list_all_iff by force
    obtain c l g where g: "b = (c, l, g)" by (cases b)
    have "(c, l, g) \<in> set (pre @ post) \<and> \<not> g" using b(1) unfolding g set_used .
    then have c: "b = (c, l, False)" "(c, l, False) \<in> set bs" using g by (auto simp: bs)
    note u = unat_data(1) [OF assms(1) c(2)] tiles_bounds(2) [OF assms(1) c(2)] unat_lt_2p [of t]
    have "unat (q + of_nat j) = unat q + j" by (rule unat_inside [where k = k]) (use u b(2,3) c(1) j in simp_all)
    then show "set_isFree a True m (q + of_nat j) = m (q + of_nat j)"
      using mk(2) b u c(1) j unfolding same_data_def by fastforce
  qed
  then show ?thesis using mk(1) cov by (intro exI [of _ "pre @ (a, n, True) # post"]) simp
qed

definition admissible_request :: "buddy_request \<Rightarrow> bool" where
  "admissible_request r = (case r of (sz, cnt, flags) \<Rightarrow> unat sz * unat cnt + 16 < 2 ^ 63)"

definition requested :: "buddy_request \<Rightarrow> nat" where
  "requested r = (case r of (sz, cnt, flags) \<Rightarrow> unat sz * unat cnt)"

lemma requested_words:
  assumes "admissible_request (sz, cnt, flags)"
  shows "unat (sz * cnt) = requested (sz, cnt, flags)"
    "unat (sz * cnt + SIZEOF_BuddyBlock) = requested (sz, cnt, flags) + 16" "requested (sz, cnt, flags) + 16 < 2 ^ 63"
proof -
  show l: "requested (sz, cnt, flags) + 16 < 2 ^ 63" using assms by (simp add: admissible_request_def requested_def)
  then show u: "unat (sz * cnt) = requested (sz, cnt, flags)"
    unfolding requested_def prod.case by (intro unat_mult_nowrap) simp
  show "unat (sz * cnt + SIZEOF_BuddyBlock) = requested (sz, cnt, flags) + 16"
    using l u by (subst unat_add_nowrap) (simp_all add: SIZEOF_BuddyBlock_def)
qed

lemma find_twice_spec:
  assumes "tiles m p t bs" "p \<noteq> t" "16 \<le> unat sz" "unat sz < 2 ^ 63"
  shows "\<exists>b m' bs'. find_twice p t sz m = Some (b, m') \<and> evolves p t m bs m' bs' \<and> candidate sz b bs'"
proof -
  obtain b m1 bs1 where f: "findBestBuddy p t sz m = Some (b, m1)" "evolves p t m bs m1 bs1" "candidate sz b bs1"
    using findBestBuddy_spec [OF assms] by blast
  show ?thesis
  proof (cases "b = 0")
    case True
    have t1: "tiles m1 p t bs1" using f(2) by (simp add: evolves_def)
    obtain m2 bs2 where c: "coalesceBuddies p t m1 = Some m2" "evolves p t m1 bs1 m2 bs2"
      using coalesceBuddies_spec [OF t1] by blast
    have t2: "tiles m2 p t bs2" using c(2) by (simp add: evolves_def)
    obtain b' m3 bs3 where g: "findBestBuddy p t sz m2 = Some (b', m3)" "evolves p t m2 bs2 m3 bs3" "candidate sz b' bs3"
      using findBestBuddy_spec [OF t2 assms(2-4)] by blast
    have "evolves p t m bs m3 bs3" using evolves_trans [OF f(2) evolves_trans [OF c(2) g(2)]] .
    then show ?thesis using f(1) c(1) g True by (auto simp: find_twice_def)
  qed (use f in \<open>auto simp: find_twice_def\<close>)
qed

lemma buddyAlloc_contract:
  assumes "buddy_valid head tail m a ps" "admissible_request r"
  shows "case buddyAlloc m a r of
      Ret (p, m', a') \<Rightarrow> buddy_valid head tail m' a' (if p = 0 then ps else (p, requested r) # ps) \<and> untouched ps m m' \<and>
        (p \<noteq> 0 \<longrightarrow> snd (snd r) AND ZERO_MEMORY \<noteq> 0 \<longrightarrow> load_bytes m' p (requested r) = replicate (requested r) 0)
    | Jump \<Rightarrow> snd (snd r) AND NULLPTR_ON_FAIL = 0
    | Stuck \<Rightarrow> False"
proof -
  obtain sz cnt flags where r: "r = (sz, cnt, flags)" by (cases r)
  let ?n = "requested r" and ?sz = "sz * cnt + SIZEOF_BuddyBlock"
  note rw = requested_words [OF assms(2) [unfolded r], folded r]
  obtain bs where v: "a = \<lparr>buddy_head = head, buddy_tail = tail\<rparr>" "head \<noteq> 0" "head \<noteq> tail" "unat tail + 160 < 2 ^ 64"
      "tiles m head tail bs" "covered (used bs) ps" using assms(1) by (auto simp: buddy_valid_def)
  have sz: "16 \<le> unat ?sz" "unat ?sz < 2 ^ 63" using rw(2,3) by simp_all
  obtain b m1 bs1 where f: "find_twice head tail ?sz m = Some (b, m1)" "evolves head tail m bs m1 bs1" "candidate ?sz b bs1"
    using find_twice_spec [OF v(5,3) sz] by blast
  have t1: "tiles m1 head tail bs1" "covered (used bs1) ps" using f(2) v(6) by (simp_all add: evolves_def)
  have u1: "untouched ps m m1" by (rule evolves_untouched [OF v(5,6) f(2)])
  have call: "buddyAlloc m a r = (case find_twice head tail ?sz m of
      None \<Rightarrow> Stuck
    | Some (found, m) \<Rightarrow>
        if found \<noteq> 0 then
          (if ZERO_MEMORY AND flags \<noteq> 0
           then (case memset (set_isFree found False m) (found + SIZEOF_BuddyBlock) 0 (sz * cnt) of
                   None \<Rightarrow> Stuck | Some m \<Rightarrow> Ret (found + SIZEOF_BuddyBlock, m, a))
           else Ret (found + SIZEOF_BuddyBlock, set_isFree found False m, a))
        else if flags AND NULLPTR_ON_FAIL \<noteq> 0 then Ret (0, m, a) else Jump)"
    by (simp only: buddyAlloc_def r v(1) Let_def prod.case BuddyAllocator.select_convs)
  show ?thesis
  proof (cases "b = 0")
    case True
    have "buddy_valid head tail m1 a ps" using v(1-4) t1 by (auto simp: buddy_valid_def)
    then show ?thesis unfolding call f(1) using True u1 by (simp add: r)
  next
    case False
    then obtain n where n: "(b, n, True) \<in> set bs1" "?sz \<le> n" using f(3) by (auto simp: candidate_def)
    have fit: "?n + 16 \<le> unat n" using n(2) rw(2) by (simp add: word_le_nat_alt)
    let ?p = "b + SIZEOF_BuddyBlock" and ?m = "set_isFree b False m1"
    obtain bs2 where t2: "tiles ?m head tail bs2" "(b, n, False) \<in> set bs2" "covered (used bs2) ((data_of (b, n, False), ?n) # ps)"
        "untouched ps m1 ?m" using take_block [OF t1 n(1) fit] by blast
    have p: "data_of (b, n, False) = ?p" by (simp add: data_of_def)
    have up: "unat ?p = unat b + 16" using unat_data(1) [OF t2(1,2)] by (simp add: p)
    note bd = tiles_bounds(2) [OF t2(1,2)] v(4)
    have p0: "?p \<noteq> 0" using up by auto
    have ok: "buddy_valid head tail m2 a ((?p, ?n) # ps)" if "tiles m2 head tail bs2" for m2
      using v(1-4) that t2(3) by (auto simp: buddy_valid_def p)
    let ?z = "filled ?m ?p 0 ?n"
    have ms: "memset ?m ?p 0 (sz * cnt) = Some ?z"
      using memset_eq_filled [of ?p "sz * cnt" ?m 0] up bd fit rw(1) by simp
    have outz: "?z x = ?m x" if "unat x < unat b + 16 \<or> unat b + unat n \<le> unat x" for x
      using that up fit bd by (auto simp: filled_def unat_diff_wrap)
    have tz: "tiles ?z head tail bs2" by (rule data_write [OF t2(1,2) outz])
    have uz: "untouched ps ?m ?z"
      unfolding untouched_def
    proof (intro ballI, simp only: split_paired_all prod.case, intro allI impI)
      fix q k j assume q: "(q, k) \<in> set ps" and j: "j < k"
      obtain i where i: "i < length ps" "ps ! i = (q, k)" using q by (auto simp: in_set_conv_nth)
      have "\<not> unat (q + of_nat j - ?p) < ?n"
      proof
        assume l: "unat (q + of_nat j - ?p) < ?n"
        have "?p + of_nat (unat (q + of_nat j - ?p)) = q + of_nat j" by simp
        then show False
          using buddy_no_overlap [OF ok [OF t2(1)], of 0 "Suc i" "unat (q + of_nat j - ?p)" j] i j l by simp
      qed
      then show "?z (q + of_nat j) = ?m (q + of_nat j)" by (simp add: filled_def)
    qed
    have lz: "load_bytes ?z ?p ?n = replicate ?n 0"
      using rw(3) by (intro nth_equalityI) (simp_all add: load_bytes_def filled_def unat_of_nat_lt)
    have "untouched ps m ?m" using untouched_trans [OF u1 t2(4)] .
    moreover from untouched_trans [OF this uz] have "untouched ps m ?z" .
    ultimately show ?thesis
      unfolding call f(1) using False ok [OF t2(1)] ok [OF tz] lz ms p0 by (simp add: r and.commute)
  qed
qed

lemma freeBuddy_contract:
  assumes "buddy_valid head tail m a ps" "i < length ps"
  shows "\<exists>m' a'. freeBuddy m a (fst (ps ! i)) = Ret (m', a') \<and> buddy_valid head tail m' a' (remove_at i ps) \<and>
    untouched (remove_at i ps) m m'"
proof -
  obtain bs where v: "a = \<lparr>buddy_head = head, buddy_tail = tail\<rparr>" "head \<noteq> 0" "head \<noteq> tail" "unat tail + 160 < 2 ^ 64"
      "tiles m head tail bs" "covered (used bs) ps" using assms(1) by (auto simp: buddy_valid_def)
  let ?m = "set_isFree (fst (ps ! i) - SIZEOF_BuddyBlock) True m"
  obtain bs1 where g: "tiles ?m head tail bs1" "covered (used bs1) (remove_at i ps)" "untouched (remove_at i ps) m ?m"
    using give_block [OF v(5,6) assms(2)] by blast
  obtain m' bs' where c: "coalesceBuddies head tail ?m = Some m'" "evolves head tail ?m bs1 m' bs'"
    using coalesceBuddies_spec [OF g(1)] by blast
  have "buddy_valid head tail m' a (remove_at i ps)" using v(1-4) g(2) c(2) by (auto simp: buddy_valid_def evolves_def)
  moreover have "untouched (remove_at i ps) m m'" using untouched_trans [OF g(3) evolves_untouched [OF g(1,2) c(2)]] .
  ultimately show ?thesis using c(1) v(1) by (simp add: freeBuddy_def)
qed

lemma buddy_write:
  assumes "buddy_valid head tail m a ps" "i < length ps" "j < snd (ps ! i)"
  shows "buddy_valid head tail (m(fst (ps ! i) + of_nat j := b)) a ps"
proof -
  obtain bs where v: "a = \<lparr>buddy_head = head, buddy_tail = tail\<rparr>" "head \<noteq> 0" "head \<noteq> tail" "unat tail + 160 < 2 ^ 64"
      "tiles m head tail bs" "covered (used bs) ps" using assms(1) by (auto simp: buddy_valid_def)
  obtain c n where c: "(c, n, False) \<in> set bs" "snd (ps ! i) + 16 \<le> unat n" "unat (fst (ps ! i)) = unat c + 16"
    using coveredE [OF v(5,6) assms(2)] by metis
  have "unat (fst (ps ! i) + of_nat j) = unat (fst (ps ! i)) + j"
    by (rule unat_inside [where k = "snd (ps ! i)"]) (use tiles_bounds(2) [OF v(5) c(1)] c v(4) assms(3) in simp_all)
  then have "tiles (m(fst (ps ! i) + of_nat j := b)) head tail bs"
    using c assms(3) by (intro data_write [OF v(5) c(1)]) auto
  then show ?thesis using v by (auto simp: buddy_valid_def)
qed

interpretation buddy: block_allocator "buddy_valid head tail" buddyAlloc freeBuddy requested admissible_request for head tail
proof (unfold_locales, goal_cases)
  case (1 m a ps i i' j j')
  then show ?case using buddy_no_overlap by blast
next
  case (2 m a ps r)
  then show ?case using buddyAlloc_contract [of head tail m a ps r] by auto
next
  case (3 m a ps r p m' a')
  then show ?case using buddyAlloc_contract [of head tail m a ps r] by auto
next
  case (4 m a ps i)
  then show ?case using freeBuddy_contract by blast
next
  case (5 m a ps i j b)
  then show ?case using buddy_write by blast
qed

section \<open>Properties\<close>

lemma createBuddyAllocator_valid:
  assumes "good_size n" "data \<noteq> 0" "unat data + unat n + 160 < 2 ^ 64"
  shows "\<exists>m' a. createBuddyAllocator m data n = (m', a) \<and> buddy_valid data (data + n) m' a [] \<and> tiles m' data (data + n) [(data, n, True)]"
proof -
  let ?m = "set_isFree data True (set_size data n m)"
  have u: "unat (data + n) = unat data + unat n" using assms(3) by (intro unat_add_nowrap) simp
  have t: "tiles ?m data (data + n) [(data, n, True)]" using assms(1) u by simp
  have "data \<noteq> data + n" using good_size_ge [OF assms(1)] u by auto
  then have "buddy_valid data (data + n) ?m \<lparr>buddy_head = data, buddy_tail = data + n\<rparr> []"
    using assms(2,3) t u by (auto simp: buddy_valid_def covered_def intro!: exI [of _ "[(data, n, True)]"])
  then show ?thesis using t by (simp add: createBuddyAllocator_def nextBuddy_def)
qed

lemma buddy_valid_client:
  assumes "buddy_valid head tail m a (extents live)" "holds m live"
  shows "distinct (map fst live) \<and> (\<forall>(p, bs) \<in> set live. unat head + 16 \<le> unat p \<and> unat p + length bs \<le> unat tail \<and> load_bytes m p (length bs) = bs)"
proof -
  obtain bs where t: "tiles m head tail bs" "covered (used bs) (extents live)" using assms(1) by (auto simp: buddy_valid_def)
  have "unat head + 16 \<le> unat p \<and> unat p + length cs \<le> unat tail \<and> load_bytes m p (length cs) = cs" if l: "(p, cs) \<in> set live" for p cs
  proof -
    obtain i where i: "i < length live" "live ! i = (p, cs)" using l by (auto simp: in_set_conv_nth)
    then have e: "extents live ! i = (p, length cs)" "i < length (extents live)" by (simp_all add: extents_def)
    obtain b n where b: "(b, n, False) \<in> set bs" "length cs + 16 \<le> unat n" "unat p = unat b + 16"
      using coveredE [OF t e(2)] e(1) by (metis fst_conv snd_conv)
    then show ?thesis using tiles_bounds(1,2) [OF t(1) b(1)] assms(2) l by (auto simp: holds_def list_all_iff)
  qed
  moreover have "map fst (extents live) = map fst live" by (simp add: extents_def comp_def)
  ultimately show ?thesis using covered_distinct [OF t] by auto
qed

text \<open>
  C13. Whatever a client does with a buddy allocator on a region of power-of-two size - requests, writes into its blocks, releases,
  in any order - no operation gets stuck, and at the end its blocks are different, lie inside the region behind a header
  and have exactly the bytes the client last wrote to them: splitting, merging and the headers never touch a block in use.
\<close>

theorem buddy_clients_independent:
  assumes "good_size n" "data \<noteq> 0" "unat data + unat n + 160 < 2 ^ 64" "list_all (allowed admissible_request) ops"
  shows "case createBuddyAllocator m data n of (m1, a1) \<Rightarrow>
    (case client_run buddyAlloc freeBuddy requested ops (m1, a1, []) of
       Ret (m', a', live) \<Rightarrow> distinct (map fst live) \<and> (\<forall>(p, bs) \<in> set live. unat data + 16 \<le> unat p \<and>
         unat p + length bs \<le> unat (data + n) \<and> load_bytes m' p (length bs) = bs)
     | Jump \<Rightarrow> True | Stuck \<Rightarrow> False)"
proof -
  obtain m1 a1 where c: "createBuddyAllocator m data n = (m1, a1)" "buddy_valid data (data + n) m1 a1 (extents [])"
    using createBuddyAllocator_valid [OF assms(1-3), of m] by auto
  have run: "case client_run buddyAlloc freeBuddy requested ops (m1, a1, []) of
      Ret (m', a', live) \<Rightarrow> buddy_valid data (data + n) m' a' (extents live) \<and> holds m' live | Jump \<Rightarrow> True | Stuck \<Rightarrow> False"
    using buddy.run_refines [OF c(2) _ assms(4)] by simp
  show ?thesis
  proof (cases "client_run buddyAlloc freeBuddy requested ops (m1, a1, [])")
    case (Ret x)
    obtain m' a' live where x: "x = (m', a', live)" by (cases x)
    have "buddy_valid data (data + n) m' a' (extents live)" "holds m' live" using run Ret x by simp_all
    then show ?thesis using buddy_valid_client Ret x c(1) by simp
  qed (use run c(1) in simp_all)
qed

lemma header_writes:
  assumes "unat a + 16 \<le> unat b \<or> unat b + 16 \<le> unat a" "unat a + 16 \<le> 2 ^ 64" "unat b + 16 \<le> 2 ^ 64"
  shows "block_size (set_size a n m) b = block_size m b" "block_isFree (set_size a n m) b = block_isFree m b"
    "block_size (set_isFree a f m) b = block_size m b" "block_isFree (set_isFree a f m) b = block_isFree m b"
proof -
  have o: "unat x < unat a \<or> unat a + 16 \<le> unat x" if "unat b \<le> unat x" "unat x < unat b + 16" for x :: addr
    using assms(1) that by linarith
  have "same_header m (set_size a n m) b" by (rule same_headerI [OF _ assms(3)]) (use o in \<open>blast intro: set_size_other [OF assms(2)]\<close>)
  moreover have "same_header m (set_isFree a f m) b" by (rule same_headerI [OF _ assms(3)]) (use o in \<open>blast intro: set_isFree_other [OF assms(2)]\<close>)
  ultimately show "block_size (set_size a n m) b = block_size m b" "block_isFree (set_size a n m) b = block_isFree m b"
    "block_size (set_isFree a f m) b = block_size m b" "block_isFree (set_isFree a f m) b = block_isFree m b"
    by (simp_all add: same_header_def)
qed

abbreviation demo_head :: addr where "demo_head \<equiv> 0x1000"
abbreviation demo_tail :: addr where "demo_tail \<equiv> 0x1080"
abbreviation demo_buddy :: BuddyAllocator where "demo_buddy \<equiv> \<lparr>buddy_head = demo_head, buddy_tail = demo_tail\<rparr>"

lemma good_sizes: "good_size 32" "good_size 64" "good_size 128"
  unfolding good_size_def
  by (rule exI [of _ 5], simp, rule exI [of _ 6], simp, rule exI [of _ 7], simp)

lemmas loop_numerals =
  find_loop.simps(2) [of "pred_numeral k" for k, folded numeral_eq_Suc, unfolded Let_def]
  coalesce_pass.simps(2) [of "pred_numeral k" for k, folded numeral_eq_Suc, unfolded Let_def]
  coalesce_loop.simps(2) [of "pred_numeral k" for k, folded numeral_eq_Suc]

lemma tiles_Cons:
  "tiles m p t ((a, n, f) # bs) \<longleftrightarrow> a = p \<and> block_size m p = n \<and> block_isFree m p = f \<and> good_size n \<and>
     unat p + unat n \<le> unat t \<and> tiles m (p + n) t bs"
  by auto

lemma buddyAlloc_run:
  "buddyAlloc m demo_buddy (1, k, 2) =
    (case find_twice demo_head demo_tail (k + 16) m of
       None \<Rightarrow> Stuck
     | Some (found, m) \<Rightarrow> Ret (if found \<noteq> 0 then (found + 16, set_isFree found False m, demo_buddy) else (0, m, demo_buddy)))"
  by (simp add: buddyAlloc_def SIZEOF_BuddyBlock_def ZERO_MEMORY_def NULLPTR_ON_FAIL_def split: option.split)

lemmas run_simps = tiles_Cons buddyAlloc_run freeBuddy_def [unfolded Let_def] find_twice_def findBestBuddy_def [unfolded Let_def]
  coalesceBuddies_def region_fuel_def splitBuddy_def
  split_loop.simps split_block_def [unfolded Let_def] nextBuddy_def step_over_def [unfolded Let_def] better_def SIZEOF_BuddyBlock_def
  loop_numerals
  header_writes isFree_set_size good_sizes

lemma demo_step1:
  "tiles m demo_head demo_tail [(0x1000, 128, True)] \<Longrightarrow>
   \<exists>m'. buddyAlloc m demo_buddy (1, 10, 2) = Ret (0x1070, m', demo_buddy) \<and> tiles m' demo_head demo_tail [(0x1000, 64, True), (0x1040, 32, True), (0x1060, 32, False)]"
  by (simp add: run_simps del: tiles.simps(2) find_loop.simps(2) coalesce_pass.simps(2))

lemma demo_step2:
  "tiles m demo_head demo_tail [(0x1000, 64, True), (0x1040, 32, True), (0x1060, 32, False)] \<Longrightarrow>
   \<exists>m'. buddyAlloc m demo_buddy (1, 10, 2) = Ret (0x1050, m', demo_buddy) \<and> tiles m' demo_head demo_tail [(0x1000, 64, True), (0x1040, 32, False), (0x1060, 32, False)]"
  by (simp add: run_simps del: tiles.simps(2) find_loop.simps(2) coalesce_pass.simps(2))

lemma demo_step3:
  "tiles m demo_head demo_tail [(0x1000, 64, True), (0x1040, 32, False), (0x1060, 32, False)] \<Longrightarrow>
   \<exists>m'. buddyAlloc m demo_buddy (1, 10, 2) = Ret (0x1030, m', demo_buddy) \<and> tiles m' demo_head demo_tail [(0x1000, 32, True), (0x1020, 32, False), (0x1040, 32, False), (0x1060, 32, False)]"
  by (simp add: run_simps del: tiles.simps(2) find_loop.simps(2) coalesce_pass.simps(2))

lemma demo_step4:
  "tiles m demo_head demo_tail [(0x1000, 32, True), (0x1020, 32, False), (0x1040, 32, False), (0x1060, 32, False)] \<Longrightarrow>
   \<exists>m'. buddyAlloc m demo_buddy (1, 10, 2) = Ret (0x1010, m', demo_buddy) \<and> tiles m' demo_head demo_tail [(0x1000, 32, False), (0x1020, 32, False), (0x1040, 32, False), (0x1060, 32, False)]"
  by (simp add: run_simps del: tiles.simps(2) find_loop.simps(2) coalesce_pass.simps(2))

lemma demo_step5:
  "tiles m demo_head demo_tail [(0x1000, 32, False), (0x1020, 32, False), (0x1040, 32, False), (0x1060, 32, False)] \<Longrightarrow>
   \<exists>m'. freeBuddy m demo_buddy 0x1030 = Ret (m', demo_buddy) \<and> tiles m' demo_head demo_tail [(0x1000, 32, False), (0x1020, 32, True), (0x1040, 32, False), (0x1060, 32, False)]"
  by (simp add: run_simps del: tiles.simps(2) find_loop.simps(2) coalesce_pass.simps(2))

lemma demo_step6:
  "tiles m demo_head demo_tail [(0x1000, 32, False), (0x1020, 32, True), (0x1040, 32, False), (0x1060, 32, False)] \<Longrightarrow>
   \<exists>m'. freeBuddy m demo_buddy 0x1050 = Ret (m', demo_buddy) \<and> tiles m' demo_head demo_tail [(0x1000, 32, False), (0x1020, 32, True), (0x1040, 32, True), (0x1060, 32, False)]"
  by (simp add: run_simps del: tiles.simps(2) find_loop.simps(2) coalesce_pass.simps(2))

lemma demo_step7:
  "tiles m demo_head demo_tail [(0x1000, 32, False), (0x1020, 32, True), (0x1040, 32, True), (0x1060, 32, False)] \<Longrightarrow>
   \<exists>m'. buddyAlloc m demo_buddy (1, 24, 2) = Ret (0x1030, m', demo_buddy) \<and> tiles m' demo_head demo_tail [(0x1000, 32, False), (0x1020, 64, False), (0x1060, 32, False)]"
  by (simp add: run_simps del: tiles.simps(2) find_loop.simps(2) coalesce_pass.simps(2))

lemma demo_step8:
  "tiles m demo_head demo_tail [(0x1000, 32, False), (0x1020, 64, False), (0x1060, 32, False)] \<Longrightarrow>
   \<exists>m'. freeBuddy m demo_buddy 0x1070 = Ret (m', demo_buddy) \<and> tiles m' demo_head demo_tail [(0x1000, 32, False), (0x1020, 64, False), (0x1060, 32, True)]"
  by (simp add: run_simps del: tiles.simps(2) find_loop.simps(2) coalesce_pass.simps(2))

lemma demo_step9:
  "tiles m demo_head demo_tail [(0x1000, 32, False), (0x1020, 64, False), (0x1060, 32, True)] \<Longrightarrow> buddyAlloc m demo_buddy (1, 10, 2) = Ret (0, m, demo_buddy)"
  by (simp add: run_simps del: tiles.simps(2) find_loop.simps(2) coalesce_pass.simps(2))

theorem buddy_clients_independent_witness:
  "case createBuddyAllocator (\<lambda>_. 0) 0x1000 128 of (m1, a1) \<Rightarrow>
    (case client_run buddyAlloc freeBuddy requested [Request (1, 10, 2), Request (4, 5, 3), Write 0 3 7, Release 1] (m1, a1, []) of
       Ret (m', a', live) \<Rightarrow> distinct (map fst live) \<and> (\<forall>(p, bs) \<in> set live. unat (0x1000 :: addr) + 16 \<le> unat p \<and>
         unat p + length bs \<le> unat (0x1000 + 128 :: addr) \<and> load_bytes m' p (length bs) = bs)
     | Jump \<Rightarrow> True | Stuck \<Rightarrow> False)"
  by (rule buddy_clients_independent) (simp_all add: good_sizes admissible_request_def)

text \<open>
  C15. The allocator can run out of memory while a block that fits is free: because the search also merges neighbours that
  are not buddies, and never looks at a last block behind a larger one, five requests and three releases on a region of
  128 bytes leave a free block of 32 bytes at the end, and a request of 10 bytes, for which 26 are needed, still fails.
\<close>

theorem buddy_overlooks_free_block:
  "\<exists>m1 m' live. createBuddyAllocator m 0x1000 128 = (m1, demo_buddy) \<and>
     client_run buddyAlloc freeBuddy requested
       [Request (1, 10, 2), Request (1, 10, 2), Request (1, 10, 2), Request (1, 10, 2), Release 1, Release 1, Request (1, 24, 2), Release 2]
       (m1, demo_buddy, []) = Ret (m', demo_buddy, live) \<and>
     block_isFree m' 0x1060 \<and> block_size m' 0x1060 = 32 \<and> buddyAlloc m' demo_buddy (1, 10, 2) = Ret (0, m', demo_buddy)"
proof -
  obtain m1 where m1: "createBuddyAllocator m 0x1000 128 = (m1, demo_buddy)" "tiles m1 demo_head demo_tail [(0x1000, 128, True)]"
    using createBuddyAllocator_valid [OF good_sizes(3), of "0x1000" m]
    by (auto simp: createBuddyAllocator_def nextBuddy_def simp del: tiles.simps)
  obtain m2 where m2: "buddyAlloc m1 demo_buddy (1, 10, 2) = Ret (0x1070, m2, demo_buddy)" "tiles m2 demo_head demo_tail
    [(0x1000, 64, True), (0x1040, 32, True), (0x1060, 32, False)]" using demo_step1 [OF m1(2)] by blast
  obtain m3 where m3: "buddyAlloc m2 demo_buddy (1, 10, 2) = Ret (0x1050, m3, demo_buddy)" "tiles m3 demo_head demo_tail
    [(0x1000, 64, True), (0x1040, 32, False), (0x1060, 32, False)]" using demo_step2 [OF m2(2)] by blast
  obtain m4 where m4: "buddyAlloc m3 demo_buddy (1, 10, 2) = Ret (0x1030, m4, demo_buddy)" "tiles m4 demo_head demo_tail
    [(0x1000, 32, True), (0x1020, 32, False), (0x1040, 32, False), (0x1060, 32, False)]" using demo_step3 [OF m3(2)] by blast
  obtain m5 where m5: "buddyAlloc m4 demo_buddy (1, 10, 2) = Ret (0x1010, m5, demo_buddy)" "tiles m5 demo_head demo_tail
    [(0x1000, 32, False), (0x1020, 32, False), (0x1040, 32, False), (0x1060, 32, False)]" using demo_step4 [OF m4(2)] by blast
  obtain m6 where m6: "freeBuddy m5 demo_buddy 0x1030 = Ret (m6, demo_buddy)" "tiles m6 demo_head demo_tail
    [(0x1000, 32, False), (0x1020, 32, True), (0x1040, 32, False), (0x1060, 32, False)]" using demo_step5 [OF m5(2)] by blast
  obtain m7 where m7: "freeBuddy m6 demo_buddy 0x1050 = Ret (m7, demo_buddy)" "tiles m7 demo_head demo_tail
    [(0x1000, 32, False), (0x1020, 32, True), (0x1040, 32, True), (0x1060, 32, False)]" using demo_step6 [OF m6(2)] by blast
  obtain m8 where m8: "buddyAlloc m7 demo_buddy (1, 24, 2) = Ret (0x1030, m8, demo_buddy)" "tiles m8 demo_head demo_tail
    [(0x1000, 32, False), (0x1020, 64, False), (0x1060, 32, False)]" using demo_step7 [OF m7(2)] by blast
  obtain m9 where m9: "freeBuddy m8 demo_buddy 0x1070 = Ret (m9, demo_buddy)" "tiles m9 demo_head demo_tail
    [(0x1000, 32, False), (0x1020, 64, False), (0x1060, 32, True)]" using demo_step8 [OF m8(2)] by blast
  have "\<exists>live. client_run buddyAlloc freeBuddy requested
       [Request (1, 10, 2), Request (1, 10, 2), Request (1, 10, 2), Request (1, 10, 2), Release 1, Release 1, Request (1, 24, 2), Release 2]
       (m1, demo_buddy, []) = Ret (m9, demo_buddy, live)"
    by (simp add: m2(1) m3(1) m4(1) m5(1) m6(1) m7(1) m8(1) m9(1) remove_at_def)
  moreover have "block_isFree m9 0x1060 \<and> block_size m9 0x1060 = 32"
    using tiles_bounds(4,5) [OF m9(2), of "0x1060" 32 True] by simp
  ultimately show ?thesis using m1(1) demo_step9 [OF m9(2)] by blast
qed

end
