(* ===== verification/Interrupt.thy ===== *)
theory Interrupt
  imports Cpu Blocks
begin

text \<open>
  The way of an interrupt through \<^verbatim>\<open>x86/code/idt/real\<close>: the delivery by the processor over the gates of
  \<open>initIDT\<close>, the assembly of \<^verbatim>\<open>idt.S\<close> (a wrapper for each vector and the common \<^verbatim>\<open>isr_stub\<close>) on a
  processor with registers and a stack in memory, the call of \<^verbatim>\<open>fault_handler\<close> with a pointer to the
  saved registers, and the return. The program text is a list of the instructions used, executed from the
  wrapper through the jump to the end of the stub; only the call has a place in memory, the return address.
\<close>

section \<open>Processor\<close>

datatype gpr = RAX | RCX | RDX | RBX | RBP | RSI | RDI | R8 | R9 | R10 | R11 | R12 | R13 | R14 | R15

datatype sreg = DS | ES | FS | GS

record core =
  core_gpr :: "gpr \<Rightarrow> u64"
  core_sreg :: "sreg \<Rightarrow> u16"
  core_rsp :: u64
  core_ss :: u16
  core_rip :: u64
  core_cs :: u16
  core_flags :: u64
  core_mem :: memory

text \<open>A processor that has executed \<^verbatim>\<open>hlt\<close> executes nothing more.\<close>

datatype progress = Runs core | Halts core

definition push_u64 :: "u64 \<Rightarrow> core \<Rightarrow> core" where
  "push_u64 v c = c\<lparr>core_rsp := core_rsp c - 8, core_mem := store_u64 (core_mem c) (core_rsp c - 8) v\<rparr>"

definition pop_u64 :: "core \<Rightarrow> u64 \<times> core" where
  "pop_u64 c = (load_u64 (core_mem c) (core_rsp c), c\<lparr>core_rsp := core_rsp c + 8\<rparr>)"

text \<open>The flags that delivery and \<^verbatim>\<open>cli\<close> change: trap, interrupt, nested task, resume; \<^verbatim>\<open>cld\<close>: direction.\<close>

definition FLAG_TF :: u64 where "FLAG_TF = 0x100"
definition FLAG_IF :: u64 where "FLAG_IF = 0x200"
definition FLAG_DF :: u64 where "FLAG_DF = 0x400"
definition FLAG_NT :: u64 where "FLAG_NT = 0x4000"
definition FLAG_RF :: u64 where "FLAG_RF = 0x10000"

text \<open>
  The vectors for which the processor pushes an error code when it raises the exception itself.
  An \<^verbatim>\<open>int\<close> instruction never pushes one.
\<close>

definition error_code_vectors :: "nat list" where
  "error_code_vectors = [8, 10, 11, 12, 13, 14, 17, 21]"

text \<open>
  Delivery in 64-bit mode without a change of privilege: the stack pointer is aligned to 16 bytes, the
  interrupted context and the error code are pushed, and a gate of interrupt type masks interrupts.
\<close>

definition deliver :: "InterruptDescriptor \<Rightarrow> u64 option \<Rightarrow> core \<Rightarrow> core" where
  "deliver d error_code c =
     (let c' = push_u64 (core_rip c) (push_u64 (ucast (core_cs c)) (push_u64 (core_flags c) (push_u64 (core_rsp c)
                 (push_u64 (ucast (core_ss c)) (c\<lparr>core_rsp := core_rsp c AND NOT 0xF\<rparr>)))));
          c' = (case error_code of None \<Rightarrow> c' | Some e \<Rightarrow> push_u64 e c') in
      c'\<lparr>core_cs := selector d, core_rip := gate_target d,
         core_flags := core_flags c AND NOT (FLAG_TF OR FLAG_NT OR FLAG_RF) AND
           NOT (if type_attributes d AND 0xF = 0xE then FLAG_IF else 0)\<rparr>)"

section \<open>Assembly\<close>

datatype instr =
    CLI | CLD | PUSHQ gpr | PUSHQ_IMM u64 | POPQ gpr | MOVW_FROM sreg | MOVW_IMM u16 | MOVW_TO sreg
  | MOVQ_RSP_RDI | CALL_FAULT_HANDLER | ADDQ_RSP u64 | IRETQ

text \<open>The 16-bit moves write the low half of \<^verbatim>\<open>%ax\<close> only.\<close>

definition set_ax :: "u16 \<Rightarrow> core \<Rightarrow> core" where
  "set_ax v c = c\<lparr>core_gpr := (core_gpr c)(RAX := (core_gpr c RAX AND NOT 0xFFFF) OR ucast v)\<rparr>"

fun exec :: "(core \<Rightarrow> progress) \<Rightarrow> u64 \<Rightarrow> instr \<Rightarrow> core \<Rightarrow> progress" where
  "exec handler resume CLI c = Runs (c\<lparr>core_flags := core_flags c AND NOT FLAG_IF\<rparr>)"
| "exec handler resume CLD c = Runs (c\<lparr>core_flags := core_flags c AND NOT FLAG_DF\<rparr>)"
| "exec handler resume (PUSHQ r) c = Runs (push_u64 (core_gpr c r) c)"
| "exec handler resume (PUSHQ_IMM v) c = Runs (push_u64 v c)"
| "exec handler resume (POPQ r) c = (let (v, c) = pop_u64 c in Runs (c\<lparr>core_gpr := (core_gpr c)(r := v)\<rparr>))"
| "exec handler resume (MOVW_FROM s) c = Runs (set_ax (core_sreg c s) c)"
| "exec handler resume (MOVW_IMM v) c = Runs (set_ax v c)"
| "exec handler resume (MOVW_TO s) c = Runs (c\<lparr>core_sreg := (core_sreg c)(s := ucast (core_gpr c RAX))\<rparr>)"
| "exec handler resume MOVQ_RSP_RDI c = Runs (c\<lparr>core_gpr := (core_gpr c)(RDI := core_rsp c)\<rparr>)"
| "exec handler resume CALL_FAULT_HANDLER c =
     (case handler (push_u64 resume c) of
        Runs c \<Rightarrow> (let (v, c) = pop_u64 c in Runs (c\<lparr>core_rip := v\<rparr>))
      | Halts c \<Rightarrow> Halts c)"
| "exec handler resume (ADDQ_RSP v) c = Runs (c\<lparr>core_rsp := core_rsp c + v\<rparr>)"
| "exec handler resume IRETQ c =
     (let (rip, c) = pop_u64 c; (cs, c) = pop_u64 c; (flags, c) = pop_u64 c; (rsp, c) = pop_u64 c; (ss, c) = pop_u64 c in
      Runs (c\<lparr>core_rip := rip, core_cs := ucast cs, core_flags := flags, core_rsp := rsp, core_ss := ucast ss\<rparr>))"

primrec run :: "(core \<Rightarrow> progress) \<Rightarrow> u64 \<Rightarrow> instr list \<Rightarrow> core \<Rightarrow> progress" where
  "run handler resume [] c = Runs c"
| "run handler resume (i # is) c = (case exec handler resume i c of Runs c \<Rightarrow> run handler resume is c | Halts c \<Rightarrow> Halts c)"

definition pushaq :: "instr list" where
  "pushaq = [PUSHQ RAX, PUSHQ RCX, PUSHQ RDX, PUSHQ RBX, PUSHQ RBP, PUSHQ RSI, PUSHQ RDI, PUSHQ R8, PUSHQ R9,
     PUSHQ R10, PUSHQ R11, PUSHQ R12, PUSHQ R13, PUSHQ R14, PUSHQ R15]"

definition popaq :: "instr list" where
  "popaq = [POPQ R15, POPQ R14, POPQ R13, POPQ R12, POPQ R11, POPQ R10, POPQ R9, POPQ R8, POPQ RDI, POPQ RSI,
     POPQ RBP, POPQ RBX, POPQ RDX, POPQ RCX, POPQ RAX]"

definition KERNEL_DATA_SEG :: u16 where "KERNEL_DATA_SEG = push_bit 4 1"

definition isr_save :: "instr list" where
  "isr_save = pushaq @
    [MOVW_FROM DS, PUSHQ RAX, MOVW_FROM ES, PUSHQ RAX, MOVW_FROM FS, PUSHQ RAX, MOVW_FROM GS, PUSHQ RAX,
     MOVW_IMM KERNEL_DATA_SEG, MOVW_TO DS, MOVW_TO ES, MOVW_TO FS, MOVW_TO GS, MOVQ_RSP_RDI, CLD]"

definition isr_restore :: "instr list" where
  "isr_restore =
    [POPQ RAX, MOVW_TO GS, POPQ RAX, MOVW_TO FS, POPQ RAX, MOVW_TO ES, POPQ RAX, MOVW_TO DS] @
    popaq @ [ADDQ_RSP 16, IRETQ]"

definition isr_stub :: "instr list" where
  "isr_stub = isr_save @ [CALL_FAULT_HANDLER] @ isr_restore"

definition isr_wrapper_no_error :: "nat \<Rightarrow> instr list" where
  "isr_wrapper_no_error n = [CLI, PUSHQ_IMM 0, PUSHQ_IMM (of_nat n)]"

definition isr_wrapper_with_error :: "nat \<Rightarrow> instr list" where
  "isr_wrapper_with_error n = [CLI, PUSHQ_IMM (of_nat n)]"

text \<open>The 256 wrappers; each ends with the jump to the stub.\<close>

definition isr_wrapper :: "nat \<Rightarrow> instr list" where
  "isr_wrapper n = (if n \<in> {8, 10, 11, 12, 13, 14, 17, 21} then isr_wrapper_with_error n else isr_wrapper_no_error n)"

definition isr_code :: "nat \<Rightarrow> instr list" where
  "isr_code n = isr_wrapper n @ isr_stub"

section \<open>Handler\<close>

record regs =
  regs_gs :: u16
  regs_fs :: u16
  regs_es :: u16
  regs_ds :: u16
  regs_r15 :: u64
  regs_r14 :: u64
  regs_r13 :: u64
  regs_r12 :: u64
  regs_r11 :: u64
  regs_r10 :: u64
  regs_r9 :: u64
  regs_r8 :: u64
  regs_rdi :: u64
  regs_rsi :: u64
  regs_rbp :: u64
  regs_rbx :: u64
  regs_rdx :: u64
  regs_rcx :: u64
  regs_rax :: u64
  regs_int_no :: u64
  regs_err_code :: u64
  regs_rip :: u64
  regs_cs :: u64
  regs_eflags :: u64

definition load_u16 :: "memory \<Rightarrow> addr \<Rightarrow> u16" where
  "load_u16 m p = of_le_bytes (load_bytes m p 2)"

text \<open>What the handler reads through its pointer; every member is aligned to 8 bytes.\<close>

definition load_regs :: "memory \<Rightarrow> addr \<Rightarrow> regs" where
  "load_regs m p =
     \<lparr>regs_gs = load_u16 m p, regs_fs = load_u16 m (p + 8), regs_es = load_u16 m (p + 16), regs_ds = load_u16 m (p + 24),
      regs_r15 = load_u64 m (p + 32), regs_r14 = load_u64 m (p + 40), regs_r13 = load_u64 m (p + 48),
      regs_r12 = load_u64 m (p + 56), regs_r11 = load_u64 m (p + 64), regs_r10 = load_u64 m (p + 72),
      regs_r9 = load_u64 m (p + 80), regs_r8 = load_u64 m (p + 88), regs_rdi = load_u64 m (p + 96),
      regs_rsi = load_u64 m (p + 104), regs_rbp = load_u64 m (p + 112), regs_rbx = load_u64 m (p + 120),
      regs_rdx = load_u64 m (p + 128), regs_rcx = load_u64 m (p + 136), regs_rax = load_u64 m (p + 144),
      regs_int_no = load_u64 m (p + 152), regs_err_code = load_u64 m (p + 160), regs_rip = load_u64 m (p + 168),
      regs_cs = load_u64 m (p + 176), regs_eflags = load_u64 m (p + 184)\<rparr>"

text \<open>\<^verbatim>\<open>cli; hlt\<close>: it does not look at its argument.\<close>

definition fault_handler :: "core \<Rightarrow> progress" where
  "fault_handler c = Halts (c\<lparr>core_flags := core_flags c AND NOT FLAG_IF\<rparr>)"

text \<open>
  The processor takes an interrupt: delivery through the gate of the vector, then the code at its
  target. \<open>isr\<close> gives the addresses of the 256 wrappers; anything else there is not modelled (\<open>None\<close>).
\<close>

definition take_interrupt :: "(nat \<Rightarrow> u64) \<Rightarrow> (core \<Rightarrow> progress) \<Rightarrow> u64 \<Rightarrow> InterruptDescriptor list \<Rightarrow> u8 \<Rightarrow> u64 option \<Rightarrow> core \<Rightarrow>
    progress option" where
  "take_interrupt isr handler resume idt vector error_code c =
     map_option (\<lambda>n. run handler resume (isr_code n) (deliver (idt ! unat vector) error_code c))
       (find (\<lambda>n. isr n = gate_target (idt ! unat vector)) [0..<256])"

section \<open>The stack as a list\<close>

primrec words_at :: "memory \<Rightarrow> addr \<Rightarrow> u64 list \<Rightarrow> bool" where
  "words_at m p [] \<longleftrightarrow> True"
| "words_at m p (v # vs) \<longleftrightarrow> load_u64 m p = v \<and> words_at m (p + 8) vs"

text \<open>The words pushed below \<open>base\<close>, the last first; the memory from there on is still \<open>m\<close>.\<close>

definition stacked :: "nat \<Rightarrow> memory \<Rightarrow> core \<Rightarrow> u64 list \<Rightarrow> bool" where
  "stacked base m c vs \<longleftrightarrow> unat (core_rsp c) + 8 * length vs = base \<and> base < 2 ^ 64 \<and>
     words_at (core_mem c) (core_rsp c) vs \<and> (\<forall>x. base \<le> unat x \<longrightarrow> core_mem c x = m x)"

lemma words_at_cong:
  assumes "\<And>x. unat p \<le> unat x \<Longrightarrow> m' x = m x" "unat p + 8 * length vs < 2 ^ 64"
  shows "words_at m' p vs = words_at m p vs"
  using assms
proof (induction vs arbitrary: p)
  case (Cons v vs)
  have p: "unat (p + 8) = unat p + 8" using Cons.prems(2) by (subst unat_add_nowrap) simp_all
  have "load_u64 m' p = load_u64 m p" using Cons.prems by (intro load_u64_cong) simp_all
  moreover have "words_at m' (p + 8) vs = words_at m (p + 8) vs" using Cons.prems p by (intro Cons.IH) simp_all
  ultimately show ?case by simp
qed simp

lemma push_u64_simps [simp]:
  "core_gpr (push_u64 v c) = core_gpr c" "core_sreg (push_u64 v c) = core_sreg c" "core_flags (push_u64 v c) = core_flags c"
  "core_cs (push_u64 v c) = core_cs c" "core_ss (push_u64 v c) = core_ss c" "core_rip (push_u64 v c) = core_rip c"
  "core_rsp (push_u64 v c) = core_rsp c - 8"
  by (simp_all add: push_u64_def)

lemma stacked_update [simp]:
  "stacked base m (c\<lparr>core_gpr := g\<rparr>) vs = stacked base m c vs" "stacked base m (c\<lparr>core_sreg := s\<rparr>) vs = stacked base m c vs"
  "stacked base m (c\<lparr>core_flags := f\<rparr>) vs = stacked base m c vs" "stacked base m (c\<lparr>core_cs := cs\<rparr>) vs = stacked base m c vs"
  "stacked base m (c\<lparr>core_rip := r\<rparr>) vs = stacked base m c vs" "stacked base m (c\<lparr>core_ss := ss\<rparr>) vs = stacked base m c vs"
  by (simp_all add: stacked_def)

lemma stacked_push [simp]:
  assumes "8 * Suc (length vs) \<le> base" "stacked base m c vs"
  shows "stacked base m (push_u64 v c) (v # vs)"
proof -
  let ?p = "core_rsp c - 8"
  have s: "unat (core_rsp c) + 8 * length vs = base" "base < 2 ^ 64" using assms(2) by (auto simp: stacked_def)
  have p: "unat ?p = unat (core_rsp c) - 8" using assms(1) s by (subst unat_sub_nowrap) simp_all
  have "words_at (store_u64 (core_mem c) ?p v) (core_rsp c) vs = words_at (core_mem c) (core_rsp c) vs"
    by (rule words_at_cong, rule store_u64_other) (use p s assms(1) in simp_all)
  moreover have "store_u64 (core_mem c) ?p v x = core_mem c x" if "base \<le> unat x" for x
    by (rule store_u64_other) (use p s assms(1) that in simp_all)
  ultimately show ?thesis using assms s p by (simp add: stacked_def push_u64_def)
qed

lemma stacked_pop:
  assumes "stacked base m c (v # vs)"
  shows "pop_u64 c = (v, c\<lparr>core_rsp := core_rsp c + 8\<rparr>) \<and> stacked base m (c\<lparr>core_rsp := core_rsp c + 8\<rparr>) vs"
proof -
  have "unat (core_rsp c + 8) = unat (core_rsp c) + 8" using assms by (subst unat_add_nowrap) (auto simp: stacked_def)
  then show ?thesis using assms by (simp add: stacked_def pop_u64_def)
qed

lemma stacked_rsp: "stacked base m c vs \<Longrightarrow> unat (core_rsp c) = base - 8 * length vs \<and> 8 * length vs \<le> base"
  by (auto simp: stacked_def)

section \<open>Saving the registers\<close>

lemma bit_FFFF: "(0xFFFF :: u64) = mask 16" by (simp add: mask_eq_exp_minus_1)

definition with_ax :: "u16 \<Rightarrow> u64 \<Rightarrow> u64" where
  "with_ax v a = (a AND NOT 0xFFFF) OR ucast v"

lemma ucast_with_ax [simp]: "ucast (with_ax v a) = v"
  by (rule bit_word_eqI) (auto simp: with_ax_def bit_FFFF bit_simps)

lemma set_ax_eq: "set_ax v c = c\<lparr>core_gpr := (core_gpr c)(RAX := with_ax v (core_gpr c RAX))\<rparr>"
  by (simp add: set_ax_def with_ax_def)

lemma with_ax_again [simp]: "with_ax v (with_ax w a) = with_ax v a"
  by (rule bit_word_eqI) (auto simp: with_ax_def bit_FFFF bit_simps dest: bit_imp_le_length)

lemma run_append: "run handler resume (is @ js) c = (case run handler resume is c of Runs c \<Rightarrow> run handler resume js c | Halts c \<Rightarrow> Halts c)"
  by (induction "is" arbitrary: c) (auto split: progress.split)

lemma load_u16_u64: "load_u16 m p = ucast (load_u64 m p)"
proof (rule bit_word_eqI)
  fix n :: nat
  assume "n < LENGTH(16)"
  then have "n div 8 < 2" by (simp add: less_mult_imp_div_less)
  then show "bit (load_u16 m p) n = bit (ucast (load_u64 m p) :: u16) n"
    using \<open>n < LENGTH(16)\<close> by (simp add: load_u16_def load_u64_def bit_of_le_bytes bit_simps load_bytes_def)
qed

text \<open>The frame of a context: its segments, registers, the vector and the words that delivery pushed.\<close>

definition saved :: "(gpr \<Rightarrow> u64) \<Rightarrow> (sreg \<Rightarrow> u16) \<Rightarrow> u64 list" where
  "saved g s = map (\<lambda>r. with_ax (s r) (g RAX)) [GS, FS, ES, DS] @
     map g [R15, R14, R13, R12, R11, R10, R9, R8, RDI, RSI, RBP, RBX, RDX, RCX, RAX]"

lemma run_pushes: "run handler resume (map PUSHQ rs @ is) c = run handler resume is (fold (\<lambda>r. push_u64 (core_gpr c r)) rs c)"
proof -
  have "run handler resume (map PUSHQ rs @ is) c' = run handler resume is (fold (\<lambda>r. push_u64 (core_gpr c r)) rs c')"
    if "core_gpr c' = core_gpr c" for c'
    using that by (induction rs arbitrary: c') simp_all
  then show ?thesis by simp
qed

lemma pushes_simps [simp]:
  "core_gpr (fold (\<lambda>r. push_u64 (f r)) rs c) = core_gpr c" "core_sreg (fold (\<lambda>r. push_u64 (f r)) rs c) = core_sreg c"
  "core_flags (fold (\<lambda>r. push_u64 (f r)) rs c) = core_flags c" "core_cs (fold (\<lambda>r. push_u64 (f r)) rs c) = core_cs c"
  "core_ss (fold (\<lambda>r. push_u64 (f r)) rs c) = core_ss c"
  by (induction rs arbitrary: c) simp_all

lemma stacked_pushes:
  assumes "stacked base m c vs" "8 * (length rs + length vs) \<le> base"
  shows "stacked base m (fold (\<lambda>r. push_u64 (f r)) rs c) (rev (map f rs) @ vs)"
  using assms by (induction rs arbitrary: c vs) simp_all

lemma pushaq_registers:
  "pushaq = map PUSHQ [RAX, RCX, RDX, RBX, RBP, RSI, RDI, R8, R9, R10, R11, R12, R13, R14, R15]"
  by (simp add: pushaq_def)

text \<open>A segment register goes onto the stack through \<^verbatim>\<open>%ax\<close>, which leaves the rest of \<^verbatim>\<open>%rax\<close> in the word.\<close>

lemma run_push_segment:
  "run handler resume (MOVW_FROM s # PUSHQ RAX # is) c =
   run handler resume is (push_u64 (with_ax (core_sreg c s) (core_gpr c RAX)) (set_ax (core_sreg c s) c))"
  by (simp add: set_ax_eq)

lemma set_ax_simps [simp]:
  "core_gpr (set_ax v c) RAX = with_ax v (core_gpr c RAX)" "core_sreg (set_ax v c) = core_sreg c"
  "core_flags (set_ax v c) = core_flags c" "core_cs (set_ax v c) = core_cs c" "core_ss (set_ax v c) = core_ss c"
  "stacked base m (set_ax v c) vs = stacked base m c vs"
  by (simp_all add: set_ax_eq)

lemma run_save_tail:
  "\<exists>c'. run handler resume [MOVW_IMM KERNEL_DATA_SEG, MOVW_TO DS, MOVW_TO ES, MOVW_TO FS, MOVW_TO GS, MOVQ_RSP_RDI, CLD] c = Runs c' \<and>
     core_rsp c' = core_rsp c \<and> core_mem c' = core_mem c \<and> core_gpr c' RDI = core_rsp c \<and> (\<forall>s. core_sreg c' s = KERNEL_DATA_SEG) \<and>
     core_flags c' = core_flags c AND NOT FLAG_DF \<and> core_cs c' = core_cs c \<and> core_ss c' = core_ss c"
proof -
  have "((f(DS := v, ES := v, FS := v, GS := v)) :: sreg \<Rightarrow> u16) s = v" for f v s by (cases s) simp_all
  then show ?thesis by (simp add: set_ax_eq)
qed

lemma run_isr_save:
  assumes "stacked base m c vs" "8 * (19 + length vs) \<le> base"
  shows "\<exists>c'. run handler resume isr_save c = Runs c' \<and> stacked base m c' (saved (core_gpr c) (core_sreg c) @ vs) \<and>
    core_gpr c' RDI = core_rsp c' \<and> (\<forall>s. core_sreg c' s = KERNEL_DATA_SEG) \<and> core_flags c' = core_flags c AND NOT FLAG_DF \<and>
    core_cs c' = core_cs c \<and> core_ss c' = core_ss c"
proof -
  let ?rs = "[RAX, RCX, RDX, RBX, RBP, RSI, RDI, R8, R9, R10, R11, R12, R13, R14, R15]"
  define a where "a = fold (\<lambda>r. push_u64 (core_gpr c r)) ?rs c"
  define b where "b = fold (\<lambda>s c. push_u64 (with_ax (core_sreg c s) (core_gpr c RAX)) (set_ax (core_sreg c s) c)) [DS, ES, FS, GS] a"
  have sa: "stacked base m a (rev (map (core_gpr c) ?rs) @ vs)" unfolding a_def by (rule stacked_pushes) (use assms in simp_all)
  have ga: "core_gpr a = core_gpr c" "core_sreg a = core_sreg c" "core_flags a = core_flags c" "core_cs a = core_cs c" "core_ss a = core_ss c"
    by (simp_all only: a_def pushes_simps)
  have sb: "stacked base m b (saved (core_gpr c) (core_sreg c) @ vs)"
    using sa assms(2) by (simp add: b_def saved_def ga)
  have gb: "core_flags b = core_flags c" "core_cs b = core_cs c" "core_ss b = core_ss c" by (simp_all add: b_def ga)
  obtain c' where c': "run handler resume [MOVW_IMM KERNEL_DATA_SEG, MOVW_TO DS, MOVW_TO ES, MOVW_TO FS, MOVW_TO GS, MOVQ_RSP_RDI, CLD] b = Runs c'"
      "core_rsp c' = core_rsp b" "core_mem c' = core_mem b" "core_gpr c' RDI = core_rsp b" "\<forall>s. core_sreg c' s = KERNEL_DATA_SEG"
      "core_flags c' = core_flags b AND NOT FLAG_DF" "core_cs c' = core_cs b" "core_ss c' = core_ss b"
    using run_save_tail [of handler resume b] by blast
  have "run handler resume isr_save c = Runs c'"
    unfolding isr_save_def pushaq_registers run_pushes a_def [symmetric] append_Cons append_Nil run_push_segment
    using c'(1) by (simp add: b_def)
  moreover have "stacked base m c' (saved (core_gpr c) (core_sreg c) @ vs)" using sb c'(2,3) by (simp add: stacked_def)
  ultimately show ?thesis using c' gb by simp
qed

section \<open>Restoring the registers\<close>

lemma stacked_popE:
  assumes "stacked base m c (v # vs)"
  obtains "pop_u64 c = (v, c\<lparr>core_rsp := core_rsp c + 8\<rparr>)" "stacked base m (c\<lparr>core_rsp := core_rsp c + 8\<rparr>) vs"
  using stacked_pop [OF assms] by blast

lemma run_pops:
  assumes "stacked base m c (map g rs @ vs)"
  shows "\<exists>c'. run handler resume (map POPQ rs @ is) c = run handler resume is c' \<and> stacked base m c' vs \<and>
    core_gpr c' = (\<lambda>r. if r \<in> set rs then g r else core_gpr c r) \<and> core_sreg c' = core_sreg c"
  using assms
proof (induction rs arbitrary: c)
  case (Cons r rs)
  let ?c = "c\<lparr>core_rsp := core_rsp c + 8\<rparr>"
  have p: "pop_u64 c = (g r, ?c)" "stacked base m ?c (map g rs @ vs)" using stacked_pop [of base m c] Cons.prems by simp_all
  let ?d = "?c\<lparr>core_gpr := (core_gpr c)(r := g r)\<rparr>"
  have "\<exists>c'. run handler resume (map POPQ rs @ is) ?d = run handler resume is c' \<and> stacked base m c' vs \<and>
      core_gpr c' = (\<lambda>q. if q \<in> set rs then g q else core_gpr ?d q) \<and> core_sreg c' = core_sreg ?d"
    by (rule Cons.IH) (simp add: p(2))
  then obtain c' where "run handler resume (map POPQ rs @ is) ?d = run handler resume is c'"
      "stacked base m c' vs" "core_gpr c' = (\<lambda>q. if q \<in> set rs then g q else core_gpr ?d q)" "core_sreg c' = core_sreg ?d"
    by (elim exE conjE)
  then show ?case using p(1) by (intro exI [of _ c']) (auto simp: fun_eq_iff)
qed auto

lemma popaq_registers:
  "popaq = map POPQ [R15, R14, R13, R12, R11, R10, R9, R8, RDI, RSI, RBP, RBX, RDX, RCX, RAX]"
  by (simp add: popaq_def)

lemma run_pop_segments:
  assumes "stacked base m c (map f ss @ vs)"
  shows "\<exists>c'. run handler resume (concat (map (\<lambda>s. [POPQ RAX, MOVW_TO s]) ss) @ is) c = run handler resume is c' \<and>
    stacked base m c' vs \<and> core_sreg c' = (\<lambda>s. if s \<in> set ss then ucast (f s) else core_sreg c s)"
  using assms
proof (induction ss arbitrary: c)
  case (Cons s ss)
  let ?c = "c\<lparr>core_rsp := core_rsp c + 8\<rparr>"
  let ?d = "?c\<lparr>core_gpr := (core_gpr c)(RAX := f s), core_sreg := (core_sreg c)(s := ucast (f s))\<rparr>"
  have p: "pop_u64 c = (f s, ?c)" "stacked base m ?c (map f ss @ vs)" using stacked_pop [of base m c] Cons.prems by simp_all
  have "\<exists>c'. run handler resume (concat (map (\<lambda>s. [POPQ RAX, MOVW_TO s]) ss) @ is) ?d = run handler resume is c' \<and>
      stacked base m c' vs \<and> core_sreg c' = (\<lambda>q. if q \<in> set ss then ucast (f q) else core_sreg ?d q)"
    by (rule Cons.IH) (simp add: p(2))
  then obtain c' where "run handler resume (concat (map (\<lambda>s. [POPQ RAX, MOVW_TO s]) ss) @ is) ?d = run handler resume is c'"
      "stacked base m c' vs" "core_sreg c' = (\<lambda>q. if q \<in> set ss then ucast (f q) else core_sreg ?d q)"
    by (elim exE conjE)
  then show ?case using p(1) by (intro exI [of _ c']) (auto simp: fun_eq_iff)
qed auto

lemma isr_restore_parts:
  "isr_restore = concat (map (\<lambda>s. [POPQ RAX, MOVW_TO s]) [GS, FS, ES, DS]) @ popaq @ [ADDQ_RSP 16, IRETQ]"
  by (simp add: isr_restore_def)

text \<open>The words that the interrupted context leaves on the stack, without the error code.\<close>

definition interrupted :: "core \<Rightarrow> u64 list" where
  "interrupted c = [core_rip c, ucast (core_cs c), core_flags c, core_rsp c, ucast (core_ss c)]"

lemma run_iretq:
  assumes "stacked base m c (n # e # interrupted c0)"
  shows "\<exists>m'. run handler resume [ADDQ_RSP 16, IRETQ] c =
      Runs (c\<lparr>core_mem := m', core_rip := core_rip c0, core_cs := core_cs c0, core_flags := core_flags c0, core_rsp := core_rsp c0,
        core_ss := core_ss c0\<rparr>) \<and> (\<forall>x. base \<le> unat x \<longrightarrow> m' x = m x)"
proof -
  let ?c = "c\<lparr>core_rsp := core_rsp c + 16\<rparr>"
  have "stacked base m ?c (interrupted c0)"
    using stacked_pop [OF conjunct2 [OF stacked_pop [OF assms]]] by (simp add: add.assoc)
  then have s: "stacked base m ?c [core_rip c0, ucast (core_cs c0), core_flags c0, core_rsp c0, ucast (core_ss c0)]"
    by (simp add: interrupted_def)
  have up: "ucast (ucast v :: u64) = v" for v :: u16 by (rule bit_word_eqI) (simp add: bit_simps)
  note p = stacked_pop [OF s] stacked_pop [OF conjunct2 [OF stacked_pop [OF s]]]
    stacked_pop [OF conjunct2 [OF stacked_pop [OF conjunct2 [OF stacked_pop [OF s]]]]]
    stacked_pop [OF conjunct2 [OF stacked_pop [OF conjunct2 [OF stacked_pop [OF conjunct2 [OF stacked_pop [OF s]]]]]]]
    stacked_pop [OF conjunct2 [OF stacked_pop [OF conjunct2 [OF stacked_pop [OF conjunct2 [OF stacked_pop [OF conjunct2 [OF stacked_pop [OF s]]]]]]]]]
  have "run handler resume [ADDQ_RSP 16, IRETQ] c = Runs (c\<lparr>core_rip := core_rip c0, core_cs := core_cs c0,
      core_flags := core_flags c0, core_rsp := core_rsp c0, core_ss := core_ss c0\<rparr>)"
    using p by (simp add: up)
  moreover have "\<forall>x. base \<le> unat x \<longrightarrow> core_mem c x = m x" using assms by (simp add: stacked_def)
  ultimately show ?thesis by (intro exI [of _ "core_mem c"]) simp
qed

lemma run_isr_restore:
  assumes "stacked base m c (saved (core_gpr c0) (core_sreg c0) @ n # e # interrupted c0)"
  shows "\<exists>m'. run handler resume isr_restore c = Runs (c0\<lparr>core_mem := m'\<rparr>) \<and> (\<forall>x. base \<le> unat x \<longrightarrow> m' x = m x)"
proof -
  let ?ss = "[GS, FS, ES, DS]" and ?rs = "[R15, R14, R13, R12, R11, R10, R9, R8, RDI, RSI, RBP, RBX, RDX, RCX, RAX]"
  let ?f = "\<lambda>r. with_ax (core_sreg c0 r) (core_gpr c0 RAX)"
  let ?vs = "n # e # interrupted c0" and ?last = "[ADDQ_RSP 16, IRETQ]"
  have "stacked base m c (map ?f ?ss @ map (core_gpr c0) ?rs @ ?vs)" using assms by (simp only: saved_def append_assoc)
  from run_pop_segments [OF this] obtain a where a:
      "run handler resume (concat (map (\<lambda>s. [POPQ RAX, MOVW_TO s]) ?ss) @ map POPQ ?rs @ ?last) c = run handler resume (map POPQ ?rs @ ?last) a"
      "stacked base m a (map (core_gpr c0) ?rs @ ?vs)" "core_sreg a = (\<lambda>s. if s \<in> set ?ss then ucast (?f s) else core_sreg c s)"
    by blast
  from run_pops [OF a(2)] obtain b where b:
      "run handler resume (map POPQ ?rs @ ?last) a = run handler resume ?last b" "stacked base m b ?vs"
      "core_gpr b = (\<lambda>r. if r \<in> set ?rs then core_gpr c0 r else core_gpr a r)" "core_sreg b = core_sreg a"
    by blast
  have g: "core_gpr b = core_gpr c0" unfolding b(3)
  proof
    show "(if r \<in> set ?rs then core_gpr c0 r else core_gpr a r) = core_gpr c0 r" for r by (cases r) simp_all
  qed
  have s: "core_sreg b = core_sreg c0" unfolding b(4) a(3)
  proof
    show "(if r \<in> set ?ss then ucast (?f r) else core_sreg c r) = core_sreg c0 r" for r by (cases r) simp_all
  qed
  have "run handler resume isr_restore c = run handler resume ?last b"
    unfolding isr_restore_parts popaq_registers a(1) b(1) ..
  moreover obtain m' where "run handler resume ?last b = Runs (b\<lparr>core_mem := m', core_rip := core_rip c0, core_cs := core_cs c0,
      core_flags := core_flags c0, core_rsp := core_rsp c0, core_ss := core_ss c0\<rparr>)" "\<forall>x. base \<le> unat x \<longrightarrow> m' x = m x"
    using run_iretq [OF b(2)] by blast
  moreover have "b\<lparr>core_mem := m', core_rip := core_rip c0, core_cs := core_cs c0,
      core_flags := core_flags c0, core_rsp := core_rsp c0, core_ss := core_ss c0\<rparr> = c0\<lparr>core_mem := m'\<rparr>"
    using g s by simp
  ultimately show ?thesis by auto
qed

section \<open>From the vector to the handler\<close>

text \<open>The structure for given registers, segments and words above them.\<close>

definition frame_regs :: "(gpr \<Rightarrow> u64) \<Rightarrow> (sreg \<Rightarrow> u16) \<Rightarrow> u64 \<Rightarrow> u64 \<Rightarrow> u64 \<Rightarrow> u64 \<Rightarrow> u64 \<Rightarrow> regs" where
  "frame_regs g s int_no err_code rip cs eflags =
     \<lparr>regs_gs = s GS, regs_fs = s FS, regs_es = s ES, regs_ds = s DS,
      regs_r15 = g R15, regs_r14 = g R14, regs_r13 = g R13, regs_r12 = g R12, regs_r11 = g R11, regs_r10 = g R10,
      regs_r9 = g R9, regs_r8 = g R8, regs_rdi = g RDI, regs_rsi = g RSI, regs_rbp = g RBP, regs_rbx = g RBX,
      regs_rdx = g RDX, regs_rcx = g RCX, regs_rax = g RAX,
      regs_int_no = int_no, regs_err_code = err_code, regs_rip = rip, regs_cs = cs, regs_eflags = eflags\<rparr>"

lemma load_regs_words:
  "words_at m p (saved g s @ n # e # rip # cs # flags # vs) \<Longrightarrow> load_regs m p = frame_regs g s n e rip cs flags"
  by (simp add: saved_def load_regs_def frame_regs_def load_u16_u64 add.assoc)

lemma length_saved [simp]: "length (saved g s) = 19"
  by (simp add: saved_def)

lemma stub_halts:
  assumes "stacked base m c (n # e # rip # cs # flags # vs)" "8 * (25 + length vs) \<le> base"
  shows "\<exists>c'. run fault_handler resume isr_stub c = Halts c' \<and>
    load_regs (core_mem c') (core_gpr c' RDI) = frame_regs (core_gpr c) (core_sreg c) n e rip cs flags \<and>
    (\<forall>s. core_sreg c' s = KERNEL_DATA_SEG) \<and> core_flags c' = (core_flags c AND NOT FLAG_DF) AND NOT FLAG_IF \<and> core_cs c' = core_cs c \<and>
    unat (core_rsp c') + 8 * (25 + length vs) = base \<and> (\<forall>x. base \<le> unat x \<longrightarrow> core_mem c' x = m x)"
proof -
  let ?vs = "n # e # rip # cs # flags # vs"
  obtain a where a: "run fault_handler resume isr_save c = Runs a" "stacked base m a (saved (core_gpr c) (core_sreg c) @ ?vs)"
    "core_gpr a RDI = core_rsp a" "\<forall>s. core_sreg a s = KERNEL_DATA_SEG" "core_flags a = core_flags c AND NOT FLAG_DF"
    "core_cs a = core_cs c"
    using run_isr_save [OF assms(1), of fault_handler resume] assms(2) by auto
  let ?b = "push_u64 resume a"
  have b: "stacked base m ?b (resume # saved (core_gpr c) (core_sreg c) @ ?vs)" using a(2) assms(2) by simp
  have "words_at (core_mem ?b) (core_rsp a) (saved (core_gpr c) (core_sreg c) @ ?vs)" using b by (simp add: stacked_def)
  from load_regs_words [OF this] show ?thesis
    using a b by (simp add: isr_stub_def run_append fault_handler_def stacked_def)
qed

text \<open>
  What the stub relies on in a handler that returns: the stack pointer is back in its place, and the memory from
  there on, which holds the return address and the saved registers, is as before.
\<close>

locale returning_handler =
  fixes handler :: "core \<Rightarrow> progress"
  assumes returns: "\<exists>c'. handler c = Runs c' \<and> core_rsp c' = core_rsp c \<and> (\<forall>x. core_rsp c \<le> x \<longrightarrow> core_mem c' x = core_mem c x)"
begin

lemma stub_returns:
  assumes s: "stacked base m c (n # e # interrupted c0)" and room: "8 * 27 \<le> base"
    and c: "core_gpr c = core_gpr c0" "core_sreg c = core_sreg c0"
  shows "\<exists>m'. run handler resume isr_stub c = Runs (c0\<lparr>core_mem := m'\<rparr>) \<and> (\<forall>x. base \<le> unat x \<longrightarrow> m' x = m x)"
proof -
  let ?vs = "n # e # interrupted c0"
  have l: "length (interrupted c0) = 5" by (simp add: interrupted_def)
  obtain a where a: "run handler resume isr_save c = Runs a" "stacked base m a (saved (core_gpr c0) (core_sreg c0) @ ?vs)"
    using run_isr_save [OF s, of handler resume] room c l by auto
  let ?b = "push_u64 resume a"
  have b: "stacked base m ?b (resume # saved (core_gpr c0) (core_sreg c0) @ ?vs)" using a(2) room l by simp
  obtain d where d: "handler ?b = Runs d" "core_rsp d = core_rsp ?b" "\<forall>x. core_rsp ?b \<le> x \<longrightarrow> core_mem d x = core_mem ?b x"
    using returns by blast
  have "words_at (core_mem d) (core_rsp ?b) (resume # saved (core_gpr c0) (core_sreg c0) @ ?vs) =
      words_at (core_mem ?b) (core_rsp ?b) (resume # saved (core_gpr c0) (core_sreg c0) @ ?vs)"
    by (rule words_at_cong) (use b d(3) in \<open>simp_all only: stacked_def word_le_nat_alt\<close>)
  moreover have "core_rsp ?b \<le> x" if "base \<le> unat x" for x
    using b that by (auto simp: stacked_def word_le_nat_alt simp del: push_u64_simps)
  ultimately have sd: "stacked base m d (resume # saved (core_gpr c0) (core_sreg c0) @ ?vs)"
    using b d by (simp add: stacked_def)
  let ?e = "d\<lparr>core_rsp := core_rsp d + 8, core_rip := resume\<rparr>"
  have "stacked base m ?e (saved (core_gpr c0) (core_sreg c0) @ ?vs)" using stacked_pop [OF sd] by (simp add: stacked_def)
  from run_isr_restore [OF this] obtain m' where
    m': "run handler resume isr_restore ?e = Runs (c0\<lparr>core_mem := m'\<rparr>)" "\<forall>x. base \<le> unat x \<longrightarrow> m' x = m x" by blast
  have "run handler resume isr_stub c = run handler resume isr_restore ?e"
    using a(1) d(1) stacked_pop [OF sd] by (simp add: isr_stub_def run_append)
  then show ?thesis using m' by auto
qed

end

text \<open>
  The processor leaves \<^verbatim>\<open>hlt\<close> with masked interrupts only for an event that cannot be masked; then
  \<^verbatim>\<open>fault_handler\<close> returns.
\<close>

definition woken_fault_handler :: "core \<Rightarrow> progress" where
  "woken_fault_handler c = (case fault_handler c of Halts c \<Rightarrow> Runs c | Runs c \<Rightarrow> Runs c)"

interpretation woken: returning_handler woken_fault_handler
  by unfold_locales (simp add: woken_fault_handler_def fault_handler_def)

definition stack_base :: "core \<Rightarrow> nat" where
  "stack_base c = unat (core_rsp c AND NOT 0xF)"

lemma stack_base_bounds: "stack_base c \<le> unat (core_rsp c)" "unat (core_rsp c) < stack_base c + 16" "stack_base c mod 16 = 0"
proof -
  have "stack_base c = unat (core_rsp c) div 16 * 16"
    using unat_and_not_mask [of "core_rsp c" 4] by (simp add: stack_base_def mask_eq_exp_minus_1)
  then show "stack_base c \<le> unat (core_rsp c)" "unat (core_rsp c) < stack_base c + 16" "stack_base c mod 16 = 0" by simp_all
qed

lemma deliver_stacked:
  assumes "256 \<le> unat (core_rsp c)"
  shows "stacked (stack_base c) (core_mem c) (deliver d code c) ((case code of None \<Rightarrow> [] | Some e \<Rightarrow> [e]) @ interrupted c)"
proof -
  have "stacked (stack_base c) (core_mem c) (c\<lparr>core_rsp := core_rsp c AND NOT 0xF\<rparr>) []"
    using unat_lt_2p [of "core_rsp c AND NOT 0xF"] by (simp add: stacked_def stack_base_def)
  then show ?thesis using assms stack_base_bounds [of c] by (simp add: deliver_def interrupted_def split: option.split)
qed

lemma deliver_simps [simp]:
  "core_gpr (deliver d code c) = core_gpr c" "core_sreg (deliver d code c) = core_sreg c"
  "core_cs (deliver d code c) = selector d"
  by (simp_all add: deliver_def Let_def split: option.split)

lemma gate_code:
  assumes "inj_on isr {..<256}" "length idt = 256"
  shows "take_interrupt isr handler resume (fst (initIDT isr a idt)) v code c =
      Some (run handler resume (isr_code (unat v)) (deliver (fst (initIDT isr a idt) ! unat v) code c))"
    "selector (fst (initIDT isr a idt) ! unat v) = 8"
proof -
  have v: "unat v < 256" using unat_lt_2p [of v] by simp
  then have g: "gate_target (fst (initIDT isr a idt) ! unat v) = isr (unat v)" "selector (fst (initIDT isr a idt) ! unat v) = 8"
    using initIDT_prefix [OF assms(2), of 256 isr] by (simp_all add: initIDT_def)
  have "find (\<lambda>n. isr n = isr (unat v)) [0..<256] = Some (unat v)"
    using v inj_onD [OF assms(1)] by (auto simp: find_Some_iff intro!: exI [of _ "unat v"]) fastforce
  then show "take_interrupt isr handler resume (fst (initIDT isr a idt)) v code c =
      Some (run handler resume (isr_code (unat v)) (deliver (fst (initIDT isr a idt) ! unat v) code c))"
    by (simp add: take_interrupt_def g)
  show "selector (fst (initIDT isr a idt) ! unat v) = 8" by (rule g)
qed

lemma wrapper_entry:
  assumes "256 \<le> unat (core_rsp c)"
  shows "\<exists>b. run handler resume (isr_code n) (deliver d code c) = run handler resume isr_stub b \<and>
    stacked (stack_base c) (core_mem c) b
      (of_nat n # (if n \<in> set error_code_vectors then [] else [0]) @ (case code of None \<Rightarrow> [] | Some e \<Rightarrow> [e]) @ interrupted c) \<and>
    core_gpr b = core_gpr c \<and> core_sreg b = core_sreg c \<and> core_cs b = selector d"
proof -
  let ?c = "(deliver d code c)\<lparr>core_flags := core_flags (deliver d code c) AND NOT FLAG_IF\<rparr>"
  let ?b = "fold push_u64 (if n \<in> set error_code_vectors then [of_nat n] else [0, of_nat n]) ?c"
  have l: "length ((case code of None \<Rightarrow> [] | Some e \<Rightarrow> [e]) @ interrupted c) \<le> 6" by (simp add: interrupted_def split: option.split)
  have "run handler resume (isr_code n) (deliver d code c) = run handler resume isr_stub ?b"
    by (simp add: isr_code_def isr_wrapper_def isr_wrapper_with_error_def isr_wrapper_no_error_def error_code_vectors_def)
  moreover have "stacked (stack_base c) (core_mem c) ?b
      (of_nat n # (if n \<in> set error_code_vectors then [] else [0]) @ (case code of None \<Rightarrow> [] | Some e \<Rightarrow> [e]) @ interrupted c)"
    using deliver_stacked [OF assms, of d code] l stack_base_bounds [of c] assms by simp
  ultimately show ?thesis by (intro exI [of _ ?b]) simp
qed

lemma fault_flags_cleared: "((f AND NOT FLAG_DF) AND NOT FLAG_IF) AND (FLAG_IF OR FLAG_DF) = 0"
  by (rule bit_word_eqI) (auto simp: bit_simps)

text \<open>
  C16. With the table of \<^verbatim>\<open>initIDT\<close> and room on the stack, every interrupt and every exception whose error
  code the processor pushes ends in the handler of its own vector: the structure there holds
  exactly the interrupted context, the vector and the error code, the kernel's data segments are loaded, interrupts
  are masked, the stack is aligned as a function call needs it, and nothing above the interrupted stack
  pointer has changed.
\<close>

theorem interrupt_reaches_handler:
  fixes v :: u8
  assumes "inj_on isr {..<256}" "length idt = 256" "256 \<le> unat (core_rsp c)"
    and "(code \<noteq> None) = (unat v \<in> set error_code_vectors)"
  shows "\<exists>c'. take_interrupt isr fault_handler resume (fst (initIDT isr a idt)) v code c = Some (Halts c') \<and>
    load_regs (core_mem c') (core_gpr c' RDI) = frame_regs (core_gpr c) (core_sreg c) (ucast v)
      (case code of None \<Rightarrow> 0 | Some e \<Rightarrow> e) (core_rip c) (ucast (core_cs c)) (core_flags c) \<and>
    core_cs c' = 8 \<and> (\<forall>s. core_sreg c' s = KERNEL_DATA_SEG) \<and> core_flags c' AND (FLAG_IF OR FLAG_DF) = 0 \<and>
    (unat (core_rsp c') + 8) mod 16 = 0 \<and> (\<forall>x. core_rsp c \<le> x \<longrightarrow> core_mem c' x = core_mem c x)"
proof -
  let ?idt = "fst (initIDT isr a idt)" and ?e = "case code of None \<Rightarrow> 0 | Some e \<Rightarrow> e"
  obtain b where b: "run fault_handler resume (isr_code (unat v)) (deliver (?idt ! unat v) code c) = run fault_handler resume isr_stub b"
    "stacked (stack_base c) (core_mem c) b (ucast v # ?e # interrupted c)"
    "core_gpr b = core_gpr c" "core_sreg b = core_sreg c" "core_cs b = 8"
    using wrapper_entry [OF assms(3), of fault_handler resume "unat v" "?idt ! unat v" code] assms(4)
      gate_code(2) [OF assms(1,2), of a v] by (cases code) auto
  have "8 * (25 + length [core_rsp c, ucast (core_ss c)]) \<le> stack_base c" using stack_base_bounds [of c] assms(3) by simp
  from stub_halts [OF b(2) [unfolded interrupted_def] this, of resume] obtain c' where c': "run fault_handler resume isr_stub b = Halts c'"
    "load_regs (core_mem c') (core_gpr c' RDI) = frame_regs (core_gpr b) (core_sreg b) (ucast v) ?e (core_rip c) (ucast (core_cs c)) (core_flags c)"
    "\<forall>s. core_sreg c' s = KERNEL_DATA_SEG" "core_flags c' = (core_flags b AND NOT FLAG_DF) AND NOT FLAG_IF" "core_cs c' = core_cs b"
    "unat (core_rsp c') + 216 = stack_base c" "\<forall>x. stack_base c \<le> unat x \<longrightarrow> core_mem c' x = core_mem c x"
    by auto
  have "(unat (core_rsp c') + 8) mod 16 = 0" using c'(6) stack_base_bounds(3) [of c] by presburger
  then show ?thesis
    using c' b gate_code(1) [OF assms(1,2), of fault_handler resume a v code] stack_base_bounds(1) [of c]
    by (auto simp: word_le_nat_alt fault_flags_cleared)
qed

definition demo_isr :: "nat \<Rightarrow> u64" where
  "demo_isr n = of_nat (0x1000 + n)"

definition demo_core :: core where
  "demo_core = \<lparr>core_gpr = (\<lambda>r. if r = RAX then 7 else 1), core_sreg = (\<lambda>_. 16), core_rsp = 0x8004, core_ss = 16,
     core_rip = 0x4000, core_cs = 8, core_flags = 0x202, core_mem = (\<lambda>_. 0)\<rparr>"

definition demo_idt :: "InterruptDescriptor list" where
  "demo_idt = replicate 256 \<lparr>offset_1 = 0, selector = 0, ist = 0, type_attributes = 0, offset_2 = 0, offset_3 = 0, zero = 0\<rparr>"

lemma demo_machine: "inj_on demo_isr {..<256}" "length demo_idt = 256" "256 \<le> unat (core_rsp demo_core)"
proof -
  have "unat (demo_isr n) = 0x1000 + n" if "n < 256" for n unfolding demo_isr_def using that by (intro unat_of_nat_lt) simp
  then show "inj_on demo_isr {..<256}" by (intro inj_onI) (metis add_left_cancel lessThan_iff)
  show "length demo_idt = 256" "256 \<le> unat (core_rsp demo_core)" by (simp_all add: demo_idt_def demo_core_def)
qed

theorem interrupt_reaches_handler_witness:
  "\<exists>c'. take_interrupt demo_isr fault_handler 0 (fst (initIDT demo_isr 0 demo_idt)) 14 (Some 2) demo_core = Some (Halts c') \<and>
    regs_int_no (load_regs (core_mem c') (core_gpr c' RDI)) = 14 \<and> regs_err_code (load_regs (core_mem c') (core_gpr c' RDI)) = 2 \<and>
    regs_rax (load_regs (core_mem c') (core_gpr c' RDI)) = 7 \<and> regs_rip (load_regs (core_mem c') (core_gpr c' RDI)) = 0x4000"
  using interrupt_reaches_handler [OF demo_machine, of "Some 2" 14 0 0]
  by (auto simp: error_code_vectors_def frame_regs_def demo_core_def)

text \<open>
  C17. After the return of any handler that keeps the stack, the interrupted program continues as if nothing had
  happened: all its registers, segments, flags, its stack pointer and its memory from there on are restored.
\<close>

theorem interrupt_returns:
  fixes v :: u8
  assumes "inj_on isr {..<256}" "length idt = 256" "256 \<le> unat (core_rsp c)"
    and "(code \<noteq> None) = (unat v \<in> set error_code_vectors)"
    and "\<And>c. \<exists>c'. handler c = Runs c' \<and> core_rsp c' = core_rsp c \<and> (\<forall>x. core_rsp c \<le> x \<longrightarrow> core_mem c' x = core_mem c x)"
  shows "\<exists>m'. take_interrupt isr handler resume (fst (initIDT isr a idt)) v code c = Some (Runs (c\<lparr>core_mem := m'\<rparr>)) \<and>
    (\<forall>x. core_rsp c \<le> x \<longrightarrow> m' x = core_mem c x)"
proof -
  let ?idt = "fst (initIDT isr a idt)" and ?e = "case code of None \<Rightarrow> 0 | Some e \<Rightarrow> e"
  obtain b where b: "run handler resume (isr_code (unat v)) (deliver (?idt ! unat v) code c) = run handler resume isr_stub b"
    "stacked (stack_base c) (core_mem c) b (ucast v # ?e # interrupted c)" "core_gpr b = core_gpr c" "core_sreg b = core_sreg c"
    using wrapper_entry [OF assms(3), of handler resume "unat v" "?idt ! unat v" code] assms(4) by (cases code) auto
  have "8 * 27 \<le> stack_base c" using stack_base_bounds [of c] assms(3) by simp
  from returning_handler.stub_returns [OF returning_handler.intro [OF assms(5)] b(2) this b(3,4), of resume]
  show ?thesis using b(1) gate_code(1) [OF assms(1,2), of handler resume a v code] stack_base_bounds(1) [of c]
    by (auto simp: word_le_nat_alt)
qed

theorem interrupt_returns_witness:
  "\<exists>m'. take_interrupt demo_isr woken_fault_handler 0 (fst (initIDT demo_isr 0 demo_idt)) 34 None demo_core =
    Some (Runs (demo_core\<lparr>core_mem := m'\<rparr>))"
  using interrupt_returns [OF demo_machine _ woken.returns, of None 34 0 0] by (auto simp: error_code_vectors_def)

text \<open>
  C18. An exception that \<^verbatim>\<open>triggerFault\<close> raises with an \<^verbatim>\<open>int\<close> instruction on a vector with an error code
  reaches its handler with a misplaced frame: the processor pushes no error code, so the structure has the
  instruction pointer as error code, the code segment as instruction pointer, the flags as code segment and the stack
  pointer as flags, and the handler is called on a misaligned stack.
\<close>

theorem triggerFault_misplaces_frame:
  assumes "inj_on isr {..<256}" "length idt = 256" "256 \<le> unat (core_rsp c)"
    and "f \<in> {FAULT_DOUBLE_FAULT, FAULT_INVALID_TSS, FAULT_SEGMENT_NOT_PRESENT, FAULT_STACK_FAULT, FAULT_GENERAL_PROTECTION,
      FAULT_PAGE_FAULT, FAULT_ALIGNMENT_CHECK, FAULT_CONTROL_PROTECTION}"
  shows "\<exists>c'. take_interrupt isr fault_handler resume (fst (initIDT isr a idt)) (triggerFault f) None c = Some (Halts c') \<and>
    load_regs (core_mem c') (core_gpr c' RDI) = frame_regs (core_gpr c) (core_sreg c) (fault_number f)
      (core_rip c) (ucast (core_cs c)) (core_flags c) (core_rsp c) \<and>
    (unat (core_rsp c') + 8) mod 16 = 8"
proof -
  let ?idt = "fst (initIDT isr a idt)" and ?v = "triggerFault f"
  have v: "unat ?v \<in> set error_code_vectors" "ucast ?v = fault_number f" using assms(4) by (auto simp: error_code_vectors_def)
  obtain b where b: "run fault_handler resume (isr_code (unat ?v)) (deliver (?idt ! unat ?v) None c) = run fault_handler resume isr_stub b"
    "stacked (stack_base c) (core_mem c) b (fault_number f # interrupted c)" "core_gpr b = core_gpr c" "core_sreg b = core_sreg c"
    using wrapper_entry [OF assms(3), of fault_handler resume "unat ?v" "?idt ! unat ?v" None] v by auto
  have "8 * (25 + length [ucast (core_ss c) :: u64]) \<le> stack_base c" using stack_base_bounds [of c] assms(3) by simp
  from stub_halts [OF b(2) [unfolded interrupted_def] this, of resume] obtain c' where c': "run fault_handler resume isr_stub b = Halts c'"
    "load_regs (core_mem c') (core_gpr c' RDI) = frame_regs (core_gpr b) (core_sreg b) (fault_number f)
       (core_rip c) (ucast (core_cs c)) (core_flags c) (core_rsp c)"
    "unat (core_rsp c') + 208 = stack_base c" by auto
  have "(unat (core_rsp c') + 8) mod 16 = 8" using c'(3) stack_base_bounds(3) [of c] by presburger
  then show ?thesis using c' b gate_code(1) [OF assms(1,2), of fault_handler resume a ?v None] by simp
qed

theorem triggerFault_misplaces_frame_witness:
  "\<exists>c'. take_interrupt demo_isr fault_handler 0 (fst (initIDT demo_isr 0 demo_idt)) 14 None demo_core = Some (Halts c') \<and>
    regs_err_code (load_regs (core_mem c') (core_gpr c' RDI)) = 0x4000 \<and> regs_rip (load_regs (core_mem c') (core_gpr c' RDI)) = 8"
  using triggerFault_misplaces_frame [OF demo_machine, of FAULT_PAGE_FAULT 0 0]
  by (auto simp: frame_regs_def demo_core_def)

end
