(* ===== verification/Files.thy ===== *)
theory Files
  imports Text Allocator
begin

text \<open>
  The remaining helpers over an arena: the simple buffer (\<^verbatim>\<open>shared/buffer\<close>) and the file access of the programs that run
  on POSIX (\<^verbatim>\<open>posix/file\<close>). Opening, measuring and reading a file, and making a directory, are outcomes that the
  operating system decides: arguments of the definitions. Messages are left out.
\<close>

section \<open>Simple buffer\<close>

record U8_d_a =
  sb_buf :: addr
  sb_len :: u64
  sb_cap :: u64

text \<open>The capacity that the first branch sets is overwritten at once; the result of the second allocation is not used.\<close>

definition appendToSimpleBuffer :: "memory \<Rightarrow> addr \<Rightarrow> u64 \<Rightarrow> U8_d_a \<Rightarrow> Arena \<Rightarrow> (memory \<times> U8_d_a \<times> Arena) control" where
  "appendToSimpleBuffer m dataBuf dataLen b perm =
     (let newCap = (sb_len b + dataLen) * 2;
          grown =
            (if sb_len b + dataLen > sb_cap b then
               (case alloc m perm 1 1 newCap 0 of
                  Jump \<Rightarrow> Jump | Stuck \<Rightarrow> Stuck
                | Ret (p, m, perm') \<Rightarrow>
                    if sb_buf b = 0 then Ret (m, b\<lparr>sb_buf := p, sb_cap := newCap\<rparr>, perm')
                    else if arena_end perm = sb_buf b - sb_cap b then Ret (m, b\<lparr>sb_cap := newCap\<rparr>, perm')
                    else (case memcpy m p (sb_buf b) (sb_len b) of
                            None \<Rightarrow> Stuck | Some m \<Rightarrow> Ret (m, b\<lparr>sb_buf := p, sb_cap := newCap\<rparr>, perm')))
             else Ret (m, b, perm)) in
      case grown of
        Jump \<Rightarrow> Jump | Stuck \<Rightarrow> Stuck
      | Ret (m, b, perm) \<Rightarrow>
          (case memcpy m (sb_buf b + sb_len b) dataBuf dataLen of
             None \<Rightarrow> Stuck | Some m \<Rightarrow> Ret (m, b\<lparr>sb_len := sb_len b + dataLen\<rparr>, perm)))"

section \<open>Reading files\<close>

datatype FileStatus = FILE_SUCCESS | FILE_CANT_OPEN | FILE_CANT_ALLOCATE | FILE_CANT_READ

definition fileStatusStrings :: "string list" where
  "fileStatusStrings = [''FILE_SUCCESS'', ''FILE_CANT_OPEN'', ''FILE_CANT_ALLOCATE'', ''FILE_CANT_READ'']"

text \<open>
  \<open>srcFile\<close> is what \<^verbatim>\<open>fopen\<close> gives, \<open>ftell\<close> the position at the end of the file, \<open>fread\<close> the bytes stored by a
  read of the given length. The result has the status, the memory, the buffer as address and length, and the arena.
\<close>

definition readFile :: "'f option \<Rightarrow> ('f \<Rightarrow> u64) \<Rightarrow> ('f \<Rightarrow> u64 \<Rightarrow> bytes) \<Rightarrow> memory \<Rightarrow> addr \<times> u64 \<Rightarrow> Arena \<Rightarrow>
    (FileStatus \<times> memory \<times> (addr \<times> u64) \<times> Arena) control" where
  "readFile srcFile ftell fread m buffer perm =
     (case srcFile of
        None \<Rightarrow> Ret (FILE_CANT_OPEN, m, buffer, perm)
      | Some f \<Rightarrow>
          (let dataLen = ftell f in
           case alloc m perm 1 1 dataLen NULLPTR_ON_FAIL of
             Jump \<Rightarrow> Jump | Stuck \<Rightarrow> Stuck
           | Ret (p, m, perm) \<Rightarrow>
               if p = 0 then Ret (FILE_CANT_ALLOCATE, m, (p, snd buffer), perm)
               else let d = fread f dataLen; m = store_bytes m p d in
                 if of_nat (length d) \<noteq> dataLen then Ret (FILE_CANT_READ, m, (p, snd buffer), perm)
                 else Ret (FILE_SUCCESS, m, (p, dataLen), perm)))"

datatype FileKind = BlockDevice | RegularFile | OtherFile

text \<open>\<open>st\<close> is what \<^verbatim>\<open>fstat\<close> gives, \<open>blkGetSize64\<close> what the ioctl gives for a block device.\<close>

definition getFileSize :: "(FileKind \<times> u64) option \<Rightarrow> u64 option \<Rightarrow> u64" where
  "getFileSize st blkGetSize64 =
     (case st of
        None \<Rightarrow> - 1
      | Some (BlockDevice, _) \<Rightarrow> (case blkGetSize64 of None \<Rightarrow> - 1 | Some n \<Rightarrow> n)
      | Some (RegularFile, n) \<Rightarrow> n
      | Some (OtherFile, _) \<Rightarrow> - 1)"

section \<open>Creating the directories of a path\<close>

text \<open>
  The index as the caller stores it: -1 becomes the largest number. Behind the last character the
  search finds nothing (its assertion expands to nothing in a release build).
\<close>

definition slash_from :: "bytes \<Rightarrow> u64 \<Rightarrow> u64" where
  "slash_from s i = (case firstOccurenceOfFrom s 0x2F (unat i) of Some j \<Rightarrow> of_int j | None \<Rightarrow> - 1)"

text \<open>The zero-terminated string that \<^verbatim>\<open>mkdir\<close> sees in a buffer of \<open>n\<close> bytes.\<close>

definition c_string :: "memory \<Rightarrow> addr \<Rightarrow> nat \<Rightarrow> bytes" where
  "c_string m p n = takeWhile (\<lambda>b. b \<noteq> 0) (load_bytes m p n)"

text \<open>The loop; the second component collects the directories made.\<close>

fun posix_createPath_loop :: "nat \<Rightarrow> bytes \<Rightarrow> addr \<Rightarrow> u64 \<Rightarrow> memory \<times> bytes list \<Rightarrow> (memory \<times> bytes list) option" where
  "posix_createPath_loop 0 s dirPath slashIndex (m, made) = None"
| "posix_createPath_loop (Suc fuel) s dirPath slashIndex (m, made) =
     (if slashIndex > 0 then
        (let m = m(dirPath + slashIndex := 0);
             made = made @ [c_string m dirPath (length s + 1)];
             m = m(dirPath + slashIndex := 0x2F) in
         posix_createPath_loop fuel s dirPath (slash_from s (slashIndex + 1)) (m, made))
      else Some (m, made))"

text \<open>The test \<^verbatim>\<open>slashIndex >= 0\<close> of an unsigned number always holds. \<open>None\<close>: the fuel did not suffice.\<close>

definition posix_createPath :: "nat \<Rightarrow> memory \<Rightarrow> addr \<Rightarrow> u64 \<Rightarrow> Arena \<Rightarrow> (memory \<times> bytes list) option control" where
  "posix_createPath fuel m buf n scratch =
     (let s = load_bytes m buf (unat n) in
      case alloc m scratch 1 1 (n + 1) 0 of
        Jump \<Rightarrow> Jump | Stuck \<Rightarrow> Stuck
      | Ret (dirPath, m, _) \<Rightarrow>
          (case memcpy m dirPath buf n of
             None \<Rightarrow> Stuck
           | Some m \<Rightarrow> Ret (posix_createPath_loop fuel s dirPath (slash_from s 0) (m(dirPath + n := 0), []))))"

section \<open>What they promise\<close>

lemma padding_1 [simp]: "padding a 1 = 0"
  by (simp add: padding_def)

lemma room_1: "room a 1 = unat (arena_end a) - unat (curFree a)"
  by (simp add: room_def)

lemma alloc_bytes:
  assumes "arena_ok a"
  shows "unat n \<le> unat (arena_end a) - unat (curFree a) \<Longrightarrow> flags AND ZERO_MEMORY = 0 \<Longrightarrow>
      alloc m a 1 1 n flags = Ret (curFree a, m, a\<lparr>curFree := curFree a + n\<rparr>)"
    and "unat (arena_end a) - unat (curFree a) < unat n \<Longrightarrow>
      alloc m a 1 1 n flags = (if flags AND NULLPTR_ON_FAIL \<noteq> 0 then Ret (0, m, a) else Jump)"
proof -
  have p: "unat (curFree a) + padding a 1 \<le> unat (arena_end a)" using assms by (simp add: arena_ok_def word_le_nat_alt)
  show "alloc m a 1 1 n flags = Ret (curFree a, m, a\<lparr>curFree := curFree a + n\<rparr>)"
    if "unat n \<le> unat (arena_end a) - unat (curFree a)" "flags AND ZERO_MEMORY = 0"
    using alloc_spec(2) [OF assms p, of 1 n m flags] that by (auto simp: room_1 dest!: word_eq_unatI)
  show "alloc m a 1 1 n flags = (if flags AND NULLPTR_ON_FAIL \<noteq> 0 then Ret (0, m, a) else Jump)"
    if "unat (arena_end a) - unat (curFree a) < unat n"
    using alloc_spec(1) [OF assms p, of 1 n m flags] that by (simp add: room_1)
qed

text \<open>Copying behind \<open>k\<close> bytes keeps them.\<close>

lemma copied_behind:
  assumes "unat p + k + n < 2 ^ 64"
  shows "load_bytes (copied m (p + of_nat k) q n) p k = load_bytes m p k"
proof (rule load_bytes_cong)
  fix i assume i: "i < k"
  have d: "unat (p + of_nat k) = unat p + k" "unat (p + of_nat i) = unat p + i" using assms i by (simp_all add: unat_offset)
  have "n \<le> unat (p + of_nat i - (p + of_nat k))"
    using d i assms by (intro below_outside) (simp_all add: word_less_nat_alt)
  then show "copied m (p + of_nat k) q n (p + of_nat i) = m (p + of_nat i)" by (rule copied_outside)
qed

lemma ranges_apart:
  assumes "unat s + n \<le> unat d \<or> unat d + n \<le> unat s" "unat d + n \<le> 2 ^ 64" "unat s + n \<le> 2 ^ 64"
  shows "disjoint_ranges d s n"
proof (cases "n = 0")
  case False
  from assms(1) show ?thesis
  proof
    assume "unat s + n \<le> unat d" then show ?thesis using assms False by (intro disjoint_below) simp_all
  next
    assume "unat d + n \<le> unat s"
    then have "disjoint_ranges s d n" using assms False by (intro disjoint_below) simp_all
    then show ?thesis by (simp add: disjoint_ranges_def)
  qed
qed (simp add: disjoint_ranges_def)

text \<open>The second half of an append: the data goes behind the old bytes.\<close>

lemma append_behind:
  assumes "unat p + unat l + unat n < 2 ^ 64" "unat q + unat n \<le> unat p + unat l \<or> unat p + unat l + unat n \<le> unat q"
    and "unat q + unat n \<le> 2 ^ 64"
  shows "\<exists>m'. memcpy m (p + l) q n = Some m' \<and> load_bytes m' p (unat (l + n)) = load_bytes m p (unat l) @ load_bytes m q (unat n)"
proof -
  have u: "unat (p + l) = unat p + unat l" "unat (l + n) = unat l + unat n" using assms(1) by (simp_all add: unat_add_nowrap)
  let ?m = "copied m (p + l) q (unat n)"
  have "memcpy m (p + l) q n = Some ?m"
    by (rule memcpy_eq_copied, rule ranges_apart) (use assms u in simp_all)
  moreover have "load_bytes ?m p (unat (l + n)) = load_bytes ?m p (unat l) @ load_bytes ?m (p + l) (unat n)"
    by (simp add: u(2) load_bytes_append)
  moreover have "load_bytes ?m p (unat l) = load_bytes m p (unat l)" using copied_behind [of p "unat l" "unat n" m q] assms(1) by simp
  moreover have "load_bytes ?m (p + l) (unat n) = load_bytes m q (unat n)" by (rule load_copied) (simp add: unat_lt_u64)
  ultimately show ?thesis by simp
qed

text \<open>
  Appending to a buffer from the used part of the arena gives the old bytes with the data behind them, in place or in a
  buffer of twice the needed size at the free end. (In an arena of the lower half of the addresses the test for an extension
  in place never holds.)
\<close>

theorem appendToSimpleBuffer_appends:
  assumes ok: "arena_ok a" and half: "unat (arena_end a) < 2 ^ 63" and b: "sb_buf b \<noteq> 0" "unat (sb_buf b) + unat (sb_cap b) \<le> unat (curFree a)" "sb_len b \<le> sb_cap b"
    and q: "unat q + unat n \<le> unat (curFree a)" "unat q + unat n \<le> unat (sb_buf b) \<or> unat (sb_buf b) + unat (sb_cap b) \<le> unat q"
    and fits: "2 * (unat (sb_len b) + unat n) \<le> unat (arena_end a) - unat (curFree a)"
  shows "\<exists>m' b' a'. appendToSimpleBuffer m q n b a = Ret (m', b', a') \<and> sb_len b' = sb_len b + n \<and> sb_len b' \<le> sb_cap b' \<and>
    load_bytes m' (sb_buf b') (unat (sb_len b')) = load_bytes m (sb_buf b) (unat (sb_len b)) @ load_bytes m q (unat n)"
proof -
  let ?l = "sb_len b" and ?p = "curFree a" and ?c = "(sb_len b + n) * 2"
  have e: "unat (arena_end a) + 160 < 2 ^ 64" "unat ?p \<le> unat (arena_end a)" using ok by (simp_all add: arena_ok_def word_le_nat_alt)
  have l: "unat ?l \<le> unat (sb_cap b)" using b(3) by (simp add: word_le_nat_alt)
  have u: "unat (?l + n) = unat ?l + unat n" using fits e by (intro unat_add_nowrap) simp
  have uc: "unat ?c = 2 * (unat ?l + unat n)" using fits e u by (subst unat_mult_nowrap) simp_all
  show ?thesis
  proof (cases "?l + n > sb_cap b")
    case False
    then have le: "unat ?l + unat n \<le> unat (sb_cap b)" by (simp add: word_less_nat_alt u)
    obtain m' where "memcpy m (sb_buf b + ?l) q n = Some m'"
        "load_bytes m' (sb_buf b) (unat (?l + n)) = load_bytes m (sb_buf b) (unat ?l) @ load_bytes m q (unat n)"
      using append_behind [of "sb_buf b" ?l n q m] le b(2) q e by fastforce
    then show ?thesis using False by (simp add: appendToSimpleBuffer_def Let_def)
  next
    case True
    have al: "alloc m a 1 1 ?c 0 = Ret (?p, m, a\<lparr>curFree := ?p + ?c\<rparr>)"
      by (rule alloc_bytes(1) [OF ok]) (use fits uc in simp_all)
    have nb: "arena_end a \<noteq> sb_buf b - sb_cap b"
    proof
      assume "arena_end a = sb_buf b - sb_cap b"
      then have "sb_buf b = arena_end a + sb_cap b" by simp
      moreover have "unat (arena_end a + sb_cap b) = unat (arena_end a) + unat (sb_cap b)"
        using half e(2) b(2) by (intro unat_add_nowrap) simp
      ultimately have "unat ?l = 0" "unat (arena_end a) = unat ?p" using e(2) b(2) l by simp_all
      then show False using True fits by (simp add: word_less_nat_alt u)
    qed
    have d: "disjoint_ranges ?p (sb_buf b) (unat ?l)"
      by (rule ranges_apart) (use b(2) l e fits in simp_all)
    let ?m = "copied m ?p (sb_buf b) (unat ?l)"
    have cpy: "memcpy m ?p (sb_buf b) ?l = Some ?m" by (rule memcpy_eq_copied [OF d]) (use e fits in simp)
    obtain m' where m': "memcpy ?m (?p + ?l) q n = Some m'"
        "load_bytes m' ?p (unat (?l + n)) = load_bytes ?m ?p (unat ?l) @ load_bytes ?m q (unat n)"
      using append_behind [of ?p ?l n q ?m] q e fits by fastforce
    have "load_bytes ?m ?p (unat ?l) = load_bytes m (sb_buf b) (unat ?l)" by (rule load_copied) (simp add: unat_lt_u64)
    moreover have "load_bytes ?m q (unat n) = load_bytes m q (unat n)"
      by (rule load_bytes_below [of ?p], rule copied_outside, rule below_outside) (use q e fits in simp_all)
    moreover have "?l + n \<le> ?c" unfolding word_le_nat_alt u uc by simp
    ultimately show ?thesis using True al nb cpy m' b(1) by (simp add: appendToSimpleBuffer_def Let_def)
  qed
qed

theorem appendToSimpleBuffer_appends_witness:
  "\<exists>m' b' a'. appendToSimpleBuffer (\<lambda>x. ucast x) 0x1004 2 \<lparr>sb_buf = 0x1000, sb_len = 3, sb_cap = 4\<rparr>
      \<lparr>curFree = 0x1010, arena_beg = 0x1000, arena_end = 0x2000\<rparr> = Ret (m', b', a') \<and> sb_len b' = 5"
  using appendToSimpleBuffer_appends [of "\<lparr>curFree = 0x1010, arena_beg = 0x1000, arena_end = 0x2000\<rparr>"
      "\<lparr>sb_buf = 0x1000, sb_len = 3, sb_cap = 4\<rparr>" "0x1004" 2 "\<lambda>x. ucast x"]
  by (auto simp: arena_ok_def)

text \<open>
  A file that can be opened, whose length is known and that is read completely is read into the fresh part of the
  arena if it fits there; otherwise the status says so and nothing has changed.
\<close>

theorem readFile_reads:
  assumes "arena_ok a" "curFree a \<noteq> 0" "unat (ftell f) = length contents" "fread f (ftell f) = contents"
  shows "if length contents \<le> unat (arena_end a) - unat (curFree a)
    then \<exists>m'. readFile (Some f) ftell fread m buffer a = Ret (FILE_SUCCESS, m', (curFree a, ftell f), a\<lparr>curFree := curFree a + ftell f\<rparr>) \<and>
      load_bytes m' (curFree a) (length contents) = contents \<and> (\<forall>x. length contents \<le> unat (x - curFree a) \<longrightarrow> m' x = m x)
    else readFile (Some f) ftell fread m buffer a = Ret (FILE_CANT_ALLOCATE, m, (0, snd buffer), a)"
proof (cases "length contents \<le> unat (arena_end a) - unat (curFree a)")
  case True
  then have "alloc m a 1 1 (ftell f) NULLPTR_ON_FAIL = Ret (curFree a, m, a\<lparr>curFree := curFree a + ftell f\<rparr>)"
    using assms(3) by (intro alloc_bytes(1) [OF assms(1)]) (simp_all add: NULLPTR_ON_FAIL_def ZERO_MEMORY_def)
  moreover have "of_nat (length contents) = ftell f" by (simp add: assms(3) [symmetric])
  moreover have "load_bytes (store_bytes m (curFree a) contents) (curFree a) (length contents) = contents"
    using assms(3) unat_lt_2p [of "ftell f"] by (auto simp: load_bytes_def store_bytes_def unat_of_nat_lt intro!: nth_equalityI)
  ultimately show ?thesis using True assms(2,4)
    by (intro iffD2 [OF if_P] exI [of _ "store_bytes m (curFree a) contents"]) (simp_all add: readFile_def Let_def store_bytes_def)
next
  case False
  then have "alloc m a 1 1 (ftell f) NULLPTR_ON_FAIL = Ret (0, m, a)"
    using assms(3) alloc_bytes(2) [OF assms(1), of "ftell f" m NULLPTR_ON_FAIL] by (simp add: NULLPTR_ON_FAIL_def)
  then show ?thesis using False by (simp add: readFile_def)
qed

theorem readFile_reads_witness:
  "\<exists>m'. readFile (Some ()) (\<lambda>_. 3) (\<lambda>_ _. [1, 2, 3]) (\<lambda>_. 0) (0, 0) \<lparr>curFree = 0x1000, arena_beg = 0x1000, arena_end = 0x2000\<rparr> =
     Ret (FILE_SUCCESS, m', (0x1000, 3), \<lparr>curFree = 0x1003, arena_beg = 0x1000, arena_end = 0x2000\<rparr>) \<and> load_bytes m' 0x1000 3 = [1, 2, 3]"
  unfolding numeral_3_eq_3
  using readFile_reads [of "\<lparr>curFree = 0x1000, arena_beg = 0x1000, arena_end = 0x2000\<rparr>" "\<lambda>_. 3" "()" "[1, 2, 3]" "\<lambda>_ _. [1, 2, 3]" "\<lambda>_. 0" "(0, 0)"]
  by (auto simp: arena_ok_def)

text \<open>
  \<^verbatim>\<open>createPath\<close> returns only for a path that starts with a slash, and then it makes no directory: for every other path the
  search ends with the largest number, never with zero, and the loop goes round for ever.
\<close>

lemma slash_from_zero:
  assumes "length s < 2 ^ 64" "s = [] \<or> hd s \<noteq> 0x2F"
  shows "slash_from s i \<noteq> 0"
proof (cases "firstOccurenceOfFrom s 0x2F (unat i)")
  case (Some j)
  show ?thesis
  proof (cases "find_from s 0x2F (unat i)")
    case n: (Some k)
    then have k: "k < length s" "s ! k = 0x2F" using find_from_Some [OF n] by auto
    then have "k \<noteq> 0" using assms(2) by (cases s; cases k) auto
    moreover have "unat (of_nat k :: u64) = k" using k(1) assms(1) by (intro unat_of_nat_lt) simp
    ultimately have "(of_nat k :: u64) \<noteq> 0" by auto
    then show ?thesis using Some n by (auto simp: slash_from_def firstOccurenceOfFrom_def split: if_splits)
  next
    case None
    then show ?thesis using Some by (auto simp: slash_from_def firstOccurenceOfFrom_def split: if_splits)
  qed
qed (simp add: slash_from_def)

theorem posix_createPath_never_returns:
  assumes "length s < 2 ^ 64" "s = [] \<or> hd s \<noteq> 0x2F"
  shows "posix_createPath_loop fuel s dirPath (slash_from s i) (m, made) = None"
proof (induction fuel arbitrary: i m made)
  case (Suc fuel)
  have "0 < slash_from s i" using slash_from_zero [OF assms] by (simp add: word_neq_0_conv)
  then show ?case using Suc.IH by (simp add: Let_def)
qed simp

theorem posix_createPath_never_returns_witness: "posix_createPath_loop 1000 [0x61, 0x2F, 0x62] 0x1000 1 (m, []) = None"
proof -
  have "slash_from [0x61, 0x2F, 0x62] 0 = 1"
    by (simp add: slash_from_def firstOccurenceOfFrom_def find_from.simps)
  then show ?thesis using posix_createPath_never_returns [of "[0x61, 0x2F, 0x62]" 1000 "0x1000" 0 m "[]"] by simp
qed

theorem posix_createPath_absolute: "posix_createPath_loop (Suc fuel) (0x2F # s) dirPath (slash_from (0x2F # s) 0) (m, []) = Some (m, [])"
  by (simp add: slash_from_def firstOccurenceOfFrom_def find_from.simps)

end
